(* ===== verification/Study_Prelude.thy ===== *)
theory Study_Prelude
  imports Main "HOL-Library.Multiset"
begin

text \<open>
  Shared vocabulary of the development.

  \<^item> \<open>outcome\<close>: what one piece of C code does from a given state: it returns (\<open>Ret\<close>), it cannot
    go on now because a lock, a semaphore or a join is not available (\<open>Blocked\<close>), its
    behaviour is undefined in C (\<open>UB\<close>, with the reason), or it ends the process (\<open>Exit\<close>, with the
    status given to \<open>exit\<close>).
  \<^item> \<open>c_add\<close> and \<open>c_sub\<close>: signed 32-bit arithmetic, where overflow is undefined behaviour.
  \<^item> Sums over a list of per-thread values (\<open>sum_list (map f pcs)\<close>) under a one-element update:
    the counting lemmas every pool model uses.
\<close>

section \<open>Outcomes of C code\<close>

datatype ub_reason =
    Null_deref
  | Dangling
  | Out_of_bounds
  | Indeterminate
  | Signed_overflow
  | Bad_mutex
  | Bad_cond

datatype (dead 'r) outcome = Ret 'r | Blocked | UB ub_reason | Exit int

fun and_then :: "'a outcome \<Rightarrow> ('a \<Rightarrow> 'b outcome) \<Rightarrow> 'b outcome" where
  "and_then (Ret x) f = f x"
| "and_then Blocked f = Blocked"
| "and_then (UB u) f = UB u"
| "and_then (Exit n) f = Exit n"

text \<open>The exit status of a process ended by \<open>abort\<close>, or by an \<open>assert\<close> that fails.\<close>

definition abort_status :: int where "abort_status = 134"

named_theorems outcome_simps
named_theorems pool_defs

section \<open>Signed 32-bit arithmetic\<close>

definition INT_MAX :: int where
  "INT_MAX = 2147483647"

definition INT_MIN :: int where
  "INT_MIN = - 2147483648"

definition in_int :: "int \<Rightarrow> bool" where
  "in_int x \<longleftrightarrow> INT_MIN \<le> x \<and> x \<le> INT_MAX"

definition c_int :: "int \<Rightarrow> int outcome" where
  "c_int x = (if in_int x then Ret x else UB Signed_overflow)"

definition c_add :: "int \<Rightarrow> int \<Rightarrow> int outcome" where
  "c_add x y = c_int (x + y)"

definition c_sub :: "int \<Rightarrow> int \<Rightarrow> int outcome" where
  "c_sub x y = c_int (x - y)"

section \<open>Array cells\<close>

text \<open>
  An array of \<open>n\<close> cells is a list of \<open>n\<close> options: \<open>None\<close> is a cell that was never written, whose
  value is indeterminate. An index outside the array is undefined behaviour.
\<close>

definition array_get :: "'a option list \<Rightarrow> int \<Rightarrow> 'a outcome" where
  "array_get xs i =
     (if 0 \<le> i \<and> i < int (length xs)
      then (case xs ! nat i of None \<Rightarrow> UB Indeterminate | Some x \<Rightarrow> Ret x)
      else UB Out_of_bounds)"

definition array_set :: "'a option list \<Rightarrow> int \<Rightarrow> 'a \<Rightarrow> 'a option list outcome" where
  "array_set xs i x =
     (if 0 \<le> i \<and> i < int (length xs) then Ret (xs[nat i := Some x]) else UB Out_of_bounds)"

section \<open>Lemmas\<close>

lemma and_then_Ret_iff [outcome_simps]:
  "and_then m f = Ret y \<longleftrightarrow> (\<exists>x. m = Ret x \<and> f x = Ret y)"
  by (cases m) auto

lemma and_then_Blocked_iff [outcome_simps]:
  "and_then m f = Blocked \<longleftrightarrow> m = Blocked \<or> (\<exists>x. m = Ret x \<and> f x = Blocked)"
  by (cases m) auto

lemma and_then_UB_iff [outcome_simps]:
  "and_then m f = UB u \<longleftrightarrow> m = UB u \<or> (\<exists>x. m = Ret x \<and> f x = UB u)"
  by (cases m) auto

lemma and_then_Exit_iff [outcome_simps]:
  "and_then m f = Exit n \<longleftrightarrow> m = Exit n \<or> (\<exists>x. m = Ret x \<and> f x = Exit n)"
  by (cases m) auto

lemma and_then_assoc: "and_then (and_then m f) g = and_then m (\<lambda>x. and_then (f x) g)"
  by (cases m) auto

lemma c_int_Ret [simp]: "in_int x \<Longrightarrow> c_int x = Ret x"
  by (simp add: c_int_def)

lemma c_int_Ret_iff [outcome_simps]: "c_int x = Ret y \<longleftrightarrow> in_int x \<and> y = x"
  by (auto simp: c_int_def)

lemma c_int_not_Blocked [simp]: "c_int x \<noteq> Blocked"
  by (simp add: c_int_def)

lemma in_int_le: "0 \<le> x \<Longrightarrow> x \<le> y \<Longrightarrow> in_int y \<Longrightarrow> in_int x"
  by (simp add: in_int_def INT_MIN_def)

lemma in_int_small [simp]: "in_int 0" "in_int 1" "in_int 2"
  by (simp_all add: in_int_def INT_MIN_def INT_MAX_def)

lemma array_set_Ret [simp]:
  "0 \<le> i \<Longrightarrow> i < int (length xs) \<Longrightarrow> array_set xs i x = Ret (xs[nat i := Some x])"
  by (simp add: array_set_def)

lemma array_get_Ret [simp]:
  "0 \<le> i \<Longrightarrow> i < int (length xs) \<Longrightarrow> xs ! nat i = Some x \<Longrightarrow> array_get xs i = Ret x"
  by (simp add: array_get_def)

lemma array_set_cases:
  "array_set xs i x = Ret ys \<Longrightarrow> 0 \<le> i \<and> i < int (length xs) \<and> ys = xs[nat i := Some x]"
  by (auto simp: array_set_def split: if_splits)

lemma array_get_cases:
  "array_get xs i = Ret x \<Longrightarrow> 0 \<le> i \<and> i < int (length xs) \<and> xs ! nat i = Some x"
  by (auto simp: array_get_def split: if_splits option.splits)

text \<open>
  Sums over a list of threads: an update at one position moves the sum by the difference of the
  two values. The statement has no subtraction, so it serves counts (\<open>nat\<close>) and bags of running
  tasks (multisets) alike.
\<close>

lemma sum_list_update_add:
  fixes f :: "'a \<Rightarrow> 'b::comm_monoid_add"
  assumes "i < length xs"
  shows "sum_list (map f (xs[i := x])) + f (xs ! i) = sum_list (map f xs) + f x"
  using assms
proof (induction xs arbitrary: i)
  case Nil
  then show ?case by simp
next
  case (Cons y ys)
  show ?case
  proof (cases i)
    case 0
    then show ?thesis by (simp add: ac_simps)
  next
    case (Suc j)
    with Cons.prems have "sum_list (map f (ys[j := x])) + f (ys ! j) = sum_list (map f ys) + f x"
      by (intro Cons.IH) simp
    with Suc show ?thesis by (simp add: add.assoc)
  qed
qed

lemma sum_list_update_same:
  fixes f :: "'a \<Rightarrow> 'b::cancel_comm_monoid_add"
  assumes "i < length xs" and "f x = f (xs ! i)"
  shows "sum_list (map f (xs[i := x])) = sum_list (map f xs)"
  using sum_list_update_add [OF assms(1), of f x] assms(2) by simp

lemma sum_list_update_less:
  fixes f :: "'a \<Rightarrow> nat"
  assumes "i < length xs" and "f x < f (xs ! i)"
  shows "sum_list (map f (xs[i := x])) < sum_list (map f xs)"
  using sum_list_update_add [OF assms(1), of f x] assms(2) by linarith

lemma sum_list_member_le:
  fixes f :: "'a \<Rightarrow> nat"
  assumes "i < length xs"
  shows "f (xs ! i) \<le> sum_list (map f xs)"
  using assms by (metis elem_le_sum_list length_map nth_map)

lemma sum_list_map_zero_iff:
  fixes f :: "'a \<Rightarrow> 'b::canonically_ordered_monoid_add"
  shows "sum_list (map f xs) = 0 \<longleftrightarrow> (\<forall>x\<in>set xs. f x = 0)"
  by (induction xs) auto

lemma sum_list_map_zero:
  fixes f :: "'a \<Rightarrow> 'b::monoid_add"
  shows "(\<And>x. x \<in> set xs \<Longrightarrow> f x = 0) \<Longrightarrow> sum_list (map f xs) = 0"
  by (induction xs) auto

lemma sum_list_replicate_zero [simp]: "sum_list (replicate n (0 :: 'a::monoid_add)) = 0"
  by (induction n) auto

lemma sum_list_map_cong_map:
  "(\<And>x. x \<in> set xs \<Longrightarrow> f (g x) = f x) \<Longrightarrow> sum_list (map f (map g xs)) = sum_list (map f xs)"
  by (induction xs) auto

text \<open>
  Threads are numbered; a predicate that holds of every program counter survives an update by a
  program counter that satisfies it.
\<close>

lemma all_set_update: "\<forall>x\<in>set xs. P x \<Longrightarrow> P y \<Longrightarrow> \<forall>x\<in>set (xs[i := y]). P x"
  using set_update_subset_insert [of xs i y] by blast

lemma in_set_updateD: "x \<in> set (xs[i := y]) \<Longrightarrow> x = y \<or> x \<in> set xs"
  using set_update_subset_insert [of xs i y] by blast

lemma ex_update:
  assumes "\<exists>x\<in>set xs. P x" "i < length xs" "P (xs ! i) \<Longrightarrow> P y"
  shows "\<exists>x\<in>set (xs[i := y]). P x"
proof -
  from assms(1) obtain j where j: "j < length xs" "P (xs ! j)" by (auto simp: in_set_conv_nth)
  then have "P (xs[i := y] ! j)" using assms(2,3) by (cases "i = j") auto
  with j(1) show ?thesis by (metis length_list_update nth_mem)
qed

lemma nth_update_cases: "i < length xs \<Longrightarrow> xs[i := x] ! j = (if i = j then x else xs ! j)"
  by (simp add: nth_list_update)


text \<open>A change at one address is not seen by collections that do not contain it.\<close>

lemma image_mset_except:
  assumes "a \<notin># M" "\<And>x. x \<noteq> a \<Longrightarrow> f x = g x"
  shows "image_mset f M = image_mset g M"
  using assms by (intro image_mset_cong) metis

lemma map_except:
  assumes "a \<notin> set xs" "\<And>x. x \<noteq> a \<Longrightarrow> f x = g x"
  shows "map f xs = map g xs"
  using assms by (intro map_cong) metis+

end
