(* ===== verification/Transition_Systems.thy ===== *)
theory Transition_Systems
  imports Study_Prelude
begin

text \<open>
  Labelled transition systems whose step is an executable function \<open>step l s\<close> into \<open>outcome\<close>:
  the label says which thread (or which caller) moves and which choice the scheduler makes.
  \<open>run\<close> executes a list of labels; \<open>reachable\<close> is the least set closed under steps.

  Three contracts are stated as locales and interpreted on every pool of the repository:
  \<^item> \<open>invariant_system\<close>: an invariant that the start states satisfy and every step keeps;
  \<^item> \<open>safe_system\<close>: moreover no step of a given class has undefined behaviour;
  \<^item> \<open>draining_system\<close>: an invariant under which the steps of a given class (the pool's own threads) decrease a measure, so
    that they cannot go on forever and every execution can be completed to a quiescent state.
\<close>

fun run :: "('l \<Rightarrow> 's \<Rightarrow> 's outcome) \<Rightarrow> 'l list \<Rightarrow> 's \<Rightarrow> 's outcome" where
  "run step [] s = Ret s"
| "run step (l # ls) s = and_then (step l s) (run step ls)"

inductive reachable :: "('l \<Rightarrow> 's \<Rightarrow> 's outcome) \<Rightarrow> ('s \<Rightarrow> bool) \<Rightarrow> 's \<Rightarrow> bool"
  for step init
where
  reach_init: "init s \<Longrightarrow> reachable step init s"
| reach_step: "reachable step init s \<Longrightarrow> step l s = Ret t \<Longrightarrow> reachable step init t"

text \<open>A state is quiescent for a class of labels when none of them can move.\<close>

definition quiescent :: "('l \<Rightarrow> 's \<Rightarrow> 's outcome) \<Rightarrow> ('l \<Rightarrow> bool) \<Rightarrow> 's \<Rightarrow> bool" where
  "quiescent step own s \<longleftrightarrow> (\<forall>l t. own l \<longrightarrow> step l s \<noteq> Ret t)"

lemma run_append: "run step (xs @ ys) s = and_then (run step xs s) (run step ys)"
proof (induction xs arbitrary: s)
  case Nil
  show ?case by simp
next
  case (Cons l xs)
  then show ?case by (cases "step l s") simp_all
qed

lemma run_reachable:
  assumes "run step ls s = Ret t" and "reachable step init s"
  shows "reachable step init t"
  using assms
proof (induction ls arbitrary: s)
  case Nil
  then show ?case by simp
next
  case (Cons l ls)
  then obtain u where "step l s = Ret u" and "run step ls u = Ret t"
    by (auto simp: outcome_simps)
  with Cons show ?case by (blast intro: reach_step)
qed

lemma reachable_run:
  assumes "reachable step init s"
  shows "\<exists>ls s0. init s0 \<and> run step ls s0 = Ret s"
  using assms
proof (induction rule: reachable.induct)
  case (reach_init s)
  then have "init s \<and> run step [] s = Ret s" by simp
  then show ?case by blast
next
  case (reach_step s l t)
  then obtain ls s0 where "init s0" and "run step ls s0 = Ret s" by blast
  with reach_step.hyps(2) have "run step (ls @ [l]) s0 = Ret t"
    by (simp add: run_append)
  with \<open>init s0\<close> show ?case by blast
qed

text \<open>A predicate kept by the steps of some class of labels is kept by runs of that class.\<close>

lemma run_keeps:
  assumes "run step ls s = Ret t" and "list_all q ls" and "P s"
    and "\<And>l s t. P s \<Longrightarrow> q l \<Longrightarrow> step l s = Ret t \<Longrightarrow> P t"
  shows "P t"
  using assms(1-3)
proof (induction ls arbitrary: s)
  case Nil
  then show ?case by simp
next
  case (Cons l ls)
  then obtain u where "step l s = Ret u" "run step ls u = Ret t" by (auto simp: outcome_simps)
  with Cons show ?case by (auto intro: assms(4))
qed

lemma reachable_mono:
  assumes "reachable step init s" and "\<And>s. init s \<Longrightarrow> reachable step init' s"
  shows "reachable step init' s"
  using assms by (induction rule: reachable.induct) (auto intro: reach_step)

locale invariant_system =
  fixes step :: "'l \<Rightarrow> 's \<Rightarrow> 's outcome"
    and init :: "'s \<Rightarrow> bool"
    and inv :: "'s \<Rightarrow> bool"
  assumes inv_init: "init s \<Longrightarrow> inv s"
    and inv_step: "inv s \<Longrightarrow> step l s = Ret t \<Longrightarrow> inv t"
begin

lemma inv_reachable: "reachable step init s \<Longrightarrow> inv s"
  by (induction rule: reachable.induct) (auto intro: inv_init inv_step)

lemma inv_run: "inv s \<Longrightarrow> run step ls s = Ret t \<Longrightarrow> inv t"
  by (induction ls arbitrary: s) (auto simp: outcome_simps intro: inv_step)

end

locale safe_system = invariant_system +
  fixes own :: "'l \<Rightarrow> bool"
  assumes own_safe: "inv s \<Longrightarrow> own l \<Longrightarrow> step l s \<noteq> UB u"
begin

lemma own_run_safe:
  assumes "inv s" and "list_all own ls"
  shows "run step ls s \<noteq> UB u"
  using assms
proof (induction ls arbitrary: s)
  case Nil
  then show ?case by simp
next
  case (Cons l ls)
  then show ?case by (auto simp: outcome_simps own_safe dest: inv_step)
qed

lemma reachable_safe: "reachable step init s \<Longrightarrow> own l \<Longrightarrow> step l s \<noteq> UB u"
  using inv_reachable own_safe by blast

end

locale draining_system = invariant_system +
  fixes own :: "'l \<Rightarrow> bool"
    and work :: "'b \<Rightarrow> nat"
  assumes work_decreases: "inv s \<Longrightarrow> own l \<Longrightarrow> step l s = Ret t \<Longrightarrow> work t < work s"
begin

text \<open>The threads of the pool take at most \<open>work s\<close> steps from \<open>s\<close>, whatever the schedule.\<close>

lemma own_run_bounded:
  assumes "inv s" and "list_all own ls" and "run step ls s = Ret t"
  shows "length ls + work t \<le> work s"
  using assms
proof (induction ls arbitrary: s)
  case Nil
  then show ?case by simp
next
  case (Cons l ls)
  then obtain u where u: "step l s = Ret u" "run step ls u = Ret t"
    by (auto simp: outcome_simps)
  with Cons.prems have "inv u" and "work u < work s"
    by (auto intro: inv_step work_decreases)
  moreover have "length ls + work t \<le> work u"
    using Cons.IH [OF \<open>inv u\<close>] Cons.prems(2) u(2) by simp
  ultimately show ?case by simp
qed

text \<open>Every state can be completed to a quiescent one by the pool's own steps.\<close>

lemma drains:
  assumes "inv s"
  shows "\<exists>ls t. list_all own ls \<and> run step ls s = Ret t \<and> quiescent step own t"
  using assms
proof (induction "work s" arbitrary: s rule: less_induct)
  case less
  show ?case
  proof (cases "quiescent step own s")
    case True
    then have "list_all own [] \<and> run step [] s = Ret s \<and> quiescent step own s" by simp
    then show ?thesis by blast
  next
    case False
    then obtain l u where l: "own l" "step l s = Ret u"
      by (auto simp: quiescent_def)
    with less.prems have "inv u" and "work u < work s"
      by (auto intro: inv_step work_decreases)
    with less.hyps obtain ls t where "list_all own ls" "run step ls u = Ret t" "quiescent step own t"
      by blast
    with l have "list_all own (l # ls) \<and> run step (l # ls) s = Ret t \<and> quiescent step own t"
      by simp
    then show ?thesis by blast
  qed
qed

end

end
