(* ===== verification/Pool_Spec.thy ===== *)
theory Pool_Spec
  imports Transition_Systems "HOL-Library.Sublist"
begin

text \<open>
  What a thread pool promises, independently of how it is built.

  \<open>pool_view\<close> is the abstract state of a pool: the tasks handed to it, the ones still waiting, the
  ones its threads have taken (in the order they took them), the bag of tasks being executed, the
  bag of completed ones and the tasks thrown away by a shutdown. \<open>pool_step\<close> is the abstract
  machine; the order in which waiting tasks are taken is a parameter, since three pools of the
  repository are queues and one is a stack.

  \<open>job_queue\<close> is the contract of the container that holds the waiting tasks, and \<open>pool_refinement\<close>
  the statement that a concrete pool implements the abstract machine.
\<close>

section \<open>The abstract pool\<close>

datatype discipline = Fifo | Lifo

fun insert_pending :: "discipline \<Rightarrow> 't \<Rightarrow> 't list \<Rightarrow> 't list" where
  "insert_pending Fifo t ts = ts @ [t]"
| "insert_pending Lifo t ts = t # ts"

record 't pool_view =
  submitted :: "'t list"
  pending :: "'t list"
  begun :: "'t list"
  running :: "'t multiset"
  finished :: "'t multiset"
  discarded :: "'t list"

definition empty_view :: "'t pool_view" where
  "empty_view = \<lparr>submitted = [], pending = [], begun = [], running = {#}, finished = {#},
     discarded = []\<rparr>"

inductive pool_step :: "discipline \<Rightarrow> 't pool_view \<Rightarrow> 't pool_view \<Rightarrow> bool" for d where
  submit: "pool_step d v (v\<lparr>submitted := submitted v @ [t],
             pending := insert_pending d t (pending v)\<rparr>)"
| take: "pending v = t # ts \<Longrightarrow>
           pool_step d v (v\<lparr>pending := ts, begun := begun v @ [t], running := add_mset t (running v)\<rparr>)"
| complete: "t \<in># running v \<Longrightarrow>
           pool_step d v (v\<lparr>running := running v - {#t#}, finished := add_mset t (finished v)\<rparr>)"
| discard: "pool_step d v (v\<lparr>pending := [], discarded := discarded v @ pending v\<rparr>)"
| silent: "pool_step d v v"

text \<open>
  The promise: no task is lost or invented, every task taken is being executed or completed, and
  a queue hands the tasks out in the order they came in.
\<close>

definition conserved :: "'t pool_view \<Rightarrow> bool" where
  "conserved v \<longleftrightarrow>
     mset (submitted v) = mset (begun v) + mset (pending v) + mset (discarded v) \<and>
     mset (begun v) = running v + finished v"

definition in_order :: "'t pool_view \<Rightarrow> bool" where
  "in_order v \<longleftrightarrow>
     subseq (begun v @ pending v) (submitted v) \<and>
     (discarded v = [] \<longrightarrow> begun v @ pending v = submitted v)"

definition pool_promise :: "discipline \<Rightarrow> 't pool_view \<Rightarrow> bool" where
  "pool_promise d v \<longleftrightarrow> conserved v \<and> (d = Fifo \<longrightarrow> in_order v)"

lemma mset_insert_pending [simp]: "mset (insert_pending d t ts) = add_mset t (mset ts)"
  by (cases d) simp_all

lemma conserved_step:
  assumes "pool_step d v w" and "conserved v"
  shows "conserved w"
  using assms by (cases rule: pool_step.cases) (auto simp: conserved_def)

lemma in_order_step:
  assumes "pool_step Fifo v w" and "in_order v"
  shows "in_order w"
  using assms
proof (cases rule: pool_step.cases)
  case (submit t)
  with assms(2) show ?thesis
    by (auto simp: in_order_def simp flip: append_assoc intro: list_emb_append_mono)
next
  case discard
  with assms(2) show ?thesis
    by (auto simp: in_order_def intro: subseq_order.trans [OF subseq_rev_drop_many])
qed (auto simp: in_order_def)

lemma pool_promise_empty: "pool_promise d empty_view"
  by (simp add: pool_promise_def conserved_def in_order_def empty_view_def)

lemma pool_promise_step: "pool_step d v w \<Longrightarrow> pool_promise d v \<Longrightarrow> pool_promise d w"
  using conserved_step in_order_step by (auto simp: pool_promise_def)

text \<open>When nothing waits, nothing runs and nothing was thrown away, everything is completed.\<close>

lemma promise_all_finished:
  assumes "pool_promise d v" and "pending v = []" and "running v = {#}" and "discarded v = []"
  shows "finished v = mset (submitted v)"
  using assms by (simp add: pool_promise_def conserved_def)

section \<open>Refinement of the abstract pool\<close>

locale pool_refinement = invariant_system +
  fixes discipline :: discipline
    and view :: "'b \<Rightarrow> 't pool_view"
  assumes view_init: "init s \<Longrightarrow> view s = empty_view"
    and view_step: "inv s \<Longrightarrow> step l s = Ret t \<Longrightarrow> pool_step discipline (view s) (view t)"
begin

lemma reachable_promise: "reachable step init s \<Longrightarrow> pool_promise discipline (view s)"
proof (induction rule: reachable.induct)
  case (reach_init s)
  then show ?case by (simp add: view_init pool_promise_empty)
next
  case (reach_step s l t)
  then show ?case by (blast intro: pool_promise_step view_step inv_reachable)
qed

end

section \<open>The container of waiting tasks\<close>

fun put_all :: "('t \<Rightarrow> 'q \<Rightarrow> 'q outcome) \<Rightarrow> 't list \<Rightarrow> 'q \<Rightarrow> 'q outcome" where
  "put_all put [] q = Ret q"
| "put_all put (t # ts) q = and_then (put t q) (put_all put ts)"

fun take_all :: "('q \<Rightarrow> ('t \<times> 'q) outcome) \<Rightarrow> nat \<Rightarrow> 'q \<Rightarrow> ('t list \<times> 'q) outcome" where
  "take_all get 0 q = Ret ([], q)"
| "take_all get (Suc n) q =
     and_then (get q) (\<lambda>(t, q1). and_then (take_all get n q1) (\<lambda>(ts, q2). Ret (t # ts, q2)))"

text \<open>
  \<open>fits ts q\<close> says that the tasks \<open>ts\<close> can be put into \<open>q\<close> one after the other: there is room in a
  ring of fixed size, or the nodes that hold them are freshly allocated.
\<close>

locale job_queue =
  fixes inv :: "'q \<Rightarrow> bool"
    and items :: "'q \<Rightarrow> 't list"
    and fits :: "'t list \<Rightarrow> 'q \<Rightarrow> bool"
    and put :: "'t \<Rightarrow> 'q \<Rightarrow> 'q outcome"
    and get :: "'q \<Rightarrow> ('t \<times> 'q) outcome"
  assumes put_ok: "inv q \<Longrightarrow> fits (t # ts) q \<Longrightarrow>
      \<exists>q'. put t q = Ret q' \<and> inv q' \<and> items q' = items q @ [t] \<and> fits ts q'"
    and get_ok: "inv q \<Longrightarrow> items q = t # ts \<Longrightarrow>
      \<exists>q'. get q = Ret (t, q') \<and> inv q' \<and> items q' = ts"
begin

lemma put_all_ok:
  assumes "inv q" and "fits ts q"
  shows "\<exists>q'. put_all put ts q = Ret q' \<and> inv q' \<and> items q' = items q @ ts"
  using assms
proof (induction ts arbitrary: q)
  case Nil
  then show ?case by simp
next
  case (Cons t ts)
  then obtain q1 where "put t q = Ret q1" "inv q1" "items q1 = items q @ [t]" "fits ts q1"
    using put_ok by blast
  with Cons.IH [of q1] show ?case by auto
qed

lemma take_all_ok:
  assumes "inv q" and "items q = ts @ us"
  shows "\<exists>q'. take_all get (length ts) q = Ret (ts, q') \<and> inv q' \<and> items q' = us"
  using assms
proof (induction ts arbitrary: q)
  case Nil
  then show ?case by simp
next
  case (Cons t ts)
  then obtain q1 where "get q = Ret (t, q1)" "inv q1" "items q1 = ts @ us"
    using get_ok by (metis append_Cons)
  with Cons.IH [of q1] show ?case by auto
qed

text \<open>Round trip: from an empty queue, what went in comes out, in the same order.\<close>

lemma put_take_roundtrip:
  assumes "inv q" and "items q = []" and "fits ts q"
  shows "\<exists>q'. and_then (put_all put ts q) (take_all get (length ts)) = Ret (ts, q') \<and>
           inv q' \<and> items q' = []"
proof -
  obtain q1 where "put_all put ts q = Ret q1" "inv q1" "items q1 = ts @ []"
    using put_all_ok [OF assms(1,3)] assms(2) by auto
  with take_all_ok [of q1 ts "[]"] show ?thesis by auto
qed

end

end
