(* ===== verification/Pthread.thy ===== *)
theory Pthread
  imports Study_Prelude
begin

text \<open>
  The part of POSIX threads the repository uses.

  A mutex is uninitialised, free, held by a thread or destroyed. Every call takes the return code
  the system gives it as an argument (0 is success), so that the error branches of the callers are
  part of the model. A successful lock of a held mutex waits, which is the outcome \<open>Blocked\<close>.

  Condition variables have no state of their own: a thread that waits is a program counter of the
  pool models, \<open>pthread_cond_signal\<close> moves one such thread (chosen by the scheduler) to a program
  counter where it competes for the mutex again, \<open>pthread_cond_broadcast\<close> moves all of them, and a
  spurious wake-up moves one at any time.
\<close>

datatype tid = Client nat | Worker nat

datatype mutex = M_uninit | M_free | M_held tid | M_destroyed

definition pthread_mutex_init :: "int \<Rightarrow> mutex \<Rightarrow> int \<times> mutex" where
  "pthread_mutex_init rc m = (rc, if rc = 0 then M_free else m)"

definition pthread_mutex_lock :: "tid \<Rightarrow> int \<Rightarrow> mutex \<Rightarrow> (int \<times> mutex) outcome" where
  "pthread_mutex_lock t rc m =
     (if m = M_uninit \<or> m = M_destroyed then UB Bad_mutex
      else if rc \<noteq> 0 then Ret (rc, m)
      else if m = M_free then Ret (0, M_held t)
      else Blocked)"

definition pthread_mutex_unlock :: "tid \<Rightarrow> int \<Rightarrow> mutex \<Rightarrow> (int \<times> mutex) outcome" where
  "pthread_mutex_unlock t rc m =
     (if m = M_uninit \<or> m = M_destroyed then UB Bad_mutex
      else if rc \<noteq> 0 then Ret (rc, m)
      else if m = M_held t then Ret (0, M_free)
      else UB Bad_mutex)"

text \<open>
  POSIX leaves the destruction of a locked mutex undefined; glibc returns \<open>EBUSY\<close> and leaves the mutex
  as it is, which is what is modelled. A condition variable is known by whether it is initialised.
\<close>

definition EBUSY :: int where "EBUSY = 16"

definition pthread_mutex_destroy :: "mutex \<Rightarrow> (int \<times> mutex) outcome" where
  "pthread_mutex_destroy m =
     (case m of M_free \<Rightarrow> Ret (0, M_destroyed) | M_held t \<Rightarrow> Ret (EBUSY, m) | _ \<Rightarrow> UB Bad_mutex)"

definition pthread_cond_destroy :: "bool \<Rightarrow> int outcome" where
  "pthread_cond_destroy c = (if c then Ret 0 else UB Bad_cond)"

text \<open>
  Threads that sleep on a condition variable are those whose program counter is \<open>z\<close>. A signal wakes one
  of them (any one) if there is one, and makes it continue at \<open>r\<close>; a broadcast wakes all.
\<close>

definition cond_signal_ok :: "'pc \<Rightarrow> nat option \<Rightarrow> 'pc list \<Rightarrow> bool" where
  "cond_signal_ok z ch pcs =
     (case ch of None \<Rightarrow> z \<notin> set pcs | Some w \<Rightarrow> w < length pcs \<and> pcs ! w = z)"

definition cond_signal :: "'pc \<Rightarrow> nat option \<Rightarrow> 'pc list \<Rightarrow> 'pc list" where
  "cond_signal r ch pcs = (case ch of None \<Rightarrow> pcs | Some w \<Rightarrow> pcs[w := r])"

definition cond_broadcast :: "'pc \<Rightarrow> 'pc \<Rightarrow> 'pc list \<Rightarrow> 'pc list" where
  "cond_broadcast z r pcs = map (\<lambda>pc. if pc = z then r else pc) pcs"

lemma cond_signal_length [simp]:
  "length (cond_signal r ch pcs) = length pcs" "length (cond_broadcast z r pcs) = length pcs"
  by (simp_all add: cond_signal_def cond_broadcast_def split: option.splits)

lemma cond_signal_ok_ex: "\<exists>ch. cond_signal_ok z ch pcs"
proof (cases "z \<in> set pcs")
  case True
  then obtain w where "w < length pcs" "pcs ! w = z" by (auto simp: in_set_conv_nth)
  then have "cond_signal_ok z (Some w) pcs" by (simp add: cond_signal_ok_def)
  then show ?thesis ..
next
  case False
  then have "cond_signal_ok z None pcs" by (simp add: cond_signal_ok_def)
  then show ?thesis ..
qed

text \<open>What a value summed over the threads sees of a signal or broadcast.\<close>

lemma sum_list_cond_signal:
  fixes f :: "'pc \<Rightarrow> 'b::cancel_comm_monoid_add"
  assumes "cond_signal_ok z ch pcs" "f r = f z"
  shows "sum_list (map f (cond_signal r ch pcs)) = sum_list (map f pcs)"
  using assms by (auto simp: cond_signal_def cond_signal_ok_def sum_list_update_same split: option.splits)

lemma sum_list_cond_broadcast:
  "f r = f z \<Longrightarrow> sum_list (map f (cond_broadcast z r pcs)) = sum_list (map f pcs)"
  by (induction pcs) (auto simp: cond_broadcast_def)

lemma nth_cond_signal:
  assumes "cond_signal_ok z ch pcs" "w < length pcs"
  shows "cond_signal r ch pcs ! w = (if ch = Some w then r else pcs ! w)" "ch = Some w \<Longrightarrow> pcs ! w = z"
  using assms by (auto simp: cond_signal_def cond_signal_ok_def nth_list_update split: option.splits)

lemma nth_cond_broadcast:
  "w < length pcs \<Longrightarrow> cond_broadcast z r pcs ! w = (if pcs ! w = z then r else pcs ! w)"
  by (simp add: cond_broadcast_def)

lemma pthread_mutex_lock_free [simp]: "pthread_mutex_lock t 0 M_free = Ret (0, M_held t)"
  by (simp add: pthread_mutex_lock_def)

lemma pthread_mutex_lock_held [simp]: "pthread_mutex_lock t 0 (M_held u) = Blocked"
  by (simp add: pthread_mutex_lock_def)

lemma pthread_mutex_lock_fails [simp]:
  "rc \<noteq> 0 \<Longrightarrow> pthread_mutex_lock t rc M_free = Ret (rc, M_free)"
  by (simp add: pthread_mutex_lock_def)

lemma pthread_mutex_lock_Ret0:
  "pthread_mutex_lock t 0 m = Ret r \<longleftrightarrow> m = M_free \<and> r = (0, M_held t)"
  by (cases m) (auto simp: pthread_mutex_lock_def)

lemma pthread_mutex_unlock_held [simp]: "pthread_mutex_unlock t 0 (M_held t) = Ret (0, M_free)"
  by (simp add: pthread_mutex_unlock_def)

lemma pthread_mutex_unlock_Ret0:
  "pthread_mutex_unlock t 0 m = Ret r \<longleftrightarrow> m = M_held t \<and> r = (0, M_free)"
  by (cases m) (auto simp: pthread_mutex_unlock_def)


section \<open>Locks and program counters\<close>

text \<open>\<open>lock_ok holds pcs m\<close>: the workers inside the critical section of \<open>m\<close> are its holders.\<close>

definition lock_ok :: "('pc \<Rightarrow> bool) \<Rightarrow> 'pc list \<Rightarrow> mutex \<Rightarrow> bool" where
  "lock_ok holds pcs m \<longleftrightarrow>
     m \<noteq> M_uninit \<and> m \<noteq> M_destroyed \<and>
     (\<forall>w<length pcs. holds (pcs ! w) \<longleftrightarrow> m = M_held (Worker w)) \<and>
     (\<forall>w. m = M_held (Worker w) \<longrightarrow> w < length pcs)"

lemma lock_ok_stay:
  "lock_ok holds pcs m \<Longrightarrow> holds pc \<longleftrightarrow> holds (pcs ! w) \<Longrightarrow> lock_ok holds (pcs[w := pc]) m"
  unfolding lock_ok_def by (metis length_list_update nth_list_update_eq nth_list_update_neq)

lemma lock_ok_acquire:
  "lock_ok holds pcs M_free \<Longrightarrow> w < length pcs \<Longrightarrow> holds pc \<Longrightarrow>
     lock_ok holds (pcs[w := pc]) (M_held (Worker w))"
  by (auto simp: lock_ok_def nth_list_update)

lemma lock_ok_release:
  "lock_ok holds pcs (M_held (Worker w)) \<Longrightarrow> \<not> holds pc \<Longrightarrow> lock_ok holds (pcs[w := pc]) M_free"
  by (auto simp: lock_ok_def nth_list_update)

lemma lock_ok_client: "lock_ok holds pcs M_free \<longleftrightarrow> lock_ok holds pcs (M_held (Client c))"
  by (auto simp: lock_ok_def)

lemma lock_ok_signal:
  "lock_ok holds pcs m \<Longrightarrow> cond_signal_ok z ch pcs \<Longrightarrow> \<not> holds z \<Longrightarrow> \<not> holds r \<Longrightarrow>
     lock_ok holds (cond_signal r ch pcs) m"
  by (auto simp: cond_signal_def cond_signal_ok_def intro: lock_ok_stay split: option.splits)

lemma lock_ok_broadcast:
  "lock_ok holds pcs m \<Longrightarrow> \<not> holds z \<Longrightarrow> \<not> holds r \<Longrightarrow> lock_ok holds (cond_broadcast z r pcs) m"
  by (auto simp: lock_ok_def nth_cond_broadcast)

lemma lock_ok_holder: "lock_ok holds pcs m \<Longrightarrow> w < length pcs \<Longrightarrow> holds (pcs ! w) \<Longrightarrow> m = M_held (Worker w)"
  by (simp add: lock_ok_def)

lemma lock_ok_cases:
  assumes "lock_ok holds pcs m"
  obtains "m = M_free" | w where "m = M_held (Worker w)" "w < length pcs" "holds (pcs ! w)" | c where "m = M_held (Client c)"
proof (cases m)
  case (M_held t)
  with assms that show ?thesis by (cases t) (auto simp: lock_ok_def)
qed (use assms that in \<open>auto simp: lock_ok_def\<close>)

end
