(* ===== verification/Threadpool_Ring.thy ===== *)
theory Threadpool_Ring
  imports Pool_Spec Pthread
begin

unbundle bit_operations_syntax

text \<open>
  The thread pool of \<open>src/threadpool/threadPool1/src/threadpool.c\<close> (the same file is kept a second
  time under \<open>src/threadpool/threadpool-master/\<close>): its data and its functions, each as the code of
  one caller. The task queue is a ring buffer of fixed size. The interleaving of the worker threads
  is in \<open>Threadpool_Workers\<close>.

  A pointer that may be \<open>NULL\<close> is an option. Function pointers are of type \<open>'f option\<close> where the code
  tests them and \<open>'f\<close> where it has done so; task arguments are of type \<open>'a\<close> and never looked at.
  The arrays are lists of cells that are \<open>None\<close> until written.
\<close>

section \<open>Data\<close>

definition threadpool_invalid :: int where "threadpool_invalid = - 1"
definition threadpool_lock_failure :: int where "threadpool_lock_failure = - 2"
definition threadpool_queue_full :: int where "threadpool_queue_full = - 3"
definition threadpool_shutdown :: int where "threadpool_shutdown = - 4"
definition threadpool_thread_failure :: int where "threadpool_thread_failure = - 5"

definition threadpool_graceful :: int where "threadpool_graceful = 1"

definition immediate_shutdown :: int where "immediate_shutdown = 1"
definition graceful_shutdown :: int where "graceful_shutdown = 2"

record ('f, 'a) threadpool_task_t =
  task_function :: 'f
  task_argument :: 'a

record ('f, 'a) threadpool_t =
  tp_lock :: mutex
  tp_notify :: bool
  tp_threads :: "nat option list option"
  tp_queue :: "('f, 'a) threadpool_task_t option list option"
  tp_thread_count :: int
  tp_queue_size :: int
  tp_head :: int
  tp_tail :: int
  tp_count :: int
  tp_shutdown :: int
  tp_started :: int

section \<open>threadpool_create\<close>

text \<open>
  The blocks \<open>malloc\<close> returns are named, so that what is allocated and freed can be stated. The
  environment says whether each \<open>malloc\<close> returns a block for the number of bytes requested and what
  the \<open>pthread\<close> calls return; \<open>create_rc i\<close> is the result of the \<open>i\<close>-th \<open>pthread_create\<close>.
\<close>

datatype block = Pool_block | Threads_block | Queue_block

record create_env =
  malloc_pool :: bool
  malloc_threads :: "nat \<Rightarrow> bool"
  malloc_queue :: "nat \<Rightarrow> bool"
  mutex_init_rc :: int
  cond_init_rc :: int
  create_rc :: "nat \<Rightarrow> int"

text \<open>
  \<open>Created\<close>: the pool is returned. \<open>Create_null\<close>: \<open>NULL\<close> is returned, with the blocks still
  allocated. \<open>Create_cleanup\<close>: a \<open>pthread_create\<close> failed, \<open>threadpool_destroy(pool, 0)\<close> is called on
  the pool as it is, and \<open>NULL\<close> is returned after it.
\<close>

datatype ('f, 'a) create_result =
    Created "('f, 'a) threadpool_t"
  | Create_null "block list"
  | Create_cleanup "('f, 'a) threadpool_t"

definition sizeof_pthread_t :: int where "sizeof_pthread_t = 8"
definition sizeof_threadpool_task_t :: int where "sizeof_threadpool_task_t = 16"

text \<open>The argument of \<open>malloc\<close> is computed in \<open>size_t\<close>: a negative count wraps around.\<close>

definition size_mul :: "int \<Rightarrow> int \<Rightarrow> nat" where
  "size_mul sz n = nat ((sz * n) mod 2 ^ 64)"

definition cells :: "int \<Rightarrow> nat \<Rightarrow> nat" where
  "cells sz bytes = bytes div nat sz"

definition init_pool :: "create_env \<Rightarrow> int \<Rightarrow> int \<Rightarrow> ('f, 'a) threadpool_t" where
  "init_pool env thread_count queue_size =
     (let tb = size_mul sizeof_pthread_t thread_count;
          qb = size_mul sizeof_threadpool_task_t queue_size
      in \<lparr>tp_lock = M_uninit, tp_notify = False,
          tp_threads = (if malloc_threads env tb
                        then Some (replicate (cells sizeof_pthread_t tb) None) else None),
          tp_queue = (if malloc_queue env qb
                      then Some (replicate (cells sizeof_threadpool_task_t qb) None) else None),
          tp_thread_count = 0, tp_queue_size = queue_size, tp_head = 0, tp_tail = 0, tp_count = 0,
          tp_shutdown = 0, tp_started = 0\<rparr>)"

definition pool_blocks :: "('f, 'a) threadpool_t \<Rightarrow> block list" where
  "pool_blocks p = Pool_block #
     (case tp_threads p of None \<Rightarrow> [] | Some _ \<Rightarrow> [Threads_block]) @
     (case tp_queue p of None \<Rightarrow> [] | Some _ \<Rightarrow> [Queue_block])"

text \<open>
  \<open>threadpool_free\<close>: returns the code and the blocks that are still allocated. \<open>free(NULL)\<close> does
  nothing, so freeing the queue of a pool without a queue is fine.
\<close>

definition threadpool_free ::
    "tid \<Rightarrow> ('f, 'a) threadpool_t option \<Rightarrow> (int \<times> block list) outcome" where
  "threadpool_free t pool =
     (case pool of
        None \<Rightarrow> Ret (- 1, [])
      | Some p \<Rightarrow>
          if 0 < tp_started p then Ret (- 1, pool_blocks p)
          else (case tp_threads p of
                  None \<Rightarrow> Ret (0, filter (\<lambda>b. b \<noteq> Pool_block) (pool_blocks p))
                | Some _ \<Rightarrow>
                    and_then (pthread_mutex_lock t 0 (tp_lock p)) (\<lambda>(_, m).
                    and_then (pthread_mutex_destroy m) (\<lambda>_.
                    and_then (pthread_cond_destroy (tp_notify p)) (\<lambda>_.
                    Ret (0, filter (\<lambda>b. b \<notin> {Pool_block, Threads_block, Queue_block})
                              (pool_blocks p)))))))"

text \<open>The loop that starts the worker threads, from index \<open>i\<close> with \<open>n\<close> threads to go.\<close>

fun start_threads ::
    "(nat \<Rightarrow> int) \<Rightarrow> nat \<Rightarrow> nat \<Rightarrow> ('f, 'a) threadpool_t \<Rightarrow> ('f, 'a) create_result outcome" where
  "start_threads rc 0 i p = Ret (Created p)"
| "start_threads rc (Suc n) i p =
     (if rc i \<noteq> 0 then Ret (Create_cleanup p)
      else (case tp_threads p of
              None \<Rightarrow> UB Null_deref
            | Some ts \<Rightarrow>
                and_then (array_set ts (int i) i) (\<lambda>ts'.
                and_then (c_add (tp_thread_count p) 1) (\<lambda>tc.
                and_then (c_add (tp_started p) 1) (\<lambda>st.
                start_threads rc n (Suc i)
                  (p\<lparr>tp_threads := Some ts', tp_thread_count := tc, tp_started := st\<rparr>))))))"

definition threadpool_create ::
    "tid \<Rightarrow> create_env \<Rightarrow> int \<Rightarrow> int \<Rightarrow> ('f, 'a) create_result outcome" where
  "threadpool_create t env thread_count queue_size =
     (if \<not> malloc_pool env then Ret (Create_null [])
      else
        let p0 = init_pool env thread_count queue_size;
            (rc1, m) = pthread_mutex_init (mutex_init_rc env) (tp_lock p0);
            p1 = p0\<lparr>tp_lock := m\<rparr>;
            p2 = (if rc1 = 0 then p1\<lparr>tp_notify := (cond_init_rc env = 0)\<rparr> else p1)
        in if rc1 \<noteq> 0 \<or> cond_init_rc env \<noteq> 0 \<or> tp_threads p2 = None \<or> tp_queue p2 = None
           then and_then (threadpool_free t (Some p2)) (\<lambda>(_, live). Ret (Create_null live))
           else start_threads (create_rc env) (nat thread_count) 0 p2)"

section \<open>threadpool_add\<close>

record add_rc =
  add_lock_rc :: int
  add_signal_rc :: int
  add_unlock_rc :: int

definition advance :: "int \<Rightarrow> int \<Rightarrow> int outcome" where
  "advance i n = and_then (c_add i 1) (\<lambda>next. Ret (if next = n then 0 else next))"

text \<open>The statements between lock and unlock: the code returned in \<open>err\<close> and the pool.\<close>

definition add_section ::
    "int \<Rightarrow> 'f \<Rightarrow> 'a \<Rightarrow> ('f, 'a) threadpool_t \<Rightarrow> (int \<times> ('f, 'a) threadpool_t) outcome" where
  "add_section signal_rc f a p =
     and_then (advance (tp_tail p) (tp_queue_size p)) (\<lambda>next.
     if tp_count p = tp_queue_size p then Ret (threadpool_queue_full, p)
     else if tp_shutdown p \<noteq> 0 then Ret (threadpool_shutdown, p)
     else (case tp_queue p of
             None \<Rightarrow> UB Null_deref
           | Some q \<Rightarrow>
               and_then (array_set q (tp_tail p) \<lparr>task_function = f, task_argument = a\<rparr>) (\<lambda>q'.
               and_then (c_add (tp_count p) 1) (\<lambda>c.
               Ret (if signal_rc \<noteq> 0 then threadpool_lock_failure else 0,
                    p\<lparr>tp_queue := Some q', tp_tail := next, tp_count := c\<rparr>)))))"

definition threadpool_add ::
    "tid \<Rightarrow> add_rc \<Rightarrow> ('f, 'a) threadpool_t option \<Rightarrow> 'f option \<Rightarrow> 'a \<Rightarrow>
     (int \<times> ('f, 'a) threadpool_t option) outcome" where
  "threadpool_add t rc pool func a =
     (case (pool, func) of
        (Some p, Some f) \<Rightarrow>
          and_then (pthread_mutex_lock t (add_lock_rc rc) (tp_lock p)) (\<lambda>(lrc, m).
          if lrc \<noteq> 0 then Ret (threadpool_lock_failure, pool)
          else
            and_then (add_section (add_signal_rc rc) f a (p\<lparr>tp_lock := m\<rparr>)) (\<lambda>(err, p1).
            and_then (pthread_mutex_unlock t (add_unlock_rc rc) (tp_lock p1)) (\<lambda>(urc, m1).
            Ret (if urc \<noteq> 0 then threadpool_lock_failure else err, Some (p1\<lparr>tp_lock := m1\<rparr>)))))
      | _ \<Rightarrow> Ret (threadpool_invalid, pool))"

section \<open>threadpool_destroy\<close>

record destroy_rc =
  destroy_lock_rc :: int
  destroy_broadcast_rc :: int
  destroy_unlock_rc :: int

text \<open>
  The part up to the joins: the error so far, the pool, and whether the joins are reached. The
  \<open>break\<close> statements leave the block without the unlock that follows the broadcast.
\<close>

definition destroy_begin ::
    "tid \<Rightarrow> destroy_rc \<Rightarrow> int \<Rightarrow> ('f, 'a) threadpool_t option \<Rightarrow>
     (int \<times> ('f, 'a) threadpool_t option \<times> bool) outcome" where
  "destroy_begin t rc flags pool =
     (case pool of
        None \<Rightarrow> Ret (threadpool_invalid, pool, False)
      | Some p \<Rightarrow>
          and_then (pthread_mutex_lock t (destroy_lock_rc rc) (tp_lock p)) (\<lambda>(lrc, m).
          if lrc \<noteq> 0 then Ret (threadpool_lock_failure, pool, False)
          else
            let p1 = p\<lparr>tp_lock := m\<rparr>
            in if tp_shutdown p1 \<noteq> 0 then Ret (threadpool_shutdown, Some p1, False)
               else
                 let p2 = p1\<lparr>tp_shutdown := (if flags AND threadpool_graceful \<noteq> 0
                                              then graceful_shutdown else immediate_shutdown)\<rparr>
                 in if destroy_broadcast_rc rc \<noteq> 0 then Ret (threadpool_lock_failure, Some p2, False)
                    else
                      and_then (pthread_mutex_unlock t (destroy_unlock_rc rc) (tp_lock p2))
                        (\<lambda>(urc, m2).
                        if urc \<noteq> 0 then Ret (threadpool_lock_failure, Some p2, False)
                        else Ret (0, Some (p2\<lparr>tp_lock := m2\<rparr>), True))))"

text \<open>The loop of joins, given the result of each \<open>pthread_join\<close>.\<close>

fun join_all :: "int list \<Rightarrow> int \<Rightarrow> int" where
  "join_all [] err = err"
| "join_all (rc # rcs) err = join_all rcs (if rc \<noteq> 0 then threadpool_thread_failure else err)"

text \<open>After the joins: the pool is freed only if everything went well.\<close>

definition destroy_finish ::
    "tid \<Rightarrow> int \<Rightarrow> ('f, 'a) threadpool_t \<Rightarrow> (int \<times> ('f, 'a) threadpool_t option) outcome" where
  "destroy_finish t err p =
     (if err = 0
      then and_then (threadpool_free t (Some p)) (\<lambda>(frc, live).
             Ret (err, if frc = 0 then None else Some p))
      else Ret (err, Some p))"

section \<open>threadpool_thread\<close>

text \<open>
  The tests and statements of the worker thread that run with the lock held: whether it waits on
  the condition variable, whether it leaves the loop, how it takes its task, and how it signs off.
\<close>

definition thread_waits :: "('f, 'a) threadpool_t \<Rightarrow> bool" where
  "thread_waits p \<longleftrightarrow> tp_count p = 0 \<and> tp_shutdown p = 0"

definition thread_leaves :: "('f, 'a) threadpool_t \<Rightarrow> bool" where
  "thread_leaves p \<longleftrightarrow> tp_shutdown p = immediate_shutdown \<or>
     (tp_shutdown p = graceful_shutdown \<and> tp_count p = 0)"

definition thread_grab ::
    "('f, 'a) threadpool_t \<Rightarrow>
     (('f, 'a) threadpool_task_t \<times> ('f, 'a) threadpool_t) outcome" where
  "thread_grab p =
     (case tp_queue p of
        None \<Rightarrow> UB Null_deref
      | Some q \<Rightarrow>
          and_then (array_get q (tp_head p)) (\<lambda>task.
          and_then (advance (tp_head p) (tp_queue_size p)) (\<lambda>h.
          and_then (c_sub (tp_count p) 1) (\<lambda>c.
          Ret (task, p\<lparr>tp_head := h, tp_count := c\<rparr>)))))"

definition thread_sign_off ::
    "('f, 'a) threadpool_t \<Rightarrow> ('f, 'a) threadpool_t outcome" where
  "thread_sign_off p = and_then (c_sub (tp_started p) 1) (\<lambda>st. Ret (p\<lparr>tp_started := st\<rparr>))"

section \<open>The ring as a bounded queue\<close>

text \<open>
  \<open>ring_ok\<close>: the indices and the counter agree, the cells between them hold tasks. \<open>ring_items\<close>: the
  waiting tasks, oldest first. A pool of size 0 is possible (\<open>malloc(0)\<close> may return a block).
\<close>

definition ring_cell :: "('f, 'a) threadpool_t \<Rightarrow> nat \<Rightarrow> nat" where
  "ring_cell p i = nat ((tp_head p + int i) mod tp_queue_size p)"

definition ring_ok :: "('f, 'a) threadpool_t \<Rightarrow> bool" where
  "ring_ok p \<longleftrightarrow>
     (case tp_queue p of
        None \<Rightarrow> False
      | Some q \<Rightarrow>
          int (length q) = tp_queue_size p \<and> tp_queue_size p \<le> INT_MAX \<and>
          0 \<le> tp_count p \<and> tp_count p \<le> tp_queue_size p \<and>
          (if tp_queue_size p = 0 then tp_head p = 0 \<and> tp_tail p = 0
           else 0 \<le> tp_head p \<and> tp_head p < tp_queue_size p \<and>
                tp_tail p = (tp_head p + tp_count p) mod tp_queue_size p) \<and>
          (\<forall>i<nat (tp_count p). q ! ring_cell p i \<noteq> None))"

definition ring_items :: "('f, 'a) threadpool_t \<Rightarrow> ('f, 'a) threadpool_task_t list" where
  "ring_items p =
     (case tp_queue p of
        None \<Rightarrow> []
      | Some q \<Rightarrow> map (\<lambda>i. the (q ! ring_cell p i)) [0..<nat (tp_count p)])"

lemma ring_ok_queue:
  assumes "ring_ok p"
  obtains q where "tp_queue p = Some q" and "int (length q) = tp_queue_size p"
  using assms by (auto simp: ring_ok_def split: option.splits)

lemma ring_ok_bounds:
  assumes "ring_ok p"
  shows "0 \<le> tp_count p" "tp_count p \<le> tp_queue_size p" "tp_queue_size p \<le> INT_MAX"
    "0 \<le> tp_head p" "0 \<le> tp_tail p" "tp_head p \<le> tp_queue_size p" "tp_tail p \<le> tp_queue_size p"
    "0 < tp_queue_size p \<Longrightarrow> tp_head p < tp_queue_size p"
    "0 < tp_queue_size p \<Longrightarrow> tp_tail p < tp_queue_size p"
    "0 < tp_queue_size p \<Longrightarrow> tp_tail p = (tp_head p + tp_count p) mod tp_queue_size p"
  using assms by (auto simp: ring_ok_def less_imp_le split: option.splits if_splits)

lemma ring_okI:
  assumes "tp_queue p = Some q" "int (length q) = tp_queue_size p" "tp_queue_size p \<le> INT_MAX"
    "0 < tp_queue_size p" "0 \<le> tp_count p" "tp_count p \<le> tp_queue_size p"
    "0 \<le> tp_head p" "tp_head p < tp_queue_size p"
    "tp_tail p = (tp_head p + tp_count p) mod tp_queue_size p"
    "\<And>i. i < nat (tp_count p) \<Longrightarrow> q ! ring_cell p i \<noteq> None"
  shows "ring_ok p"
  using assms by (simp add: ring_ok_def)

text \<open>The fields the ring does not read.\<close>

lemma ring_cell_frame [simp]:
  "ring_cell (p\<lparr>tp_queue := q\<rparr>) i = ring_cell p i" "ring_cell (p\<lparr>tp_tail := x\<rparr>) i = ring_cell p i"
  "ring_cell (p\<lparr>tp_count := x\<rparr>) i = ring_cell p i"
  by (simp_all add: ring_cell_def)

lemma ring_frame [simp]:
  "ring_ok (p\<lparr>tp_lock := m\<rparr>) = ring_ok p" "ring_items (p\<lparr>tp_lock := m\<rparr>) = ring_items p"
  "ring_ok (p\<lparr>tp_shutdown := x\<rparr>) = ring_ok p" "ring_items (p\<lparr>tp_shutdown := x\<rparr>) = ring_items p"
  "ring_ok (p\<lparr>tp_started := y\<rparr>) = ring_ok p" "ring_items (p\<lparr>tp_started := y\<rparr>) = ring_items p"
  "ring_ok (p\<lparr>tp_threads := ts\<rparr>) = ring_ok p" "ring_items (p\<lparr>tp_threads := ts\<rparr>) = ring_items p"
  "ring_ok (p\<lparr>tp_thread_count := y\<rparr>) = ring_ok p"
  "ring_items (p\<lparr>tp_thread_count := y\<rparr>) = ring_items p"
  "ring_ok (p\<lparr>tp_notify := c\<rparr>) = ring_ok p" "ring_items (p\<lparr>tp_notify := c\<rparr>) = ring_items p"
  by (simp_all add: ring_ok_def ring_items_def ring_cell_def cong: option.case_cong)

lemma length_ring_items [simp]: "ring_ok p \<Longrightarrow> length (ring_items p) = nat (tp_count p)"
  by (auto simp: ring_ok_def ring_items_def split: option.splits)

lemma ring_items_empty_iff: "ring_ok p \<Longrightarrow> ring_items p = [] \<longleftrightarrow> tp_count p = 0"
  using length_ring_items [of p] ring_ok_bounds(1) [of p] by (metis length_0_conv nat_0_iff order_antisym)

text \<open>Cells at different distances from the head (less than the size apart) are different.\<close>

lemma mod_offset_inj:
  fixes h :: int
  assumes "0 \<le> i" "i < j" "j < n" "(h + i) mod n = (h + j) mod n"
  shows False
proof -
  from assms(4) have "n dvd (h + j) - (h + i)" by (metis mod_eq_dvd_iff)
  then have "n dvd j - i" by (simp add: algebra_simps)
  moreover have "0 < j - i" and "j - i < n" using assms(1-3) by auto
  ultimately show False by (meson not_le zdvd_imp_le)
qed

lemma advance_ok:
  assumes "0 \<le> i" "i \<le> n" "0 \<le> n" "n \<le> INT_MAX" "0 < n \<Longrightarrow> i < n"
  shows "advance i n = Ret (if i + 1 = n then 0 else i + 1)"
proof -
  have "i + 1 \<le> INT_MAX"
    using assms by (cases "n = 0") (auto simp: INT_MAX_def)
  with assms(1) have "in_int (i + 1)" by (simp add: in_int_def INT_MIN_def)
  then show ?thesis by (simp add: advance_def c_add_def)
qed

lemma advance_mod: "0 \<le> i \<Longrightarrow> i < n \<Longrightarrow> (if i + 1 = n then 0 else i + 1) = (i + 1) mod (n :: int)"
  by auto

lemma add_section_ok:
  assumes ok: "ring_ok p" and room: "tp_count p < tp_queue_size p" and open_: "tp_shutdown p = 0"
  shows "\<exists>q' tl. let p' = p\<lparr>tp_queue := Some q', tp_tail := tl, tp_count := tp_count p + 1\<rparr> in
           add_section 0 f a p = Ret (0, p') \<and> ring_ok p' \<and>
           ring_items p' = ring_items p @ [\<lparr>task_function = f, task_argument = a\<rparr>]"
proof -
  obtain q where q: "tp_queue p = Some q" "int (length q) = tp_queue_size p"
    using ok by (rule ring_ok_queue)
  note b = ring_ok_bounds [OF ok]
  let ?n = "tp_queue_size p" and ?h = "tp_head p" and ?c = "tp_count p"
  let ?t = "\<lparr>task_function = f, task_argument = a\<rparr>"
  let ?tl = "if tp_tail p + 1 = ?n then 0 else tp_tail p + 1"
  let ?q = "q[nat (tp_tail p) := Some ?t]"
  let ?p = "p\<lparr>tp_queue := Some ?q, tp_tail := ?tl, tp_count := ?c + 1\<rparr>"
  have n: "0 < ?n" using room b(1) by linarith
  have adv: "advance (tp_tail p) ?n = Ret ?tl"
    using b(1-9) n by (intro advance_ok) auto
  have cnt: "in_int (?c + 1)"
    using b(1-3) room by (simp add: in_int_def INT_MIN_def)
  have step: "add_section 0 f a p = Ret (0, ?p)"
    using q b(5) b(9) n room open_ cnt by (simp add: add_section_def adv c_add_def)
  have tail: "nat (tp_tail p) = ring_cell p (nat ?c)"
    using b n by (simp add: ring_cell_def)
  have old: "?q ! ring_cell p i = q ! ring_cell p i" if "i < nat ?c" for i
  proof -
    have "ring_cell p i \<noteq> ring_cell p (nat ?c)"
    proof
      assume "ring_cell p i = ring_cell p (nat ?c)"
      then have "(?h + int i) mod ?n = (?h + ?c) mod ?n"
        using n b(1) by (simp add: ring_cell_def nat_eq_iff)
      then show False
        using mod_offset_inj [of "int i" ?c ?n ?h] that room by (simp add: zless_nat_eq_int_zless)
    qed
    then show ?thesis by (simp add: tail)
  qed
  have "nat (tp_tail p) < length q"
    using b(5) b(9) [OF n] q(2) by (simp add: nat_less_iff)
  then have new: "?q ! ring_cell p (nat ?c) = Some ?t"
    by (simp flip: tail)
  have len: "nat (?c + 1) = Suc (nat ?c)" using b(1) by simp
  have tl: "?tl = (?h + (?c + 1)) mod ?n"
    using advance_mod [OF b(5) b(9) [OF n]] b(10) [OF n] n by (simp add: mod_simps add.assoc)
  have full: "q ! ring_cell p i \<noteq> None" if "i < nat ?c" for i
    using ok q(1) that by (auto simp: ring_ok_def)
  have "ring_ok ?p"
  proof (rule ring_okI [of _ ?q])
    show "?q ! ring_cell ?p i \<noteq> None" if "i < nat (tp_count ?p)" for i
      using that new old full len by (auto simp: less_Suc_eq)
  qed (use q b(1-4) b(8) n room tl in simp_all)
  moreover have "ring_items ?p = ring_items p @ [?t]"
    using old new by (simp add: ring_items_def q(1) len)
  ultimately show ?thesis using step unfolding Let_def by (intro exI conjI)
qed

lemma thread_grab_ok:
  assumes ok: "ring_ok p" and items: "ring_items p = t # ts"
  shows "\<exists>h. let p' = p\<lparr>tp_head := h, tp_count := tp_count p - 1\<rparr> in
           thread_grab p = Ret (t, p') \<and> ring_ok p' \<and> ring_items p' = ts"
proof -
  obtain q where q: "tp_queue p = Some q" "int (length q) = tp_queue_size p"
    using ok by (rule ring_ok_queue)
  note b = ring_ok_bounds [OF ok]
  let ?n = "tp_queue_size p" and ?h = "tp_head p" and ?c = "tp_count p"
  let ?hd = "(?h + 1) mod ?n"
  let ?p = "p\<lparr>tp_head := ?hd, tp_count := ?c - 1\<rparr>"
  have c: "nat ?c = Suc (length ts)" using length_ring_items [OF ok] items by simp
  then have pos: "0 < ?c" and n: "0 < ?n" using b(2) by auto
  have cell: "ring_cell (p\<lparr>tp_head := ?hd\<rparr>) i = ring_cell p (Suc i)" for i
    by (simp add: ring_cell_def mod_simps algebra_simps)
  have c0: "ring_cell p 0 = nat ?h" using b n by (simp add: ring_cell_def)
  have full: "q ! ring_cell p i \<noteq> None" if "i < nat ?c" for i
    using ok q(1) that by (auto simp: ring_ok_def)
  have split: "ring_items p = the (q ! nat ?h) # map (\<lambda>i. the (q ! ring_cell ?p i)) [0..<length ts]"
    by (simp add: ring_items_def q(1) c cell upt_conv_Cons map_Suc_upt [symmetric] c0 o_def del: upt_Suc)
  have adv: "advance ?h ?n = Ret ?hd"
    using advance_ok [of ?h ?n] advance_mod [OF b(4) b(8) [OF n]] b(3,4,6,8) n by simp
  have cnt: "in_int (?c - 1)" using pos b(1-3) by (simp add: in_int_def INT_MIN_def)
  have "q ! nat ?h = Some t" using split items full [of 0] pos c0 by auto
  then have step: "thread_grab p = Ret (t, ?p)"
    using q b(4,8) n cnt by (simp add: thread_grab_def adv c_sub_def)
  have len: "nat (?c - 1) = length ts" using c by simp
  have "ring_ok ?p"
  proof (rule ring_okI [of _ q])
    show "q ! ring_cell ?p i \<noteq> None" if "i < nat (tp_count ?p)" for i
      using that full [of "Suc i"] c len cell by simp
    show "tp_tail ?p = (tp_head ?p + tp_count ?p) mod tp_queue_size ?p"
      using b(10) [OF n] by (simp add: mod_simps)
  qed (use q b(1-4) b(8) n pos in simp_all)
  moreover have "ring_items ?p = ts"
    using split items by (simp add: ring_items_def q(1) len)
  ultimately show ?thesis using step unfolding Let_def by (intro exI conjI)
qed

text \<open>The ring keeps the contract of a queue: \<open>threadpool_add\<close> is put, the worker's grab is get.\<close>

definition ring_fits :: "('f, 'a) threadpool_task_t list \<Rightarrow> ('f, 'a) threadpool_t \<Rightarrow> bool" where
  "ring_fits ts p \<longleftrightarrow> tp_shutdown p = 0 \<and> tp_count p + int (length ts) \<le> tp_queue_size p"

definition ring_put ::
    "('f, 'a) threadpool_task_t \<Rightarrow> ('f, 'a) threadpool_t \<Rightarrow> ('f, 'a) threadpool_t outcome" where
  "ring_put t p =
     and_then (add_section 0 (task_function t) (task_argument t) p) (\<lambda>(_, p'). Ret p')"

interpretation ring: job_queue ring_ok ring_items ring_fits ring_put thread_grab
proof (unfold_locales, goal_cases)
  case (1 p t ts)
  then obtain q tl where
    "let p' = p\<lparr>tp_queue := Some q, tp_tail := tl, tp_count := tp_count p + 1\<rparr> in
      add_section 0 (task_function t) (task_argument t) p = Ret (0, p') \<and> ring_ok p' \<and>
      ring_items p' = ring_items p @ [\<lparr>task_function = task_function t, task_argument = task_argument t\<rparr>]"
    using add_section_ok [of p "task_function t" "task_argument t"] by (auto simp: ring_fits_def)
  with 1(2) show ?case
    by (auto simp: ring_put_def ring_fits_def Let_def)
next
  case (2 p t ts)
  then show ?case
    using thread_grab_ok [of p t ts] by (auto simp: Let_def)
qed

section \<open>What threadpool_create returns\<close>

text \<open>
  What the code relies on: \<open>malloc\<close> has no block of more than \<open>PTRDIFF_MAX\<close> bytes, and the
  arguments are C \<open>int\<close>s.
\<close>

definition malloc_sane :: "create_env \<Rightarrow> bool" where
  "malloc_sane env \<longleftrightarrow>
     (\<forall>n. malloc_threads env n \<or> malloc_queue env n \<longrightarrow> n < 2 ^ 63)"

definition fresh_pool :: "int \<Rightarrow> int \<Rightarrow> ('f, 'a) threadpool_t \<Rightarrow> bool" where
  "fresh_pool n queue_size p \<longleftrightarrow>
     ring_ok p \<and> ring_items p = [] \<and> tp_queue_size p = queue_size \<and> tp_lock p = M_free \<and>
     tp_notify p \<and> tp_shutdown p = 0 \<and> tp_thread_count p = n \<and> tp_started p = n \<and> 0 \<le> n \<and> n \<le> INT_MAX \<and>
     (\<exists>ts. tp_threads p = Some ts \<and> n \<le> int (length ts) \<and> (\<forall>i<nat n. ts ! i = Some i))"

lemma size_mul_small:
  assumes "0 \<le> n" "in_int n" "0 < sz" "sz \<le> 16"
  shows "size_mul sz n = nat (sz * n)" "cells sz (size_mul sz n) = nat n"
proof -
  have "n \<le> 2147483647" using assms by (simp add: in_int_def INT_MAX_def)
  then have "sz * n \<le> 16 * 2147483647" using assms by (intro mult_mono) auto
  then have "sz * n < 2 ^ 64" by simp
  moreover have "0 \<le> sz * n" using assms by simp
  ultimately have "(sz * n) mod 2 ^ 64 = sz * n" by (rule mod_pos_pos_trivial [rotated])
  then show eq: "size_mul sz n = nat (sz * n)" by (simp add: size_mul_def)
  show "cells sz (size_mul sz n) = nat n"
    using assms unfolding cells_def eq by (simp add: nat_mult_distrib)
qed

lemma size_mul_negative:
  assumes "n < 0" "in_int n" "0 < sz" "sz \<le> 16"
  shows "2 ^ 63 \<le> size_mul sz n"
proof -
  have "- 2147483648 \<le> n" using assms by (simp add: in_int_def INT_MIN_def)
  moreover have "16 * n \<le> sz * n" using assms by (intro mult_right_mono_neg) auto
  ultimately have low: "- (2 ^ 35) \<le> sz * n" by simp
  moreover have neg: "sz * n < 0" using assms by (simp add: mult_pos_neg)
  ultimately have "(sz * n + 2 ^ 64) mod 2 ^ 64 = sz * n + 2 ^ 64"
    by (intro mod_pos_pos_trivial) auto
  then have "(sz * n) mod 2 ^ 64 = sz * n + 2 ^ 64" by (simp only: mod_add_self2)
  then show ?thesis using low by (simp add: size_mul_def le_nat_iff)
qed

text \<open>\<open>k\<close> threads are running: the array holds their identities and both counters say \<open>k\<close>.\<close>

definition with_threads :: "nat \<Rightarrow> ('f, 'a) threadpool_t \<Rightarrow> ('f, 'a) threadpool_t \<Rightarrow> bool" where
  "with_threads k p p' \<longleftrightarrow>
     (\<exists>ts. p' = p\<lparr>tp_threads := Some ts, tp_thread_count := int k, tp_started := int k\<rparr> \<and>
           k \<le> length ts \<and> (\<forall>j<k. ts ! j = Some j))"

lemma with_threads_refl:
  assumes "tp_threads p = Some ts" "tp_thread_count p = int k" "tp_started p = int k"
    "k \<le> length ts" "\<forall>j<k. ts ! j = Some j"
  shows "with_threads k p p"
  unfolding with_threads_def using assms by (intro exI [of _ ts]) simp

lemma start_threads_ok:
  assumes "tp_threads p = Some ts" "i + n \<le> length ts" "tp_thread_count p = int i"
    "tp_started p = int i" "int (i + n) \<le> INT_MAX" "\<forall>j<i. ts ! j = Some j"
  shows "(\<exists>p'. start_threads rc n i p = Ret (Created p') \<and> (\<forall>j\<in>{i..<i + n}. rc j = 0) \<and>
             with_threads (i + n) p p') \<or>
         (\<exists>p' k. start_threads rc n i p = Ret (Create_cleanup p') \<and> k \<in> {i..<i + n} \<and> rc k \<noteq> 0 \<and>
             (\<forall>j\<in>{i..<k}. rc j = 0) \<and> with_threads k p p')"
  using assms
proof (induction n arbitrary: i p ts)
  case 0
  then show ?case using with_threads_refl [of p ts i] by simp
next
  case (Suc n)
  show ?case
  proof (cases "rc i = 0")
    case False
    then show ?thesis using Suc.prems with_threads_refl [of p ts i] by fastforce
  next
    case True
    let ?p = "p\<lparr>tp_threads := Some (ts[i := Some i]), tp_thread_count := int (Suc i),
                tp_started := int (Suc i)\<rparr>"
    have grow: "with_threads k ?p p' \<longleftrightarrow> with_threads k p p'" for k p'
      by (simp add: with_threads_def)
    have "in_int (int i + 1)" using Suc.prems(5) by (simp add: in_int_def INT_MIN_def)
    with True Suc.prems have step: "start_threads rc (Suc n) i p = start_threads rc n (Suc i) ?p"
      by (simp add: c_add_def add.commute)
    have range: "{i..<i + Suc n} = insert i {Suc i..<Suc i + n}" by auto
    have "\<forall>j<Suc i. ts[i := Some i] ! j = Some j"
      using Suc.prems by (auto simp: less_Suc_eq nth_list_update)
    then consider
        (all) p' where "start_threads rc n (Suc i) ?p = Ret (Created p')"
          "\<forall>j\<in>{Suc i..<Suc i + n}. rc j = 0" "with_threads (Suc i + n) p p'"
      | (some) p' k where "start_threads rc n (Suc i) ?p = Ret (Create_cleanup p')"
          "k \<in> {Suc i..<Suc i + n}" "rc k \<noteq> 0" "\<forall>j\<in>{Suc i..<k}. rc j = 0" "with_threads k p p'"
      using Suc.IH [of ?p "ts[i := Some i]" "Suc i"] Suc.prems unfolding grow by fastforce
    then show ?thesis
    proof cases
      case all
      with True show ?thesis unfolding step range by simp
    next
      case (some p' k)
      then have "\<forall>j\<in>{i..<k}. rc j = 0" using True by (metis Suc_leI atLeastLessThan_iff le_neq_implies_less)
      with some show ?thesis unfolding step range by blast
    qed
  qed
qed

lemma fresh_pool_with_threads:
  assumes "with_threads k p p'" "ring_ok p" "ring_items p = []" "tp_lock p = M_free" "tp_notify p"
    "tp_shutdown p = 0" "int k \<le> INT_MAX"
  shows "fresh_pool (int k) (tp_queue_size p) p'"
  using assms by (auto simp: with_threads_def fresh_pool_def)

text \<open>Which of the two arrays \<open>malloc\<close> provided.\<close>

definition has_threads :: "create_env \<Rightarrow> int \<Rightarrow> bool" where
  "has_threads env n \<longleftrightarrow> malloc_threads env (size_mul sizeof_pthread_t n)"

definition has_queue :: "create_env \<Rightarrow> int \<Rightarrow> bool" where
  "has_queue env n \<longleftrightarrow> malloc_queue env (size_mul sizeof_threadpool_task_t n)"

lemma has_arrays_nonneg:
  assumes "malloc_sane env" "in_int n"
  shows "has_threads env n \<Longrightarrow> 0 \<le> n" "has_queue env n \<Longrightarrow> 0 \<le> n"
  using assms size_mul_negative [of n sizeof_pthread_t] size_mul_negative [of n sizeof_threadpool_task_t]
  by (force simp: malloc_sane_def has_threads_def has_queue_def sizeof_pthread_t_def
      sizeof_threadpool_task_t_def not_le [symmetric])+

lemma init_pool_fields [simp]:
  "tp_lock (init_pool env n q) = M_uninit" "tp_notify (init_pool env n q) = False"
  "tp_thread_count (init_pool env n q) = 0" "tp_queue_size (init_pool env n q) = q"
  "tp_shutdown (init_pool env n q) = 0" "tp_started (init_pool env n q) = 0"
  "tp_threads (init_pool env n q) = (if has_threads env n
     then Some (replicate (cells sizeof_pthread_t (size_mul sizeof_pthread_t n)) None) else None)"
  "tp_queue (init_pool env n q) = (if has_queue env q
     then Some (replicate (cells sizeof_threadpool_task_t (size_mul sizeof_threadpool_task_t q)) None)
     else None)"
  by (simp_all add: init_pool_def Let_def has_threads_def has_queue_def)

lemma init_pool_ring:
  assumes "malloc_sane env" "in_int q" "has_queue env q"
  shows "ring_ok (init_pool env n q)" "ring_items (init_pool env n q) = []"
proof -
  have "0 \<le> q" using has_arrays_nonneg(2) assms by blast
  then have "cells sizeof_threadpool_task_t (size_mul sizeof_threadpool_task_t q) = nat q"
    using assms(2) by (intro size_mul_small) (auto simp: sizeof_threadpool_task_t_def)
  with \<open>0 \<le> q\<close> assms(2,3) show "ring_ok (init_pool env n q)"
    by (auto simp: ring_ok_def init_pool_def Let_def has_queue_def in_int_def)
  show "ring_items (init_pool env n q) = []"
    by (simp add: ring_items_def init_pool_def Let_def)
qed

lemma init_pool_threads:
  assumes "malloc_sane env" "in_int n" "has_threads env n"
  shows "\<exists>ts. tp_threads (init_pool env n q) = Some ts \<and> length ts = nat n"
proof -
  have "0 \<le> n" using has_arrays_nonneg(1) assms by blast
  then have "cells sizeof_pthread_t (size_mul sizeof_pthread_t n) = nat n"
    using assms(2) by (intro size_mul_small) (auto simp: sizeof_pthread_t_def)
  with assms(3) show ?thesis by (simp add: init_pool_def Let_def has_threads_def)
qed

text \<open>The failing paths, in closed form: what is returned and what stays allocated.\<close>

lemma threadpool_create_failing:
  assumes "mutex_init_rc env \<noteq> 0 \<or> cond_init_rc env \<noteq> 0 \<or> \<not> has_threads env n \<or> \<not> has_queue env q"
    and "malloc_pool env"
  shows "threadpool_create t env n q =
     (if \<not> has_threads env n then Ret (Create_null (if has_queue env q then [Queue_block] else []))
      else if mutex_init_rc env \<noteq> 0 then UB Bad_mutex
      else if cond_init_rc env \<noteq> 0 then UB Bad_cond
      else Ret (Create_null []))"
  using assms
  by (auto simp: threadpool_create_def threadpool_free_def pthread_mutex_init_def Let_def pool_blocks_def
      pthread_mutex_lock_def pthread_mutex_destroy_def pthread_cond_destroy_def)

lemma threadpool_create_starting:
  assumes "malloc_sane env" "in_int n" "in_int q" "malloc_pool env" "mutex_init_rc env = 0"
    "cond_init_rc env = 0" "has_threads env n" "has_queue env q"
  shows "(\<exists>p :: ('f, 'a) threadpool_t.
            threadpool_create t env n q = Ret (Created p) \<and> fresh_pool n q p) \<or>
         (\<exists>(p :: ('f, 'a) threadpool_t) k.
            threadpool_create t env n q = Ret (Create_cleanup p) \<and> fresh_pool k q p \<and> k < n \<and>
            create_rc env (nat k) \<noteq> 0)"
proof -
  let ?p = "(init_pool env n q :: ('f, 'a) threadpool_t)\<lparr>tp_lock := M_free, tp_notify := True\<rparr>"
  have create: "threadpool_create t env n q = start_threads (create_rc env) (nat n) 0 ?p"
    using assms(4-8) by (simp add: threadpool_create_def pthread_mutex_init_def)
  have ring: "ring_ok ?p" "ring_items ?p = []"
    using init_pool_ring [OF assms(1,3,8)] by simp_all
  have n: "0 \<le> n" "n \<le> INT_MAX"
    using has_arrays_nonneg(1) assms(1,2,7) by (auto simp: in_int_def)
  obtain ts where "tp_threads ?p = Some ts" "length ts = nat n"
    using init_pool_threads [OF assms(1,2,7)] by auto
  then consider
      (all) p where "start_threads (create_rc env) (nat n) 0 ?p = Ret (Created p)"
        "with_threads (nat n) ?p p"
    | (some) p k where "start_threads (create_rc env) (nat n) 0 ?p = Ret (Create_cleanup p)"
        "k < nat n" "create_rc env k \<noteq> 0" "with_threads k ?p p"
    using start_threads_ok [OF \<open>tp_threads ?p = Some ts\<close>, of 0 "nat n" "create_rc env"] n by auto
  then show ?thesis
  proof cases
    case all
    then show ?thesis using fresh_pool_with_threads [OF all(2) ring] create n by simp
  next
    case (some p k)
    then have "fresh_pool (int k) q p"
      using fresh_pool_with_threads [OF some(4) ring] n by simp
    with some create n show ?thesis by (intro disjI2 exI [of _ p] exI [of _ "int k"]) simp
  qed
qed

end
