(* ===== verification/Threadpool_Workers.thy ===== *)
theory Threadpool_Workers
  imports Threadpool_Ring
begin

text \<open>
  The worker threads of \<open>src/threadpool/threadPool1/src/threadpool.c\<close>, their callers and
  \<open>threadpool_destroy\<close>, interleaved.

  A state holds the pool (\<open>None\<close> once it has been freed), the program counter of every worker, the
  progress of \<open>threadpool_destroy\<close>, and logs of the tasks accepted, taken, completed and thrown away,
  which no step reads. The lock is in the pool, so the atomicity of the critical sections is a theorem
  and not an assumption about the labels; the callers of \<open>threadpool_add\<close> run their critical section
  in one step, which is possible only when the lock is free. The \<open>pthread\<close> calls succeed here; their
  error codes are in \<open>Threadpool_Ring\<close>.
\<close>

section \<open>States\<close>

datatype ('f, 'a) wpc =
    At_lock
  | Testing
  | Waiting
  | Woken
  | Grabbed "('f, 'a) threadpool_task_t"
  | Executing "('f, 'a) threadpool_task_t"
  | Leaving
  | Signed_off
  | Exited

datatype dpc = Not_destroying | Joining nat nat | Destroy_returned int

record ('f, 'a) tp_sys =
  sys_pool :: "('f, 'a) threadpool_t option"
  sys_pcs :: "('f, 'a) wpc list"
  sys_destroyer :: dpc
  log_submitted :: "('f, 'a) threadpool_task_t list"
  log_begun :: "('f, 'a) threadpool_task_t list"
  log_finished :: "('f, 'a) threadpool_task_t multiset"
  log_discarded :: "('f, 'a) threadpool_task_t list"

text \<open>The labels say who moves; \<open>Add\<close> carries the waiting worker that the signal wakes, if any.\<close>

datatype ('f, 'a) tp_label =
    Work nat
  | Spurious nat
  | Add nat 'f 'a "nat option"
  | Destroy nat int
  | Join

section \<open>Steps\<close>

text \<open>
  One step of \<open>threadpool_thread\<close>: lines 270 and 274 to 302. A thread that leaves the loop still
  holds the lock, signs off and unlocks.
\<close>

fun thread_step ::
    "nat \<Rightarrow> ('f, 'a) wpc \<Rightarrow> ('f, 'a) threadpool_t \<Rightarrow> (('f, 'a) wpc \<times> ('f, 'a) threadpool_t) outcome"
where
  "thread_step w At_lock p =
     and_then (pthread_mutex_lock (Worker w) 0 (tp_lock p)) (\<lambda>(_, m). Ret (Testing, p\<lparr>tp_lock := m\<rparr>))"
| "thread_step w Testing p =
     (if thread_waits p
      then and_then (pthread_mutex_unlock (Worker w) 0 (tp_lock p))
             (\<lambda>(_, m). Ret (Waiting, p\<lparr>tp_lock := m\<rparr>))
      else if thread_leaves p then Ret (Leaving, p)
      else and_then (thread_grab p) (\<lambda>(t, p'). Ret (Grabbed t, p')))"
| "thread_step w Waiting p = Blocked"
| "thread_step w Woken p =
     and_then (pthread_mutex_lock (Worker w) 0 (tp_lock p)) (\<lambda>(_, m). Ret (Testing, p\<lparr>tp_lock := m\<rparr>))"
| "thread_step w (Grabbed t) p =
     and_then (pthread_mutex_unlock (Worker w) 0 (tp_lock p))
       (\<lambda>(_, m). Ret (Executing t, p\<lparr>tp_lock := m\<rparr>))"
| "thread_step w (Executing t) p = Ret (At_lock, p)"
| "thread_step w Leaving p = and_then (thread_sign_off p) (\<lambda>p'. Ret (Signed_off, p'))"
| "thread_step w Signed_off p =
     and_then (pthread_mutex_unlock (Worker w) 0 (tp_lock p))
       (\<lambda>(_, m). Ret (Exited, p\<lparr>tp_lock := m\<rparr>))"
| "thread_step w Exited p = Blocked"

fun newly_begun :: "('f, 'a) wpc \<Rightarrow> ('f, 'a) threadpool_task_t list" where
  "newly_begun (Grabbed t) = [t]"
| "newly_begun _ = []"

fun newly_finished :: "('f, 'a) wpc \<Rightarrow> ('f, 'a) threadpool_task_t multiset" where
  "newly_finished (Executing t) = {#t#}"
| "newly_finished _ = {#}"

definition wake :: "('f, 'a) wpc \<Rightarrow> ('f, 'a) wpc" where
  "wake pc = (if pc = Waiting then Woken else pc)"

text \<open>\<open>pthread_cond_signal\<close> wakes one waiting thread if there is one.\<close>

definition signal_ok :: "nat option \<Rightarrow> ('f, 'a) wpc list \<Rightarrow> bool" where
  "signal_ok ch pcs =
     (case ch of
        None \<Rightarrow> Waiting \<notin> set pcs
      | Some w \<Rightarrow> w < length pcs \<and> pcs ! w = Waiting)"

definition signal :: "nat option \<Rightarrow> ('f, 'a) wpc list \<Rightarrow> ('f, 'a) wpc list" where
  "signal ch pcs = (case ch of None \<Rightarrow> pcs | Some w \<Rightarrow> pcs[w := Woken])"

definition all_ok_add :: add_rc where
  "all_ok_add = \<lparr>add_lock_rc = 0, add_signal_rc = 0, add_unlock_rc = 0\<rparr>"

definition all_ok_destroy :: destroy_rc where
  "all_ok_destroy = \<lparr>destroy_lock_rc = 0, destroy_broadcast_rc = 0, destroy_unlock_rc = 0\<rparr>"

text \<open>The whole system. A use of the pool after it has been freed is undefined behaviour.\<close>

fun tp_step :: "('f, 'a) tp_label \<Rightarrow> ('f, 'a) tp_sys \<Rightarrow> ('f, 'a) tp_sys outcome" where
  "tp_step (Work w) s =
     (if w < length (sys_pcs s)
      then (case sys_pool s of
              None \<Rightarrow> (if sys_pcs s ! w = Exited then Blocked else UB Dangling)
            | Some p \<Rightarrow>
                and_then (thread_step w (sys_pcs s ! w) p) (\<lambda>(pc, p').
                Ret (s\<lparr>sys_pool := Some p', sys_pcs := (sys_pcs s)[w := pc],
                       log_begun := log_begun s @ newly_begun pc,
                       log_finished := log_finished s + newly_finished (sys_pcs s ! w)\<rparr>)))
      else Blocked)"
| "tp_step (Spurious w) s =
     (if w < length (sys_pcs s) \<and> sys_pcs s ! w = Waiting
      then Ret (s\<lparr>sys_pcs := (sys_pcs s)[w := Woken]\<rparr>) else Blocked)"
| "tp_step (Add c f a ch) s =
     (if sys_pool s = None then UB Dangling
      else and_then (threadpool_add (Client c) all_ok_add (sys_pool s) (Some f) a) (\<lambda>(err, p').
           if err = 0
           then (if signal_ok ch (sys_pcs s)
                 then Ret (s\<lparr>sys_pool := p', sys_pcs := signal ch (sys_pcs s),
                        log_submitted := log_submitted s @ [\<lparr>task_function = f, task_argument = a\<rparr>]\<rparr>)
                 else Blocked)
           else (if ch = None then Ret (s\<lparr>sys_pool := p'\<rparr>) else Blocked)))"
| "tp_step (Destroy c flags) s =
     (if sys_pool s = None then UB Dangling
      else and_then (destroy_begin (Client c) all_ok_destroy flags (sys_pool s)) (\<lambda>(err, p', joins).
           if joins then Ret (s\<lparr>sys_pool := p', sys_pcs := map wake (sys_pcs s),
                               sys_destroyer := Joining c 0\<rparr>)
           else Ret (s\<lparr>sys_pool := p'\<rparr>)))"
| "tp_step Join s =
     (case sys_destroyer s of
        Joining c i \<Rightarrow>
          (case sys_pool s of
             None \<Rightarrow> UB Dangling
           | Some p \<Rightarrow>
               if int i < tp_thread_count p
               then (case tp_threads p of
                       None \<Rightarrow> UB Null_deref
                     | Some ts \<Rightarrow>
                         and_then (array_get ts (int i)) (\<lambda>w.
                         if w < length (sys_pcs s)
                         then (if sys_pcs s ! w = Exited
                               then Ret (s\<lparr>sys_destroyer := Joining c (Suc i)\<rparr>) else Blocked)
                         else UB Dangling))
               else and_then (destroy_finish (Client c) 0 p) (\<lambda>(err, p').
                    Ret (s\<lparr>sys_pool := p', sys_destroyer := Destroy_returned err,
                           log_discarded := log_discarded s @
                             (if p' = None then ring_items p else [])\<rparr>)))
      | _ \<Rightarrow> Blocked)"

text \<open>
  The system starts with the pool \<open>threadpool_create\<close> returned, or with the pool it is about to
  destroy after a failed \<open>pthread_create\<close>, and every worker at its first lock.
\<close>

definition start_sys :: "('f, 'a) threadpool_t \<Rightarrow> ('f, 'a) tp_sys" where
  "start_sys p = \<lparr>sys_pool = Some p, sys_pcs = replicate (nat (tp_thread_count p)) At_lock,
     sys_destroyer = Not_destroying, log_submitted = [], log_begun = [], log_finished = {#},
     log_discarded = []\<rparr>"

definition tp_init :: "('f, 'a) tp_sys \<Rightarrow> bool" where
  "tp_init s \<longleftrightarrow>
     (\<exists>t env n q p. malloc_sane env \<and> in_int n \<and> in_int q \<and>
        (threadpool_create t env n q = Ret (Created p) \<or>
         threadpool_create t env n q = Ret (Create_cleanup p)) \<and> s = start_sys p)"

text \<open>The workers and the joins are the pool's own steps; the rest comes from outside.\<close>

fun tp_own :: "('f, 'a) tp_label \<Rightarrow> bool" where
  "tp_own (Work w) = True"
| "tp_own Join = True"
| "tp_own _ = False"

section \<open>The invariant\<close>

fun holds_lock :: "('f, 'a) wpc \<Rightarrow> bool" where
  "holds_lock Testing = True"
| "holds_lock (Grabbed t) = True"
| "holds_lock Leaving = True"
| "holds_lock Signed_off = True"
| "holds_lock _ = False"

fun gone :: "('f, 'a) wpc \<Rightarrow> bool" where
  "gone Leaving = True"
| "gone Signed_off = True"
| "gone Exited = True"
| "gone _ = False"

fun active :: "('f, 'a) wpc \<Rightarrow> nat" where
  "active Signed_off = 0"
| "active Exited = 0"
| "active _ = 1"

fun task_of :: "('f, 'a) wpc \<Rightarrow> ('f, 'a) threadpool_task_t multiset" where
  "task_of (Grabbed t) = {#t#}"
| "task_of (Executing t) = {#t#}"
| "task_of _ = {#}"

text \<open>The lock and the program counters agree: a worker is in a critical section iff it holds the lock.\<close>

definition locks_ok :: "('f, 'a) wpc list \<Rightarrow> mutex \<Rightarrow> bool" where
  "locks_ok pcs m \<longleftrightarrow>
     m \<noteq> M_uninit \<and> m \<noteq> M_destroyed \<and>
     (\<forall>w<length pcs. holds_lock (pcs ! w) \<longleftrightarrow> m = M_held (Worker w)) \<and>
     (\<forall>w. m = M_held (Worker w) \<longrightarrow> w < length pcs)"

definition threads_ok :: "('f, 'a) threadpool_t \<Rightarrow> ('f, 'a) wpc list \<Rightarrow> bool" where
  "threads_ok p pcs \<longleftrightarrow>
     tp_notify p \<and> tp_thread_count p = int (length pcs) \<and> int (length pcs) \<le> INT_MAX \<and>
     tp_started p = int (sum_list (map active pcs)) \<and>
     (\<exists>ts. tp_threads p = Some ts \<and> length pcs \<le> length ts \<and> (\<forall>i<length pcs. ts ! i = Some i))"

text \<open>
  The shutdown protocol: a worker leaves only after a shutdown, and after a graceful one only when
  the queue is empty; after a shutdown nobody waits; while tasks are pending somebody is awake.
\<close>

definition shutdown_ok :: "('f, 'a) threadpool_t \<Rightarrow> dpc \<Rightarrow> bool" where
  "shutdown_ok p d \<longleftrightarrow>
     tp_shutdown p \<in> {0, immediate_shutdown, graceful_shutdown} \<and>
     (tp_shutdown p = 0 \<longleftrightarrow> d = Not_destroying) \<and> (\<forall>e. d \<noteq> Destroy_returned e)"

definition leave_ok :: "('f, 'a) threadpool_t \<Rightarrow> ('f, 'a) wpc list \<Rightarrow> bool" where
  "leave_ok p pcs \<longleftrightarrow>
     (\<forall>pc\<in>set pcs. gone pc \<longrightarrow>
        tp_shutdown p \<noteq> 0 \<and> (tp_shutdown p = graceful_shutdown \<longrightarrow> tp_count p = 0))"

definition wait_ok :: "('f, 'a) threadpool_t \<Rightarrow> ('f, 'a) wpc list \<Rightarrow> bool" where
  "wait_ok p pcs \<longleftrightarrow>
     (tp_shutdown p \<noteq> 0 \<longrightarrow> Waiting \<notin> set pcs) \<and>
     (tp_shutdown p = 0 \<and> 0 < tp_count p \<and> pcs \<noteq> [] \<longrightarrow> (\<exists>pc\<in>set pcs. pc \<noteq> Waiting))"

definition join_ok :: "('f, 'a) wpc list \<Rightarrow> dpc \<Rightarrow> bool" where
  "join_ok pcs d \<longleftrightarrow>
     (\<forall>c i. d = Joining c i \<longrightarrow> i \<le> length pcs \<and> (\<forall>j<i. pcs ! j = Exited))"

definition tp_inv :: "('f, 'a) tp_sys \<Rightarrow> bool" where
  "tp_inv s \<longleftrightarrow>
     (case sys_pool s of
        None \<Rightarrow> (\<forall>pc\<in>set (sys_pcs s). pc = Exited) \<and> sys_destroyer s = Destroy_returned 0
      | Some p \<Rightarrow> ring_ok p \<and> locks_ok (sys_pcs s) (tp_lock p) \<and> threads_ok p (sys_pcs s) \<and>
          shutdown_ok p (sys_destroyer s) \<and> leave_ok p (sys_pcs s) \<and> wait_ok p (sys_pcs s) \<and>
          join_ok (sys_pcs s) (sys_destroyer s))"

lemma shutdown_codes [simp]:
  "immediate_shutdown \<noteq> 0" "graceful_shutdown \<noteq> 0" "immediate_shutdown \<noteq> graceful_shutdown"
  "graceful_shutdown \<noteq> immediate_shutdown" "0 \<noteq> immediate_shutdown" "0 \<noteq> graceful_shutdown"
  by (simp_all add: immediate_shutdown_def graceful_shutdown_def)

text \<open>All moves of a worker from a well-formed pool.\<close>

lemma thread_step_cases [consumes 3, case_names acquire wait leave grab unlock finish sign_off exit]:
  assumes "thread_step w pc p = Ret (pc', p')" and "ring_ok p"
    and "tp_shutdown p \<in> {0, immediate_shutdown, graceful_shutdown}"
  obtains
    "pc = At_lock \<or> pc = Woken" "tp_lock p = M_free" "pc' = Testing"
      "p' = p\<lparr>tp_lock := M_held (Worker w)\<rparr>"
  | "pc = Testing" "tp_lock p = M_held (Worker w)" "tp_count p = 0" "tp_shutdown p = 0"
      "pc' = Waiting" "p' = p\<lparr>tp_lock := M_free\<rparr>"
  | "pc = Testing" "thread_leaves p" "pc' = Leaving" "p' = p"
  | t ts h where "pc = Testing" "ring_items p = t # ts" "pc' = Grabbed t" "\<not> thread_leaves p"
      "p' = p\<lparr>tp_head := h, tp_count := tp_count p - 1\<rparr>" "0 < tp_count p"
      "ring_ok p'" "ring_items p' = ts"
  | t where "pc = Grabbed t" "tp_lock p = M_held (Worker w)" "pc' = Executing t"
      "p' = p\<lparr>tp_lock := M_free\<rparr>"
  | t where "pc = Executing t" "pc' = At_lock" "p' = p"
  | "pc = Leaving" "pc' = Signed_off" "p' = p\<lparr>tp_started := tp_started p - 1\<rparr>"
  | "pc = Signed_off" "tp_lock p = M_held (Worker w)" "pc' = Exited" "p' = p\<lparr>tp_lock := M_free\<rparr>"
proof (cases pc)
  case Testing
  consider "thread_waits p" | "\<not> thread_waits p" "thread_leaves p"
    | "\<not> thread_waits p" "\<not> thread_leaves p"
    by blast
  then show ?thesis
  proof cases
    case 1
    with Testing assms(1) show ?thesis
      by (intro that(2)) (auto simp: thread_waits_def outcome_simps pthread_mutex_unlock_Ret0)
  next
    case 2
    with Testing assms(1) show ?thesis by (intro that(3)) auto
  next
    case 3
    with assms(3) have "tp_count p \<noteq> 0" by (auto simp: thread_waits_def thread_leaves_def)
    then have pos: "0 < tp_count p" using ring_ok_bounds(1) [OF assms(2)] by linarith
    then obtain t ts where items: "ring_items p = t # ts"
      using ring_items_empty_iff [OF assms(2)] by (cases "ring_items p") auto
    obtain h where "thread_grab p = Ret (t, p\<lparr>tp_head := h, tp_count := tp_count p - 1\<rparr>)"
      "ring_ok (p\<lparr>tp_head := h, tp_count := tp_count p - 1\<rparr>)"
      "ring_items (p\<lparr>tp_head := h, tp_count := tp_count p - 1\<rparr>) = ts"
      using thread_grab_ok [OF assms(2) items] unfolding Let_def by blast
    with Testing 3 assms(1) items pos show ?thesis by (intro that(4) [of t ts h]) auto
  qed
next
  case At_lock
  with assms(1) show ?thesis
    by (intro that(1)) (auto simp: outcome_simps pthread_mutex_lock_Ret0)
next
  case Woken
  with assms(1) show ?thesis
    by (intro that(1)) (auto simp: outcome_simps pthread_mutex_lock_Ret0)
next
  case (Grabbed t)
  with assms(1) show ?thesis
    by (intro that(5) [of t]) (auto simp: outcome_simps pthread_mutex_unlock_Ret0)
next
  case (Executing t)
  with assms(1) show ?thesis by (intro that(6) [of t]) auto
next
  case Leaving
  with assms(1) show ?thesis
    by (intro that(7)) (auto simp: outcome_simps thread_sign_off_def c_sub_def)
next
  case Signed_off
  with assms(1) show ?thesis
    by (intro that(8)) (auto simp: outcome_simps pthread_mutex_unlock_Ret0)
next
  case Waiting
  with assms(1) show ?thesis by simp
next
  case Exited
  with assms(1) show ?thesis by simp
qed

section \<open>Every step keeps the invariant\<close>

lemma shutdown_ok_codes:
  "shutdown_ok p d \<Longrightarrow> tp_shutdown p \<in> {0, immediate_shutdown, graceful_shutdown}"
  unfolding shutdown_ok_def by blast

text \<open>The fields the parts of the invariant do not read.\<close>

lemma inv_frame [simp]:
  "shutdown_ok (p\<lparr>tp_lock := m\<rparr>) d = shutdown_ok p d"
  "shutdown_ok (p\<lparr>tp_head := h\<rparr>) d = shutdown_ok p d"
  "shutdown_ok (p\<lparr>tp_tail := h\<rparr>) d = shutdown_ok p d"
  "shutdown_ok (p\<lparr>tp_queue := q\<rparr>) d = shutdown_ok p d"
  "shutdown_ok (p\<lparr>tp_count := h\<rparr>) d = shutdown_ok p d"
  "shutdown_ok (p\<lparr>tp_started := h\<rparr>) d = shutdown_ok p d"
  "threads_ok (p\<lparr>tp_lock := m\<rparr>) pcs = threads_ok p pcs"
  "threads_ok (p\<lparr>tp_head := h\<rparr>) pcs = threads_ok p pcs"
  "threads_ok (p\<lparr>tp_tail := h\<rparr>) pcs = threads_ok p pcs"
  "threads_ok (p\<lparr>tp_queue := q\<rparr>) pcs = threads_ok p pcs"
  "threads_ok (p\<lparr>tp_count := h\<rparr>) pcs = threads_ok p pcs"
  "threads_ok (p\<lparr>tp_shutdown := h\<rparr>) pcs = threads_ok p pcs"
  "leave_ok (p\<lparr>tp_lock := m\<rparr>) pcs = leave_ok p pcs"
  "wait_ok (p\<lparr>tp_lock := m\<rparr>) pcs = wait_ok p pcs"
  by (simp_all add: shutdown_ok_def threads_ok_def leave_ok_def wait_ok_def)

lemma thread_step_locks:
  assumes "thread_step w (pcs ! w) p = Ret (pc', p')" "ring_ok p" "shutdown_ok p d"
    and "w < length pcs" "locks_ok pcs (tp_lock p)"
  shows "locks_ok (pcs[w := pc']) (tp_lock p')"
  using assms(1,2) shutdown_ok_codes [OF assms(3)] assms(4,5)
  by (cases rule: thread_step_cases) (auto simp: locks_ok_def nth_list_update)

lemma thread_step_threads:
  assumes "thread_step w (pcs ! w) p = Ret (pc', p')" "ring_ok p" "shutdown_ok p d"
    and "w < length pcs" "threads_ok p pcs"
  shows "threads_ok p' (pcs[w := pc'])"
proof -
  have sum: "sum_list (map active (pcs[w := pc'])) + active (pcs ! w) =
      sum_list (map active pcs) + active pc'"
    by (rule sum_list_update_add [OF assms(4)])
  from assms(1,2) shutdown_ok_codes [OF assms(3)] show ?thesis
    using assms(4,5) sum by (cases rule: thread_step_cases) (auto simp: threads_ok_def)
qed

lemma thread_step_ring:
  assumes "thread_step w pc p = Ret (pc', p')" "ring_ok p" "shutdown_ok p d"
  shows "ring_ok p' \<and> shutdown_ok p' d"
  using assms(1,2) shutdown_ok_codes [OF assms(3)] assms(2,3)
  by (cases rule: thread_step_cases) simp_all

lemma thread_step_leave:
  assumes "thread_step w (pcs ! w) p = Ret (pc', p')" "ring_ok p" "shutdown_ok p d"
    and "w < length pcs" "leave_ok p pcs"
  shows "leave_ok p' (pcs[w := pc'])"
proof -
  have here: "gone (pcs ! w) \<longrightarrow>
      tp_shutdown p \<noteq> 0 \<and> (tp_shutdown p = graceful_shutdown \<longrightarrow> tp_count p = 0)"
    using assms(4,5) nth_mem by (fastforce simp: leave_ok_def)
  from assms(1,2) shutdown_ok_codes [OF assms(3)]
  have "(gone pc' \<longrightarrow> tp_shutdown p' \<noteq> 0 \<and> (tp_shutdown p' = graceful_shutdown \<longrightarrow> tp_count p' = 0)) \<and>
      leave_ok p' pcs"
    using assms(5) here by (cases rule: thread_step_cases) (auto simp: leave_ok_def thread_leaves_def)
  then show ?thesis
    unfolding leave_ok_def using set_update_subset_insert [of pcs w pc'] by blast
qed

lemma thread_step_wait:
  assumes "thread_step w (pcs ! w) p = Ret (pc', p')" "ring_ok p" "shutdown_ok p d"
    and "w < length pcs" "wait_ok p pcs"
  shows "wait_ok p' (pcs[w := pc'])"
proof -
  have mem: "pc' \<in> set (pcs[w := pc'])" using assms(4) by (rule set_update_memI)
  from assms(1,2) shutdown_ok_codes [OF assms(3)]
  have "tp_shutdown p' = tp_shutdown p \<and> (pc' = Waiting \<longrightarrow> tp_shutdown p' = 0 \<and> tp_count p' = 0)"
    by (cases rule: thread_step_cases) auto
  then show ?thesis
    using assms(5) mem set_update_subset_insert [of pcs w pc'] unfolding wait_ok_def
    by (metis insert_iff less_irrefl subsetD)
qed

lemma thread_step_join:
  assumes "thread_step w (pcs ! w) p = Ret (pc', p')" "w < length pcs" "join_ok pcs d"
  shows "join_ok (pcs[w := pc']) d"
proof -
  have "pcs ! w \<noteq> Exited" using assms(1) by auto
  then show ?thesis using assms(3) unfolding join_ok_def by (metis length_list_update nth_list_update_neq)
qed

lemmas thread_step_keeps = thread_step_locks thread_step_threads thread_step_ring thread_step_leave
  thread_step_wait thread_step_join

lemma work_inv:
  assumes "tp_inv s" "tp_step (Work w) s = Ret t"
  shows "tp_inv t"
proof -
  from assms(2) obtain p pc' p' where w: "w < length (sys_pcs s)" and p: "sys_pool s = Some p"
    and step: "thread_step w (sys_pcs s ! w) p = Ret (pc', p')"
    and t: "sys_pool t = Some p'" "sys_pcs t = (sys_pcs s)[w := pc']"
      "sys_destroyer t = sys_destroyer s"
    by (auto simp: outcome_simps split: if_splits option.splits)
  from assms(1) p have inv: "ring_ok p" "shutdown_ok p (sys_destroyer s)"
      "locks_ok (sys_pcs s) (tp_lock p)" "threads_ok p (sys_pcs s)" "leave_ok p (sys_pcs s)"
      "wait_ok p (sys_pcs s)" "join_ok (sys_pcs s) (sys_destroyer s)"
    by (simp_all add: tp_inv_def)
  note steps = thread_step_keeps(1,2,4,5) [OF step inv(1,2) w]
  show ?thesis
    using steps inv(3-6) thread_step_ring [OF step inv(1,2)] thread_step_join [OF step w inv(7)]
    by (simp add: tp_inv_def t)
qed

text \<open>All results of a call from outside when the \<open>pthread\<close> calls succeed.\<close>

lemma same_lock: "tp_lock p = m \<Longrightarrow> p\<lparr>tp_lock := m\<rparr> = p"
  by simp

lemma error_codes [simp]:
  "threadpool_queue_full \<noteq> 0" "threadpool_shutdown \<noteq> 0" "threadpool_lock_failure \<noteq> 0"
  "threadpool_invalid \<noteq> 0" "threadpool_thread_failure \<noteq> 0"
  by (simp_all add: threadpool_queue_full_def threadpool_shutdown_def threadpool_lock_failure_def
      threadpool_invalid_def threadpool_thread_failure_def)

lemma add_section_full:
  assumes "ring_ok p" "tp_count p = tp_queue_size p"
  shows "add_section rc f a p = Ret (threadpool_queue_full, p)"
  using advance_ok [of "tp_tail p" "tp_queue_size p"] ring_ok_bounds(1-9) [OF assms(1)] assms(2)
  by (simp add: add_section_def)

lemma add_section_closed:
  assumes "ring_ok p" "tp_count p \<noteq> tp_queue_size p" "tp_shutdown p \<noteq> 0"
  shows "add_section rc f a p = Ret (threadpool_shutdown, p)"
  using advance_ok [of "tp_tail p" "tp_queue_size p"] ring_ok_bounds(1-9) [OF assms(1)] assms(2,3)
  by (simp add: add_section_def)

lemma threadpool_add_locked:
  assumes "tp_lock p = M_free" "add_section 0 f a (p\<lparr>tp_lock := M_held t\<rparr>) = Ret (err, p1)"
    "tp_lock p1 = M_held t"
  shows "threadpool_add t all_ok_add (Some p) (Some f) a = Ret (err, Some (p1\<lparr>tp_lock := M_free\<rparr>))"
  using assms by (simp add: threadpool_add_def all_ok_add_def)

lemma threadpool_add_full:
  assumes "ring_ok p" "tp_lock p = M_free" "tp_count p = tp_queue_size p"
  shows "threadpool_add t all_ok_add (Some p) (Some f) a = Ret (threadpool_queue_full, Some p)"
  using threadpool_add_locked [OF assms(2) add_section_full] assms by simp

lemma threadpool_add_closed:
  assumes "ring_ok p" "tp_lock p = M_free" "tp_count p \<noteq> tp_queue_size p" "tp_shutdown p \<noteq> 0"
  shows "threadpool_add t all_ok_add (Some p) (Some f) a = Ret (threadpool_shutdown, Some p)"
  using threadpool_add_locked [OF assms(2) add_section_closed] assms by simp

lemma threadpool_add_accepts:
  assumes "ring_ok p" "tp_lock p = M_free" "tp_count p < tp_queue_size p" "tp_shutdown p = 0"
  shows "\<exists>q' tl. let p' = p\<lparr>tp_queue := Some q', tp_tail := tl, tp_count := tp_count p + 1\<rparr> in
      threadpool_add t all_ok_add (Some p) (Some f) a = Ret (0, Some p') \<and> ring_ok p' \<and>
      ring_items p' = ring_items p @ [\<lparr>task_function = f, task_argument = a\<rparr>]"
proof -
  let ?p = "p\<lparr>tp_lock := M_held t\<rparr>"
  obtain q' tl where r:
    "add_section 0 f a ?p = Ret (0, ?p\<lparr>tp_queue := Some q', tp_tail := tl, tp_count := tp_count p + 1\<rparr>)"
    "ring_ok (?p\<lparr>tp_queue := Some q', tp_tail := tl, tp_count := tp_count p + 1\<rparr>)"
    "ring_items (?p\<lparr>tp_queue := Some q', tp_tail := tl, tp_count := tp_count p + 1\<rparr>) =
      ring_items p @ [\<lparr>task_function = f, task_argument = a\<rparr>]"
    using add_section_ok [of ?p f a] assms unfolding Let_def by auto
  let ?p' = "p\<lparr>tp_queue := Some q', tp_tail := tl, tp_count := tp_count p + 1\<rparr>"
  have comm: "?p\<lparr>tp_queue := Some q', tp_tail := tl, tp_count := tp_count p + 1\<rparr> =
      ?p'\<lparr>tp_lock := M_held t\<rparr>" by simp
  have "threadpool_add t all_ok_add (Some p) (Some f) a = Ret (0, Some ?p')"
    using threadpool_add_locked [OF assms(2) r(1)] assms(2) by simp
  with r(2,3) show ?thesis unfolding Let_def comm ring_frame by blast
qed

lemma threadpool_add_cases [consumes 2, case_names full closed added]:
  assumes "threadpool_add t all_ok_add (Some p) (Some f) a = Ret (err, r)" "ring_ok p"
  obtains "tp_lock p = M_free" "tp_count p = tp_queue_size p" "err = threadpool_queue_full" "r = Some p"
  | "tp_lock p = M_free" "tp_shutdown p \<noteq> 0" "err = threadpool_shutdown" "r = Some p"
  | q' tl p' where "tp_lock p = M_free" "tp_count p < tp_queue_size p" "tp_shutdown p = 0" "err = 0"
      "r = Some p'" "p' = p\<lparr>tp_queue := Some q', tp_tail := tl, tp_count := tp_count p + 1\<rparr>"
      "ring_ok p'" "ring_items p' = ring_items p @ [\<lparr>task_function = f, task_argument = a\<rparr>]"
proof -
  have free: "tp_lock p = M_free"
    using assms(1) by (auto simp: threadpool_add_def all_ok_add_def outcome_simps pthread_mutex_lock_Ret0)
  consider "tp_count p = tp_queue_size p" | "tp_count p \<noteq> tp_queue_size p" "tp_shutdown p \<noteq> 0"
    | "tp_count p < tp_queue_size p" "tp_shutdown p = 0"
    using ring_ok_bounds(2) [OF assms(2)] by linarith
  then show thesis
  proof cases
    case 1
    with threadpool_add_full [OF assms(2) free, of t f a] assms(1) free show thesis by (auto intro: that(1))
  next
    case 2
    with threadpool_add_closed [OF assms(2) free, of t f a] assms(1) free show thesis by (auto intro: that(2))
  next
    case 3
    obtain q' tl where
      "threadpool_add t all_ok_add (Some p) (Some f) a =
         Ret (0, Some (p\<lparr>tp_queue := Some q', tp_tail := tl, tp_count := tp_count p + 1\<rparr>))"
      "ring_ok (p\<lparr>tp_queue := Some q', tp_tail := tl, tp_count := tp_count p + 1\<rparr>)"
      "ring_items (p\<lparr>tp_queue := Some q', tp_tail := tl, tp_count := tp_count p + 1\<rparr>) =
         ring_items p @ [\<lparr>task_function = f, task_argument = a\<rparr>]"
      using threadpool_add_accepts [OF assms(2) free 3, of t f a] unfolding Let_def by blast
    with 3 free assms(1) show thesis by (intro that(3)) auto
  qed
qed

lemma destroy_begin_cases [consumes 1, case_names already begins]:
  assumes "destroy_begin t all_ok_destroy flags (Some p) = Ret (err, r, joins)"
  obtains "tp_lock p = M_free" "tp_shutdown p \<noteq> 0" "err = threadpool_shutdown"
      "r = Some (p\<lparr>tp_lock := M_held t\<rparr>)" "\<not> joins"
  | sd where "tp_lock p = M_free" "tp_shutdown p = 0" "err = 0" "joins"
      "sd = (if flags AND threadpool_graceful \<noteq> 0 then graceful_shutdown else immediate_shutdown)"
      "r = Some (p\<lparr>tp_shutdown := sd\<rparr>)"
proof (cases "tp_lock p = M_free")
  case True
  then show thesis
    using assms that by (cases "tp_shutdown p = 0") (auto simp: destroy_begin_def all_ok_destroy_def Let_def)
next
  case False
  with assms show thesis
    by (auto simp: destroy_begin_def all_ok_destroy_def outcome_simps pthread_mutex_lock_Ret0)
qed

lemma destroy_finish_ok:
  assumes "tp_started p = 0" "tp_threads p = Some ts" "tp_notify p" "tp_lock p \<noteq> M_uninit" "tp_lock p \<noteq> M_destroyed"
  shows "destroy_finish t 0 p = (if tp_lock p = M_free then Ret (0, None) else Blocked)"
  using assms by (cases "tp_lock p") (auto simp: destroy_finish_def threadpool_free_def pthread_mutex_destroy_def
      pthread_cond_destroy_def)

lemma wake_one_keeps:
  assumes "w < length pcs" "pcs ! w = Waiting"
  shows "locks_ok pcs m \<Longrightarrow> locks_ok (pcs[w := Woken]) m"
    and "threads_ok p pcs \<Longrightarrow> threads_ok p (pcs[w := Woken])"
    and "leave_ok p pcs \<Longrightarrow> leave_ok p (pcs[w := Woken])"
    and "join_ok pcs d \<Longrightarrow> join_ok (pcs[w := Woken]) d"
proof -
  show "locks_ok pcs m \<Longrightarrow> locks_ok (pcs[w := Woken]) m"
    using assms by (auto simp: locks_ok_def nth_list_update)
  show "threads_ok p pcs \<Longrightarrow> threads_ok p (pcs[w := Woken])"
    using assms sum_list_update_same [of w pcs active Woken] by (simp add: threads_ok_def)
  show "leave_ok p pcs \<Longrightarrow> leave_ok p (pcs[w := Woken])"
    using set_update_subset_insert [of pcs w Woken] unfolding leave_ok_def by fastforce
  show "join_ok pcs d \<Longrightarrow> join_ok (pcs[w := Woken]) d"
    using assms by (force simp: join_ok_def nth_list_update)
qed

lemma wake_one_wait:
  assumes "w < length pcs" "pcs ! w = Waiting" "wait_ok p pcs" "tp_shutdown p' = tp_shutdown p"
  shows "wait_ok p' (pcs[w := Woken])"
proof -
  have "tp_shutdown p = 0" using assms(1-3) nth_mem [OF assms(1)] unfolding wait_ok_def by auto
  moreover have "Woken \<in> set (pcs[w := Woken])" using assms(1) by (rule set_update_memI)
  ultimately show ?thesis using assms(4) by (auto simp: wait_ok_def intro: bexI [of _ Woken])
qed

lemma wake_all_keeps:
  fixes pcs :: "('f, 'a) wpc list"
  shows "locks_ok pcs m \<Longrightarrow> locks_ok (map wake pcs) m"
    and "threads_ok p pcs \<Longrightarrow> threads_ok p (map wake pcs)"
    and "Waiting \<notin> set (map wake pcs)"
    and "gone pc \<Longrightarrow> pc \<in> set (map wake pcs) \<Longrightarrow> pc \<in> set pcs"
proof -
  have "holds_lock (wake pc) = holds_lock pc" for pc :: "('f, 'a) wpc" by (simp add: wake_def)
  then show "locks_ok pcs m \<Longrightarrow> locks_ok (map wake pcs) m"
    unfolding locks_ok_def by (metis length_map nth_map)
  have "active (wake pc) = active pc" for pc :: "('f, 'a) wpc" by (simp add: wake_def)
  then show "threads_ok p pcs \<Longrightarrow> threads_ok p (map wake pcs)"
    using sum_list_map_cong_map [of pcs active wake] by (simp add: threads_ok_def)
  show "Waiting \<notin> set (map wake pcs)" by (auto simp: wake_def split: if_splits)
  show "gone pc \<Longrightarrow> pc \<in> set (map wake pcs) \<Longrightarrow> pc \<in> set pcs"
    by (auto simp: wake_def split: if_splits)
qed

lemma spurious_inv:
  assumes "tp_inv s" "tp_step (Spurious w) s = Ret t"
  shows "tp_inv t"
proof -
  from assms(2) have w: "w < length (sys_pcs s)" "sys_pcs s ! w = Waiting"
    and t: "t = s\<lparr>sys_pcs := (sys_pcs s)[w := Woken]\<rparr>"
    by (auto split: if_splits)
  from w have "Waiting \<in> set (sys_pcs s)" by (metis nth_mem)
  with assms(1) obtain p where "sys_pool s = Some p" by (auto simp: tp_inv_def split: option.splits)
  with assms(1) show ?thesis
    using wake_one_keeps [OF w] wake_one_wait [OF w _ refl] by (simp add: tp_inv_def t)
qed

lemma add_inv:
  assumes "tp_inv s" "tp_step (Add c f a ch) s = Ret t"
  shows "tp_inv t"
proof -
  from assms(2) obtain p err r where p: "sys_pool s = Some p"
    and add: "threadpool_add (Client c) all_ok_add (Some p) (Some f) a = Ret (err, r)"
    and t: "t = (if err = 0 then s\<lparr>sys_pool := r, sys_pcs := signal ch (sys_pcs s),
        log_submitted := log_submitted s @ [\<lparr>task_function = f, task_argument = a\<rparr>]\<rparr>
      else s\<lparr>sys_pool := r\<rparr>)" and ch: "err = 0 \<longrightarrow> signal_ok ch (sys_pcs s)"
    by (auto simp: outcome_simps split: if_splits)
  from assms(1) p have inv: "ring_ok p" "shutdown_ok p (sys_destroyer s)"
      "locks_ok (sys_pcs s) (tp_lock p)" "threads_ok p (sys_pcs s)" "leave_ok p (sys_pcs s)"
      "wait_ok p (sys_pcs s)" "join_ok (sys_pcs s) (sys_destroyer s)"
    by (simp_all add: tp_inv_def)
  from add inv(1) show ?thesis
  proof (cases rule: threadpool_add_cases)
    case (added q' tl p')
    have leave: "leave_ok p' (sys_pcs s)" using inv(5) added by (auto simp: leave_ok_def)
    show ?thesis
    proof (cases ch)
      case None
      with ch added have "Waiting \<notin> set (sys_pcs s)" by (simp add: signal_ok_def)
      then have "wait_ok p' (sys_pcs s)"
        unfolding wait_ok_def by (metis last_in_set)
      with None leave inv added show ?thesis by (simp add: tp_inv_def t signal_def)
    next
      case (Some w)
      with ch added have w: "w < length (sys_pcs s)" "sys_pcs s ! w = Waiting"
        by (simp_all add: signal_ok_def)
      with Some leave inv added show ?thesis
        using wake_one_keeps [OF w] wake_one_wait [OF w inv(6), of p']
        by (simp add: tp_inv_def t signal_def)
    qed
  qed (use assms(1) p t in \<open>simp_all add: tp_inv_def\<close>)
qed

lemma destroy_inv:
  assumes "tp_inv s" "tp_step (Destroy c flags) s = Ret t"
  shows "tp_inv t"
proof -
  from assms(2) obtain p err r joins where p: "sys_pool s = Some p"
    and des: "destroy_begin (Client c) all_ok_destroy flags (Some p) = Ret (err, r, joins)"
    and t: "t = (if joins then s\<lparr>sys_pool := r, sys_pcs := map wake (sys_pcs s),
          sys_destroyer := Joining c 0\<rparr> else s\<lparr>sys_pool := r\<rparr>)"
    by (auto simp: outcome_simps split: if_splits)
  from assms(1) p have inv: "ring_ok p" "shutdown_ok p (sys_destroyer s)"
      "locks_ok (sys_pcs s) (tp_lock p)" "threads_ok p (sys_pcs s)" "leave_ok p (sys_pcs s)"
      "wait_ok p (sys_pcs s)" "join_ok (sys_pcs s) (sys_destroyer s)"
    by (simp_all add: tp_inv_def)
  from des show ?thesis
  proof (cases rule: destroy_begin_cases)
    case already
    with inv have "locks_ok (sys_pcs s) (M_held (Client c))" by (simp add: locks_ok_def)
    with already inv show ?thesis by (simp add: tp_inv_def t)
  next
    case (begins sd)
    then have sd: "sd \<noteq> 0" "sd = immediate_shutdown \<or> sd = graceful_shutdown" by (auto split: if_splits)
    have "leave_ok (p\<lparr>tp_shutdown := sd\<rparr>) (map wake (sys_pcs s))"
      using inv(5) begins(2) wake_all_keeps(4) unfolding leave_ok_def by blast
    moreover have "wait_ok (p\<lparr>tp_shutdown := sd\<rparr>) (map wake (sys_pcs s))"
      using sd wake_all_keeps(3) by (simp add: wait_ok_def)
    moreover have "shutdown_ok (p\<lparr>tp_shutdown := sd\<rparr>) (Joining c 0)" "join_ok (map wake (sys_pcs s)) (Joining c 0)"
      using sd by (auto simp: shutdown_ok_def join_ok_def)
    ultimately show ?thesis
      using begins inv(1) wake_all_keeps(1) [OF inv(3)] wake_all_keeps(2) [OF inv(4)]
      by (simp add: tp_inv_def t)
  qed
qed

lemma all_exited_started:
  assumes "threads_ok p pcs" "\<forall>pc\<in>set pcs. pc = Exited"
  shows "tp_started p = 0"
proof -
  have "sum_list (map active pcs) = 0"
    unfolding sum_list_map_zero_iff using assms(2) by auto
  with assms(1) show ?thesis by (simp add: threads_ok_def)
qed

text \<open>A join waits for its worker; after the last one the pool is freed.\<close>

lemma join_cases [consumes 2, case_names next_join freed]:
  assumes "tp_inv s" "tp_step Join s = Ret t"
  obtains p c i where "sys_pool s = Some p" "sys_destroyer s = Joining c i" "i < length (sys_pcs s)"
      "sys_pcs s ! i = Exited" "t = s\<lparr>sys_destroyer := Joining c (Suc i)\<rparr>"
  | p c where "sys_pool s = Some p" "sys_destroyer s = Joining c (length (sys_pcs s))"
      "\<forall>pc\<in>set (sys_pcs s). pc = Exited"
      "t = s\<lparr>sys_pool := None, sys_destroyer := Destroy_returned 0,
             log_discarded := log_discarded s @ ring_items p\<rparr>" "tp_lock p = M_free"
proof -
  from assms(2) obtain c i p where d: "sys_destroyer s = Joining c i" and p: "sys_pool s = Some p"
    by (auto split: dpc.splits option.splits)
  from assms(1) p have th: "threads_ok p (sys_pcs s)" and lk: "locks_ok (sys_pcs s) (tp_lock p)"
    and jn: "i \<le> length (sys_pcs s)" "\<forall>j<i. sys_pcs s ! j = Exited"
    using d by (auto simp: tp_inv_def join_ok_def)
  from th obtain ts where ts: "tp_threads p = Some ts" "length (sys_pcs s) \<le> length ts"
      "\<forall>i<length (sys_pcs s). ts ! i = Some i" "tp_thread_count p = int (length (sys_pcs s))" "tp_notify p"
    by (auto simp: threads_ok_def)
  show thesis
  proof (cases "i < length (sys_pcs s)")
    case True
    with ts have "array_get ts (int i) = Ret i" by simp
    with assms(2) d p ts True show thesis by (intro that(1) [OF p d True]) (auto split: if_splits)
  next
    case False
    with jn have i: "i = length (sys_pcs s)" and all: "\<forall>pc\<in>set (sys_pcs s). pc = Exited"
      by (auto simp: in_set_conv_nth)
    have "destroy_finish (Client c) 0 p = (if tp_lock p = M_free then Ret (0, None) else Blocked)"
      using lk by (intro destroy_finish_ok [OF all_exited_started [OF th all] ts(1) ts(5)])
        (auto simp: locks_ok_def)
    with assms(2) d p ts i all show thesis
      by (intro that(2) [of p c]) (auto split: if_splits)
  qed
qed

lemma join_inv:
  assumes "tp_inv s" "tp_step Join s = Ret t"
  shows "tp_inv t"
  using assms
proof (cases rule: join_cases)
  case (next_join p c i)
  with assms(1) have "join_ok (sys_pcs s) (Joining c (Suc i))" "shutdown_ok p (Joining c (Suc i))"
    by (auto simp: tp_inv_def join_ok_def shutdown_ok_def less_Suc_eq)
  with next_join assms(1) show ?thesis by (simp add: tp_inv_def)
next
  case (freed p c)
  then show ?thesis by (simp add: tp_inv_def)
qed

lemma tp_inv_step: "tp_inv s \<Longrightarrow> tp_step l s = Ret t \<Longrightarrow> tp_inv t"
  by (cases l) (blast intro: work_inv spurious_inv add_inv destroy_inv join_inv)+

lemma fresh_pool_inv:
  assumes "fresh_pool n q p"
  shows "tp_inv (start_sys p)"
proof -
  from assms have count: "tp_count p = 0"
    using ring_items_empty_iff by (auto simp: fresh_pool_def)
  from assms show ?thesis
    by (auto simp: fresh_pool_def tp_inv_def start_sys_def locks_ok_def threads_ok_def shutdown_ok_def
        leave_ok_def wait_ok_def join_ok_def count sum_list_replicate nat_le_iff)
qed

lemma created_inits:
  fixes p :: "('f, 'a) threadpool_t"
  assumes "threadpool_create t env n q = Ret (Created p) \<or> threadpool_create t env n q = Ret (Create_cleanup p)"
  shows "malloc_pool env" "mutex_init_rc env = 0" "cond_init_rc env = 0" "has_threads env n" "has_queue env q"
proof -
  show pool: "malloc_pool env"
    using assms by (cases "malloc_pool env") (auto simp: threadpool_create_def)
  have "\<not> (mutex_init_rc env \<noteq> 0 \<or> cond_init_rc env \<noteq> 0 \<or> \<not> has_threads env n \<or> \<not> has_queue env q)"
    (is "\<not> ?bad")
  proof
    assume ?bad
    from assms show False
      by (simp only: threadpool_create_failing [OF \<open>?bad\<close> pool] split: if_splits) auto
  qed
  then show "mutex_init_rc env = 0" "cond_init_rc env = 0" "has_threads env n" "has_queue env q" by auto
qed

lemma created_fresh:
  fixes p :: "('f, 'a) threadpool_t"
  assumes "malloc_sane env" "in_int n" "in_int q"
    and "threadpool_create t env n q = Ret (Created p) \<or> threadpool_create t env n q = Ret (Create_cleanup p)"
  shows "\<exists>k. fresh_pool k q p"
  using threadpool_create_starting [OF assms(1-3) created_inits [OF assms(4)], where ?'f = 'f and ?'a = 'a and t = t] assms(4)
  by auto

lemma tp_inv_init: "tp_init s \<Longrightarrow> tp_inv s"
  using created_fresh fresh_pool_inv unfolding tp_init_def by metis

interpretation tp: invariant_system tp_step tp_init tp_inv
  by unfold_locales (blast intro: tp_inv_init tp_inv_step)+

section \<open>Refinement of the abstract pool\<close>

definition tp_view :: "('f, 'a) tp_sys \<Rightarrow> ('f, 'a) threadpool_task_t pool_view" where
  "tp_view s = \<lparr>submitted = log_submitted s,
     pending = (case sys_pool s of None \<Rightarrow> [] | Some p \<Rightarrow> ring_items p),
     begun = log_begun s, running = sum_list (map task_of (sys_pcs s)),
     finished = log_finished s, discarded = log_discarded s\<rparr>"

lemma work_view:
  assumes "tp_inv s" "tp_step (Work w) s = Ret t"
  shows "pool_step Fifo (tp_view s) (tp_view t)"
proof -
  from assms(2) obtain p pc' p' where w: "w < length (sys_pcs s)" and p: "sys_pool s = Some p"
    and step: "thread_step w (sys_pcs s ! w) p = Ret (pc', p')"
    and t: "t = s\<lparr>sys_pool := Some p', sys_pcs := (sys_pcs s)[w := pc'],
        log_begun := log_begun s @ newly_begun pc',
        log_finished := log_finished s + newly_finished (sys_pcs s ! w)\<rparr>"
    by (auto simp: outcome_simps split: if_splits option.splits)
  have ring: "ring_ok p" and sd: "tp_shutdown p \<in> {0, immediate_shutdown, graceful_shutdown}"
    using assms(1) p shutdown_ok_codes by (auto simp: tp_inv_def)
  have sum: "sum_list (map task_of ((sys_pcs s)[w := pc'])) + task_of (sys_pcs s ! w) =
      sum_list (map task_of (sys_pcs s)) + task_of pc'"
    by (rule sum_list_update_add [OF w])
  from step ring sd show ?thesis
  proof (cases rule: thread_step_cases)
    case (grab x xs h)
    then have "tp_view t = (tp_view s)\<lparr>pending := xs, begun := begun (tp_view s) @ [x],
        running := add_mset x (running (tp_view s))\<rparr>"
      using sum by (simp add: tp_view_def t)
    moreover have "pending (tp_view s) = x # xs" using grab p by (simp add: tp_view_def)
    ultimately show ?thesis using pool_step.take by metis
  next
    case (finish x)
    then have run: "sum_list (map task_of (sys_pcs s)) =
        add_mset x (sum_list (map task_of ((sys_pcs s)[w := pc'])))"
      using sum by simp
    then have "tp_view t = (tp_view s)\<lparr>running := running (tp_view s) - {#x#},
        finished := add_mset x (finished (tp_view s))\<rparr>"
      using finish p by (simp add: tp_view_def t)
    moreover have "x \<in># running (tp_view s)" using run by (simp add: tp_view_def)
    ultimately show ?thesis using pool_step.complete by metis
  qed (use sum p in \<open>auto simp: tp_view_def t intro: pool_step.silent\<close>)
qed

lemma add_view:
  assumes "tp_inv s" "tp_step (Add c f a ch) s = Ret t"
  shows "pool_step Fifo (tp_view s) (tp_view t)"
proof -
  from assms(2) obtain p err r where p: "sys_pool s = Some p"
    and add: "threadpool_add (Client c) all_ok_add (Some p) (Some f) a = Ret (err, r)"
    and t: "t = (if err = 0 then s\<lparr>sys_pool := r, sys_pcs := signal ch (sys_pcs s),
        log_submitted := log_submitted s @ [\<lparr>task_function = f, task_argument = a\<rparr>]\<rparr>
      else s\<lparr>sys_pool := r\<rparr>)" and ch: "err = 0 \<longrightarrow> signal_ok ch (sys_pcs s)"
    by (auto simp: outcome_simps split: if_splits)
  have ring: "ring_ok p" using assms(1) p by (simp add: tp_inv_def)
  from add ring show ?thesis
  proof (cases rule: threadpool_add_cases)
    case (added q' tl p')
    have "sum_list (map task_of (signal ch (sys_pcs s))) = sum_list (map task_of (sys_pcs s))"
      using ch added sum_list_update_same [of _ "sys_pcs s" task_of Woken]
      by (auto simp: signal_def signal_ok_def split: option.splits)
    then have "tp_view t = (tp_view s)\<lparr>submitted := submitted (tp_view s) @ [\<lparr>task_function = f, task_argument = a\<rparr>],
        pending := insert_pending Fifo \<lparr>task_function = f, task_argument = a\<rparr> (pending (tp_view s))\<rparr>"
      using added p by (simp add: tp_view_def t)
    then show ?thesis using pool_step.submit by metis
  qed (use p in \<open>simp_all add: tp_view_def t pool_step.silent\<close>)
qed

lemma destroy_view:
  assumes "tp_step (Destroy c flags) s = Ret t"
  shows "pool_step Fifo (tp_view s) (tp_view t)"
proof -
  from assms obtain p err r joins where p: "sys_pool s = Some p"
    and des: "destroy_begin (Client c) all_ok_destroy flags (Some p) = Ret (err, r, joins)"
    and t: "t = (if joins then s\<lparr>sys_pool := r, sys_pcs := map wake (sys_pcs s),
          sys_destroyer := Joining c 0\<rparr> else s\<lparr>sys_pool := r\<rparr>)"
    by (auto simp: outcome_simps split: if_splits)
  have "sum_list (map task_of (map wake (sys_pcs s))) = sum_list (map task_of (sys_pcs s))"
    by (rule sum_list_map_cong_map) (simp add: wake_def)
  with des p have "tp_view t = tp_view s"
    by (cases rule: destroy_begin_cases) (simp_all add: tp_view_def t)
  then show ?thesis by (simp add: pool_step.silent)
qed

lemma join_view:
  assumes "tp_inv s" "tp_step Join s = Ret t"
  shows "pool_step Fifo (tp_view s) (tp_view t)"
  using assms
proof (cases rule: join_cases)
  case next_join
  then show ?thesis by (simp add: tp_view_def pool_step.silent)
next
  case (freed p c)
  then have "tp_view t = (tp_view s)\<lparr>pending := [], discarded := discarded (tp_view s) @ pending (tp_view s)\<rparr>"
    by (simp add: tp_view_def)
  then show ?thesis using pool_step.discard by metis
qed

lemma spurious_view:
  assumes "tp_step (Spurious w) s = Ret t"
  shows "pool_step Fifo (tp_view s) (tp_view t)"
proof -
  have "tp_view t = tp_view s"
    using assms sum_list_update_same [of w "sys_pcs s" task_of Woken]
    by (auto simp: tp_view_def split: if_splits)
  then show ?thesis by (simp add: pool_step.silent)
qed

lemma fresh_pool_view: "fresh_pool n q p \<Longrightarrow> tp_view (start_sys p) = empty_view"
  by (auto simp: tp_view_def start_sys_def empty_view_def fresh_pool_def)

interpretation tpv: pool_refinement tp_step tp_init tp_inv Fifo tp_view
proof (unfold_locales, goal_cases)
  case (1 s)
  then show ?case using created_fresh fresh_pool_view unfolding tp_init_def by metis
next
  case (2 s l t)
  then show ?case
    by (cases l) (blast intro: work_view spurious_view add_view destroy_view join_view)+
qed

section \<open>Safety and progress of the pool's own threads\<close>

text \<open>How many steps a worker can still take before it waits, has exited, or takes another task.\<close>

fun pc_work :: "('f, 'a) wpc \<Rightarrow> nat" where
  "pc_work At_lock = 4"
| "pc_work Woken = 4"
| "pc_work Testing = 3"
| "pc_work Waiting = 0"
| "pc_work (Grabbed t) = 6"
| "pc_work (Executing t) = 5"
| "pc_work Leaving = 2"
| "pc_work Signed_off = 1"
| "pc_work Exited = 0"

definition join_work :: "('f, 'a) tp_sys \<Rightarrow> nat" where
  "join_work s =
     (case sys_destroyer s of Joining c i \<Rightarrow> Suc (length (sys_pcs s) - i) | _ \<Rightarrow> 0)"

definition tp_work :: "('f, 'a) tp_sys \<Rightarrow> nat" where
  "tp_work s =
     (case sys_pool s of None \<Rightarrow> 0 | Some p \<Rightarrow> 4 * nat (tp_count p)) +
     sum_list (map pc_work (sys_pcs s)) + join_work s"

lemma work_decreases_worker:
  assumes "tp_inv s" "tp_step (Work w) s = Ret t"
  shows "tp_work t < tp_work s"
proof -
  from assms(2) obtain p pc' p' where w: "w < length (sys_pcs s)" and p: "sys_pool s = Some p"
    and step: "thread_step w (sys_pcs s ! w) p = Ret (pc', p')"
    and t: "sys_pool t = Some p'" "sys_pcs t = (sys_pcs s)[w := pc']"
      "sys_destroyer t = sys_destroyer s"
    by (auto simp: outcome_simps split: if_splits option.splits)
  have ring: "ring_ok p" and sd: "tp_shutdown p \<in> {0, immediate_shutdown, graceful_shutdown}"
    using assms(1) p shutdown_ok_codes by (auto simp: tp_inv_def)
  have sum: "sum_list (map pc_work ((sys_pcs s)[w := pc'])) + pc_work (sys_pcs s ! w) =
      sum_list (map pc_work (sys_pcs s)) + pc_work pc'"
    by (rule sum_list_update_add [OF w])
  from step ring sd have "4 * nat (tp_count p') + pc_work pc' < 4 * nat (tp_count p) + pc_work (sys_pcs s ! w)"
    by (cases rule: thread_step_cases) auto
  moreover have "join_work t = join_work s" by (simp add: join_work_def t split: dpc.splits)
  ultimately show ?thesis using sum by (simp add: tp_work_def p t)
qed

lemma work_decreases_join:
  assumes "tp_inv s" "tp_step Join s = Ret t"
  shows "tp_work t < tp_work s"
  using assms by (cases rule: join_cases) (auto simp: tp_work_def join_work_def)

text \<open>A worker of a well-formed state never has undefined behaviour, and says when it is blocked.\<close>

lemma thread_step_progress:
  fixes pcs :: "('f, 'a) wpc list"
  assumes "ring_ok p" "locks_ok pcs (tp_lock p)" "threads_ok p pcs" "shutdown_ok p d" "w < length pcs"
  shows "(\<exists>r. thread_step w (pcs ! w) p = Ret r) \<or>
    thread_step w (pcs ! w) p = Blocked \<and> (pcs ! w = Waiting \<or> pcs ! w = Exited \<or>
      (pcs ! w = At_lock \<or> pcs ! w = Woken) \<and> (\<exists>t. tp_lock p = M_held t))"
proof -
  have lock: "tp_lock p = M_held (Worker w)" if "holds_lock (pcs ! w)"
    using assms(2,5) that by (simp add: locks_ok_def)
  have free: "tp_lock p = M_free \<or> (\<exists>t. tp_lock p = M_held t)"
    using assms(2) by (cases "tp_lock p") (auto simp: locks_ok_def)
  show ?thesis
  proof (cases "pcs ! w")
    case At_lock
    with free show ?thesis by auto
  next
    case Woken
    with free show ?thesis by auto
  next
    case Testing
    show ?thesis
    proof (cases "thread_waits p \<or> thread_leaves p")
      case True
      with Testing lock show ?thesis by auto
    next
      case False
      with shutdown_ok_codes [OF assms(4)] have "tp_count p \<noteq> 0"
        by (auto simp: thread_waits_def thread_leaves_def)
      then obtain x xs where "ring_items p = x # xs"
        using ring_items_empty_iff [OF assms(1)] by (cases "ring_items p") auto
      from ring.get_ok [OF assms(1) this] False Testing show ?thesis by auto
    qed
  next
    case Leaving
    have "0 < sum_list (map active pcs)"
      using sum_list_member_le [OF assms(5), of active] Leaving by simp
    moreover have "sum_list (map active pcs) \<le> length pcs"
    proof -
      have "active pc \<le> 1" for pc :: "('f, 'a) wpc" by (cases pc) auto
      then show ?thesis using sum_list_mono [of pcs active "\<lambda>_. 1"] by (simp add: sum_list_triv)
    qed
    ultimately have "in_int (tp_started p - 1)"
      using assms(3) by (auto simp: threads_ok_def in_int_def INT_MIN_def)
    with Leaving show ?thesis by (simp add: thread_sign_off_def c_sub_def)
  qed (use lock in auto)
qed

lemma own_no_ub:
  assumes "tp_inv s" "tp_own l"
  shows "tp_step l s \<noteq> UB u"
proof (cases l)
  case (Work w)
  show ?thesis
  proof (cases "sys_pool s")
    case None
    with assms(1) Work show ?thesis by (auto simp: tp_inv_def)
  next
    case (Some p)
    with assms(1) Work show ?thesis
      using thread_step_progress [of p "sys_pcs s" "sys_destroyer s" w]
      by (auto simp: tp_inv_def outcome_simps)
  qed
next
  case Join
  show ?thesis
  proof (cases "sys_destroyer s")
    case (Joining c i)
    with assms(1) obtain p where p: "sys_pool s = Some p" by (auto simp: tp_inv_def split: option.splits)
    with assms(1) Joining have th: "threads_ok p (sys_pcs s)" and lk: "locks_ok (sys_pcs s) (tp_lock p)"
      and jn: "i \<le> length (sys_pcs s)" "\<forall>j<i. sys_pcs s ! j = Exited"
      by (auto simp: tp_inv_def join_ok_def)
    from th obtain ts where ts: "tp_threads p = Some ts" "length (sys_pcs s) \<le> length ts"
        "\<forall>i<length (sys_pcs s). ts ! i = Some i" "tp_thread_count p = int (length (sys_pcs s))" "tp_notify p"
      by (auto simp: threads_ok_def)
    show ?thesis
    proof (cases "i < length (sys_pcs s)")
      case True
      with ts have "array_get ts (int i) = Ret i" by simp
      with True ts Joining Join p show ?thesis by simp
    next
      case False
      with jn have all: "\<forall>pc\<in>set (sys_pcs s). pc = Exited" by (auto simp: in_set_conv_nth)
      have "destroy_finish (Client c) 0 p = (if tp_lock p = M_free then Ret (0, None) else Blocked)"
        using lk by (intro destroy_finish_ok [OF all_exited_started [OF th all] ts(1) ts(5)])
          (auto simp: locks_ok_def)
      with False ts Joining Join p show ?thesis by simp
    qed
  qed (use Join in simp_all)
qed (use assms(2) in simp_all)

interpretation tps: safe_system tp_step tp_init tp_inv tp_own
  by unfold_locales (use own_no_ub in blast)

interpretation tpd: draining_system tp_step tp_init tp_inv tp_own tp_work
proof (unfold_locales, goal_cases)
  case (1 s l t)
  then show ?case by (cases l) (auto intro: work_decreases_worker work_decreases_join simp del: tp_step.simps)
qed

end
