(* ===== verification/Threadpool_Theorems.thy ===== *)
theory Threadpool_Theorems
  imports Threadpool_Workers
begin

text \<open>
  What callers of \<open>threadpool.c\<close> can rely on, stated over whole executions: the runs of \<open>tp_step\<close>
  from the states \<open>threadpool_create\<close> leaves behind. The first section says where the pool's own
  steps stop; the properties follow.
\<close>

section \<open>Quiescent states\<close>

text \<open>No caller keeps the lock. Only a second \<open>threadpool_destroy\<close> breaks this.\<close>

definition callers_unlocked :: "('f, 'a) tp_sys \<Rightarrow> bool" where
  "callers_unlocked s \<longleftrightarrow> (\<forall>p c. sys_pool s = Some p \<longrightarrow> tp_lock p \<noteq> M_held (Client c))"

fun is_destroy :: "('f, 'a) tp_label \<Rightarrow> bool" where
  "is_destroy (Destroy c flags) = True"
| "is_destroy _ = False"

fun is_abrupt :: "('f, 'a) tp_label \<Rightarrow> bool" where
  "is_abrupt (Destroy c flags) = (flags AND threadpool_graceful = 0)"
| "is_abrupt _ = False"

lemma free_or_worker:
  assumes "tp_inv s" "callers_unlocked s" "sys_pool s = Some p"
  shows "tp_lock p = M_free \<or> (\<exists>w<length (sys_pcs s). tp_lock p = M_held (Worker w) \<and> holds_lock (sys_pcs s ! w))"
proof (cases "tp_lock p")
  case (M_held t)
  then show ?thesis
    using assms by (cases t) (auto simp: callers_unlocked_def tp_inv_def locks_ok_def)
qed (use assms in \<open>auto simp: tp_inv_def locks_ok_def\<close>)

lemma quiescent_worker:
  assumes "tp_inv s" "callers_unlocked s" "quiescent tp_step tp_own s" "pc \<in> set (sys_pcs s)"
  shows "pc = Waiting \<or> pc = Exited"
proof (cases "sys_pool s")
  case None
  with assms show ?thesis by (auto simp: tp_inv_def)
next
  case (Some p)
  have stuck: "thread_step w (sys_pcs s ! w) p = Blocked \<and> (sys_pcs s ! w = Waiting \<or> sys_pcs s ! w = Exited \<or>
      (sys_pcs s ! w = At_lock \<or> sys_pcs s ! w = Woken) \<and> (\<exists>t. tp_lock p = M_held t))"
    if "w < length (sys_pcs s)" for w
  proof -
    have "\<nexists>t. tp_step (Work w) s = Ret t"
      using assms(3) unfolding quiescent_def by (metis tp_own.simps(1))
    with that Some have "thread_step w (sys_pcs s ! w) p \<noteq> Ret r" for r
      by (cases r) auto
    with thread_step_progress [of p "sys_pcs s" "sys_destroyer s" w] assms(1) Some that show ?thesis
      by (auto simp: tp_inv_def)
  qed
  have "tp_lock p = M_free" using free_or_worker [OF assms(1,2) Some] stuck by fastforce
  with assms(4) stuck show ?thesis by (auto simp: in_set_conv_nth)
qed

lemma quiescent_destroyer:
  assumes "tp_inv s" "callers_unlocked s" "quiescent tp_step tp_own s"
  shows "sys_destroyer s \<noteq> Joining c i"
proof
  assume d: "sys_destroyer s = Joining c i"
  with assms(1) obtain p where p: "sys_pool s = Some p" by (cases "sys_pool s") (auto simp: tp_inv_def)
  have no_join: "tp_step Join s \<noteq> Ret t" for t
    using assms(3) unfolding quiescent_def by (metis tp_own.simps(2))
  from assms(1) p d have sd: "tp_shutdown p \<noteq> 0" and th: "threads_ok p (sys_pcs s)"
    and "Waiting \<notin> set (sys_pcs s)" and lk: "locks_ok (sys_pcs s) (tp_lock p)"
    by (auto simp: tp_inv_def shutdown_ok_def wait_ok_def)
  then have all: "\<forall>pc\<in>set (sys_pcs s). pc = Exited" using quiescent_worker [OF assms] by blast
  from th obtain ts where ts: "tp_threads p = Some ts" "length (sys_pcs s) \<le> length ts"
      "\<forall>i<length (sys_pcs s). ts ! i = Some i" "tp_thread_count p = int (length (sys_pcs s))" "tp_notify p"
    by (auto simp: threads_ok_def)
  have "tp_lock p = M_free" using free_or_worker [OF assms(1,2) p] all by (metis holds_lock.simps(9) nth_mem)
  then have "destroy_finish (Client c) 0 p = Ret (0, None)"
    using destroy_finish_ok [OF all_exited_started [OF th all] ts(1) ts(5)] by simp
  moreover have "array_get ts (int i) = Ret i" "sys_pcs s ! i = Exited" if "i < length (sys_pcs s)"
    using that ts all by auto
  ultimately have "\<exists>t. tp_step Join s = Ret t" using d p ts by (cases "i < length (sys_pcs s)") auto
  with no_join show False by blast
qed

text \<open>Only a call of \<open>threadpool_destroy\<close> on a pool that is being destroyed keeps the lock.\<close>

lemma callers_unlocked_step:
  assumes "tp_inv s" "tp_step l s = Ret t" "callers_unlocked s" "is_destroy l \<Longrightarrow> sys_destroyer s = Not_destroying"
  shows "callers_unlocked t"
proof (cases l)
  case (Work w)
  with assms(2) obtain p pc' p' where w: "w < length (sys_pcs s)" and p: "sys_pool s = Some p"
    and step: "thread_step w (sys_pcs s ! w) p = Ret (pc', p')" and t: "sys_pool t = Some p'"
    by (auto simp: outcome_simps split: if_splits option.splits)
  have ring: "ring_ok p" and sd: "tp_shutdown p \<in> {0, immediate_shutdown, graceful_shutdown}"
    using assms(1) p shutdown_ok_codes by (auto simp: tp_inv_def)
  from step ring sd show ?thesis
    by (cases rule: thread_step_cases) (use assms(3) p t in \<open>auto simp: callers_unlocked_def\<close>)
next
  case (Spurious w)
  with assms(2,3) show ?thesis by (auto simp: callers_unlocked_def split: if_splits)
next
  case (Add c f a ch)
  with assms(2) obtain p err r where p: "sys_pool s = Some p" and t: "sys_pool t = r"
    and add: "threadpool_add (Client c) all_ok_add (Some p) (Some f) a = Ret (err, r)"
    by (auto simp: outcome_simps split: if_splits)
  from assms(1) p have "ring_ok p" by (simp add: tp_inv_def)
  with add show ?thesis
    by (cases rule: threadpool_add_cases) (use t in \<open>auto simp: callers_unlocked_def\<close>)
next
  case (Destroy c flags)
  with assms(2) obtain p err r joins where p: "sys_pool s = Some p" and t: "sys_pool t = r"
    and des: "destroy_begin (Client c) all_ok_destroy flags (Some p) = Ret (err, r, joins)"
    by (auto simp: outcome_simps split: if_splits)
  have "tp_shutdown p = 0" using assms(1,4) p Destroy by (auto simp: tp_inv_def shutdown_ok_def)
  with des show ?thesis
    by (cases rule: destroy_begin_cases) (use t in \<open>auto simp: callers_unlocked_def\<close>)
next
  case Join
  with assms(2) have "tp_step Join s = Ret t" by simp
  with assms(1) show ?thesis
    by (cases rule: join_cases) (use assms(3) in \<open>auto simp: callers_unlocked_def\<close>)
qed

lemma destroyer_step:
  assumes "tp_step l s = Ret t" "\<not> is_destroy l" "sys_destroyer s = Not_destroying"
  shows "sys_destroyer t = Not_destroying"
  using assms by (cases l) (auto simp: outcome_simps split: if_splits option.splits)

lemma callers_unlocked_run:
  assumes "tp_inv s" "run tp_step ls s = Ret t" "callers_unlocked s"
    and "length (filter is_destroy ls) \<le> (if sys_destroyer s = Not_destroying then 1 else 0)"
  shows "callers_unlocked t"
  using assms
proof (induction ls arbitrary: s)
  case Nil
  then show ?case by simp
next
  case (Cons l ls)
  then obtain u where u: "tp_step l s = Ret u" "run tp_step ls u = Ret t" by (auto simp: outcome_simps)
  have "callers_unlocked u"
    using callers_unlocked_step [OF Cons.prems(1) u(1) Cons.prems(3)] Cons.prems(4) by (auto split: if_splits)
  moreover have "length (filter is_destroy ls) \<le> (if sys_destroyer u = Not_destroying then 1 else 0)"
    using Cons.prems(4) destroyer_step [OF u(1)] by (auto split: if_splits)
  ultimately show ?case using Cons.IH u(2) tp_inv_step [OF Cons.prems(1) u(1)] by blast
qed

lemma tp_init_start:
  assumes "tp_init s"
  shows "callers_unlocked s" "sys_destroyer s = Not_destroying" "log_discarded s = []"
    "\<And>p. sys_pool s = Some p \<Longrightarrow> tp_shutdown p = 0"
proof -
  from assms obtain k q p where "fresh_pool k q p" "s = start_sys p"
    unfolding tp_init_def using created_fresh by metis
  then show "callers_unlocked s" "sys_destroyer s = Not_destroying" "log_discarded s = []"
    "\<And>p. sys_pool s = Some p \<Longrightarrow> tp_shutdown p = 0"
    by (auto simp: start_sys_def callers_unlocked_def fresh_pool_def)
qed


text \<open>While no abrupt destroy is called, a pool with threads throws nothing away.\<close>

definition nothing_discarded :: "('f, 'a) tp_sys \<Rightarrow> bool" where
  "nothing_discarded s \<longleftrightarrow> tp_inv s \<and> sys_pcs s \<noteq> [] \<and> log_discarded s = [] \<and>
     (\<forall>p. sys_pool s = Some p \<longrightarrow> tp_shutdown p \<noteq> immediate_shutdown)"

lemma pcs_length_step:
  assumes "tp_step l s = Ret t"
  shows "length (sys_pcs t) = length (sys_pcs s)"
  using assms
  by (cases l) (auto simp: outcome_simps signal_def split: if_splits option.splits dpc.splits)

lemma nothing_discarded_step:
  assumes "nothing_discarded s" "\<not> is_abrupt l" "tp_step l s = Ret t"
  shows "nothing_discarded t"
proof -
  have inv: "tp_inv s" "sys_pcs s \<noteq> []" and none: "log_discarded s = []"
    and sd: "\<And>p. sys_pool s = Some p \<Longrightarrow> tp_shutdown p \<noteq> immediate_shutdown"
    using assms(1) by (auto simp: nothing_discarded_def)
  have "log_discarded t = [] \<and> (\<forall>p. sys_pool t = Some p \<longrightarrow> tp_shutdown p \<noteq> immediate_shutdown)"
  proof (cases l)
    case (Work w)
    with assms(3) obtain p pc' p' where w: "w < length (sys_pcs s)" and p: "sys_pool s = Some p"
      and step: "thread_step w (sys_pcs s ! w) p = Ret (pc', p')" and t: "sys_pool t = Some p'"
        "log_discarded t = log_discarded s"
      by (auto simp: outcome_simps split: if_splits option.splits)
    have "ring_ok p" and "tp_shutdown p \<in> {0, immediate_shutdown, graceful_shutdown}"
      using inv p shutdown_ok_codes by (auto simp: tp_inv_def)
    with step show ?thesis by (cases rule: thread_step_cases) (use sd [OF p] none t in auto)
  next
    case (Spurious w)
    with assms(3) none sd show ?thesis by (auto split: if_splits)
  next
    case (Add c f a ch)
    with assms(3) obtain p err r where p: "sys_pool s = Some p" and t: "sys_pool t = r"
      "log_discarded t = log_discarded s"
      and add: "threadpool_add (Client c) all_ok_add (Some p) (Some f) a = Ret (err, r)"
      by (auto simp: outcome_simps split: if_splits)
    from inv p have "ring_ok p" by (simp add: tp_inv_def)
    with add show ?thesis by (cases rule: threadpool_add_cases) (use sd [OF p] none t in auto)
  next
    case (Destroy c flags)
    with assms(3) obtain p err r joins where p: "sys_pool s = Some p" and t: "sys_pool t = r"
      "log_discarded t = log_discarded s"
      and des: "destroy_begin (Client c) all_ok_destroy flags (Some p) = Ret (err, r, joins)"
      by (auto simp: outcome_simps split: if_splits)
    from des show ?thesis
      by (cases rule: destroy_begin_cases) (use sd [OF p] none t assms(2) Destroy in auto)
  next
    case Join
    with assms(3) have "tp_step Join s = Ret t" by simp
    with inv(1) show ?thesis
    proof (cases rule: join_cases)
      case (freed p c)
      then have pc: "Exited \<in> set (sys_pcs s)" using inv(2) by (cases "sys_pcs s") auto
      have "shutdown_ok p (sys_destroyer s)" "ring_ok p" "leave_ok p (sys_pcs s)"
        using inv freed by (auto simp: tp_inv_def)
      then have "tp_count p = 0"
        using sd [OF freed(1)] freed(2) pc gone.simps(3)
        unfolding shutdown_ok_def leave_ok_def by blast
      then have "ring_items p = []" using ring_items_empty_iff [OF \<open>ring_ok p\<close>] by simp
      with freed none show ?thesis by simp
    qed (use none sd in auto)
  qed
  with inv pcs_length_step [OF assms(3)] tp_inv_step [OF inv(1) assms(3)] show ?thesis
    by (auto simp: nothing_discarded_def)
qed

lemma is_destroy_run:
  assumes "run tp_step ls s = Ret t" "list_ex is_destroy ls \<or> sys_destroyer s \<noteq> Not_destroying"
    and "tp_inv s"
  shows "sys_destroyer t \<noteq> Not_destroying"
  using assms
proof (induction ls arbitrary: s)
  case Nil
  then show ?case by simp
next
  case (Cons l ls)
  then obtain u where u: "tp_step l s = Ret u" "run tp_step ls u = Ret t" by (auto simp: outcome_simps)
  have "sys_destroyer u \<noteq> Not_destroying" if "is_destroy l"
  proof -
    from that obtain c flags where l: "l = Destroy c flags" by (cases l) auto
    with u(1) obtain p err r joins where p: "sys_pool s = Some p"
      and des: "destroy_begin (Client c) all_ok_destroy flags (Some p) = Ret (err, r, joins)"
      and d: "u = (if joins then s\<lparr>sys_pool := r, sys_pcs := map wake (sys_pcs s),
          sys_destroyer := Joining c 0\<rparr> else s\<lparr>sys_pool := r\<rparr>)"
      by (auto simp: outcome_simps split: if_splits)
    from des show ?thesis
      by (cases rule: destroy_begin_cases) (use d p Cons.prems(3) in \<open>auto simp: tp_inv_def shutdown_ok_def\<close>)
  qed
  moreover have "sys_destroyer u \<noteq> Not_destroying" if "sys_destroyer s \<noteq> Not_destroying"
    using that u(1) by (cases l) (auto simp: outcome_simps split: if_splits option.splits dpc.splits)
  ultimately show ?case
    using Cons.IH [OF u(2)] Cons.prems(2) tp_inv_step [OF Cons.prems(3) u(1)] by auto
qed

lemma own_logs:
  fixes s t :: "('f, 'a) tp_sys"
  assumes "run tp_step ks s = Ret t" "list_all tp_own ks"
  shows "log_submitted t = log_submitted s"
proof -
  have step: "log_submitted t = log_submitted s" if "tp_own l" "tp_step l s = Ret t"
    for l and s t :: "('f, 'a) tp_sys"
    using that by (cases l) (auto simp: outcome_simps split: if_splits option.splits dpc.splits)
  show ?thesis
    by (rule run_keeps [OF assms, where P = "\<lambda>u. log_submitted u = log_submitted s"]) (auto dest: step)
qed

lemma quiescent_running:
  assumes "\<And>pc. pc \<in> set (sys_pcs s) \<Longrightarrow> pc = Waiting \<or> pc = Exited"
  shows "running (tp_view s) = {#}"
proof -
  have "task_of pc = 0" if "pc \<in> set (sys_pcs s)" for pc using assms [OF that] by auto
  then show ?thesis by (simp add: tp_view_def sum_list_map_zero)
qed

text \<open>At a quiescent state of a pool with threads that nobody destroyed abruptly, nothing waits.\<close>

lemma quiescent_pending:
  assumes "tp_inv s" "callers_unlocked s" "quiescent tp_step tp_own s" "sys_pcs s \<noteq> []"
  shows "pending (tp_view s) = []"
proof (cases "sys_pool s")
  case None
  then show ?thesis by (simp add: tp_view_def)
next
  case (Some p)
  then have d: "sys_destroyer s = Not_destroying"
    using quiescent_destroyer [OF assms(1-3)] assms(1)
    by (cases "sys_destroyer s") (auto simp: tp_inv_def shutdown_ok_def)
  from assms(1) Some d have inv: "ring_ok p" "tp_shutdown p = 0" "leave_ok p (sys_pcs s)" "wait_ok p (sys_pcs s)"
    by (auto simp: tp_inv_def shutdown_ok_def)
  then have "pc = Waiting" if "pc \<in> set (sys_pcs s)" for pc
    using quiescent_worker [OF assms(1-3) that] that by (auto simp: leave_ok_def)
  then have "\<not> 0 < tp_count p" using inv(2,4) assms(4) by (auto simp: wait_ok_def)
  then have "tp_count p = 0" using ring_ok_bounds(1) [OF inv(1)] by linarith
  then show ?thesis using ring_items_empty_iff [OF inv(1)] Some by (simp add: tp_view_def)
qed


lemma own_label: "tp_own l \<Longrightarrow> \<not> is_destroy l" "tp_own l \<Longrightarrow> \<not> is_abrupt l"
  by (cases l; simp)+

lemma own_no_destroy: "list_all tp_own ks \<Longrightarrow> filter is_destroy ks = []" "list_all tp_own ks \<Longrightarrow> \<not> list_ex is_abrupt ks"
  by (induction ks) (auto dest: own_label)

lemma pcs_length_run:
  assumes "run tp_step ls s = Ret t"
  shows "length (sys_pcs t) = length (sys_pcs s)"
  using assms
proof (induction ls arbitrary: s)
  case Nil
  then show ?case by simp
next
  case (Cons l ls)
  then obtain u where "tp_step l s = Ret u" "run tp_step ls u = Ret t" by (auto simp: outcome_simps)
  with Cons.IH pcs_length_step show ?case by metis
qed

text \<open>Where the pool's own steps end after calls with at most one destroy.\<close>

lemma own_run_end:
  assumes "tp_init s0" "run tp_step ls s0 = Ret s" "length (filter is_destroy ls) \<le> 1"
    and "list_all tp_own ks" "run tp_step ks s = Ret t" "quiescent tp_step tp_own t"
  shows "tp_inv t" "callers_unlocked t" "running (tp_view t) = {#}" "pool_promise Fifo (tp_view t)"
    "list_ex is_destroy ls \<Longrightarrow> sys_pool t = None \<and> sys_destroyer t = Destroy_returned 0"
proof -
  have run: "run tp_step (ls @ ks) s0 = Ret t" using assms(2,5) by (simp add: run_append)
  then have reach: "reachable tp_step tp_init t" using assms(1) run_reachable reach_init by metis
  then show inv: "tp_inv t" and "pool_promise Fifo (tp_view t)"
    by (auto intro: tp.inv_reachable tpv.reachable_promise)
  show unl: "callers_unlocked t"
    using callers_unlocked_run [OF tp_inv_init [OF assms(1)] run] tp_init_start [OF assms(1)] assms(3)
      own_no_destroy(1) [OF assms(4)] by simp
  show "running (tp_view t) = {#}"
    using quiescent_running quiescent_worker [OF inv unl assms(6)] by blast
  show "sys_pool t = None \<and> sys_destroyer t = Destroy_returned 0" if "list_ex is_destroy ls"
  proof -
    have "sys_destroyer t \<noteq> Not_destroying"
      using is_destroy_run [OF run _ tp_inv_init [OF assms(1)]] that by simp
    then obtain e where "sys_destroyer t = Destroy_returned e"
      using quiescent_destroyer [OF inv unl assms(6)] by (cases "sys_destroyer t") auto
    with inv show ?thesis by (cases "sys_pool t") (auto simp: tp_inv_def shutdown_ok_def)
  qed
qed

lemma nothing_discarded_run:
  assumes "tp_init s0" "run tp_step ls s0 = Ret s" "\<not> list_ex is_abrupt ls" "sys_pcs s \<noteq> []"
  shows "nothing_discarded s"
proof -
  have "sys_pcs s0 \<noteq> []"
    using pcs_length_run [OF assms(2)] assms(4) by auto
  then have "nothing_discarded s0"
    using tp_init_start [OF assms(1)] tp_inv_init [OF assms(1)] by (auto simp: nothing_discarded_def)
  moreover have "list_all (\<lambda>l. \<not> is_abrupt l) ls" using assms(3) by (simp add: list_all_iff list_ex_iff)
  ultimately show ?thesis using run_keeps [OF assms(2)] nothing_discarded_step by metis
qed



section \<open>Properties\<close>

text \<open>
  A pool for the witnesses: two threads, a queue of two cells, everything succeeds. Functions and
  arguments are numbers.
\<close>

definition demo_env :: create_env where
  "demo_env = \<lparr>malloc_pool = True, malloc_threads = (\<lambda>n. n < 1000000), malloc_queue = (\<lambda>n. n < 1000000),
     mutex_init_rc = 0, cond_init_rc = 0, create_rc = (\<lambda>_. 0)\<rparr>"

definition demo_pool :: "(nat, nat) threadpool_t" where
  "demo_pool = \<lparr>tp_lock = M_free, tp_notify = True, tp_threads = Some [Some 0, Some 1],
     tp_queue = Some [None, None], tp_thread_count = 2, tp_queue_size = 2, tp_head = 0, tp_tail = 0,
     tp_count = 0, tp_shutdown = 0, tp_started = 2\<rparr>"

lemmas tp_run_defs [pool_defs] = start_sys_def threadpool_add_def add_section_def advance_def all_ok_add_def
  signal_ok_def signal_def c_add_def c_sub_def in_int_def INT_MAX_def INT_MIN_def thread_waits_def
  thread_leaves_def thread_grab_def thread_sign_off_def destroy_begin_def all_ok_destroy_def wake_def
  threadpool_graceful_def graceful_shutdown_def immediate_shutdown_def

lemma malloc_sane_demo: "malloc_sane demo_env"
  by (simp add: malloc_sane_def demo_env_def)

lemma in_int_demo: "in_int 2"
  by simp

lemma demo_created: "threadpool_create (Client 0) demo_env 2 2 = Ret (Created demo_pool)"
  by (simp add: threadpool_create_def init_pool_def demo_env_def demo_pool_def Let_def size_mul_def cells_def
      sizeof_pthread_t_def sizeof_threadpool_task_t_def pthread_mutex_init_def numeral_2_eq_2 c_add_def)

lemma demo_init: "tp_init (start_sys demo_pool)"
  unfolding tp_init_def using malloc_sane_demo in_int_demo demo_created by metis

text \<open>Two tasks are handed in, the first one is taken; then the pool is destroyed gracefully.\<close>

definition demo_calls :: "(nat, nat) tp_label list" where
  "demo_calls = [Add 0 7 1 None, Work 0, Work 0, Work 0, Add 0 8 2 None]"

lemma demo_runs: "\<exists>s. run tp_step demo_calls (start_sys demo_pool) = Ret s"
  by (simp add: demo_calls_def demo_pool_def pool_defs numeral_2_eq_2)


lemma demo_reachable:
  assumes "run tp_step ls (start_sys demo_pool) = Ret s"
  shows "reachable tp_step tp_init s"
  using run_reachable [OF assms] demo_init reach_init by metis

text \<open>
  C3. The pool implements the abstract queue of tasks: in every reachable state each accepted task is
  waiting, being executed, completed or (after an abrupt shutdown) discarded, exactly once; and
  tasks are taken in the order they were accepted.
\<close>

theorem tp_promise:
  assumes "reachable tp_step tp_init s"
  shows "pool_promise Fifo (tp_view s)"
  using assms by (rule tpv.reachable_promise)

theorem tp_promise_witness:
  "case run tp_step demo_calls (start_sys demo_pool) of
     Ret s \<Rightarrow> pool_promise Fifo (tp_view s) \<and> pending (tp_view s) \<noteq> [] \<and> begun (tp_view s) \<noteq> []
   | _ \<Rightarrow> False"
proof -
  obtain s where s: "run tp_step demo_calls (start_sys demo_pool) = Ret s"
    and v: "pending (tp_view s) \<noteq> []" "begun (tp_view s) \<noteq> []"
    by (simp add: demo_calls_def demo_pool_def pool_defs numeral_2_eq_2 tp_view_def ring_items_def)
  with tp_promise [OF demo_reachable [OF s]] show ?thesis by simp
qed

text \<open>
  C1. Progress and graceful shutdown: after any execution of a pool with at least one thread in which
  \<open>threadpool_destroy\<close> is called at most once and not abruptly, the pool's own steps are finitely
  many (at most \<open>tp_work s\<close> under every schedule), some schedule reaches a state where none is possible,
  and at every such state all accepted tasks are completed; if destroy was called, it has returned
  0 and the pool has been freed.
\<close>

theorem tp_completes:
  assumes "tp_init s0" "run tp_step ls s0 = Ret s" "length (filter is_destroy ls) \<le> 1"
    and "\<not> list_ex is_abrupt ls" "sys_pcs s \<noteq> []"
  shows "(\<exists>ks t. list_all tp_own ks \<and> run tp_step ks s = Ret t \<and> quiescent tp_step tp_own t) \<and>
    (\<forall>ks t. list_all tp_own ks \<longrightarrow> run tp_step ks s = Ret t \<longrightarrow> length ks \<le> tp_work s \<and>
       (quiescent tp_step tp_own t \<longrightarrow> log_finished t = mset (log_submitted s) \<and>
         (list_ex is_destroy ls \<longrightarrow> sys_pool t = None \<and> sys_destroyer t = Destroy_returned 0)))"
proof (intro conjI allI impI)
  have inv: "tp_inv s" using tp.inv_run [OF tp_inv_init [OF assms(1)] assms(2)] .
  then show "\<exists>ks t. list_all tp_own ks \<and> run tp_step ks s = Ret t \<and> quiescent tp_step tp_own t"
    by (rule tpd.drains)
  fix ks t
  assume own: "list_all tp_own ks" "run tp_step ks s = Ret t"
  show "length ks \<le> tp_work s" using tpd.own_run_bounded [OF inv own] by linarith
  assume q: "quiescent tp_step tp_own t"
  note e = own_run_end [OF assms(1-3) own q]
  have "run tp_step (ls @ ks) s0 = Ret t" using assms(2) own(2) by (simp add: run_append)
  moreover have "sys_pcs t \<noteq> []" using pcs_length_run [OF own(2)] assms(5) by auto
  ultimately have "nothing_discarded t"
    using nothing_discarded_run [OF assms(1)] assms(4) own_no_destroy(2) [OF own(1)] by simp
  then have "discarded (tp_view t) = []" by (simp add: nothing_discarded_def tp_view_def)
  with quiescent_pending [OF e(1,2) q \<open>sys_pcs t \<noteq> []\<close>] have "finished (tp_view t) = mset (submitted (tp_view t))"
    using promise_all_finished [OF e(4) _ e(3)] by simp
  then show "log_finished t = mset (log_submitted s)" using own_logs [OF own(2,1)] by (simp add: tp_view_def)
  show "sys_pool t = None" "sys_destroyer t = Destroy_returned 0" if "list_ex is_destroy ls"
    using e(5) that by auto
qed

text \<open>The calls of the witnesses, ending in a graceful or an abrupt destroy.\<close>

definition demo_destroyed :: "int \<Rightarrow> (nat, nat) tp_sys" where
  "demo_destroyed flags = (case run tp_step (demo_calls @ [Destroy 0 flags]) (start_sys demo_pool) of Ret s \<Rightarrow> s)"

lemma demo_destroyed_run:
  "run tp_step (demo_calls @ [Destroy 0 flags]) (start_sys demo_pool) = Ret (demo_destroyed flags)"
  "sys_pcs (demo_destroyed flags) = [Executing \<lparr>task_function = 7, task_argument = 1\<rparr>, At_lock]"
  by (simp_all add: demo_destroyed_def demo_calls_def demo_pool_def pool_defs numeral_2_eq_2)

theorem tp_completes_witness:
  "\<exists>ks t. list_all tp_own ks \<and> run tp_step ks (demo_destroyed 1) = Ret t \<and> sys_pool t = None \<and>
     sys_destroyer t = Destroy_returned 0 \<and> log_finished t = mset (log_submitted (demo_destroyed 1))"
proof -
  have one: "length (filter is_destroy (demo_calls @ [Destroy 0 1])) \<le> 1"
    and no: "\<not> list_ex is_abrupt (demo_calls @ [Destroy 0 1])"
    and ex: "list_ex is_destroy (demo_calls @ [Destroy 0 1])"
    and pcs: "sys_pcs (demo_destroyed 1) \<noteq> []"
    by (simp_all add: demo_calls_def threadpool_graceful_def demo_destroyed_run)
  from tp_completes [OF demo_init demo_destroyed_run(1) one no pcs] ex show ?thesis by blast
qed

text \<open>
  C15. Any single \<open>threadpool_destroy\<close>, graceful or abrupt, terminates: the pool's own steps are bounded
  and when they end destroy has returned 0, the pool is freed, every worker has exited, and each accepted
  task is either completed or still unstarted, in which case it was discarded.
\<close>

theorem tp_destroy_terminates:
  assumes "tp_init s0" "run tp_step ls s0 = Ret s" "length (filter is_destroy ls) = 1"
    and "list_all tp_own ks" "run tp_step ks s = Ret t"
  shows "length ks \<le> tp_work s \<and> (quiescent tp_step tp_own t \<longrightarrow>
    sys_pool t = None \<and> sys_destroyer t = Destroy_returned 0 \<and> (\<forall>pc\<in>set (sys_pcs t). pc = Exited) \<and>
    mset (log_submitted s) = log_finished t + mset (log_discarded t))"
proof (intro conjI impI)
  have inv: "tp_inv s" using tp.inv_run [OF tp_inv_init [OF assms(1)] assms(2)] .
  show "length ks \<le> tp_work s" using tpd.own_run_bounded [OF inv assms(4,5)] by linarith
  assume q: "quiescent tp_step tp_own t"
  have "length (filter is_destroy ls) \<le> 1" using assms(3) by simp
  note e = own_run_end [OF assms(1,2) this assms(4,5) q]
  have "list_ex is_destroy ls" using assms(3) by (induction ls) (auto split: if_splits)
  then show f: "sys_pool t = None" "sys_destroyer t = Destroy_returned 0" using e(5) by auto
  from e(1) f show "\<forall>pc\<in>set (sys_pcs t). pc = Exited" by (simp add: tp_inv_def)
  from e(3,4) f(1) have "mset (log_submitted t) = log_finished t + mset (log_discarded t)"
    by (simp add: tp_view_def pool_promise_def conserved_def)
  then show "mset (log_submitted s) = log_finished t + mset (log_discarded t)"
    by (simp add: own_logs [OF assms(5,4)])
qed

text \<open>The schedule that finishes the task in progress and lets both workers leave.\<close>

definition demo_leaving :: "(nat, nat) tp_label list" where
  "demo_leaving = [Work 0, Work 0, Work 0, Work 0, Work 0, Work 1, Work 1, Work 1, Work 1, Join, Join, Join]"

theorem tp_destroy_terminates_witness:
  "length demo_leaving \<le> tp_work (demo_destroyed 0) \<and>
   (case run tp_step demo_leaving (demo_destroyed 0) of
      Ret t \<Rightarrow> sys_pool t = None \<and> sys_destroyer t = Destroy_returned 0 \<and> length (log_discarded t) = 1
    | _ \<Rightarrow> False)"
proof -
  obtain t where t: "run tp_step demo_leaving (demo_destroyed 0) = Ret t" "sys_pool t = None"
      "sys_destroyer t = Destroy_returned 0" "length (log_discarded t) = 1"
    by (simp add: demo_leaving_def demo_destroyed_def demo_calls_def demo_pool_def pool_defs numeral_2_eq_2
        destroy_finish_def threadpool_free_def pthread_mutex_destroy_def pthread_cond_destroy_def ring_items_def)
  have one: "length (filter is_destroy (demo_calls @ [Destroy 0 0])) = 1" and own: "list_all tp_own demo_leaving"
    by (simp_all add: demo_calls_def demo_leaving_def)
  from tp_destroy_terminates [OF demo_init demo_destroyed_run(1) one own t(1)] t show ?thesis by simp
qed




text \<open>
  C26. Mutual exclusion: at most one worker at a time is between lock and unlock, and then the mutex is
  held by that worker; the counters stay in range: the ring never holds more than \<open>queue_size\<close> tasks and
  \<open>started\<close> is the number of workers that have not signed off.
\<close>

theorem tp_exclusive:
  assumes "reachable tp_step tp_init s" "sys_pool s = Some p"
  shows "(\<forall>i<length (sys_pcs s). \<forall>j<length (sys_pcs s).
       holds_lock (sys_pcs s ! i) \<longrightarrow> tp_lock p = M_held (Worker i) \<and> (holds_lock (sys_pcs s ! j) \<longrightarrow> i = j)) \<and>
     int (length (ring_items p)) = tp_count p \<and> tp_count p \<le> tp_queue_size p \<and>
     tp_started p = int (length (filter (\<lambda>pc. pc \<noteq> Signed_off \<and> pc \<noteq> Exited) (sys_pcs s)))"
proof -
  have inv: "ring_ok p" "locks_ok (sys_pcs s) (tp_lock p)" "threads_ok p (sys_pcs s)"
    using tp.inv_reachable [OF assms(1)] assms(2) by (auto simp: tp_inv_def)
  have "sum_list (map active pcs) = length (filter (\<lambda>pc. pc \<noteq> Signed_off \<and> pc \<noteq> Exited) pcs)"
    for pcs :: "('a, 'b) wpc list"
  proof (induction pcs)
    case (Cons pc pcs)
    then show ?case by (cases pc) auto
  qed simp
  with inv show ?thesis using ring_ok_bounds(1,2) [OF inv(1)] by (auto simp: locks_ok_def threads_ok_def)
qed

theorem tp_exclusive_witness:
  "case run tp_step [Work 1] (start_sys demo_pool) of
     Ret s \<Rightarrow> holds_lock (sys_pcs s ! 1) \<and> \<not> holds_lock (sys_pcs s ! 0) \<and> (case sys_pool s of
       Some p \<Rightarrow> tp_started p = int (length (filter (\<lambda>pc. pc \<noteq> Signed_off \<and> pc \<noteq> Exited) (sys_pcs s)))
     | None \<Rightarrow> False)
   | _ \<Rightarrow> False"
proof -
  obtain s p where s: "run tp_step [Work 1] (start_sys demo_pool) = Ret s" "sys_pool s = Some p"
    "holds_lock (sys_pcs s ! 1)" "length (sys_pcs s) = 2"
    by (simp add: demo_pool_def pool_defs numeral_2_eq_2)
  note ex = tp_exclusive [OF demo_reachable [OF s(1)] s(2)]
  then have "\<not> holds_lock (sys_pcs s ! 0)"
    using s(3,4) by (elim conjE allE [of _ 1]) (auto dest: spec [of _ 0])
  with ex s(2,3) show ?thesis unfolding s(1) by (simp only: outcome.case option.case) simp
qed

text \<open>The mutex is held by a caller that will not release it; \<open>s\<close> is the state when that happened.\<close>

definition lock_leaked :: "nat \<Rightarrow> ('f, 'a) tp_sys \<Rightarrow> ('f, 'a) tp_sys \<Rightarrow> bool" where
  "lock_leaked c s u \<longleftrightarrow> tp_inv u \<and> (\<exists>q. sys_pool u = Some q \<and> tp_lock q = M_held (Client c)) \<and>
     log_submitted u = log_submitted s \<and> length (sys_pcs u) = length (sys_pcs s) \<and>
     (\<forall>w<length (sys_pcs s). sys_pcs u ! w = Exited \<longrightarrow> sys_pcs s ! w = Exited)"

lemma leaked_lock_step:
  assumes "tp_inv s" "sys_pool s = Some p" "tp_lock p = M_held (Client c)" "tp_step l s = Ret t"
  shows "\<exists>p'. sys_pool t = Some p' \<and> tp_lock p' = M_held (Client c) \<and> log_submitted t = log_submitted s \<and>
    (\<forall>w<length (sys_pcs s). sys_pcs t ! w = Exited \<longrightarrow> sys_pcs s ! w = Exited)"
proof (cases l)
  case (Work w)
  have "w < length (sys_pcs s)" "\<not> holds_lock (sys_pcs s ! w)"
    using assms Work by (auto simp: tp_inv_def locks_ok_def split: if_splits)
  with assms Work show ?thesis by (cases "sys_pcs s ! w") (auto simp: nth_list_update)
next
  case Join
  with assms(4) have "tp_step Join s = Ret t" by simp
  with assms(1) show ?thesis by (cases rule: join_cases) (use assms(2,3) in auto)
qed (use assms in \<open>auto simp: threadpool_add_def destroy_begin_def all_ok_add_def all_ok_destroy_def
      nth_list_update split: if_splits\<close>)

lemma lock_leaked_step:
  assumes "lock_leaked c s v" "tp_step l v = Ret v'"
  shows "lock_leaked c s v'"
proof -
  from assms(1) obtain q where q: "tp_inv v" "sys_pool v = Some q" "tp_lock q = M_held (Client c)"
    by (auto simp: lock_leaked_def)
  from leaked_lock_step [OF q assms(2)] tp_inv_step [OF q(1) assms(2)] pcs_length_step [OF assms(2)] assms(1)
  show ?thesis unfolding lock_leaked_def by auto
qed

text \<open>
  C34. A second \<open>threadpool_destroy\<close> while the first one is joining returns \<open>threadpool_shutdown\<close> but
  leaves the mutex locked by its caller: from then on, whatever anybody does, the mutex stays locked,
  no worker that had not exited ever exits, no task is accepted, every call of \<open>threadpool_add\<close> blocks, and
  the first \<open>threadpool_destroy\<close> never returns.
\<close>

theorem tp_second_destroy_deadlock:
  assumes "reachable tp_step tp_init s" "sys_pool s = Some p" "tp_shutdown p \<noteq> 0"
    and "tp_step (Destroy c flags) s = Ret t" "run tp_step ls t = Ret u"
  shows "(\<exists>q. sys_pool u = Some q \<and> tp_lock q = M_held (Client c)) \<and> sys_destroyer u \<noteq> Destroy_returned e \<and>
    (\<forall>w<length (sys_pcs s). sys_pcs u ! w = Exited \<longrightarrow> sys_pcs s ! w = Exited) \<and>
    log_submitted u = log_submitted s \<and> tp_step (Add d f a ch) u = Blocked"
proof -
  have inv: "tp_inv s" using assms(1) by (rule tp.inv_reachable)
  from assms(4) obtain err r joins where
      des: "destroy_begin (Client c) all_ok_destroy flags (Some p) = Ret (err, r, joins)"
    and t': "t = (if joins then s\<lparr>sys_pool := r, sys_pcs := map wake (sys_pcs s),
        sys_destroyer := Joining c 0\<rparr> else s\<lparr>sys_pool := r\<rparr>)"
    using assms(2) by (auto simp: outcome_simps split: if_splits)
  from des have "t = s\<lparr>sys_pool := Some (p\<lparr>tp_lock := M_held (Client c)\<rparr>)\<rparr>"
    by (cases rule: destroy_begin_cases) (use assms(3) t' in auto)
  then have "lock_leaked c s t" using tp_inv_step [OF inv assms(4)] by (simp add: lock_leaked_def)
  moreover have "list_all (\<lambda>_. True) ls" by (simp add: list_all_iff)
  ultimately have u: "lock_leaked c s u"
    using run_keeps [OF assms(5), of "\<lambda>_. True" "lock_leaked c s"] lock_leaked_step by blast
  then have "sys_destroyer u \<noteq> Destroy_returned e" by (auto simp: lock_leaked_def tp_inv_def shutdown_ok_def)
  with u show ?thesis by (auto simp: lock_leaked_def threadpool_add_def all_ok_add_def)
qed

theorem tp_second_destroy_deadlock_witness:
  "case and_then (tp_step (Destroy 1 1) (demo_destroyed 0)) (run tp_step [Work 0]) of
     Ret u \<Rightarrow> sys_destroyer u \<noteq> Destroy_returned 0 \<and> tp_step (Add 2 9 9 None) u = Blocked | _ \<Rightarrow> False"
proof -
  have s: "reachable tp_step tp_init (demo_destroyed 0)"
    using demo_reachable [OF demo_destroyed_run(1)] .
  obtain p where p: "sys_pool (demo_destroyed 0) = Some p" "tp_shutdown p \<noteq> 0"
    by (simp add: demo_destroyed_def demo_calls_def demo_pool_def pool_defs numeral_2_eq_2)
  obtain t u where t: "tp_step (Destroy 1 1) (demo_destroyed 0) = Ret t" "run tp_step [Work 0] t = Ret u"
    by (simp add: demo_destroyed_def demo_calls_def demo_pool_def pool_defs numeral_2_eq_2)
  from tp_second_destroy_deadlock [OF s p t, of 0 2 9 9 None] t
  show ?thesis by (simp del: tp_step.simps run.simps)
qed

text \<open>
  \<open>threadpool_add\<close> on a well-formed pool whose lock is free, when the \<open>pthread\<close> calls succeed: a full
  ring gives \<open>threadpool_queue_full\<close>, a pool being shut down \<open>threadpool_shutdown\<close>, and both leave the
  pool as it is; otherwise 0 is returned, the task is the last of the queue, the invariant of the
  ring holds and only queue, tail and count differ.
\<close>

theorem threadpool_add_result:
  assumes "ring_ok p" "tp_lock p = M_free"
  shows "(tp_count p = tp_queue_size p \<longrightarrow>
      threadpool_add t all_ok_add (Some p) (Some f) a = Ret (threadpool_queue_full, Some p)) \<and>
    (tp_count p \<noteq> tp_queue_size p \<and> tp_shutdown p \<noteq> 0 \<longrightarrow>
      threadpool_add t all_ok_add (Some p) (Some f) a = Ret (threadpool_shutdown, Some p)) \<and>
    (tp_count p \<noteq> tp_queue_size p \<and> tp_shutdown p = 0 \<longrightarrow>
      (\<exists>q tl p'. threadpool_add t all_ok_add (Some p) (Some f) a = Ret (0, Some p') \<and>
        p' = p\<lparr>tp_queue := Some q, tp_tail := tl, tp_count := tp_count p + 1\<rparr> \<and> ring_ok p' \<and>
        ring_items p' = ring_items p @ [\<lparr>task_function = f, task_argument = a\<rparr>]))"
proof (intro conjI impI)
  assume "tp_count p \<noteq> tp_queue_size p \<and> tp_shutdown p = 0"
  then have "tp_count p < tp_queue_size p" "tp_shutdown p = 0"
    using ring_ok_bounds(2) [OF assms(1)] by auto
  from threadpool_add_accepts [OF assms this, of t f a]
  show "\<exists>q tl p'. threadpool_add t all_ok_add (Some p) (Some f) a = Ret (0, Some p') \<and>
        p' = p\<lparr>tp_queue := Some q, tp_tail := tl, tp_count := tp_count p + 1\<rparr> \<and> ring_ok p' \<and>
        ring_items p' = ring_items p @ [\<lparr>task_function = f, task_argument = a\<rparr>]"
    unfolding Let_def by blast
qed (use threadpool_add_full [OF assms] threadpool_add_closed [OF assms] in auto)

lemma demo_pool_ok: "ring_ok demo_pool" "tp_lock demo_pool = M_free"
  by (simp_all add: demo_pool_def ring_ok_def INT_MAX_def)

theorem threadpool_add_result_witness:
  "\<exists>p'. threadpool_add (Client 3) all_ok_add (Some demo_pool) (Some 7) 1 = Ret (0, Some p') \<and>
     ring_items p' = [\<lparr>task_function = 7, task_argument = 1\<rparr>]"
proof -
  have "tp_count demo_pool \<noteq> tp_queue_size demo_pool \<and> tp_shutdown demo_pool = 0" "ring_items demo_pool = []"
    by (simp_all add: demo_pool_def ring_items_def)
  with threadpool_add_result [OF demo_pool_ok, of "Client 3" 7 1] show ?thesis by auto
qed

lemma add_section_type:
  assumes "ring_ok p" "add_section rc f a p = Ret (err, p')"
  shows "ring_ok p'"
proof (cases "tp_count p < tp_queue_size p \<and> tp_shutdown p = 0")
  case True
  from add_section_ok [OF assms(1), of f a] True obtain p1 where "add_section 0 f a p = Ret (0, p1)" "ring_ok p1"
    unfolding Let_def by blast
  moreover from this(1) assms(2) have "p' = p1"
    by (auto simp: add_section_def outcome_simps split: option.splits if_splits)
  ultimately show ?thesis by simp
next
  case False
  then have "tp_count p = tp_queue_size p \<or> tp_shutdown p \<noteq> 0" using ring_ok_bounds(2) [OF assms(1)] by auto
  then show ?thesis using assms by (auto simp: add_section_def outcome_simps split: if_splits)
qed

text \<open>
  C29. Well-formed pools stay well-formed: whatever the \<open>pthread\<close> calls return, \<open>threadpool_add\<close>, the first part of
  \<open>threadpool_destroy\<close> and the critical sections of a worker turn a pool whose ring is well-formed into such a pool;
  a worker can always take a task while the counter is positive.
\<close>

theorem ring_type:
  assumes "ring_ok p"
  shows "(\<forall>err p'. threadpool_add t rc (Some p) func a = Ret (err, p') \<longrightarrow> (\<exists>p1. p' = Some p1 \<and> ring_ok p1)) \<and>
    (\<forall>err p' j. destroy_begin t drc flags (Some p) = Ret (err, p', j) \<longrightarrow>
       (\<exists>p1. p' = Some p1 \<and> ring_ok p1 \<and> ring_items p1 = ring_items p)) \<and>
    (0 < tp_count p \<longrightarrow> (\<exists>task p1. thread_grab p = Ret (task, p1) \<and> ring_ok p1 \<and> ring_items p = task # ring_items p1)) \<and>
    (\<forall>p1. thread_sign_off p = Ret p1 \<longrightarrow> ring_ok p1 \<and> ring_items p1 = ring_items p)"
proof (intro conjI allI impI)
  fix err p'
  assume h: "threadpool_add t rc (Some p) func a = Ret (err, p')"
  show "\<exists>p1. p' = Some p1 \<and> ring_ok p1"
  proof (cases func)
    case None
    with h assms show ?thesis by (auto simp: threadpool_add_def)
  next
    case (Some f)
    then obtain lrc m where m: "pthread_mutex_lock t (add_lock_rc rc) (tp_lock p) = Ret (lrc, m)"
      using h by (auto simp: threadpool_add_def outcome_simps)
    have ok: "ring_ok (p\<lparr>tp_lock := m\<rparr>)" using assms by simp
    show ?thesis
    proof (cases "lrc = 0")
      case True
      with h m Some obtain e1 p1 m1 where "add_section (add_signal_rc rc) f a (p\<lparr>tp_lock := m\<rparr>) = Ret (e1, p1)" "p' = Some (p1\<lparr>tp_lock := m1\<rparr>)"
        by (auto simp: threadpool_add_def outcome_simps)
      with add_section_type [OF ok] show ?thesis by auto
    next
      case False
      with h m Some assms show ?thesis by (auto simp: threadpool_add_def)
    qed
  qed
next
  fix err p' j
  assume "destroy_begin t drc flags (Some p) = Ret (err, p', j)"
  then show "\<exists>p1. p' = Some p1 \<and> ring_ok p1 \<and> ring_items p1 = ring_items p"
    using assms by (auto simp: destroy_begin_def outcome_simps Let_def split: if_splits)
next
  assume "0 < tp_count p"
  then obtain task ts where i: "ring_items p = task # ts"
    using ring_items_empty_iff [OF assms] by (cases "ring_items p") auto
  with thread_grab_ok [OF assms i] show "\<exists>task p1. thread_grab p = Ret (task, p1) \<and> ring_ok p1 \<and> ring_items p = task # ring_items p1"
    unfolding Let_def by auto
next
  fix p1
  assume "thread_sign_off p = Ret p1"
  then show "ring_ok p1" "ring_items p1 = ring_items p" using assms by (auto simp: thread_sign_off_def outcome_simps)
qed

theorem ring_type_witness:
  "\<exists>p1. threadpool_add (Client 3) all_ok_add (Some demo_pool) (Some 7) 1 = Ret (0, Some p1) \<and> ring_ok p1"
proof -
  obtain p1 where a: "threadpool_add (Client 3) all_ok_add (Some demo_pool) (Some 7) 1 = Ret (0, Some p1)"
    using threadpool_add_accepts [OF demo_pool_ok, of "Client 3" 7 1] by (auto simp: demo_pool_def Let_def)
  moreover have "ring_ok p1"
    using ring_type [OF demo_pool_ok(1), of "Client 3" all_ok_add "Some 7" 1 all_ok_destroy 0] a by blast
  ultimately show ?thesis by blast
qed

text \<open>
  The error codes of \<open>threadpool_add\<close> when a \<open>pthread\<close> call fails: a failed lock returns
  \<open>threadpool_lock_failure\<close> and changes nothing, but a failed signal returns the same code although the
  task is in the queue and will be executed, so the caller cannot tell the two apart.
\<close>

theorem threadpool_add_failures:
  assumes "ring_ok p" "tp_lock p = M_free" "tp_count p < tp_queue_size p" "tp_shutdown p = 0"
    and "add_lock_rc rc \<noteq> 0 \<or> add_signal_rc rc \<noteq> 0 \<and> add_unlock_rc rc = 0"
  shows "\<exists>p'. threadpool_add t rc (Some p) (Some f) a = Ret (threadpool_lock_failure, Some p') \<and>
     (if add_lock_rc rc \<noteq> 0 then p' = p
      else ring_ok p' \<and> ring_items p' = ring_items p @ [\<lparr>task_function = f, task_argument = a\<rparr>])"
proof (cases "add_lock_rc rc = 0")
  case False
  with assms(2) show ?thesis by (simp add: threadpool_add_def)
next
  case True
  let ?p = "p\<lparr>tp_lock := M_held t\<rparr>"
  obtain q' tl where r:
    "add_section 0 f a ?p = Ret (0, ?p\<lparr>tp_queue := Some q', tp_tail := tl, tp_count := tp_count p + 1\<rparr>)"
    "ring_ok (?p\<lparr>tp_queue := Some q', tp_tail := tl, tp_count := tp_count p + 1\<rparr>)"
    "ring_items (?p\<lparr>tp_queue := Some q', tp_tail := tl, tp_count := tp_count p + 1\<rparr>) =
      ring_items p @ [\<lparr>task_function = f, task_argument = a\<rparr>]"
    using add_section_ok [of ?p f a] assms unfolding Let_def by auto
  have rc: "add_section (add_signal_rc rc) f a ?p =
      Ret (threadpool_lock_failure, ?p\<lparr>tp_queue := Some q', tp_tail := tl, tp_count := tp_count p + 1\<rparr>)"
    using r(1) True assms(5) by (auto simp: add_section_def outcome_simps split: if_splits option.splits)
  let ?p' = "?p\<lparr>tp_queue := Some q', tp_tail := tl, tp_count := tp_count p + 1\<rparr>"
  have "threadpool_add t rc (Some p) (Some f) a = Ret (threadpool_lock_failure, Some (?p'\<lparr>tp_lock := M_free\<rparr>))"
    using rc True assms(2,5) by (simp add: threadpool_add_def)
  moreover have "ring_ok (?p'\<lparr>tp_lock := M_free\<rparr>)" "ring_items (?p'\<lparr>tp_lock := M_free\<rparr>) = ring_items ?p'"
    using r(2) by (simp_all only: ring_frame)
  ultimately show ?thesis using r(3) True by auto
qed

theorem threadpool_add_failures_witness:
  "\<exists>p'. threadpool_add (Client 3) \<lparr>add_lock_rc = 0, add_signal_rc = 22, add_unlock_rc = 0\<rparr>
     (Some demo_pool) (Some 7) 1 = Ret (threadpool_lock_failure, Some p') \<and>
     ring_items p' = [\<lparr>task_function = 7, task_argument = 1\<rparr>]"
proof -
  have "tp_count demo_pool < tp_queue_size demo_pool" "tp_shutdown demo_pool = 0" "ring_items demo_pool = []"
    by (simp_all add: demo_pool_def ring_items_def)
  with threadpool_add_failures [OF demo_pool_ok, of "\<lparr>add_lock_rc = 0, add_signal_rc = 22, add_unlock_rc = 0\<rparr>"
      "Client 3" 7 1] show ?thesis by auto
qed


text \<open>
  C39. Round trip of the ring buffer: from an empty well-formed ring with room for them, tasks that are
  added one after the other are handed to the workers in the same order, wherever head and tail stand
  and however often they wrap around, and the ring is empty again.
\<close>

theorem ring_roundtrip:
  assumes "ring_ok p" "ring_items p = []" "tp_shutdown p = 0" "int (length ts) \<le> tp_queue_size p"
  shows "\<exists>p'. and_then (put_all ring_put ts p) (take_all thread_grab (length ts)) = Ret (ts, p') \<and>
    ring_ok p' \<and> ring_items p' = []"
proof -
  have "tp_count p = 0" using ring_items_empty_iff [OF assms(1)] assms(2) by simp
  then have "ring_fits ts p" using assms(3,4) by (simp add: ring_fits_def)
  then show ?thesis by (rule ring.put_take_roundtrip [OF assms(1,2)])
qed

theorem ring_roundtrip_witness:
  "\<exists>p'. and_then (put_all ring_put [\<lparr>task_function = 7, task_argument = 1\<rparr>, \<lparr>task_function = 8, task_argument = 2\<rparr>]
      (demo_pool\<lparr>tp_head := 1, tp_tail := 1\<rparr>)) (take_all thread_grab 2) =
    Ret ([\<lparr>task_function = 7, task_argument = 1\<rparr>, \<lparr>task_function = 8, task_argument = 2\<rparr>], p') \<and> ring_items p' = []"
proof -
  let ?p = "demo_pool\<lparr>tp_head := 1, tp_tail := 1\<rparr>"
  have "ring_ok ?p" "ring_items ?p = []" "tp_shutdown ?p = 0" "int (length [a, b]) \<le> tp_queue_size ?p"
    for a b :: "(nat, nat) threadpool_task_t"
    by (simp_all add: demo_pool_def ring_ok_def INT_MAX_def ring_items_def)
  from ring_roundtrip [OF this, of "\<lparr>task_function = 7, task_argument = 1\<rparr>" "\<lparr>task_function = 8, task_argument = 2\<rparr>"]
  show ?thesis by (auto simp: numeral_2_eq_2)
qed

text \<open>
  \<open>threadpool_create\<close> when \<open>malloc\<close> provides the blocks and the mutex and condition variable are
  initialised: either all threads start and the pool is returned with an empty ring, an unlocked mutex
  and all threads counted, or the start of thread \<open>k\<close> fails, and then the pool it destroys is well formed
  and has exactly the \<open>k\<close> threads already started. It never computes with an overflow or outside an array.
\<close>

theorem threadpool_create_ok:
  assumes "malloc_sane env" "in_int n" "in_int q" "malloc_pool env" "mutex_init_rc env = 0"
    "cond_init_rc env = 0" "has_threads env n" "has_queue env q"
  shows "(\<exists>p :: ('f, 'a) threadpool_t.
            threadpool_create t env n q = Ret (Created p) \<and> fresh_pool n q p) \<or>
         (\<exists>(p :: ('f, 'a) threadpool_t) k.
            threadpool_create t env n q = Ret (Create_cleanup p) \<and> fresh_pool k q p \<and> k < n \<and>
            create_rc env (nat k) \<noteq> 0)"
  using assms by (rule threadpool_create_starting)

theorem threadpool_create_ok_witness:
  "fresh_pool 2 2 demo_pool \<and> threadpool_create (Client 0) demo_env 2 2 = Ret (Created demo_pool)"
proof -
  have "malloc_pool demo_env" "mutex_init_rc demo_env = 0" "cond_init_rc demo_env = 0"
    "has_threads demo_env 2" "has_queue demo_env 2"
    by (simp_all add: demo_env_def has_threads_def has_queue_def size_mul_def sizeof_pthread_t_def
        sizeof_threadpool_task_t_def)
  from threadpool_create_ok [OF malloc_sane_demo in_int_demo in_int_demo this, of "Client 0", where 'f = nat and 'a = nat]
  show ?thesis using demo_created by auto
qed



text \<open>
  A \<open>pthread_join\<close> that fails makes \<open>threadpool_destroy\<close> return \<open>threadpool_thread_failure\<close> and keep the
  whole pool allocated, whatever the later joins return; only if all joins succeed is the pool freed.
\<close>

lemma join_all_result: "join_all rcs err = (if \<forall>rc\<in>set rcs. rc = 0 then err else threadpool_thread_failure)"
  by (induction rcs arbitrary: err) auto

theorem destroy_frees_iff_joined:
  assumes "tp_lock p = M_free" "tp_started p = 0" "tp_threads p = Some ts" "tp_notify p"
  shows "destroy_finish t (join_all rcs 0) p =
    (if \<forall>rc\<in>set rcs. rc = 0 then Ret (0, None) else Ret (threadpool_thread_failure, Some p))"
  using destroy_finish_ok [OF assms(2-4)] assms(1) by (auto simp: join_all_result destroy_finish_def)

theorem destroy_frees_iff_joined_witness:
  "destroy_finish (Client 0) (join_all [0, 3, 0] 0) (demo_pool\<lparr>tp_started := 0\<rparr>) =
     Ret (threadpool_thread_failure, Some (demo_pool\<lparr>tp_started := 0\<rparr>))"
  using destroy_frees_iff_joined [of "demo_pool\<lparr>tp_started := 0\<rparr>" "[Some 0, Some 1]" "Client 0" "[0, 3, 0]"]
  by (simp add: demo_pool_def)

end
