(* ===== verification/Heap_Lists.thy ===== *)
theory Heap_Lists
  imports Study_Prelude
begin

text \<open>
  Singly linked lists in a heap, shared by the pools that keep their tasks in linked nodes.

  A heap is a map from addresses to nodes; an address outside its domain has not been allocated or has
  been freed, and reading or freeing it is undefined behaviour. \<open>nxt\<close> reads the link of a node (\<open>prev\<close> in
  \<open>thpool.c\<close>, \<open>next\<close> in the other pools). \<open>list_at nxt h p xs\<close> says that the nodes from \<open>p\<close> on are
  those at the addresses \<open>xs\<close>; \<open>chain\<close> computes them.
\<close>

type_synonym addr = nat

section \<open>Access to the heap\<close>

definition read_node :: "(addr \<rightharpoonup> 'n) \<Rightarrow> addr option \<Rightarrow> 'n outcome" where
  "read_node h p =
     (case p of
        None \<Rightarrow> UB Null_deref
      | Some a \<Rightarrow> (case h a of None \<Rightarrow> UB Dangling | Some n \<Rightarrow> Ret n))"

definition write_node :: "(addr \<rightharpoonup> 'n) \<Rightarrow> addr option \<Rightarrow> ('n \<Rightarrow> 'n) \<Rightarrow> (addr \<rightharpoonup> 'n) outcome" where
  "write_node h p f =
     (case p of
        None \<Rightarrow> UB Null_deref
      | Some a \<Rightarrow> (case h a of None \<Rightarrow> UB Dangling | Some n \<Rightarrow> Ret (h(a \<mapsto> f n))))"

text \<open>\<open>free(NULL)\<close> does nothing.\<close>

definition free_node :: "(addr \<rightharpoonup> 'n) \<Rightarrow> addr option \<Rightarrow> (addr \<rightharpoonup> 'n) outcome" where
  "free_node h p =
     (case p of
        None \<Rightarrow> Ret h
      | Some a \<Rightarrow> (case h a of None \<Rightarrow> UB Dangling | Some n \<Rightarrow> Ret (h(a := None))))"

lemma read_node_Some [simp]: "h a = Some n \<Longrightarrow> read_node h (Some a) = Ret n"
  by (simp add: read_node_def)

lemma write_node_Some [simp]: "h a = Some n \<Longrightarrow> write_node h (Some a) f = Ret (h(a \<mapsto> f n))"
  by (simp add: write_node_def)

lemma free_node_Some [simp]: "h a = Some n \<Longrightarrow> free_node h (Some a) = Ret (h(a := None))"
  by (simp add: free_node_def)

lemma node_null [simp]:
  "read_node h None = UB Null_deref" "write_node h None f = UB Null_deref" "free_node h None = Ret h"
  by (simp_all add: read_node_def write_node_def free_node_def)

lemma node_not_blocked [simp]:
  "read_node h p \<noteq> Blocked" "write_node h p f \<noteq> Blocked" "free_node h p \<noteq> Blocked"
  by (simp_all add: read_node_def write_node_def free_node_def split: option.splits)

section \<open>Lists\<close>

fun list_at :: "('n \<Rightarrow> addr option) \<Rightarrow> (addr \<rightharpoonup> 'n) \<Rightarrow> addr option \<Rightarrow> addr list \<Rightarrow> bool" where
  "list_at nxt h p [] \<longleftrightarrow> p = None"
| "list_at nxt h p (a # xs) \<longleftrightarrow>
     p = Some a \<and> (case h a of None \<Rightarrow> False | Some n \<Rightarrow> list_at nxt h (nxt n) xs)"

fun chain :: "('n \<Rightarrow> addr option) \<Rightarrow> (addr \<rightharpoonup> 'n) \<Rightarrow> nat \<Rightarrow> addr option \<Rightarrow> addr list" where
  "chain nxt h 0 p = []"
| "chain nxt h (Suc k) p =
     (case p of
        None \<Rightarrow> []
      | Some a \<Rightarrow> a # (case h a of None \<Rightarrow> [] | Some n \<Rightarrow> chain nxt h k (nxt n)))"

lemma list_at_None [simp]: "list_at nxt h None xs \<longleftrightarrow> xs = []"
  by (cases xs) auto

lemma list_at_Some:
  "list_at nxt h (Some a) xs \<longleftrightarrow> (\<exists>n ys. xs = a # ys \<and> h a = Some n \<and> list_at nxt h (nxt n) ys)"
  by (cases xs) (auto split: option.splits)

lemma list_at_chain: "list_at nxt h p xs \<Longrightarrow> chain nxt h (length xs) p = xs"
  by (induction xs arbitrary: p) (auto split: option.splits)

lemma list_at_unique: "list_at nxt h p xs \<Longrightarrow> list_at nxt h p ys \<Longrightarrow> xs = ys"
  by (induction xs arbitrary: p ys) (auto simp: list_at_Some split: option.splits)

lemma list_at_allocated: "list_at nxt h p xs \<Longrightarrow> set xs \<subseteq> dom h"
  by (induction xs arbitrary: p) (auto split: option.splits)

lemma list_at_append:
  "list_at nxt h p (xs @ y # ys) \<Longrightarrow> \<exists>n. h y = Some n \<and> list_at nxt h (nxt n) ys"
  by (induction xs arbitrary: p) (auto split: option.splits)

lemma list_at_distinct: "list_at nxt h p xs \<Longrightarrow> distinct xs"
proof (induction xs arbitrary: p)
  case Nil
  show ?case by simp
next
  case (Cons a xs)
  then obtain n where n: "h a = Some n" "list_at nxt h (nxt n) xs" by (auto split: option.splits)
  have "a \<notin> set xs"
  proof
    assume "a \<in> set xs"
    then obtain ys zs where xs: "xs = ys @ a # zs" by (auto simp: in_set_conv_decomp)
    with n list_at_append have "list_at nxt h (nxt n) zs" by fastforce
    with n(2) list_at_unique have "zs = xs" by blast
    with xs show False by simp
  qed
  with Cons.IH n(2) show ?case by simp
qed

text \<open>Nodes outside the list may be allocated, changed and freed.\<close>

lemma list_at_frame:
  assumes "list_at nxt h p xs" "\<And>a. a \<in> set xs \<Longrightarrow> h' a = h a"
  shows "list_at nxt h' p xs"
  using assms by (induction xs arbitrary: p) (auto split: option.splits)

lemma list_at_update [simp]: "a \<notin> set xs \<Longrightarrow> list_at nxt (h(a := m)) p xs \<longleftrightarrow> list_at nxt h p xs"
  by (auto intro: list_at_frame)

text \<open>Linking a new node behind the last one.\<close>

lemma list_at_snoc:
  assumes "list_at nxt h p (xs @ [r])" "h r = Some n" "a \<notin> set (xs @ [r])" "nxt n' = Some a" "nxt m = None"
  shows "list_at nxt (h(a \<mapsto> m, r \<mapsto> n')) p (xs @ [r, a])"
  using assms
proof (induction xs arbitrary: p)
  case Nil
  then show ?case by auto
next
  case (Cons x xs)
  then obtain k where k: "p = Some x" "h x = Some k" "list_at nxt h (nxt k) (xs @ [r])"
    by (auto split: option.splits)
  have "x \<noteq> r" "x \<noteq> a" using list_at_distinct [OF Cons.prems(1)] Cons.prems(3) by auto
  with k Cons.IH [OF k(3)] Cons.prems show ?case by auto
qed

section \<open>Blocks owned by threads\<close>

text \<open>A thread that has taken a node off the list owns it until it frees it: \<open>owns pc\<close> are the nodes a
  thread at \<open>pc\<close> owns. No block is in two places, on the list and with a thread or with two threads, and
  every block a thread owns is still allocated.\<close>

definition owned_blocks :: "('pc \<Rightarrow> addr multiset) \<Rightarrow> (addr \<rightharpoonup> 'n) \<Rightarrow> addr list \<Rightarrow> 'pc list \<Rightarrow> bool" where
  "owned_blocks owns h xs pcs \<longleftrightarrow>
     (\<forall>a. count (mset xs + sum_list (map owns pcs)) a \<le> 1) \<and>
     set_mset (sum_list (map owns pcs)) \<subseteq> dom h"

lemma owned_blocks_owned:
  assumes "owned_blocks owns h xs pcs" "w < length pcs" "a \<in># owns (pcs ! w)"
  shows "a \<in> dom h" "a \<notin> set xs"
proof -
  let ?m = "sum_list (map owns pcs)"
  have m: "a \<in># ?m" using assms(2,3) by (auto simp: set_mset_sum_list intro: bexI [of _ "pcs ! w"])
  then show "a \<in> dom h" using assms(1) by (auto simp: owned_blocks_def)
  have "count (mset xs) a + count ?m a \<le> 1" using assms(1) by (auto simp: owned_blocks_def)
  moreover have "1 \<le> count ?m a" using m by (simp only: count_greater_eq_one_iff)
  ultimately have "count (mset xs) a = 0" by linarith
  then show "a \<notin> set xs" by (simp add: count_mset_0_iff)
qed

text \<open>How the blocks move: a thread may pass its block on to its next program counter, drop it, or take
  the head of the list.\<close>

lemma owned_blocks_upd:
  assumes "owned_blocks owns h xs pcs" "w < length pcs" "owns pc \<subseteq># owns (pcs ! w)"
  shows "owned_blocks owns h xs (pcs[w := pc])"
proof -
  from assms(3) obtain d where d: "owns (pcs ! w) = owns pc + d" by (auto simp: mset_subset_eq_exists_conv)
  then have eq: "sum_list (map owns pcs) = sum_list (map owns (pcs[w := pc])) + d"
    using sum_list_update_add [OF assms(2), of owns pc] by (simp add: ac_simps)
  have "count (mset xs + sum_list (map owns (pcs[w := pc]))) a \<le> 1" for a
    using assms(1) [unfolded owned_blocks_def eq] by (metis add_leD1 count_union add.assoc)
  then show ?thesis using assms(1) unfolding owned_blocks_def eq by auto
qed

lemma owned_blocks_take:
  assumes "owned_blocks owns h (a # xs) pcs" "w < length pcs" "owns (pcs ! w) = {#}" "a \<in> dom h" "owns pc = {#a#}"
  shows "owned_blocks owns h xs (pcs[w := pc])"
  using assms sum_list_update_add [OF assms(2), of owns pc] by (auto simp: owned_blocks_def)

lemma owned_blocks_free:
  assumes "owned_blocks owns h xs pcs" "w < length pcs" "owns (pcs ! w) = {#a#}" "owns pc = {#}"
  shows "owned_blocks owns (h(a := None)) xs (pcs[w := pc])"
proof -
  have eq: "sum_list (map owns pcs) = add_mset a (sum_list (map owns (pcs[w := pc])))"
    using sum_list_update_add [OF assms(2), of owns pc] assms(3,4) by simp
  have "count (mset xs + sum_list (map owns pcs)) b \<le> 1" for b using assms(1) by (simp add: owned_blocks_def)
  then have "count (sum_list (map owns (pcs[w := pc]))) a = 0" unfolding eq
    by (metis (no_types, lifting) One_nat_def Suc_le_mono add_is_0 count_add_mset count_union le_zero_eq union_mset_add_mset_right)
  then have "a \<notin># sum_list (map owns (pcs[w := pc]))" by (simp add: count_eq_zero_iff)
  moreover have "owned_blocks owns h xs (pcs[w := pc])" using owned_blocks_upd [OF assms(1,2)] assms(4) by simp
  ultimately show ?thesis by (auto simp: owned_blocks_def)
qed

lemma owned_blocks_heap: "owned_blocks owns h xs pcs \<Longrightarrow> dom h \<subseteq> dom h' \<Longrightarrow> owned_blocks owns h' xs pcs"
  unfolding owned_blocks_def by blast

lemma owned_blocks_perm:
  "owned_blocks owns h xs pcs \<Longrightarrow> mset ys = mset xs \<Longrightarrow> owned_blocks owns h ys pcs"
  by (simp add: owned_blocks_def)

lemma owned_blocks_add:
  assumes "owned_blocks owns h xs pcs" "a \<notin> dom h" "set xs \<subseteq> dom h"
  shows "owned_blocks owns (h(a \<mapsto> n)) (a # xs) pcs"
proof -
  have "count (mset xs + sum_list (map owns pcs)) a = 0"
    using assms by (auto simp: owned_blocks_def count_eq_zero_iff)
  then show ?thesis using assms(1) by (auto simp: owned_blocks_def)
qed

lemma owned_blocks_pcs:
  "sum_list (map owns pcs') = sum_list (map owns pcs) \<Longrightarrow> owned_blocks owns h xs pcs' = owned_blocks owns h xs pcs"
  by (simp add: owned_blocks_def)

lemma owned_blocks_drop: "owned_blocks owns h xs pcs \<Longrightarrow> owned_blocks owns h [] pcs"
  unfolding owned_blocks_def by (metis add_leD2 count_union empty_neutral(1) mset.simps(1))

end
