(* ===== verification/Thpool_Jobqueue.thy ===== *)
theory Thpool_Jobqueue
  imports Pool_Spec Pthread Heap_Lists
begin

text \<open>
  The job queue and the binary semaphore of \<open>src/threadpool/c-Thread-Pool-master/thpool.c\<close>, as the code
  of one thread. The jobs are nodes of a heap linked through \<open>prev\<close> (from the front to the rear); the
  interleaving of the threads is in \<open>Thpool_Threads\<close>.
\<close>

section \<open>Data\<close>

record bsem =
  bsem_mutex :: mutex
  bsem_cond :: bool
  bsem_v :: int

record ('f, 'a) job =
  job_prev :: "addr option"
  job_function :: 'f
  job_arg :: 'a

text \<open>\<open>jq_jobs\<close> is the part of the heap that holds blocks of type \<open>job\<close>.\<close>

record ('f, 'a) jobqueue =
  jq_rwmutex :: mutex
  jq_front :: "addr option"
  jq_rear :: "addr option"
  jq_has_jobs :: bsem
  jq_len :: int
  jq_jobs :: "addr \<rightharpoonup> ('f, 'a) job"

section \<open>Synchronisation\<close>

definition bsem_init :: "int \<Rightarrow> bsem outcome" where
  "bsem_init value =
     (if value < 0 \<or> value > 1 then Exit 1
      else Ret \<lparr>bsem_mutex = snd (pthread_mutex_init 0 M_uninit), bsem_cond = True, bsem_v = value\<rparr>)"

definition bsem_reset :: "bsem \<Rightarrow> bsem outcome" where
  "bsem_reset b = bsem_init 0"

text \<open>
  The waking of sleeping threads by the signal or the broadcast is a matter of their program counters,
  in \<open>Thpool_Threads\<close>; here is what the two functions do to the semaphore.
\<close>

definition bsem_post :: "tid \<Rightarrow> bsem \<Rightarrow> bsem outcome" where
  "bsem_post t b =
     and_then (pthread_mutex_lock t 0 (bsem_mutex b)) (\<lambda>(_, m).
     and_then (pthread_mutex_unlock t 0 m) (\<lambda>(_, m').
     Ret (b\<lparr>bsem_v := 1, bsem_mutex := m'\<rparr>)))"

definition bsem_post_all :: "tid \<Rightarrow> bsem \<Rightarrow> bsem outcome" where
  "bsem_post_all t b =
     and_then (pthread_mutex_lock t 0 (bsem_mutex b)) (\<lambda>(_, m).
     and_then (pthread_mutex_unlock t 0 m) (\<lambda>(_, m').
     Ret (b\<lparr>bsem_v := 1, bsem_mutex := m'\<rparr>)))"

text \<open>
  One round of the loop of \<open>bsem_wait\<close>, from taking the mutex to leaving it: \<open>True\<close> if the semaphore
  was taken, \<open>False\<close> if the thread goes to sleep on the condition variable.
\<close>

definition bsem_try :: "tid \<Rightarrow> bsem \<Rightarrow> (bool \<times> bsem) outcome" where
  "bsem_try t b =
     and_then (pthread_mutex_lock t 0 (bsem_mutex b)) (\<lambda>(_, m).
     and_then (pthread_mutex_unlock t 0 m) (\<lambda>(_, m').
     if bsem_v b \<noteq> 1 then Ret (False, b\<lparr>bsem_mutex := m'\<rparr>)
     else Ret (True, b\<lparr>bsem_v := 0, bsem_mutex := m'\<rparr>)))"

section \<open>Job queue\<close>

text \<open>\<open>jobqueue_push\<close> up to the increment of \<open>len\<close>, and as a whole.\<close>

definition jobqueue_link :: "addr \<Rightarrow> ('f, 'a) jobqueue \<Rightarrow> ('f, 'a) jobqueue outcome" where
  "jobqueue_link newjob q =
     and_then (write_node (jq_jobs q) (Some newjob) (\<lambda>j. j\<lparr>job_prev := None\<rparr>)) (\<lambda>h.
     and_then
       (if jq_len q = 0
        then Ret (q\<lparr>jq_jobs := h, jq_front := Some newjob, jq_rear := Some newjob\<rparr>)
        else and_then (write_node h (jq_rear q) (\<lambda>j. j\<lparr>job_prev := Some newjob\<rparr>)) (\<lambda>h'.
             Ret (q\<lparr>jq_jobs := h', jq_rear := Some newjob\<rparr>)))
     (\<lambda>q1. and_then (c_add (jq_len q1) 1) (\<lambda>n. Ret (q1\<lparr>jq_len := n\<rparr>))))"

definition jobqueue_push :: "tid \<Rightarrow> addr \<Rightarrow> ('f, 'a) jobqueue \<Rightarrow> ('f, 'a) jobqueue outcome" where
  "jobqueue_push t newjob q =
     and_then (jobqueue_link newjob q) (\<lambda>q1.
     and_then (bsem_post t (jq_has_jobs q1)) (\<lambda>b. Ret (q1\<lparr>jq_has_jobs := b\<rparr>)))"

text \<open>\<open>jobqueue_pull\<close> up to the decrement of \<open>len\<close>, and as a whole.\<close>

definition jobqueue_unlink :: "('f, 'a) jobqueue \<Rightarrow> (addr option \<times> ('f, 'a) jobqueue) outcome" where
  "jobqueue_unlink q =
     (if jq_len q = 0 then Ret (None, q)
      else
        and_then
          (if jq_len q = 1 then Ret (q\<lparr>jq_front := None, jq_rear := None\<rparr>)
           else and_then (read_node (jq_jobs q) (jq_front q)) (\<lambda>j. Ret (q\<lparr>jq_front := job_prev j\<rparr>)))
        (\<lambda>q1. and_then (c_sub (jq_len q1) 1) (\<lambda>n. Ret (jq_front q, q1\<lparr>jq_len := n\<rparr>))))"

definition jobqueue_pull :: "tid \<Rightarrow> ('f, 'a) jobqueue \<Rightarrow> (addr option \<times> ('f, 'a) jobqueue) outcome" where
  "jobqueue_pull t q =
     and_then (jobqueue_unlink q) (\<lambda>(job_p, q1).
     if 0 < jq_len q1
     then and_then (bsem_post t (jq_has_jobs q1)) (\<lambda>b. Ret (job_p, q1\<lparr>jq_has_jobs := b\<rparr>))
     else Ret (job_p, q1))"

lemma jobqueue_pull_len:
  "jobqueue_pull t q = Ret (job_p, q') \<Longrightarrow> jq_len q \<noteq> 0 \<Longrightarrow> jq_len q' = jq_len q - 1 \<and> in_int (jq_len q')"
  by (auto simp: jobqueue_pull_def jobqueue_unlink_def c_sub_def outcome_simps split: if_splits)

text \<open>
  The loop of \<open>jobqueue_clear\<close>. Each round decreases \<open>len\<close>, and decrementing the least \<open>int\<close> is undefined,
  so the loop ends even for a negative \<open>len\<close>.
\<close>

function clear_loop :: "tid \<Rightarrow> ('f, 'a) jobqueue \<Rightarrow> ('f, 'a) jobqueue outcome" where
  "clear_loop t q =
     (if jq_len q = 0 then Ret q
      else (case jobqueue_pull t q of
              Ret (job_p, q1) \<Rightarrow>
                (case free_node (jq_jobs q1) job_p of
                   Ret h \<Rightarrow> clear_loop t (q1\<lparr>jq_jobs := h\<rparr>)
                 | Blocked \<Rightarrow> Blocked | UB u \<Rightarrow> UB u | Exit n \<Rightarrow> Exit n)
            | Blocked \<Rightarrow> Blocked | UB u \<Rightarrow> UB u | Exit n \<Rightarrow> Exit n))"
  by pat_completeness auto
termination
  by (relation "measure (\<lambda>(t, q). nat (jq_len q - INT_MIN))")
    (auto dest!: jobqueue_pull_len simp: in_int_def)

declare clear_loop.simps [simp del]

definition jobqueue_clear :: "tid \<Rightarrow> ('f, 'a) jobqueue \<Rightarrow> ('f, 'a) jobqueue outcome" where
  "jobqueue_clear t q =
     and_then (clear_loop t q) (\<lambda>q1.
     and_then (bsem_reset (jq_has_jobs q1)) (\<lambda>b.
     Ret (q1\<lparr>jq_front := None, jq_rear := None, jq_has_jobs := b, jq_len := 0\<rparr>)))"

text \<open>
  \<open>jobqueue_init\<close>, given whether the two calls of \<open>malloc\<close> succeed and what the block of the queue
  contains: the mutex is initialised before the pointer is tested, and \<open>len\<close> is read by
  \<open>jobqueue_clear\<close> before it is written.
\<close>

definition jobqueue_init ::
    "tid \<Rightarrow> ('f, 'a) jobqueue option \<Rightarrow> bool \<Rightarrow> (int \<times> ('f, 'a) jobqueue option) outcome" where
  "jobqueue_init t malloc_queue malloc_bsem =
     (case malloc_queue of
        None \<Rightarrow> UB Null_deref
      | Some q \<Rightarrow>
          let q1 = q\<lparr>jq_rwmutex := snd (pthread_mutex_init 0 (jq_rwmutex q))\<rparr>
          in if \<not> malloc_bsem then Ret (- 1, Some q1)
             else and_then (bsem_init 0) (\<lambda>b.
                  and_then (jobqueue_clear t (q1\<lparr>jq_has_jobs := b\<rparr>)) (\<lambda>q2. Ret (0, Some q2))))"

text \<open>After \<open>free(has_jobs)\<close> the semaphore cannot be used any more.\<close>

definition jobqueue_destroy :: "tid \<Rightarrow> ('f, 'a) jobqueue \<Rightarrow> ('f, 'a) jobqueue outcome" where
  "jobqueue_destroy t q =
     and_then (jobqueue_clear t q) (\<lambda>q1.
     Ret (q1\<lparr>jq_has_jobs := (jq_has_jobs q1)\<lparr>bsem_mutex := M_destroyed, bsem_cond := False\<rparr>\<rparr>))"

section \<open>The two users of the queue\<close>

text \<open>
  \<open>thpool_add_work\<close>, given the block \<open>malloc\<close> returns. Its \<open>prev\<close> has no value yet; \<open>jobqueue_push\<close>
  writes it before anything reads it.
\<close>

definition new_job :: "'f \<Rightarrow> 'a \<Rightarrow> ('f, 'a) job" where
  "new_job f a = \<lparr>job_prev = None, job_function = f, job_arg = a\<rparr>"

definition thpool_add_work ::
    "tid \<Rightarrow> addr option \<Rightarrow> 'f \<Rightarrow> 'a \<Rightarrow> ('f, 'a) jobqueue \<Rightarrow> (int \<times> ('f, 'a) jobqueue) outcome" where
  "thpool_add_work t malloc_job f a q =
     (case malloc_job of
        None \<Rightarrow> Ret (- 1, q)
      | Some newjob \<Rightarrow>
          and_then (pthread_mutex_lock t 0 (jq_rwmutex q)) (\<lambda>(_, m).
          and_then (jobqueue_push t newjob
                      (q\<lparr>jq_jobs := (jq_jobs q)(newjob \<mapsto> new_job f a), jq_rwmutex := m\<rparr>)) (\<lambda>q1.
          and_then (pthread_mutex_unlock t 0 (jq_rwmutex q1)) (\<lambda>(_, m').
          Ret (0, q1\<lparr>jq_rwmutex := m'\<rparr>)))))"

text \<open>
  The part of \<open>thread_do\<close> that fetches a job, reads function and argument and frees the block, as one
  thread runs it; \<open>None\<close> when the queue was empty. The call of the function between reading and
  freeing is in \<open>Thpool_Threads\<close>.
\<close>

definition thread_fetch ::
    "tid \<Rightarrow> ('f, 'a) jobqueue \<Rightarrow> (('f \<times> 'a) option \<times> ('f, 'a) jobqueue) outcome" where
  "thread_fetch t q =
     and_then (pthread_mutex_lock t 0 (jq_rwmutex q)) (\<lambda>(_, m).
     and_then (jobqueue_pull t (q\<lparr>jq_rwmutex := m\<rparr>)) (\<lambda>(job_p, q1).
     and_then (pthread_mutex_unlock t 0 (jq_rwmutex q1)) (\<lambda>(_, m').
     if job_p = None then Ret (None, q1\<lparr>jq_rwmutex := m'\<rparr>)
     else and_then (read_node (jq_jobs q1) job_p) (\<lambda>j.
          and_then (free_node (jq_jobs q1) job_p) (\<lambda>h.
          Ret (Some (job_function j, job_arg j), q1\<lparr>jq_rwmutex := m', jq_jobs := h\<rparr>))))))"

section \<open>The linked queue as a list of jobs\<close>

type_synonym ('f, 'a) work = "'f \<times> 'a"

definition work_at :: "(addr \<rightharpoonup> ('f, 'a) job) \<Rightarrow> addr \<Rightarrow> ('f, 'a) work" where
  "work_at h a = (job_function (the (h a)), job_arg (the (h a)))"

definition jq_chain :: "('f, 'a) jobqueue \<Rightarrow> addr list" where
  "jq_chain q = chain job_prev (jq_jobs q) (nat (jq_len q)) (jq_front q)"

definition jq_items :: "('f, 'a) jobqueue \<Rightarrow> ('f, 'a) work list" where
  "jq_items q = map (work_at (jq_jobs q)) (jq_chain q)"

definition bsem_ok :: "bsem \<Rightarrow> bool" where
  "bsem_ok b \<longleftrightarrow> bsem_mutex b = M_free \<and> bsem_cond b \<and> (bsem_v b = 0 \<or> bsem_v b = 1)"

definition jq_ok :: "('f, 'a) jobqueue \<Rightarrow> bool" where
  "jq_ok q \<longleftrightarrow>
     list_at job_prev (jq_jobs q) (jq_front q) (jq_chain q) \<and>
     jq_len q = int (length (jq_chain q)) \<and> jq_len q \<le> INT_MAX \<and> bsem_ok (jq_has_jobs q) \<and>
     jq_rear q = (if jq_chain q = [] then None else Some (last (jq_chain q)))"


lemma jq_okI:
  assumes "list_at job_prev (jq_jobs q) (jq_front q) xs" "jq_len q = int (length xs)" "jq_len q \<le> INT_MAX"
    "bsem_ok (jq_has_jobs q)" "jq_rear q = (if xs = [] then None else Some (last xs))"
  shows "jq_ok q" "jq_chain q = xs"
proof -
  show "jq_chain q = xs" using assms(1,2) list_at_chain by (simp add: jq_chain_def)
  with assms show "jq_ok q" by (simp add: jq_ok_def)
qed

lemma jq_ok_frame [simp]:
  "jq_chain (q\<lparr>jq_rwmutex := m\<rparr>) = jq_chain q" "jq_chain (q\<lparr>jq_has_jobs := b\<rparr>) = jq_chain q"
  "jq_items (q\<lparr>jq_rwmutex := m\<rparr>) = jq_items q" "jq_items (q\<lparr>jq_has_jobs := b\<rparr>) = jq_items q"
  "jq_ok (q\<lparr>jq_rwmutex := m\<rparr>) = jq_ok q"
  by (simp_all add: jq_chain_def jq_items_def jq_ok_def)

lemma jq_ok_bsem: "jq_ok q \<Longrightarrow> bsem_ok b \<Longrightarrow> jq_ok (q\<lparr>jq_has_jobs := b\<rparr>)"
  by (simp add: jq_ok_def)

lemma jq_ok_parts:
  assumes "jq_ok q"
  shows "bsem_ok (jq_has_jobs q)" "jq_len q = int (length (jq_chain q))" "distinct (jq_chain q)"
    "set (jq_chain q) \<subseteq> dom (jq_jobs q)" "length (jq_items q) = nat (jq_len q)"
  using assms list_at_distinct list_at_allocated by (fastforce simp: jq_ok_def jq_items_def)+

lemma jq_chain_empty_iff: "jq_ok q \<Longrightarrow> jq_chain q = [] \<longleftrightarrow> jq_len q = 0"
  by (simp add: jq_ok_def)

text \<open>Blocks outside the chain may come, change and go.\<close>

lemma jq_ok_other:
  assumes "jq_ok q" "\<And>a. a \<in> set (jq_chain q) \<Longrightarrow> h a = jq_jobs q a"
  shows "jq_ok (q\<lparr>jq_jobs := h\<rparr>)" "jq_chain (q\<lparr>jq_jobs := h\<rparr>) = jq_chain q"
    "jq_items (q\<lparr>jq_jobs := h\<rparr>) = jq_items q"
proof -
  have "list_at job_prev h (jq_front q) (jq_chain q)"
    using assms list_at_frame by (fastforce simp: jq_ok_def)
  with assms(1) show ok: "jq_ok (q\<lparr>jq_jobs := h\<rparr>)" and ch: "jq_chain (q\<lparr>jq_jobs := h\<rparr>) = jq_chain q"
    using jq_okI [of "q\<lparr>jq_jobs := h\<rparr>" "jq_chain q"] by (simp_all add: jq_ok_def)
  show "jq_items (q\<lparr>jq_jobs := h\<rparr>) = jq_items q"
    using assms(2) by (simp add: jq_items_def ch work_at_def)
qed

lemma jq_ok_upd:
  assumes "jq_ok q" "a \<notin> set (jq_chain q)" "jq_jobs q = h"
  shows "jq_ok (q\<lparr>jq_jobs := h(a := m)\<rparr>)" "jq_chain (q\<lparr>jq_jobs := h(a := m)\<rparr>) = jq_chain q"
    "jq_items (q\<lparr>jq_jobs := h(a := m)\<rparr>) = jq_items q"
proof -
  have eq: "(h(a := m)) b = jq_jobs q b" if "b \<in> set (jq_chain q)" for b
    using assms(2,3) that by auto
  show "jq_ok (q\<lparr>jq_jobs := h(a := m)\<rparr>)" "jq_chain (q\<lparr>jq_jobs := h(a := m)\<rparr>) = jq_chain q"
    "jq_items (q\<lparr>jq_jobs := h(a := m)\<rparr>) = jq_items q"
    using eq by (simp_all only: jq_ok_other [OF assms(1)])
qed

text \<open>The semaphore.\<close>

lemma bsem_ok_ops:
  assumes "bsem_ok b"
  shows "bsem_post t b = Ret (b\<lparr>bsem_v := 1\<rparr>)" "bsem_post_all t b = Ret (b\<lparr>bsem_v := 1\<rparr>)"
    "bsem_try t b = (if bsem_v b = 1 then Ret (True, b\<lparr>bsem_v := 0\<rparr>) else Ret (False, b))"
    "bsem_ok (b\<lparr>bsem_v := 1\<rparr>)" "bsem_ok (b\<lparr>bsem_v := 0\<rparr>)"
  using assms by (cases b; simp add: bsem_ok_def bsem_post_def bsem_post_all_def bsem_try_def)+

lemma bsem_init_ok: "bsem_init 0 = Ret \<lparr>bsem_mutex = M_free, bsem_cond = True, bsem_v = 0\<rparr>"
  by (simp add: bsem_init_def pthread_mutex_init_def)

text \<open>Linking and unlinking.\<close>

lemma jobqueue_link_ok:
  assumes "jq_ok q" "a \<notin> set (jq_chain q)" "jq_jobs q a = Some j" "jq_len q < INT_MAX"
  shows "\<exists>h f q'. jobqueue_link a q = Ret q' \<and> jq_ok q' \<and> jq_chain q' = jq_chain q @ [a] \<and>
    q' = q\<lparr>jq_jobs := h, jq_front := f, jq_rear := Some a, jq_len := jq_len q + 1\<rparr> \<and>
    dom h = dom (jq_jobs q) \<and> work_at h = work_at (jq_jobs q)"
proof -
  have b: "bsem_ok (jq_has_jobs q)" and ln: "jq_len q = int (length (jq_chain q))"
    using jq_ok_parts [OF assms(1)] by auto
  have len: "in_int (jq_len q + 1)"
    using assms(4) jq_ok_parts(2) [OF assms(1)] by (simp add: in_int_def INT_MIN_def)
  let ?h = "(jq_jobs q)(a \<mapsto> j\<lparr>job_prev := None\<rparr>)"
  have dom: "dom ?h = dom (jq_jobs q)" using assms(3) by auto
  have work: "work_at ?h = work_at (jq_jobs q)" using assms(3) by (auto simp: work_at_def fun_eq_iff)
  show ?thesis
  proof (cases "jq_chain q" rule: rev_cases)
    case Nil
    then have "jq_len q = 0" using assms(1) by (simp add: jq_ok_def)
    let ?q = "q\<lparr>jq_jobs := ?h, jq_front := Some a, jq_rear := Some a, jq_len := jq_len q + 1\<rparr>"
    have link: "jobqueue_link a q = Ret ?q"
      using assms(3) \<open>jq_len q = 0\<close> len by (simp add: jobqueue_link_def c_add_def)
    have "jq_ok ?q" "jq_chain ?q = [a]"
      using jq_okI [of ?q "[a]"] assms(4) b \<open>jq_len q = 0\<close> by simp_all
    with link dom work Nil show ?thesis by (intro exI conjI) (assumption | simp)+
  next
    case (snoc xs r)
    then have r: "jq_rear q = Some r" and ne: "jq_len q \<noteq> 0" using assms(1) by (auto simp: jq_ok_def)
    have at: "list_at job_prev (jq_jobs q) (jq_front q) (xs @ [r])" using assms(1) snoc by (simp add: jq_ok_def)
    then obtain n where n: "jq_jobs q r = Some n" using list_at_allocated by fastforce
    have "r \<noteq> a" using assms(2) snoc by auto
    let ?h' = "?h(r \<mapsto> n\<lparr>job_prev := Some a\<rparr>)"
    let ?q = "q\<lparr>jq_jobs := ?h', jq_front := jq_front q, jq_rear := Some a, jq_len := jq_len q + 1\<rparr>"
    have link: "jobqueue_link a q = Ret ?q"
      using assms(3) n ne r \<open>r \<noteq> a\<close> len by (simp add: jobqueue_link_def c_add_def)
    have "list_at job_prev ?h' (jq_front q) (xs @ [r, a])"
      using list_at_snoc [OF at n] assms(2) snoc by simp
    then have "jq_ok ?q" "jq_chain ?q = xs @ [r, a]"
      using jq_okI [of ?q "xs @ [r, a]"] assms(4) snoc b ln by simp_all
    moreover have "dom ?h' = dom (jq_jobs q)" "work_at ?h' = work_at (jq_jobs q)"
      using dom work n \<open>r \<noteq> a\<close> by (auto simp: work_at_def fun_eq_iff)
    ultimately show ?thesis using link snoc
      by (intro exI [of _ ?h'] exI [of _ "jq_front q"] exI [of _ ?q] conjI) simp_all
  qed
qed

lemma jobqueue_unlink_ok:
  assumes "jq_ok q" "jq_chain q = a # xs"
  shows "\<exists>f r q'. jobqueue_unlink q = Ret (Some a, q') \<and> jq_ok q' \<and> jq_chain q' = xs \<and>
    q' = q\<lparr>jq_front := f, jq_rear := r, jq_len := jq_len q - 1\<rparr>"
proof -
  have at: "list_at job_prev (jq_jobs q) (jq_front q) (a # xs)" and len: "jq_len q = int (Suc (length xs))"
    and rear: "jq_rear q = Some (last (a # xs))" and int: "in_int (jq_len q - 1)"
    and b: "bsem_ok (jq_has_jobs q)" and mx: "jq_len q - 1 \<le> INT_MAX"
    using assms by (auto simp: jq_ok_def in_int_def INT_MIN_def)
  from at obtain j where j: "jq_front q = Some a" "jq_jobs q a = Some j" "list_at job_prev (jq_jobs q) (job_prev j) xs"
    by (auto split: option.splits)
  show ?thesis
  proof (cases "xs = []")
    case True
    let ?q = "q\<lparr>jq_front := None, jq_rear := None, jq_len := jq_len q - 1\<rparr>"
    have "jobqueue_unlink q = Ret (Some a, ?q)"
      using True len j int by (simp add: jobqueue_unlink_def c_sub_def)
    moreover have "jq_ok ?q" "jq_chain ?q = []"
      using jq_okI [of ?q "[]"] b mx True len by simp_all
    ultimately show ?thesis using True by blast
  next
    case False
    let ?q = "q\<lparr>jq_front := job_prev j, jq_rear := jq_rear q, jq_len := jq_len q - 1\<rparr>"
    have "jobqueue_unlink q = Ret (Some a, ?q)"
      using False len j int by (simp add: jobqueue_unlink_def c_sub_def)
    moreover have "jq_ok ?q" "jq_chain ?q = xs"
      using jq_okI [of ?q xs] b mx False len rear j(3) by simp_all
    ultimately show ?thesis by blast
  qed
qed

lemma jobqueue_unlink_empty: "jq_ok q \<Longrightarrow> jq_chain q = [] \<Longrightarrow> jobqueue_unlink q = Ret (None, q)"
  by (simp add: jq_ok_def jobqueue_unlink_def)

text \<open>Whole pushes and pulls by one thread.\<close>

lemma jobqueue_push_ok:
  assumes "jq_ok q" "a \<notin> set (jq_chain q)" "jq_jobs q a = Some j" "jq_len q < INT_MAX"
  shows "\<exists>q'. jobqueue_push t a q = Ret q' \<and> jq_ok q' \<and> jq_chain q' = jq_chain q @ [a] \<and>
    jq_len q' = jq_len q + 1 \<and> bsem_v (jq_has_jobs q') = 1 \<and>
    dom (jq_jobs q') = dom (jq_jobs q) \<and> work_at (jq_jobs q') = work_at (jq_jobs q)"
  using jobqueue_link_ok [OF assms] bsem_ok_ops jq_ok_parts(1) jq_ok_bsem
  by (fastforce simp: jobqueue_push_def)

lemma jobqueue_pull_ok:
  assumes "jq_ok q" "jq_chain q = a # xs"
  shows "\<exists>q'. jobqueue_pull t q = Ret (Some a, q') \<and> jq_ok q' \<and> jq_chain q' = xs \<and>
    jq_len q' = jq_len q - 1 \<and> (xs \<noteq> [] \<longrightarrow> bsem_v (jq_has_jobs q') = 1) \<and> jq_jobs q' = jq_jobs q"
proof -
  obtain f r q1 where q1: "jobqueue_unlink q = Ret (Some a, q1)" "jq_ok q1" "jq_chain q1 = xs"
      "q1 = q\<lparr>jq_front := f, jq_rear := r, jq_len := jq_len q - 1\<rparr>"
    using jobqueue_unlink_ok [OF assms] by blast
  have b: "bsem_ok (jq_has_jobs q1)" using jq_ok_parts(1) [OF q1(2)] .
  show ?thesis
  proof (cases "xs = []")
    case True
    then have "jq_len q1 = 0" using q1(2,3) by (simp add: jq_ok_def)
    with q1 True show ?thesis by (simp add: jobqueue_pull_def)
  next
    case False
    then have "0 < jq_len q1" using q1(2,3) by (simp add: jq_ok_def)
    with q1 bsem_ok_ops [OF b] jq_ok_bsem [OF q1(2)] show ?thesis by (simp add: jobqueue_pull_def)
  qed
qed


lemma jobqueue_pull_rwmutex: "jobqueue_pull t q = Ret (j, q') \<Longrightarrow> jq_rwmutex q' = jq_rwmutex q"
  by (auto simp: jobqueue_pull_def jobqueue_unlink_def outcome_simps split: if_splits)

lemma jobqueue_push_rwmutex: "jobqueue_push t a q = Ret q' \<Longrightarrow> jq_rwmutex q' = jq_rwmutex q"
  by (auto simp: jobqueue_push_def jobqueue_link_def outcome_simps split: if_splits)

text \<open>Clearing frees exactly the waiting jobs.\<close>

lemma clear_loop_ok:
  assumes "jq_ok q"
  shows "\<exists>q'. clear_loop t q = Ret q' \<and> jq_ok q' \<and> jq_chain q' = [] \<and> jq_rwmutex q' = jq_rwmutex q \<and>
    jq_jobs q' = jq_jobs q |` (- set (jq_chain q))"
  using assms
proof (induction "jq_chain q" arbitrary: q)
  case Nil
  then have "jq_len q = 0" by (simp add: jq_ok_def)
  with Nil show ?case by (auto simp: clear_loop.simps [of t q] restrict_map_def)
next
  case (Cons a xs)
  then obtain q1 where q1: "jobqueue_pull t q = Ret (Some a, q1)" "jq_ok q1" "jq_chain q1 = xs" "jq_jobs q1 = jq_jobs q"
    using jobqueue_pull_ok [of q a xs t] by auto
  have a: "a \<notin> set xs" "a \<in> dom (jq_jobs q)" using Cons.prems jq_ok_parts(3,4) [of q] unfolding Cons.hyps(2) [symmetric] by auto
  let ?q = "q1\<lparr>jq_jobs := (jq_jobs q)(a := None)\<rparr>"
  have len: "jq_len q \<noteq> 0" using Cons by (auto simp: jq_ok_def)
  have free: "free_node (jq_jobs q1) (Some a) = Ret ((jq_jobs q)(a := None))" using a(2) q1(4) by auto
  have step: "clear_loop t q = clear_loop t ?q"
    using len free by (simp add: clear_loop.simps [of t q] q1(1))
  have "jq_ok ?q" "jq_chain ?q = xs"
    using jq_ok_upd [OF q1(2) _ q1(4)] q1(3) a(1) by auto
  moreover have "jq_jobs ?q |` (- set xs) = jq_jobs q |` (- set (a # xs))"
    by (auto simp: restrict_map_def fun_eq_iff)
  ultimately show ?case
    using Cons.hyps(1) [of ?q] jobqueue_pull_rwmutex [OF q1(1)] unfolding step Cons.hyps(2) [symmetric] by simp
qed

lemma jobqueue_clear_ok:
  assumes "jq_ok q"
  shows "\<exists>q'. jobqueue_clear t q = Ret q' \<and> jq_ok q' \<and> jq_chain q' = [] \<and> bsem_v (jq_has_jobs q') = 0 \<and>
    jq_rwmutex q' = jq_rwmutex q \<and> jq_jobs q' = jq_jobs q |` (- set (jq_chain q))"
proof -
  obtain q1 where q1: "clear_loop t q = Ret q1" "jq_rwmutex q1 = jq_rwmutex q"
      "jq_jobs q1 = jq_jobs q |` (- set (jq_chain q))"
    using clear_loop_ok [OF assms] by blast
  let ?q = "q1\<lparr>jq_front := None, jq_rear := None,
      jq_has_jobs := \<lparr>bsem_mutex = M_free, bsem_cond = True, bsem_v = 0\<rparr>, jq_len := 0\<rparr>"
  have "jobqueue_clear t q = Ret ?q" by (simp add: jobqueue_clear_def q1 bsem_reset_def bsem_init_ok)
  moreover have "jq_ok ?q" "jq_chain ?q = []"
    using jq_okI [of ?q "[]"] by (simp_all add: bsem_ok_def INT_MAX_def)
  ultimately show ?thesis using q1 by simp
qed

text \<open>
  What \<open>jobqueue_init\<close> makes of a block with arbitrary contents, when no job exists yet.
\<close>

definition empty_queue :: "('f, 'a) jobqueue \<Rightarrow> ('f, 'a) jobqueue" where
  "empty_queue q = q\<lparr>jq_rwmutex := M_free, jq_front := None, jq_rear := None,
     jq_has_jobs := \<lparr>bsem_mutex = M_free, bsem_cond = True, bsem_v = 0\<rparr>, jq_len := 0\<rparr>"

lemma empty_queue_ok:
  "jq_ok (empty_queue q)" "jq_chain (empty_queue q) = []" "jq_rwmutex (empty_queue q) = M_free"
  "jq_jobs (empty_queue q) = jq_jobs q" "bsem_v (jq_has_jobs (empty_queue q)) = 0"
  using jq_okI [of "empty_queue q" "[]"] by (simp_all add: empty_queue_def bsem_ok_def INT_MAX_def)

lemma jobqueue_init_any:
  assumes "jq_jobs q = Map.empty"
  shows "jobqueue_init t (Some q) True =
    (if jq_len q = 0 \<or> jq_len q = 1 \<and> jq_front q = None then Ret (0, Some (empty_queue q))
     else if jq_front q = None then UB Null_deref else UB Dangling)"
proof -
  let ?b = "\<lparr>bsem_mutex = M_free, bsem_cond = True, bsem_v = 0\<rparr>"
  let ?q = "q\<lparr>jq_rwmutex := M_free, jq_has_jobs := ?b\<rparr>"
  have init: "jobqueue_init t (Some q) True = and_then (jobqueue_clear t ?q) (\<lambda>q2. Ret (0, Some q2))"
    by (simp add: jobqueue_init_def bsem_init_ok pthread_mutex_init_def)
  consider "jq_len q = 0" | "jq_len q = 1" | "jq_len q \<noteq> 0" "jq_len q \<noteq> 1" by blast
  then show ?thesis
  proof cases
    case 1
    then show ?thesis
      by (simp add: init jobqueue_clear_def clear_loop.simps [of t ?q] bsem_reset_def bsem_init_ok empty_queue_def)
  next
    case 2
    let ?q1 = "?q\<lparr>jq_front := None, jq_rear := None, jq_len := 0\<rparr>"
    have pull: "jobqueue_pull t ?q = Ret (jq_front q, ?q1)"
      using 2 by (simp add: jobqueue_pull_def jobqueue_unlink_def c_sub_def)
    show ?thesis
    proof (cases "jq_front q")
      case None
      have "clear_loop t ?q = clear_loop t ?q1"
        using 2 pull None by (simp add: clear_loop.simps [of t ?q])
      then show ?thesis using 2 None
        by (simp add: init jobqueue_clear_def clear_loop.simps [of t ?q1] bsem_reset_def bsem_init_ok empty_queue_def)
    next
      case (Some a)
      have "clear_loop t ?q = UB Dangling"
        using 2 pull Some assms by (simp add: clear_loop.simps [of t ?q] free_node_def)
      then show ?thesis using 2 Some by (simp add: init jobqueue_clear_def)
    qed
  next
    case 3
    have "jobqueue_pull t ?q = (if jq_front q = None then UB Null_deref else UB Dangling)"
      using 3 assms by (auto simp: jobqueue_pull_def jobqueue_unlink_def read_node_def split: option.splits)
    then show ?thesis using 3 by (simp add: init jobqueue_clear_def clear_loop.simps [of t ?q])
  qed
qed

text \<open>The linked queue keeps the contract of a queue when \<open>malloc\<close> returns fresh blocks.\<close>

definition jq_inv :: "('f, 'a) jobqueue \<times> addr list \<Rightarrow> bool" where
  "jq_inv = (\<lambda>(q, blocks). jq_ok q \<and> jq_rwmutex q = M_free)"

definition jq_fits :: "('f, 'a) work list \<Rightarrow> ('f, 'a) jobqueue \<times> addr list \<Rightarrow> bool" where
  "jq_fits ws = (\<lambda>(q, blocks). length ws \<le> length blocks \<and> distinct blocks \<and>
     set blocks \<inter> dom (jq_jobs q) = {} \<and> jq_len q + int (length ws) \<le> INT_MAX)"

definition jq_put ::
    "('f, 'a) work \<Rightarrow> ('f, 'a) jobqueue \<times> addr list \<Rightarrow> (('f, 'a) jobqueue \<times> addr list) outcome" where
  "jq_put w = (\<lambda>(q, blocks).
     and_then (thpool_add_work (Client 0) (case blocks of [] \<Rightarrow> None | b # _ \<Rightarrow> Some b) (fst w) (snd w) q)
       (\<lambda>(_, q'). Ret (q', tl blocks)))"

definition jq_get ::
    "('f, 'a) jobqueue \<times> addr list \<Rightarrow> (('f, 'a) work \<times> ('f, 'a) jobqueue \<times> addr list) outcome" where
  "jq_get = (\<lambda>(q, blocks).
     and_then (thread_fetch (Worker 0) q) (\<lambda>(w, q').
     case w of None \<Rightarrow> Blocked | Some x \<Rightarrow> Ret (x, q', blocks)))"

lemma thpool_add_work_ok:
  assumes "jq_ok q" "jq_rwmutex q = M_free" "b \<notin> dom (jq_jobs q)" "jq_len q < INT_MAX"
  shows "\<exists>q'. thpool_add_work t (Some b) f a q = Ret (0, q') \<and> jq_ok q' \<and> jq_rwmutex q' = M_free \<and>
    jq_items q' = jq_items q @ [(f, a)] \<and> jq_len q' = jq_len q + 1 \<and> bsem_v (jq_has_jobs q') = 1 \<and>
    dom (jq_jobs q') = insert b (dom (jq_jobs q))"
proof -
  let ?h = "(jq_jobs q)(b \<mapsto> new_job f a)"
  let ?q = "q\<lparr>jq_jobs := ?h\<rparr>"
  have b: "b \<notin> set (jq_chain q)" using assms(3) jq_ok_parts(4) [OF assms(1)] by blast
  have q: "jq_ok ?q" "jq_chain ?q = jq_chain q" "jq_items ?q = jq_items q"
    using jq_ok_upd [OF assms(1) b refl] by auto
  have q0: "jq_ok (?q\<lparr>jq_rwmutex := M_held t\<rparr>)" "jq_chain (?q\<lparr>jq_rwmutex := M_held t\<rparr>) = jq_chain q"
    using q(1,2) by (simp_all only: jq_ok_frame)
  obtain q1 where q1: "jobqueue_push t b (?q\<lparr>jq_rwmutex := M_held t\<rparr>) = Ret q1" "jq_ok q1"
      "jq_chain q1 = jq_chain q @ [b]" "jq_len q1 = jq_len q + 1" "bsem_v (jq_has_jobs q1) = 1"
      "dom (jq_jobs q1) = insert b (dom (jq_jobs q))" "work_at (jq_jobs q1) = work_at ?h"
    using jobqueue_push_ok [OF q0(1), of b "new_job f a" t] q0(2) b assms(4) by auto
  have rw: "jq_rwmutex q1 = M_held t" using jobqueue_push_rwmutex [OF q1(1)] by simp
  have "jq_items q1 = jq_items q @ [(f, a)]"
    using q1(3,7) q(2,3) by (simp add: jq_items_def work_at_def new_job_def)
  moreover have "thpool_add_work t (Some b) f a q = Ret (0, q1\<lparr>jq_rwmutex := M_free\<rparr>)"
    using q1(1) rw assms(2) by (simp add: thpool_add_work_def)
  ultimately show ?thesis using q1 by simp
qed

lemma thread_fetch_ok:
  assumes "jq_ok q" "jq_rwmutex q = M_free" "jq_items q = w # ws"
  shows "\<exists>q' a. thread_fetch t q = Ret (Some w, q') \<and> jq_ok q' \<and> jq_rwmutex q' = M_free \<and> jq_items q' = ws \<and>
    jq_chain q = a # jq_chain q' \<and> jq_jobs q' = (jq_jobs q)(a := None)"
proof -
  from assms(3) obtain a xs where ch: "jq_chain q = a # xs" "work_at (jq_jobs q) a = w" "map (work_at (jq_jobs q)) xs = ws"
    by (cases "jq_chain q") (auto simp: jq_items_def)
  obtain q1 where q1: "jobqueue_pull t (q\<lparr>jq_rwmutex := M_held t\<rparr>) = Ret (Some a, q1)" "jq_ok q1" "jq_chain q1 = xs"
      "jq_jobs q1 = jq_jobs q"
    using jobqueue_pull_ok [of "q\<lparr>jq_rwmutex := M_held t\<rparr>" a xs t] assms(1) ch(1) by auto
  have rw: "jq_rwmutex q1 = M_held t" using jobqueue_pull_rwmutex [OF q1(1)] by simp
  from ch(1) obtain j where j: "jq_jobs q a = Some j" using jq_ok_parts(4) [OF assms(1)] by auto
  let ?q = "q1\<lparr>jq_jobs := (jq_jobs q)(a := None)\<rparr>"
  have "a \<notin> set xs" using jq_ok_parts(3) [OF assms(1)] ch(1) by simp
  then have ok: "jq_ok ?q" "jq_chain ?q = xs" "jq_items ?q = jq_items q1"
    using jq_ok_upd [OF q1(2) _ q1(4)] q1(3) by auto
  have frame: "?q\<lparr>jq_rwmutex := M_free\<rparr> = q1\<lparr>jq_rwmutex := M_free, jq_jobs := (jq_jobs q)(a := None)\<rparr>" by simp
  have "thread_fetch t q = Ret (Some w, ?q\<lparr>jq_rwmutex := M_free\<rparr>)"
    using q1(1,4) rw assms(2) j ch(2) unfolding frame by (auto simp: thread_fetch_def work_at_def)
  moreover have "jq_items ?q = ws" using ok(3) q1(3,4) ch(3) by (simp add: jq_items_def)
  then have "jq_items (?q\<lparr>jq_rwmutex := M_free\<rparr>) = ws" "jq_ok (?q\<lparr>jq_rwmutex := M_free\<rparr>)"
    "jq_chain (?q\<lparr>jq_rwmutex := M_free\<rparr>) = xs"
    using ok(1,2) by (simp_all only: jq_ok_frame)
  ultimately show ?thesis using ch(1) by (intro exI [of _ "?q\<lparr>jq_rwmutex := M_free\<rparr>"] exI [of _ a]) simp
qed

interpretation jobs: job_queue jq_inv "jq_items \<circ> fst" jq_fits jq_put jq_get
proof (unfold_locales, goal_cases)
  case (1 qb w ws)
  obtain q blocks f a where qb: "qb = (q, blocks)" "w = (f, a)" by (metis surj_pair)
  with 1 obtain b bs where b: "blocks = b # bs" by (cases blocks) (auto simp: jq_fits_def)
  from 1 obtain q' where "thpool_add_work (Client 0) (Some b) f a q = Ret (0, q')" "jq_ok q'" "jq_rwmutex q' = M_free"
      "jq_items q' = jq_items q @ [(f, a)]" "jq_len q' = jq_len q + 1" "dom (jq_jobs q') = insert b (dom (jq_jobs q))"
    using thpool_add_work_ok [of q b "Client 0" f a] by (auto simp: qb b jq_inv_def jq_fits_def)
  with 1(2) show ?case by (auto simp: qb b jq_put_def jq_inv_def jq_fits_def)
next
  case (2 qb w ws)
  then obtain q blocks where qb: "qb = (q, blocks)" by (metis surj_pair)
  with 2 thread_fetch_ok [of q w ws "Worker 0"] show ?case by (auto simp: jq_inv_def jq_get_def)
qed

end
