(* ===== verification/Thpool_Threads.thy ===== *)
theory Thpool_Threads
  imports Thpool_Jobqueue
begin

text \<open>
  The threads of \<open>src/threadpool/c-Thread-Pool-master/thpool.c\<close>, interleaved with the callers of
  \<open>thpool_add_work\<close>, \<open>thpool_pause\<close>, \<open>thpool_resume\<close> and \<open>thpool_destroy\<close> and with other pools of the
  process, which share the globals \<open>threads_keepalive\<close> and \<open>threads_on_hold\<close>.

  The queue mutex \<open>rwmutex\<close> is explicit, since a thread holds it while it posts the semaphore; so is
  \<open>thcount_lock\<close>, since its last holder may still have to release it when the pool is freed. The short
  critical sections of the semaphore and of the two counters are one step each.
\<close>

section \<open>States\<close>

datatype tpc =
    T_start
  | T_loop
  | T_sem
  | T_asleep
  | T_check
  | T_inc
  | T_pull
  | T_post "addr option"
  | T_job addr
  | T_dec
  | T_dying
  | T_unlock
  | T_dead

text \<open>
  For every thread: where it is, whether \<open>SIGUSR1\<close> is pending for it, and whether it is inside the
  handler \<open>thread_hold\<close>. \<open>th_ready\<close> says that \<open>thpool_init\<close> has returned; \<open>th_destroying\<close> holds \<open>threads_total\<close> while \<open>thpool_destroy\<close> polls.
\<close>

record ('f, 'a) th_sys =
  th_queue :: "('f, 'a) jobqueue"
  th_pcs :: "tpc list"
  th_signalled :: "bool list"
  th_held :: "bool list"
  th_alive :: int
  th_working :: int
  th_count_lock :: mutex
  threads_keepalive :: int
  threads_on_hold :: int
  th_destroying :: "int option"
  th_ready :: bool
  th_freed :: bool
  th_submitted :: "('f, 'a) work list"
  th_begun :: "('f, 'a) work list"
  th_finished :: "('f, 'a) work multiset"
  th_discarded :: "('f, 'a) work list"

datatype ('f, 'a) th_label =
    Th_work nat "nat option"
  | Th_ready
  | Th_wakeup nat
  | Th_add nat addr 'f 'a
  | Th_add_post nat "nat option"
  | Th_pause
  | Th_deliver nat
  | Th_unhold nat
  | Th_resume
  | Th_destroy_begin
  | Th_destroy_post nat
  | Th_destroy_end nat
  | Th_other_init
  | Th_other_destroy

section \<open>thread_do\<close>

definition goto :: "nat \<Rightarrow> tpc \<Rightarrow> ('f, 'a) th_sys \<Rightarrow> ('f, 'a) th_sys" where
  "goto w pc s = s\<lparr>th_pcs := (th_pcs s)[w := pc]\<rparr>"

text \<open>A counter is changed between lock and unlock of \<open>thcount_lock\<close>.\<close>

definition count_section :: "tid \<Rightarrow> mutex \<Rightarrow> int outcome \<Rightarrow> (int \<times> mutex) outcome" where
  "count_section t m new =
     and_then (pthread_mutex_lock t 0 m) (\<lambda>(_, m1).
     and_then new (\<lambda>n.
     and_then (pthread_mutex_unlock t 0 m1) (\<lambda>(_, m2). Ret (n, m2))))"

fun after_pull :: "addr option \<Rightarrow> tpc" where
  "after_pull None = T_dec"
| "after_pull (Some a) = T_job a"

definition begun_work :: "(addr \<rightharpoonup> ('f, 'a) job) \<Rightarrow> addr option \<Rightarrow> ('f, 'a) work list" where
  "begun_work h job_p = (case job_p of None \<Rightarrow> [] | Some a \<Rightarrow> [work_at h a])"

text \<open>
  One step of the thread \<open>w\<close>; \<open>ch\<close> is the sleeping thread that a signal of this step wakes.
  \<open>jobqueue_pull\<close> is cut before its \<open>bsem_post\<close>, which is the step \<open>T_post\<close>.
\<close>

fun thread_do :: "nat \<Rightarrow> nat option \<Rightarrow> tpc \<Rightarrow> ('f, 'a) th_sys \<Rightarrow> ('f, 'a) th_sys outcome" where
  "thread_do w ch T_start s =
     and_then (count_section (Worker w) (th_count_lock s) (c_add (th_alive s) 1)) (\<lambda>(n, m).
     Ret (goto w T_loop (s\<lparr>th_alive := n, th_count_lock := m\<rparr>)))"
| "thread_do w ch T_loop s = Ret (goto w (if threads_keepalive s \<noteq> 0 then T_sem else T_dying) s)"
| "thread_do w ch T_sem s =
     and_then (bsem_try (Worker w) (jq_has_jobs (th_queue s))) (\<lambda>(got, b).
     Ret (goto w (if got then T_check else T_asleep) (s\<lparr>th_queue := (th_queue s)\<lparr>jq_has_jobs := b\<rparr>\<rparr>)))"
| "thread_do w ch T_asleep s = Blocked"
| "thread_do w ch T_check s = Ret (goto w (if threads_keepalive s \<noteq> 0 then T_inc else T_loop) s)"
| "thread_do w ch T_inc s =
     and_then (count_section (Worker w) (th_count_lock s) (c_add (th_working s) 1)) (\<lambda>(n, m).
     Ret (goto w T_pull (s\<lparr>th_working := n, th_count_lock := m\<rparr>)))"
| "thread_do w ch T_pull s =
     and_then (pthread_mutex_lock (Worker w) 0 (jq_rwmutex (th_queue s))) (\<lambda>(_, m).
     and_then (jobqueue_unlink ((th_queue s)\<lparr>jq_rwmutex := m\<rparr>)) (\<lambda>(job_p, q).
     let s1 = s\<lparr>th_begun := th_begun s @ begun_work (jq_jobs q) job_p\<rparr>
     in if 0 < jq_len q then Ret (goto w (T_post job_p) (s1\<lparr>th_queue := q\<rparr>))
        else and_then (pthread_mutex_unlock (Worker w) 0 (jq_rwmutex q)) (\<lambda>(_, m').
             Ret (goto w (after_pull job_p) (s1\<lparr>th_queue := q\<lparr>jq_rwmutex := m'\<rparr>\<rparr>)))))"
| "thread_do w ch (T_post job_p) s =
     (if cond_signal_ok T_asleep ch (th_pcs s)
      then and_then (bsem_post (Worker w) (jq_has_jobs (th_queue s))) (\<lambda>b.
           and_then (pthread_mutex_unlock (Worker w) 0 (jq_rwmutex (th_queue s))) (\<lambda>(_, m).
           Ret (goto w (after_pull job_p)
             (s\<lparr>th_queue := (th_queue s)\<lparr>jq_has_jobs := b, jq_rwmutex := m\<rparr>,
                th_pcs := cond_signal T_sem ch (th_pcs s)\<rparr>))))
      else Blocked)"
| "thread_do w ch (T_job a) s =
     and_then (read_node (jq_jobs (th_queue s)) (Some a)) (\<lambda>j.
     and_then (free_node (jq_jobs (th_queue s)) (Some a)) (\<lambda>h.
     Ret (goto w T_dec (s\<lparr>th_queue := (th_queue s)\<lparr>jq_jobs := h\<rparr>,
       th_finished := add_mset (job_function j, job_arg j) (th_finished s)\<rparr>))))"
| "thread_do w ch T_dec s =
     and_then (count_section (Worker w) (th_count_lock s) (c_sub (th_working s) 1)) (\<lambda>(n, m).
     Ret (goto w T_loop (s\<lparr>th_working := n, th_count_lock := m\<rparr>)))"
| "thread_do w ch T_dying s =
     and_then (pthread_mutex_lock (Worker w) 0 (th_count_lock s)) (\<lambda>(_, m).
     and_then (c_sub (th_alive s) 1) (\<lambda>n.
     Ret (goto w T_unlock (s\<lparr>th_alive := n, th_count_lock := m\<rparr>))))"
| "thread_do w ch T_unlock s =
     and_then (pthread_mutex_unlock (Worker w) 0 (th_count_lock s)) (\<lambda>(_, m).
     Ret (goto w T_dead (s\<lparr>th_count_lock := m\<rparr>)))"
| "thread_do w ch T_dead s = Blocked"

section \<open>The whole system\<close>

text \<open>
  \<open>thpool_add_work\<close> is cut like \<open>jobqueue_pull\<close>: \<open>Th_add\<close> goes up to the increment of \<open>len\<close>,
  \<open>Th_add_post\<close> posts the semaphore and unlocks. A freed block is no longer used by \<open>malloc\<close> for a live
  job, so the address of a new job is not in the heap.
\<close>

definition add_link :: "nat \<Rightarrow> addr \<Rightarrow> 'f \<Rightarrow> 'a \<Rightarrow> ('f, 'a) th_sys \<Rightarrow> ('f, 'a) th_sys outcome" where
  "add_link c b f a s =
     (if b \<in> dom (jq_jobs (th_queue s)) then Blocked
      else and_then (pthread_mutex_lock (Client c) 0 (jq_rwmutex (th_queue s))) (\<lambda>(_, m).
           and_then (jobqueue_link b ((th_queue s)\<lparr>jq_jobs := (jq_jobs (th_queue s))(b \<mapsto> new_job f a),
                       jq_rwmutex := m\<rparr>)) (\<lambda>q.
           Ret (s\<lparr>th_queue := q, th_submitted := th_submitted s @ [(f, a)]\<rparr>))))"

definition add_post :: "nat \<Rightarrow> nat option \<Rightarrow> ('f, 'a) th_sys \<Rightarrow> ('f, 'a) th_sys outcome" where
  "add_post c ch s =
     (if jq_rwmutex (th_queue s) = M_held (Client c) \<and> cond_signal_ok T_asleep ch (th_pcs s)
      then and_then (bsem_post (Client c) (jq_has_jobs (th_queue s))) (\<lambda>b.
           and_then (pthread_mutex_unlock (Client c) 0 (jq_rwmutex (th_queue s))) (\<lambda>(_, m).
           Ret (s\<lparr>th_queue := (th_queue s)\<lparr>jq_has_jobs := b, jq_rwmutex := m\<rparr>,
                  th_pcs := cond_signal T_sem ch (th_pcs s)\<rparr>)))
      else Blocked)"

text \<open>\<open>thpool_pause\<close> signals the first \<open>num_threads_alive\<close> threads; the handler is \<open>thread_hold\<close>.\<close>

definition thpool_pause :: "('f, 'a) th_sys \<Rightarrow> ('f, 'a) th_sys outcome" where
  "thpool_pause s =
     (if th_alive s \<le> int (length (th_pcs s))
      then Ret (s\<lparr>th_signalled := replicate (nat (th_alive s)) True @ drop (nat (th_alive s)) (th_signalled s)\<rparr>)
      else UB Out_of_bounds)"

definition thread_hold :: "nat \<Rightarrow> ('f, 'a) th_sys \<Rightarrow> ('f, 'a) th_sys outcome" where
  "thread_hold w s =
     (if w < length (th_pcs s) \<and> th_signalled s ! w \<and> \<not> th_held s ! w \<and> th_pcs s ! w \<noteq> T_dead
      then Ret (s\<lparr>threads_on_hold := 1, th_signalled := (th_signalled s)[w := False],
                  th_held := (th_held s)[w := True]\<rparr>)
      else Blocked)"

definition thread_unhold :: "nat \<Rightarrow> ('f, 'a) th_sys \<Rightarrow> ('f, 'a) th_sys outcome" where
  "thread_unhold w s =
     (if w < length (th_pcs s) \<and> th_held s ! w \<and> threads_on_hold s = 0
      then Ret (s\<lparr>th_held := (th_held s)[w := False]\<rparr>) else Blocked)"

text \<open>
  \<open>thpool_destroy\<close>: the flag, the polling with \<open>bsem_post_all\<close> while threads are alive, and the end,
  which frees the queue with the jobs left in it, the threads and the pool.
\<close>

definition destroy_begins :: "('f, 'a) th_sys \<Rightarrow> ('f, 'a) th_sys outcome" where
  "destroy_begins s =
     (if th_destroying s = None
      then Ret (s\<lparr>th_destroying := Some (th_alive s), threads_keepalive := 0\<rparr>) else Blocked)"

definition destroy_posts :: "nat \<Rightarrow> ('f, 'a) th_sys \<Rightarrow> ('f, 'a) th_sys outcome" where
  "destroy_posts c s =
     (if th_destroying s \<noteq> None \<and> th_alive s \<noteq> 0
      then and_then (bsem_post_all (Client c) (jq_has_jobs (th_queue s))) (\<lambda>b.
           Ret (s\<lparr>th_queue := (th_queue s)\<lparr>jq_has_jobs := b\<rparr>,
                  th_pcs := cond_broadcast T_asleep T_sem (th_pcs s)\<rparr>))
      else Blocked)"

definition destroy_ends :: "nat \<Rightarrow> ('f, 'a) th_sys \<Rightarrow> ('f, 'a) th_sys outcome" where
  "destroy_ends c s =
     (case th_destroying s of
        None \<Rightarrow> Blocked
      | Some threads_total \<Rightarrow>
          if th_alive s \<noteq> 0 then Blocked
          else if int (length (th_pcs s)) < threads_total then UB Out_of_bounds
          else and_then (jobqueue_destroy (Client c) (th_queue s)) (\<lambda>q.
               Ret (s\<lparr>th_queue := q, th_freed := True, th_discarded := th_discarded s @ jq_items (th_queue s)\<rparr>)))"

text \<open>
  \<open>thpool_init\<close> returns when all threads have announced themselves; before that no caller has the pool.
\<close>

definition init_returns :: "('f, 'a) th_sys \<Rightarrow> ('f, 'a) th_sys outcome" where
  "init_returns s = (if th_alive s = int (length (th_pcs s)) then Ret (s\<lparr>th_ready := True\<rparr>) else Blocked)"

text \<open>A use of the pool after it has been freed is undefined behaviour.\<close>

definition with_pool :: "('f, 'a) th_sys \<Rightarrow> ('f, 'a) th_sys outcome \<Rightarrow> ('f, 'a) th_sys outcome" where
  "with_pool s r = (if \<not> th_ready s then Blocked else if th_freed s then UB Dangling else r)"

fun th_step :: "('f, 'a) th_label \<Rightarrow> ('f, 'a) th_sys \<Rightarrow> ('f, 'a) th_sys outcome" where
  "th_step (Th_work w ch) s =
     (if w < length (th_pcs s) \<and> \<not> th_held s ! w
      then (if th_freed s then (if th_pcs s ! w = T_dead then Blocked else UB Dangling)
            else thread_do w ch (th_pcs s ! w) s)
      else Blocked)"
| "th_step Th_ready s = (if th_freed s then Blocked else init_returns s)"
| "th_step (Th_wakeup w) s =
     (if w < length (th_pcs s) \<and> th_pcs s ! w = T_asleep then Ret (goto w T_sem s) else Blocked)"
| "th_step (Th_add c b f a) s = with_pool s (add_link c b f a s)"
| "th_step (Th_add_post c ch) s = with_pool s (add_post c ch s)"
| "th_step Th_pause s = with_pool s (thpool_pause s)"
| "th_step (Th_deliver w) s = thread_hold w s"
| "th_step (Th_unhold w) s = thread_unhold w s"
| "th_step Th_resume s = Ret (s\<lparr>threads_on_hold := 0\<rparr>)"
| "th_step Th_destroy_begin s = with_pool s (destroy_begins s)"
| "th_step (Th_destroy_post c) s = (if th_freed s then Blocked else destroy_posts c s)"
| "th_step (Th_destroy_end c) s = (if th_freed s then Blocked else destroy_ends c s)"
| "th_step Th_other_init s = Ret (s\<lparr>threads_on_hold := 0, threads_keepalive := 1\<rparr>)"
| "th_step Th_other_destroy s = Ret (s\<lparr>threads_keepalive := 0\<rparr>)"

fun th_own :: "('f, 'a) th_label \<Rightarrow> bool" where
  "th_own (Th_work w ch) = True"
| "th_own _ = False"

section \<open>thpool_init\<close>

text \<open>
  What \<open>malloc\<close> returns: the block of the queue comes with its old contents. The test in \<open>thread_init\<close>
  looks at the address of the pointer, so a failed allocation is dereferenced.
\<close>

record ('f, 'a) init_env =
  malloc_thpool :: bool
  malloc_jobqueue :: "('f, 'a) jobqueue option"
  malloc_bsem :: bool
  malloc_thread_array :: bool
  malloc_thread :: "nat \<Rightarrow> bool"

definition th_start :: "nat \<Rightarrow> ('f, 'a) jobqueue \<Rightarrow> ('f, 'a) th_sys" where
  "th_start n q =
     \<lparr>th_queue = q, th_pcs = replicate n T_start, th_signalled = replicate n False,
      th_held = replicate n False, th_alive = 0, th_working = 0, th_count_lock = M_free,
      threads_keepalive = 1, threads_on_hold = 0, th_destroying = None, th_ready = False, th_freed = False,
      th_submitted = [], th_begun = [], th_finished = {#}, th_discarded = []\<rparr>"

definition thpool_init :: "tid \<Rightarrow> ('f, 'a) init_env \<Rightarrow> int \<Rightarrow> ('f, 'a) th_sys outcome" where
  "thpool_init t env num_threads =
     (let n = (if num_threads < 0 then 0 else num_threads)
      in if \<not> malloc_thpool env then Exit 1
         else and_then (jobqueue_init t (malloc_jobqueue env) (malloc_bsem env)) (\<lambda>(rc, queue).
              case queue of
                None \<Rightarrow> Exit 1
              | Some q \<Rightarrow>
                  if rc = - 1 then Exit 1
                  else if \<not> malloc_thread_array env then Exit 1
                  else if \<exists>i\<in>{0..<nat n}. \<not> malloc_thread env i then UB Null_deref
                  else Ret (th_start (nat n) q)))"

text \<open>The system starts when the threads have been created, on a heap without jobs.\<close>

definition th_init :: "('f, 'a) th_sys \<Rightarrow> bool" where
  "th_init s \<longleftrightarrow>
     (\<exists>t env n q. thpool_init t env n = Ret s \<and> in_int n \<and> malloc_jobqueue env = Some q \<and> jq_jobs q = Map.empty)"


section \<open>The invariant\<close>

fun is_alive :: "tpc \<Rightarrow> nat" where
  "is_alive T_start = 0"
| "is_alive T_unlock = 0"
| "is_alive T_dead = 0"
| "is_alive _ = 1"

fun is_working :: "tpc \<Rightarrow> nat" where
  "is_working T_pull = 1"
| "is_working (T_post j) = 1"
| "is_working (T_job a) = 1"
| "is_working T_dec = 1"
| "is_working _ = 0"

fun owned :: "tpc \<Rightarrow> addr multiset" where
  "owned (T_post (Some a)) = {#a#}"
| "owned (T_job a) = {#a#}"
| "owned _ = {#}"

definition posts :: "tpc \<Rightarrow> bool" where
  "posts pc \<longleftrightarrow> (\<exists>j. pc = T_post j)"

definition unlocks :: "tpc \<Rightarrow> bool" where
  "unlocks pc \<longleftrightarrow> pc = T_unlock"

text \<open>Every allocated job is in the queue or in the hands of exactly one thread.\<close>

definition blocks_ok :: "('f, 'a) jobqueue \<Rightarrow> tpc list \<Rightarrow> bool" where
  "blocks_ok q pcs \<longleftrightarrow> finite (dom (jq_jobs q)) \<and>
     sum_list (map owned pcs) + mset (jq_chain q) = mset_set (dom (jq_jobs q))"

definition shape_ok :: "('f, 'a) th_sys \<Rightarrow> bool" where
  "shape_ok s \<longleftrightarrow>
     length (th_signalled s) = length (th_pcs s) \<and> length (th_held s) = length (th_pcs s) \<and>
     int (length (th_pcs s)) \<le> INT_MAX \<and> (th_ready s \<longrightarrow> T_start \<notin> set (th_pcs s)) \<and>
     (th_destroying s \<noteq> None \<longrightarrow> th_ready s) \<and>
     (\<forall>n. th_destroying s = Some n \<longrightarrow> n \<le> int (length (th_pcs s))) \<and> (th_freed s \<longrightarrow> th_ready s)"

definition th_inv :: "('f, 'a) th_sys \<Rightarrow> bool" where
  "th_inv s \<longleftrightarrow> shape_ok s \<and>
     (if th_freed s then \<forall>pc\<in>set (th_pcs s). pc = T_unlock \<or> pc = T_dead
      else jq_ok (th_queue s) \<and> lock_ok posts (th_pcs s) (jq_rwmutex (th_queue s)) \<and>
        lock_ok unlocks (th_pcs s) (th_count_lock s) \<and>
        th_alive s = int (sum_list (map is_alive (th_pcs s))) \<and>
        th_working s = int (sum_list (map is_working (th_pcs s))) \<and>
        T_post None \<notin> set (th_pcs s) \<and> blocks_ok (th_queue s) (th_pcs s))"

lemma posts_simps [simp]:
  "posts (T_post j)" "\<not> posts T_start" "\<not> posts T_loop" "\<not> posts T_sem" "\<not> posts T_asleep" "\<not> posts T_check"
  "\<not> posts T_inc" "\<not> posts T_pull" "\<not> posts (T_job a)" "\<not> posts T_dec" "\<not> posts T_dying" "\<not> posts T_unlock"
  "\<not> posts T_dead"
  by (simp_all add: posts_def)

lemma unlocks_simps [simp]:
  "unlocks T_unlock" "\<not> unlocks T_start" "\<not> unlocks T_loop" "\<not> unlocks T_sem" "\<not> unlocks T_asleep"
  "\<not> unlocks T_check" "\<not> unlocks T_inc" "\<not> unlocks T_pull" "\<not> unlocks (T_job a)" "\<not> unlocks T_dec"
  "\<not> unlocks T_dying" "\<not> unlocks (T_post j)" "\<not> unlocks T_dead"
  by (simp_all add: unlocks_def)

lemma count_section_Ret:
  "count_section t m new = Ret (n, m') \<longleftrightarrow> m = M_free \<and> m' = M_free \<and> new = Ret n"
  by (auto simp: count_section_def outcome_simps pthread_mutex_lock_Ret0 pthread_mutex_unlock_Ret0)

lemma goto_simps [simp]:
  "th_pcs (goto w pc s) = (th_pcs s)[w := pc]" "th_queue (goto w pc s) = th_queue s"
  "th_signalled (goto w pc s) = th_signalled s" "th_held (goto w pc s) = th_held s"
  "th_alive (goto w pc s) = th_alive s" "th_working (goto w pc s) = th_working s"
  "th_count_lock (goto w pc s) = th_count_lock s" "threads_keepalive (goto w pc s) = threads_keepalive s"
  "threads_on_hold (goto w pc s) = threads_on_hold s" "th_destroying (goto w pc s) = th_destroying s"
  "th_ready (goto w pc s) = th_ready s" "th_freed (goto w pc s) = th_freed s"
  "th_submitted (goto w pc s) = th_submitted s" "th_begun (goto w pc s) = th_begun s"
  "th_finished (goto w pc s) = th_finished s" "th_discarded (goto w pc s) = th_discarded s"
  by (simp_all add: goto_def)

text \<open>All moves of a thread from a well-formed pool.\<close>

lemma thread_do_pull:
  assumes "thread_do w ch T_pull s = Ret t" "jq_ok (th_queue s)"
  obtains (empty) "jq_rwmutex (th_queue s) = M_free" "jq_chain (th_queue s) = []" "t = goto w T_dec s"
  | (last) a q where "jq_rwmutex (th_queue s) = M_free" "jq_chain (th_queue s) = [a]" "jq_ok q" "jq_chain q = []"
      "jq_jobs q = jq_jobs (th_queue s)" "jq_rwmutex q = M_free" "jq_has_jobs q = jq_has_jobs (th_queue s)"
      "t = goto w (T_job a) (s\<lparr>th_begun := th_begun s @ [work_at (jq_jobs q) a], th_queue := q\<rparr>)"
  | (more) a xs q where "jq_rwmutex (th_queue s) = M_free" "jq_chain (th_queue s) = a # xs" "xs \<noteq> []" "jq_ok q"
      "jq_chain q = xs" "jq_jobs q = jq_jobs (th_queue s)" "jq_rwmutex q = M_held (Worker w)"
      "jq_has_jobs q = jq_has_jobs (th_queue s)"
      "t = goto w (T_post (Some a)) (s\<lparr>th_begun := th_begun s @ [work_at (jq_jobs q) a], th_queue := q\<rparr>)"
proof -
  let ?q = "(th_queue s)\<lparr>jq_rwmutex := M_held (Worker w)\<rparr>"
  have rw: "jq_rwmutex (th_queue s) = M_free"
    using assms(1) by (auto simp: outcome_simps pthread_mutex_lock_Ret0)
  then have same: "(th_queue s)\<lparr>jq_rwmutex := M_free\<rparr> = th_queue s" by simp
  have ok: "jq_ok ?q" "jq_chain ?q = jq_chain (th_queue s)" using assms(2) by simp_all
  show thesis
  proof (cases "jq_chain (th_queue s)")
    case Nil
    then have "jobqueue_unlink ?q = Ret (None, ?q)" "jq_len (th_queue s) = 0"
      using jobqueue_unlink_empty [OF ok(1)] assms(2) by (simp_all add: jq_ok_def)
    with assms(1) rw Nil show thesis by (intro that(1)) (auto simp: begun_work_def same)
  next
    case (Cons a xs)
    obtain f r q where q: "jobqueue_unlink ?q = Ret (Some a, q)" "jq_ok q" "jq_chain q = xs"
        "q = ?q\<lparr>jq_front := f, jq_rear := r, jq_len := jq_len ?q - 1\<rparr>"
      using jobqueue_unlink_ok [OF ok(1), of a xs] ok(2) Cons by auto
    have fields: "jq_jobs q = jq_jobs (th_queue s)" "jq_rwmutex q = M_held (Worker w)"
      "jq_has_jobs q = jq_has_jobs (th_queue s)" using q(4) by simp_all
    have len: "jq_len q = int (length xs)" using q(2,3) by (simp add: jq_ok_def)
    show thesis
    proof (cases "xs = []")
      case True
      then have "t = goto w (T_job a) (s\<lparr>th_begun := th_begun s @ [work_at (jq_jobs q) a],
          th_queue := q\<lparr>jq_rwmutex := M_free\<rparr>\<rparr>)"
        using assms(1) rw q(1) fields len by (simp add: begun_work_def)
      with True rw Cons q(2,3) fields show thesis
        by (intro that(2) [of a "q\<lparr>jq_rwmutex := M_free\<rparr>"]) simp_all
    next
      case False
      then have "t = goto w (T_post (Some a)) (s\<lparr>th_begun := th_begun s @ [work_at (jq_jobs q) a], th_queue := q\<rparr>)"
        using assms(1) rw q(1) len by (simp add: begun_work_def)
      with False rw Cons q(2,3) fields show thesis by (intro that(3) [of a xs q]) simp_all
    qed
  qed
qed


lemma thread_do_cases [consumes 3,
    case_names start loop took sleeps check inc pull_empty pull_last pull_more post job dec dying unlock]:
  assumes "thread_do w ch pc s = Ret t" "jq_ok (th_queue s)" "pc \<noteq> T_post None"
  obtains
    "pc = T_start" "th_count_lock s = M_free" "t = goto w T_loop (s\<lparr>th_alive := th_alive s + 1\<rparr>)"
  | "pc = T_loop" "t = goto w (if threads_keepalive s \<noteq> 0 then T_sem else T_dying) s"
  | "pc = T_sem" "bsem_v (jq_has_jobs (th_queue s)) = 1"
      "t = goto w T_check (s\<lparr>th_queue := (th_queue s)\<lparr>jq_has_jobs := (jq_has_jobs (th_queue s))\<lparr>bsem_v := 0\<rparr>\<rparr>\<rparr>)"
  | "pc = T_sem" "bsem_v (jq_has_jobs (th_queue s)) = 0" "t = goto w T_asleep s"
  | "pc = T_check" "t = goto w (if threads_keepalive s \<noteq> 0 then T_inc else T_loop) s"
  | "pc = T_inc" "th_count_lock s = M_free" "t = goto w T_pull (s\<lparr>th_working := th_working s + 1\<rparr>)"
  | "pc = T_pull" "jq_rwmutex (th_queue s) = M_free" "jq_chain (th_queue s) = []" "t = goto w T_dec s"
  | a q where "pc = T_pull" "jq_rwmutex (th_queue s) = M_free" "jq_chain (th_queue s) = [a]" "jq_ok q" "jq_chain q = []"
      "jq_jobs q = jq_jobs (th_queue s)" "jq_rwmutex q = M_free" "jq_has_jobs q = jq_has_jobs (th_queue s)"
      "t = goto w (T_job a) (s\<lparr>th_begun := th_begun s @ [work_at (jq_jobs q) a], th_queue := q\<rparr>)"
  | a xs q where "pc = T_pull" "jq_rwmutex (th_queue s) = M_free" "jq_chain (th_queue s) = a # xs" "xs \<noteq> []" "jq_ok q"
      "jq_chain q = xs" "jq_jobs q = jq_jobs (th_queue s)" "jq_rwmutex q = M_held (Worker w)"
      "jq_has_jobs q = jq_has_jobs (th_queue s)"
      "t = goto w (T_post (Some a)) (s\<lparr>th_begun := th_begun s @ [work_at (jq_jobs q) a], th_queue := q\<rparr>)"
  | a where "pc = T_post (Some a)" "jq_rwmutex (th_queue s) = M_held (Worker w)" "cond_signal_ok T_asleep ch (th_pcs s)"
      "t = goto w (T_job a) (s\<lparr>th_queue := (th_queue s)\<lparr>jq_has_jobs := (jq_has_jobs (th_queue s))\<lparr>bsem_v := 1\<rparr>,
          jq_rwmutex := M_free\<rparr>, th_pcs := cond_signal T_sem ch (th_pcs s)\<rparr>)"
  | a j where "pc = T_job a" "jq_jobs (th_queue s) a = Some j"
      "t = goto w T_dec (s\<lparr>th_queue := (th_queue s)\<lparr>jq_jobs := (jq_jobs (th_queue s))(a := None)\<rparr>,
          th_finished := add_mset (work_at (jq_jobs (th_queue s)) a) (th_finished s)\<rparr>)"
  | "pc = T_dec" "th_count_lock s = M_free" "t = goto w T_loop (s\<lparr>th_working := th_working s - 1\<rparr>)"
  | "pc = T_dying" "th_count_lock s = M_free"
      "t = goto w T_unlock (s\<lparr>th_alive := th_alive s - 1, th_count_lock := M_held (Worker w)\<rparr>)"
  | "pc = T_unlock" "th_count_lock s = M_held (Worker w)" "t = goto w T_dead (s\<lparr>th_count_lock := M_free\<rparr>)"
proof -
  note b = bsem_ok_ops [OF jq_ok_parts(1) [OF assms(2)]]
  have v: "bsem_v (jq_has_jobs (th_queue s)) = 0 \<or> bsem_v (jq_has_jobs (th_queue s)) = 1"
    using jq_ok_parts(1) [OF assms(2)] by (auto simp: bsem_ok_def)
  have same: "s\<lparr>th_alive := n, th_count_lock := M_free\<rparr> = s\<lparr>th_alive := n\<rparr>"
    "s\<lparr>th_working := n, th_count_lock := M_free\<rparr> = s\<lparr>th_working := n\<rparr>" if "th_count_lock s = M_free" for n
    using that by simp_all
  show thesis
  proof (cases pc)
    case T_start
    with assms(1) show thesis
      by (intro that(1)) (auto simp: outcome_simps count_section_Ret c_add_def same)
  next
    case T_loop
    with assms(1) show thesis by (intro that(2)) auto
  next
    case T_sem
    with assms(1) v show thesis by (elim disjE) (auto simp: b intro: that(3) that(4))
  next
    case T_check
    with assms(1) show thesis by (intro that(5)) auto
  next
    case T_inc
    with assms(1) show thesis
      by (intro that(6)) (auto simp: outcome_simps count_section_Ret c_add_def same)
  next
    case T_pull
    with assms(1) have "thread_do w ch T_pull s = Ret t" by simp
    then show thesis using assms(2)
    proof (cases rule: thread_do_pull)
      case empty
      with T_pull show thesis by (rule that(7))
    next
      case (last a q)
      with T_pull show thesis by (rule that(8))
    next
      case (more a xs q)
      with T_pull show thesis by (rule that(9))
    qed
  next
    case (T_post jp)
    with assms(3) obtain a where "jp = Some a" by (cases jp) auto
    with T_post assms(1) show thesis
      by (intro that(10) [of a]) (auto simp: outcome_simps b pthread_mutex_unlock_Ret0 split: if_splits)
  next
    case (T_job a)
    with assms(1) obtain j where "jq_jobs (th_queue s) a = Some j"
      by (auto simp: outcome_simps read_node_def split: option.splits)
    with T_job assms(1) show thesis by (intro that(11) [of a j]) (auto simp: work_at_def)
  next
    case T_dec
    with assms(1) show thesis
      by (intro that(12)) (auto simp: outcome_simps count_section_Ret c_sub_def same)
  next
    case T_dying
    with assms(1) show thesis
      by (intro that(13)) (auto simp: outcome_simps pthread_mutex_lock_Ret0 c_sub_def)
  next
    case T_unlock
    with assms(1) show thesis by (intro that(14)) (auto simp: outcome_simps pthread_mutex_unlock_Ret0)
  qed (use assms(1) in auto)
qed


text \<open>The invariant under a step of a thread.\<close>

lemma blocks_ok_goto:
  assumes "blocks_ok q pcs" "w < length pcs" "jq_jobs q' = jq_jobs q"
    "owned pc + mset (jq_chain q') = owned (pcs ! w) + mset (jq_chain q)"
  shows "blocks_ok q' (pcs[w := pc])"
proof -
  have "sum_list (map owned (pcs[w := pc])) + owned (pcs ! w) = sum_list (map owned pcs) + owned pc"
    by (rule sum_list_update_add [OF assms(2)])
  then have "sum_list (map owned (pcs[w := pc])) + mset (jq_chain q') + owned (pcs ! w) =
      sum_list (map owned pcs) + mset (jq_chain q) + owned (pcs ! w)"
    using assms(4) by (simp add: ac_simps)
  then show ?thesis using assms(1,3) by (simp add: blocks_ok_def)
qed

lemma blocks_ok_stay:
  "blocks_ok q pcs \<Longrightarrow> w < length pcs \<Longrightarrow> owned pc = owned (pcs ! w) \<Longrightarrow> blocks_ok q (pcs[w := pc])"
  by (rule blocks_ok_goto) simp_all

lemma blocks_ok_free:
  assumes "blocks_ok q pcs" "w < length pcs" "owned (pcs ! w) = {#a#}" "owned pc = {#}" "jq_ok q"
  shows "blocks_ok (q\<lparr>jq_jobs := (jq_jobs q)(a := None)\<rparr>) (pcs[w := pc])" "a \<notin> set (jq_chain q)" "a \<in> dom (jq_jobs q)"
    "a \<notin># sum_list (map owned (pcs[w := pc]))"
proof -
  have sum: "add_mset a (sum_list (map owned (pcs[w := pc]))) = sum_list (map owned pcs)"
    using sum_list_update_add [OF assms(2), of owned pc] assms(3,4) by simp
  then have all: "add_mset a (sum_list (map owned (pcs[w := pc])) + mset (jq_chain q)) = mset_set (dom (jq_jobs q))"
    and fin: "finite (dom (jq_jobs q))"
    using assms(1) by (auto simp: blocks_ok_def simp flip: sum)
  then have "count (add_mset a (sum_list (map owned (pcs[w := pc])) + mset (jq_chain q))) a = count (mset_set (dom (jq_jobs q))) a"
    by simp
  also have "\<dots> \<le> 1" using fin by (simp add: count_mset_set')
  finally have "count (sum_list (map owned (pcs[w := pc])) + mset (jq_chain q)) a = 0"
    unfolding count_add_mset by simp
  then have once: "a \<notin># sum_list (map owned (pcs[w := pc])) + mset (jq_chain q)"
    unfolding count_eq_zero_iff .
  then show a: "a \<notin> set (jq_chain q)" "a \<notin># sum_list (map owned (pcs[w := pc]))"
    unfolding union_iff set_mset_mset by blast+
  have "a \<in># mset_set (dom (jq_jobs q))" unfolding all [symmetric] by simp
  then show "a \<in> dom (jq_jobs q)" using fin by simp
  have "dom ((jq_jobs q)(a := None)) = dom (jq_jobs q) - {a}" by auto
  moreover have "mset_set (dom (jq_jobs q) - {a}) = mset_set (dom (jq_jobs q)) - {#a#}"
    using \<open>a \<in> dom (jq_jobs q)\<close> fin by (simp add: mset_set_Diff)
  ultimately have "mset_set (dom ((jq_jobs q)(a := None))) = sum_list (map owned (pcs[w := pc])) + mset (jq_chain q)"
    unfolding all [symmetric] by simp
  then show "blocks_ok (q\<lparr>jq_jobs := (jq_jobs q)(a := None)\<rparr>) (pcs[w := pc])"
    using fin jq_ok_upd(2) [OF assms(5) a(1) refl, of None] by (simp add: blocks_ok_def)
qed

lemma blocks_ok_bsem [simp]:
  "blocks_ok (q\<lparr>jq_has_jobs := b\<rparr>) pcs = blocks_ok q pcs" "blocks_ok (q\<lparr>jq_rwmutex := m\<rparr>) pcs = blocks_ok q pcs"
  by (simp_all add: blocks_ok_def)

lemma cond_signal_set: "set (cond_signal r ch pcs) \<subseteq> insert r (set pcs)" "set (cond_broadcast z r pcs) \<subseteq> insert r (set pcs)"
  using set_update_subset_insert by (fastforce simp: cond_signal_def cond_broadcast_def split: option.splits)+

definition counts_ok :: "('f, 'a) th_sys \<Rightarrow> bool" where
  "counts_ok s \<longleftrightarrow> th_alive s = int (sum_list (map is_alive (th_pcs s))) \<and>
     th_working s = int (sum_list (map is_working (th_pcs s)))"

lemma th_inv_running:
  "\<not> th_freed s \<Longrightarrow> th_inv s \<longleftrightarrow> shape_ok s \<and> jq_ok (th_queue s) \<and> lock_ok posts (th_pcs s) (jq_rwmutex (th_queue s)) \<and>
     lock_ok unlocks (th_pcs s) (th_count_lock s) \<and> counts_ok s \<and> T_post None \<notin> set (th_pcs s) \<and>
     blocks_ok (th_queue s) (th_pcs s)"
  by (simp add: th_inv_def counts_ok_def)

text \<open>One thread moves to \<open>pc\<close>; the rest of the state changes as in \<open>s'\<close>.\<close>

lemma th_inv_goto:
  assumes "th_inv s" "\<not> th_freed s" "w < length (th_pcs s)"
    and "th_pcs s' = th_pcs s" "th_signalled s' = th_signalled s" "th_held s' = th_held s" "th_ready s' = th_ready s"
      "th_destroying s' = th_destroying s" "th_freed s' = th_freed s"
    and "jq_ok (th_queue s')" "lock_ok posts ((th_pcs s)[w := pc]) (jq_rwmutex (th_queue s'))"
      "lock_ok unlocks ((th_pcs s)[w := pc]) (th_count_lock s')"
      "th_alive s' + int (is_alive (th_pcs s ! w)) = th_alive s + int (is_alive pc)"
      "th_working s' + int (is_working (th_pcs s ! w)) = th_working s + int (is_working pc)"
      "pc \<noteq> T_start" "pc \<noteq> T_post None" "blocks_ok (th_queue s') ((th_pcs s)[w := pc])"
  shows "th_inv (goto w pc s')"
proof -
  have inv: "shape_ok s" "counts_ok s" "T_post None \<notin> set (th_pcs s)"
    using assms(1,2) by (simp_all add: th_inv_running)
  have "T_post None \<notin> set ((th_pcs s)[w := pc])" using inv(3) assms(16) by (auto dest!: in_set_updateD)
  moreover have "T_start \<notin> set ((th_pcs s)[w := pc])" if "T_start \<notin> set (th_pcs s)"
    using that assms(15) by (auto dest!: in_set_updateD)
  moreover have "counts_ok (goto w pc s')"
    using inv(2) assms(4,13,14) sum_list_update_add [OF assms(3), of is_alive pc]
      sum_list_update_add [OF assms(3), of is_working pc] by (simp add: counts_ok_def)
  ultimately show ?thesis
    using assms(2,4-12,17) inv(1) by (auto simp: th_inv_running shape_ok_def)
qed

lemma th_inv_signal:
  assumes "th_inv s" "\<not> th_freed s" "cond_signal_ok T_asleep ch (th_pcs s)"
  shows "th_inv (s\<lparr>th_pcs := cond_signal T_sem ch (th_pcs s)\<rparr>)"
proof -
  note inv = assms(1) [unfolded th_inv_running [OF assms(2)]]
  have sums: "sum_list (map is_alive (cond_signal T_sem ch (th_pcs s))) = sum_list (map is_alive (th_pcs s))"
    "sum_list (map is_working (cond_signal T_sem ch (th_pcs s))) = sum_list (map is_working (th_pcs s))"
    "sum_list (map owned (cond_signal T_sem ch (th_pcs s))) = sum_list (map owned (th_pcs s))"
    by (rule sum_list_cond_signal [OF assms(3)]; simp)+
  have locks: "lock_ok posts (cond_signal T_sem ch (th_pcs s)) (jq_rwmutex (th_queue s))"
    "lock_ok unlocks (cond_signal T_sem ch (th_pcs s)) (th_count_lock s)"
    using inv assms(3) by (auto intro: lock_ok_signal)
  show ?thesis
    using inv locks sums cond_signal_set(1) [of T_sem ch "th_pcs s"] assms(2)
    by (auto simp: th_inv_running shape_ok_def counts_ok_def blocks_ok_def)
qed

lemma th_inv_broadcast:
  assumes "th_inv s" "\<not> th_freed s"
  shows "th_inv (s\<lparr>th_pcs := cond_broadcast T_asleep T_sem (th_pcs s)\<rparr>)"
proof -
  note inv = assms(1) [unfolded th_inv_running [OF assms(2)]]
  have sums: "sum_list (map is_alive (cond_broadcast T_asleep T_sem (th_pcs s))) = sum_list (map is_alive (th_pcs s))"
    "sum_list (map is_working (cond_broadcast T_asleep T_sem (th_pcs s))) = sum_list (map is_working (th_pcs s))"
    "sum_list (map owned (cond_broadcast T_asleep T_sem (th_pcs s))) = sum_list (map owned (th_pcs s))"
    by (rule sum_list_cond_broadcast; simp)+
  have locks: "lock_ok posts (cond_broadcast T_asleep T_sem (th_pcs s)) (jq_rwmutex (th_queue s))"
    "lock_ok unlocks (cond_broadcast T_asleep T_sem (th_pcs s)) (th_count_lock s)"
    using inv by (auto intro: lock_ok_broadcast)
  show ?thesis
    using inv locks sums cond_signal_set(2) [of T_asleep T_sem "th_pcs s"] assms(2)
    by (auto simp: th_inv_running shape_ok_def counts_ok_def blocks_ok_def)
qed

lemma th_inv_bsem:
  assumes "th_inv s" "\<not> th_freed s" "bsem_ok b"
  shows "th_inv (s\<lparr>th_queue := (th_queue s)\<lparr>jq_has_jobs := b\<rparr>\<rparr>)"
  using assms by (auto simp: th_inv_running shape_ok_def counts_ok_def jq_ok_bsem)

lemma thread_do_inv:
  assumes "thread_do w ch (th_pcs s ! w) s = Ret t" "w < length (th_pcs s)" "th_inv s" "\<not> th_freed s"
  shows "th_inv t"
proof -
  note inv = assms(3) [unfolded th_inv_running [OF assms(4)]]
  have q: "jq_ok (th_queue s)" and pl: "lock_ok posts (th_pcs s) (jq_rwmutex (th_queue s))"
    and ul: "lock_ok unlocks (th_pcs s) (th_count_lock s)" and bl: "blocks_ok (th_queue s) (th_pcs s)"
    using inv by auto
  have np: "th_pcs s ! w \<noteq> T_post None" using inv assms(2) nth_mem by metis
  note b = bsem_ok_ops [OF jq_ok_parts(1) [OF q]]
  note move = th_inv_goto [OF assms(3,4,2)]
  note stays = lock_ok_stay blocks_ok_stay [OF bl assms(2)]
  from assms(1) q np show ?thesis
  proof (cases rule: thread_do_cases)
    case start
    show ?thesis unfolding start(3) by (rule move) (use start q pl ul bl in \<open>auto intro!: stays\<close>)
  next
    case loop
    show ?thesis unfolding loop(2)
      by (cases "threads_keepalive s = 0"; simp; rule move) (use loop q pl ul in \<open>auto intro!: stays\<close>)
  next
    case took
    show ?thesis unfolding took(3)
      by (rule move) (use took q pl ul b in \<open>auto intro!: stays jq_ok_bsem\<close>)
  next
    case sleeps
    show ?thesis unfolding sleeps(3) by (rule move) (use sleeps q pl ul in \<open>auto intro!: stays\<close>)
  next
    case check
    show ?thesis unfolding check(2)
      by (cases "threads_keepalive s = 0"; simp; rule move) (use check q pl ul in \<open>auto intro!: stays\<close>)
  next
    case inc
    show ?thesis unfolding inc(3) by (rule move) (use inc q pl ul in \<open>auto intro!: stays\<close>)
  next
    case pull_empty
    show ?thesis unfolding pull_empty(4) by (rule move) (use pull_empty q pl ul in \<open>auto intro!: stays\<close>)
  next
    case (pull_last a q')
    show ?thesis unfolding pull_last(9)
      by (rule move) (use pull_last pl ul blocks_ok_goto [OF bl assms(2), of q' "T_job a"] in \<open>auto intro!: lock_ok_stay\<close>)
  next
    case (pull_more a xs q')
    show ?thesis unfolding pull_more(10)
      by (rule move) (use pull_more pl ul assms(2) blocks_ok_goto [OF bl assms(2), of q' "T_post (Some a)"] in
          \<open>auto intro: lock_ok_stay lock_ok_acquire\<close>)
  next
    case (post a)
    let ?s = "s\<lparr>th_pcs := cond_signal T_sem ch (th_pcs s)\<rparr>"
    have s: "th_inv ?s" "\<not> th_freed ?s" "w < length (th_pcs ?s)" "th_pcs ?s ! w = T_post (Some a)"
      using th_inv_signal [OF assms(3,4) post(3)] assms(2,4) nth_cond_signal(1) [OF post(3) assms(2), of T_sem]
        nth_cond_signal(2) [OF post(3) assms(2)] post(1) by auto
    note invs = s(1) [unfolded th_inv_running [OF s(2)]]
    show ?thesis unfolding post(4)
      by (rule th_inv_goto [OF s(1-3)])
        (use post(2) s(3,4) invs b q in \<open>auto intro!: lock_ok_stay lock_ok_release blocks_ok_stay jq_ok_bsem\<close>)
  next
    case (job a j)
    have own: "owned (th_pcs s ! w) = {#a#}" "owned T_dec = {#}" using job(1) by simp_all
    show ?thesis unfolding job(3)
      by (rule move) (use job pl ul blocks_ok_free [OF bl assms(2) own q] jq_ok_upd [OF q] in \<open>auto intro!: lock_ok_stay\<close>)
  next
    case dec
    show ?thesis unfolding dec(3) by (rule move) (use dec q pl ul in \<open>auto intro!: stays\<close>)
  next
    case dying
    show ?thesis unfolding dying(3)
      by (rule move) (use dying q pl ul assms(2) in \<open>auto intro: stays lock_ok_acquire\<close>)
  next
    case unlock
    show ?thesis unfolding unlock(3)
      by (rule move) (use unlock q pl ul in \<open>auto intro: stays lock_ok_release\<close>)
  qed
qed


text \<open>The invariant under the steps of callers.\<close>

lemma is_alive_le: "sum_list (map is_alive pcs) \<le> length pcs"
proof (induction pcs)
  case (Cons pc pcs)
  moreover have "is_alive pc \<le> 1" by (cases pc) auto
  ultimately show ?case by simp
qed simp

lemma all_alive_no_start: "length pcs = sum_list (map is_alive pcs) \<Longrightarrow> T_start \<notin> set pcs"
proof (induction pcs)
  case (Cons pc pcs)
  moreover have "is_alive pc \<le> 1" by (cases pc) auto
  moreover have "sum_list (map is_alive pcs) \<le> length pcs" by (rule is_alive_le)
  ultimately show ?case by auto
qed simp

lemma is_alive_zero: "is_alive pc = 0 \<Longrightarrow> pc = T_start \<or> pc = T_unlock \<or> pc = T_dead"
  by (cases pc) auto

lemma add_link_cases [consumes 3]:
  assumes "add_link c b f a s = Ret t" "th_inv s" "\<not> th_freed s"
  obtains q where "jq_rwmutex (th_queue s) = M_free" "b \<notin> dom (jq_jobs (th_queue s))"
    "t = s\<lparr>th_queue := q, th_submitted := th_submitted s @ [(f, a)]\<rparr>" "jq_ok q"
    "jq_chain q = jq_chain (th_queue s) @ [b]" "jq_rwmutex q = M_held (Client c)"
    "jq_has_jobs q = jq_has_jobs (th_queue s)" "dom (jq_jobs q) = insert b (dom (jq_jobs (th_queue s)))"
    "work_at (jq_jobs q) = (work_at (jq_jobs (th_queue s)))(b := (f, a))"
proof -
  let ?old = "th_queue s"
  let ?h = "(jq_jobs ?old)(b \<mapsto> new_job f a)"
  let ?q = "?old\<lparr>jq_jobs := ?h, jq_rwmutex := M_held (Client c)\<rparr>"
  have q0: "jq_ok ?old" using assms(2,3) by (simp add: th_inv_running)
  have rw: "jq_rwmutex ?old = M_free" and fresh: "b \<notin> dom (jq_jobs ?old)"
    using assms(1) by (auto simp: add_link_def outcome_simps pthread_mutex_lock_Ret0 split: if_splits)
  have b: "b \<notin> set (jq_chain ?old)" using fresh jq_ok_parts(4) [OF q0] by blast
  have ok: "jq_ok ?q" "jq_chain ?q = jq_chain ?old"
    using jq_ok_upd(1,2) [OF q0 b refl] by (simp_all only: jq_ok_frame)
  obtain q1 where link: "jobqueue_link b ?q = Ret q1" "t = s\<lparr>th_queue := q1, th_submitted := th_submitted s @ [(f, a)]\<rparr>"
    using assms(1) rw fresh by (auto simp: add_link_def outcome_simps)
  then have "jq_len ?q < INT_MAX"
    using ok(1) by (auto simp: jobqueue_link_def c_add_def outcome_simps in_int_def split: if_splits)
  then obtain h fr where q1: "jq_ok q1" "jq_chain q1 = jq_chain ?old @ [b]"
      "q1 = ?q\<lparr>jq_jobs := h, jq_front := fr, jq_rear := Some b, jq_len := jq_len ?q + 1\<rparr>"
      "dom h = dom (jq_jobs ?q)" "work_at h = work_at (jq_jobs ?q)"
    using jobqueue_link_ok [OF ok(1), of b "new_job f a"] ok(2) b link(1) by auto
  have fields: "jq_jobs q1 = h" "jq_rwmutex q1 = M_held (Client c)" "jq_has_jobs q1 = jq_has_jobs ?old"
    unfolding q1(3) by simp_all
  moreover have "work_at h = (work_at (jq_jobs ?old))(b := (f, a))"
    unfolding q1(5) by (auto simp: work_at_def new_job_def fun_eq_iff)
  ultimately show thesis using q1(1,2,4) rw fresh link(2) by (intro that [of q1]) simp_all
qed

lemma add_link_inv:
  assumes "add_link c b f a s = Ret t" "th_inv s" "\<not> th_freed s"
  shows "th_inv t"
  using assms
proof (cases rule: add_link_cases)
  case (1 q)
  note inv = assms(2) [unfolded th_inv_running [OF assms(3)]]
  have "blocks_ok q (th_pcs s)" using inv 1 by (simp add: blocks_ok_def)
  moreover have "lock_ok posts (th_pcs s) (M_held (Client c))" using inv 1(1) lock_ok_client by metis
  ultimately show ?thesis using inv 1 assms(3) by (auto simp: th_inv_running shape_ok_def counts_ok_def)
qed

lemma add_post_cases:
  assumes "add_post c ch s = Ret t" "th_inv s" "\<not> th_freed s"
  shows "jq_rwmutex (th_queue s) = M_held (Client c)" "cond_signal_ok T_asleep ch (th_pcs s)"
    "t = s\<lparr>th_queue := (th_queue s)\<lparr>jq_has_jobs := (jq_has_jobs (th_queue s))\<lparr>bsem_v := 1\<rparr>, jq_rwmutex := M_free\<rparr>,
           th_pcs := cond_signal T_sem ch (th_pcs s)\<rparr>"
proof -
  have "jq_ok (th_queue s)" using assms(2,3) by (simp add: th_inv_running)
  then have "bsem_ok (jq_has_jobs (th_queue s))" by (rule jq_ok_parts(1))
  from bsem_ok_ops [OF this] assms(1) show "jq_rwmutex (th_queue s) = M_held (Client c)"
    "cond_signal_ok T_asleep ch (th_pcs s)"
    "t = s\<lparr>th_queue := (th_queue s)\<lparr>jq_has_jobs := (jq_has_jobs (th_queue s))\<lparr>bsem_v := 1\<rparr>, jq_rwmutex := M_free\<rparr>,
           th_pcs := cond_signal T_sem ch (th_pcs s)\<rparr>"
    by (auto simp: add_post_def split: if_splits)
qed

lemma add_post_inv:
  assumes "add_post c ch s = Ret t" "th_inv s" "\<not> th_freed s"
  shows "th_inv t"
proof -
  note st = add_post_cases [OF assms]
  let ?s = "s\<lparr>th_pcs := cond_signal T_sem ch (th_pcs s)\<rparr>"
  have s: "th_inv ?s" "\<not> th_freed ?s" using th_inv_signal [OF assms(2,3) st(2)] assms(3) by auto
  note inv = s(1) [unfolded th_inv_running [OF s(2)]]
  then have "bsem_ok ((jq_has_jobs (th_queue s))\<lparr>bsem_v := 1\<rparr>)" using bsem_ok_ops(4) jq_ok_parts(1) by auto
  moreover have "lock_ok posts (th_pcs ?s) M_free" using inv st(1) lock_ok_client by auto
  ultimately show ?thesis
    using inv s(2) unfolding st(3) by (auto simp: th_inv_running shape_ok_def counts_ok_def jq_ok_bsem)
qed

lemma destroy_ends_inv:
  assumes "destroy_ends c s = Ret t" "th_inv s" "\<not> th_freed s"
  shows "th_inv t"
proof -
  note inv = assms(2) [unfolded th_inv_running [OF assms(3)]]
  from assms(1) obtain n q where n: "th_destroying s = Some n" "th_alive s = 0"
    and t: "t = s\<lparr>th_queue := q, th_freed := True, th_discarded := th_discarded s @ jq_items (th_queue s)\<rparr>"
    by (auto simp: destroy_ends_def outcome_simps split: option.splits if_splits)
  have "\<forall>pc\<in>set (th_pcs s). is_alive pc = 0"
    using inv n(2) by (simp add: counts_ok_def sum_list_map_zero_iff)
  moreover have "T_start \<notin> set (th_pcs s)" using inv n(1) by (auto simp: shape_ok_def)
  ultimately have "\<forall>pc\<in>set (th_pcs s). pc = T_unlock \<or> pc = T_dead"
    using is_alive_zero by metis
  with inv n(1) show "th_inv t" by (auto simp: t th_inv_def shape_ok_def)
qed


lemma destroy_posts_inv:
  assumes "destroy_posts c s = Ret t" "th_inv s" "\<not> th_freed s"
  shows "th_inv t" "t = s\<lparr>th_queue := (th_queue s)\<lparr>jq_has_jobs := (jq_has_jobs (th_queue s))\<lparr>bsem_v := 1\<rparr>\<rparr>,
    th_pcs := cond_broadcast T_asleep T_sem (th_pcs s)\<rparr>"
proof -
  have "jq_ok (th_queue s)" using assms(2,3) by (simp add: th_inv_running)
  note b = bsem_ok_ops [OF jq_ok_parts(1) [OF this]]
  show t: "t = s\<lparr>th_queue := (th_queue s)\<lparr>jq_has_jobs := (jq_has_jobs (th_queue s))\<lparr>bsem_v := 1\<rparr>\<rparr>,
    th_pcs := cond_broadcast T_asleep T_sem (th_pcs s)\<rparr>"
    using assms(1) by (auto simp: destroy_posts_def b split: if_splits)
  let ?s = "s\<lparr>th_queue := (th_queue s)\<lparr>jq_has_jobs := (jq_has_jobs (th_queue s))\<lparr>bsem_v := 1\<rparr>\<rparr>\<rparr>"
  have "th_inv ?s" using th_inv_bsem [OF assms(2,3) b(4)] .
  from th_inv_broadcast [OF this] assms(3) show "th_inv t" unfolding t by simp
qed

lemma th_inv_flags:
  "th_inv (s\<lparr>threads_keepalive := k\<rparr>) = th_inv s" "th_inv (s\<lparr>threads_on_hold := k\<rparr>) = th_inv s"
  by (simp_all add: th_inv_def shape_ok_def)

lemma th_inv_lengths:
  "th_inv s \<Longrightarrow> length (th_signalled s) = length (th_pcs s)" "th_inv s \<Longrightarrow> length (th_held s) = length (th_pcs s)"
  by (simp_all add: th_inv_def shape_ok_def)

lemma th_inv_hold:
  assumes "th_inv s" "length sg = length (th_pcs s)" "length hs = length (th_pcs s)"
  shows "th_inv (s\<lparr>th_signalled := sg, th_held := hs\<rparr>)"
  using assms by (simp add: th_inv_def shape_ok_def)

lemma th_inv_step:
  assumes "th_inv s" "th_step l s = Ret t"
  shows "th_inv t"
proof (cases l)
  case (Th_work w ch)
  with assms show ?thesis using thread_do_inv by (auto split: if_splits)
next
  case Th_ready
  with assms have t: "t = s\<lparr>th_ready := True\<rparr>" "\<not> th_freed s" "th_alive s = int (length (th_pcs s))"
    by (auto simp: init_returns_def split: if_splits)
  with assms(1) have "length (th_pcs s) = sum_list (map is_alive (th_pcs s))" by (simp add: th_inv_running counts_ok_def)
  then have "T_start \<notin> set (th_pcs s)" by (rule all_alive_no_start)
  with assms(1) t show ?thesis by (auto simp: th_inv_running shape_ok_def counts_ok_def)
next
  case (Th_wakeup w)
  with assms(2) have w: "w < length (th_pcs s)" "th_pcs s ! w = T_asleep" and t: "t = goto w T_sem s"
    by (auto split: if_splits)
  then have ch: "cond_signal_ok T_asleep (Some w) (th_pcs s)" and "goto w T_sem s = s\<lparr>th_pcs := cond_signal T_sem (Some w) (th_pcs s)\<rparr>"
    by (simp_all add: cond_signal_ok_def cond_signal_def goto_def)
  moreover have "\<not> th_freed s" using assms(1) w nth_mem [OF w(1)] by (auto simp: th_inv_def)
  ultimately show ?thesis using th_inv_signal [OF assms(1) _ ch] t by simp
next
  case (Th_add c b f a)
  with assms show ?thesis using add_link_inv by (auto simp: with_pool_def split: if_splits)
next
  case (Th_add_post c ch)
  with assms show ?thesis using add_post_inv by (auto simp: with_pool_def split: if_splits)
next
  case Th_destroy_begin
  with assms(2) have t: "t = s\<lparr>th_destroying := Some (th_alive s), threads_keepalive := 0\<rparr>" "th_ready s" "\<not> th_freed s"
    by (auto simp: with_pool_def destroy_begins_def split: if_splits)
  have "th_alive s \<le> int (length (th_pcs s))"
    using assms(1) t(3) is_alive_le by (simp add: th_inv_running counts_ok_def)
  with assms(1) t show ?thesis by (auto simp: th_inv_running shape_ok_def counts_ok_def)
next
  case (Th_destroy_post c)
  with assms show ?thesis using destroy_posts_inv(1) by (auto split: if_splits)
next
  case (Th_destroy_end c)
  with assms show ?thesis using destroy_ends_inv by (auto split: if_splits)
next
  case Th_pause
  with assms(2) have t: "t = s\<lparr>th_signalled := replicate (nat (th_alive s)) True @ drop (nat (th_alive s)) (th_signalled s)\<rparr>"
    and le: "nat (th_alive s) \<le> length (th_pcs s)"
    by (auto simp: with_pool_def thpool_pause_def split: if_splits)
  have "length (th_signalled s) = length (th_pcs s)" using th_inv_lengths(1) [OF assms(1)] .
  then have "th_inv (s\<lparr>th_signalled := th_signalled t, th_held := th_held s\<rparr>)"
    using le by (intro th_inv_hold [OF assms(1)] th_inv_lengths [OF assms(1)]) (simp add: t)
  then show ?thesis by (simp add: t)
next
  case (Th_deliver w)
  with assms(2) have t: "t = s\<lparr>threads_on_hold := 1, th_signalled := (th_signalled s)[w := False], th_held := (th_held s)[w := True]\<rparr>"
    by (auto simp: thread_hold_def split: if_splits)
  have "th_inv (s\<lparr>threads_on_hold := 1\<rparr>)" using assms(1) by (simp add: th_inv_flags)
  from th_inv_hold [OF this, of "(th_signalled s)[w := False]" "(th_held s)[w := True]"] th_inv_lengths [OF assms(1)]
  show ?thesis by (simp add: t)
next
  case (Th_unhold w)
  with assms(2) have t: "t = s\<lparr>th_signalled := th_signalled s, th_held := (th_held s)[w := False]\<rparr>"
    by (auto simp: thread_unhold_def split: if_splits)
  from th_inv_hold [OF assms(1), of "th_signalled s" "(th_held s)[w := False]"] th_inv_lengths [OF assms(1)]
  show ?thesis by (simp add: t)
next
  case Th_resume
  with assms have "t = s\<lparr>threads_on_hold := 0\<rparr>" by simp
  with assms(1) show ?thesis by (simp add: th_inv_flags)
next
  case Th_other_init
  with assms have "t = s\<lparr>threads_on_hold := 0, threads_keepalive := 1\<rparr>" by simp
  with assms(1) show ?thesis by (simp add: th_inv_flags)
next
  case Th_other_destroy
  with assms have "t = s\<lparr>threads_keepalive := 0\<rparr>" by simp
  with assms(1) show ?thesis by (simp add: th_inv_flags)
qed

lemma th_start_inv:
  assumes "int n \<le> INT_MAX" "jq_jobs q = Map.empty"
  shows "th_inv (th_start n (empty_queue q))"
  using assms empty_queue_ok [of q]
  by (auto simp: th_inv_def th_start_def shape_ok_def lock_ok_def blocks_ok_def sum_list_map_zero)

lemma thpool_init_result:
  assumes "thpool_init t env n = Ret s" "in_int n" "malloc_jobqueue env = Some q" "jq_jobs q = Map.empty"
  shows "s = th_start (nat n) (empty_queue q)"
proof -
  have "malloc_bsem env"
    using assms(1,3) by (auto simp: thpool_init_def jobqueue_init_def Let_def outcome_simps split: if_splits)
  with assms show ?thesis
    by (auto simp: thpool_init_def jobqueue_init_any outcome_simps Let_def split: if_splits)
qed

lemma th_init_start:
  assumes "th_init s"
  obtains n q where "s = th_start n (empty_queue q)" "int n \<le> INT_MAX" "jq_jobs q = Map.empty"
proof -
  from assms obtain t env n q where "thpool_init t env n = Ret s" "in_int n" "malloc_jobqueue env = Some q"
      "jq_jobs q = Map.empty" unfolding th_init_def by blast
  moreover from this have "s = th_start (nat n) (empty_queue q)" by (rule thpool_init_result)
  moreover have "int (nat n) \<le> INT_MAX" using \<open>in_int n\<close> by (auto simp: in_int_def INT_MAX_def)
  ultimately show thesis using that by blast
qed

lemma th_init_inv: "th_init s \<Longrightarrow> th_inv s"
  using th_start_inv by (elim th_init_start) simp

interpretation th: invariant_system th_step th_init th_inv
  by unfold_locales (blast intro: th_init_inv th_inv_step)+


section \<open>Refinement of the abstract pool\<close>

definition th_view :: "('f, 'a) th_sys \<Rightarrow> ('f, 'a) work pool_view" where
  "th_view s = \<lparr>submitted = th_submitted s,
     pending = (if th_freed s then [] else jq_items (th_queue s)), begun = th_begun s,
     running = image_mset (work_at (jq_jobs (th_queue s))) (sum_list (map owned (th_pcs s))),
     finished = th_finished s, discarded = th_discarded s\<rparr>"

lemma owned_allocated:
  assumes "blocks_ok q pcs"
  shows "set_mset (sum_list (map owned pcs)) \<subseteq> dom (jq_jobs q)"
proof -
  have "sum_list (map owned pcs) \<subseteq># mset_set (dom (jq_jobs q))"
    using assms unfolding blocks_ok_def by (metis mset_subset_eq_add_left)
  then have "set_mset (sum_list (map owned pcs)) \<subseteq> set_mset (mset_set (dom (jq_jobs q)))" by (rule set_mset_mono)
  then show ?thesis using assms by (simp add: blocks_ok_def)
qed

lemma thread_do_view:
  assumes "thread_do w ch (th_pcs s ! w) s = Ret t" "w < length (th_pcs s)" "th_inv s" "\<not> th_freed s"
  shows "pool_step Fifo (th_view s) (th_view t)"
proof -
  note inv = assms(3) [unfolded th_inv_running [OF assms(4)]]
  have q: "jq_ok (th_queue s)" and bl: "blocks_ok (th_queue s) (th_pcs s)" using inv by auto
  have np: "th_pcs s ! w \<noteq> T_post None" using inv assms(2) nth_mem by metis
  have sum: "sum_list (map owned ((th_pcs s)[w := pc])) + owned (th_pcs s ! w) = sum_list (map owned (th_pcs s)) + owned pc"
    for pc by (rule sum_list_update_add [OF assms(2)])
  have stay: "sum_list (map owned ((th_pcs s)[w := pc])) = sum_list (map owned (th_pcs s))"
    if "owned pc = owned (th_pcs s ! w)" for pc by (rule sum_list_update_same [OF assms(2) that])
  have take: "pool_step Fifo (th_view s) (th_view t)"
    if c: "jq_chain (th_queue s) = a # xs" "jq_chain q' = xs" "jq_jobs q' = jq_jobs (th_queue s)"
      "owned (th_pcs s ! w) = {#}" "owned pc = {#a#}"
      and t: "t = goto w pc (s\<lparr>th_begun := th_begun s @ [work_at (jq_jobs q') a], th_queue := q'\<rparr>)" for a xs q' pc
  proof -
    have "th_view t = (th_view s)\<lparr>pending := jq_items q', begun := begun (th_view s) @ [work_at (jq_jobs q') a],
        running := add_mset (work_at (jq_jobs q') a) (running (th_view s))\<rparr>"
      using sum [of pc] c assms(4) by (simp add: t th_view_def)
    moreover have "pending (th_view s) = work_at (jq_jobs q') a # jq_items q'"
      using c assms(4) by (simp add: th_view_def jq_items_def)
    ultimately show ?thesis using pool_step.take by metis
  qed
  from assms(1) q np show ?thesis
  proof (cases rule: thread_do_cases)
    case (pull_last a q')
    then show ?thesis by (intro take [of a "[]" q' "T_job a"]) simp_all
  next
    case (pull_more a xs q')
    then show ?thesis by (intro take [of a xs q' "T_post (Some a)"]) simp_all
  next
    case (post a)
    have w: "w < length (cond_signal T_sem ch (th_pcs s))" "cond_signal T_sem ch (th_pcs s) ! w = T_post (Some a)"
      using nth_cond_signal(1) [OF post(3) assms(2), of T_sem] nth_cond_signal(2) [OF post(3) assms(2)] post(1) assms(2)
      by auto
    then have "sum_list (map owned ((cond_signal T_sem ch (th_pcs s))[w := T_job a])) = sum_list (map owned (th_pcs s))"
      using sum_list_update_same [OF w(1), of owned "T_job a"] sum_list_cond_signal [OF post(3), of owned T_sem] by simp
    then have "th_view t = th_view s" unfolding post(4) using assms(4) by (simp add: th_view_def)
    then show ?thesis by (simp add: pool_step.silent)
  next
    case (job a j)
    have own: "owned (th_pcs s ! w) = {#a#}" "owned T_dec = {#}" using job(1) by simp_all
    note f = blocks_ok_free [OF bl assms(2) own q]
    let ?h = "jq_jobs (th_queue s)" and ?rest = "sum_list (map owned ((th_pcs s)[w := T_dec]))"
    have run: "sum_list (map owned (th_pcs s)) = add_mset a ?rest" using sum [of T_dec] own by simp
    have "work_at (?h(a := None)) b = work_at ?h b" if "b \<in># ?rest" for b
      using f(4) that by (auto simp: work_at_def)
    then have "image_mset (work_at (?h(a := None))) ?rest = image_mset (work_at ?h) ?rest" by (rule image_mset_cong)
    then have "th_view t = (th_view s)\<lparr>running := running (th_view s) - {#work_at ?h a#},
        finished := add_mset (work_at ?h a) (finished (th_view s))\<rparr>"
      using assms(4) jq_ok_upd(3) [OF q f(2) refl] unfolding job(3) by (simp add: th_view_def run)
    moreover have "work_at ?h a \<in># running (th_view s)" by (simp add: th_view_def run)
    ultimately show ?thesis using pool_step.complete by metis
  qed (use stay assms(4) in \<open>auto simp: th_view_def intro: pool_step.silent\<close>)
qed

end
