(* ===== verification/Thpool_Theorems.thy ===== *)
theory Thpool_Theorems
  imports Thpool_Threads
begin

text \<open>
  What users of \<open>thpool.c\<close> can rely on: the pool refines the abstract queue of tasks, its threads
  cannot run forever without new work, \<open>thpool_wait\<close> and \<open>thpool_destroy\<close> do what they say under the
  conditions stated, and where the code breaks its promises.
\<close>

section \<open>Refinement\<close>

lemma silent_view: "th_view t = th_view s \<Longrightarrow> pool_step d (th_view s) (th_view t)"
  by (simp add: pool_step.silent)

lemma add_link_view:
  assumes "add_link c b f a s = Ret t" "th_inv s" "\<not> th_freed s"
  shows "pool_step Fifo (th_view s) (th_view t)"
  using assms
proof (cases rule: add_link_cases)
  case (1 q)
  note inv = assms(2) [unfolded th_inv_running [OF assms(3)]]
  let ?h = "jq_jobs (th_queue s)"
  have dom: "set (jq_chain (th_queue s)) \<subseteq> dom ?h" "set_mset (sum_list (map owned (th_pcs s))) \<subseteq> dom ?h"
    using inv jq_ok_parts(4) [of "th_queue s"] owned_allocated [of "th_queue s" "th_pcs s"] by blast+
  have same: "work_at (jq_jobs q) x = work_at ?h x" if "x \<in> dom ?h" for x using 1(2,9) that by auto
  have "jq_items q = jq_items (th_queue s) @ [(f, a)]"
    using dom(1) 1(2,5,9) by (auto simp: jq_items_def)
  moreover have "image_mset (work_at (jq_jobs q)) (sum_list (map owned (th_pcs s))) =
      image_mset (work_at ?h) (sum_list (map owned (th_pcs s)))"
    using same dom(2) by (intro image_mset_cong) blast
  ultimately have "th_view t = (th_view s)\<lparr>submitted := submitted (th_view s) @ [(f, a)],
      pending := insert_pending Fifo (f, a) (pending (th_view s))\<rparr>"
    using assms(3) by (simp add: th_view_def 1(3))
  then show ?thesis using pool_step.submit by metis
qed

lemma add_post_view:
  assumes "add_post c ch s = Ret t" "th_inv s" "\<not> th_freed s"
  shows "th_view t = th_view s"
  using sum_list_cond_signal [OF add_post_cases(2) [OF assms], of owned T_sem] assms(3)
  unfolding add_post_cases(3) [OF assms] by (simp add: th_view_def)

lemma destroy_posts_view:
  assumes "destroy_posts c s = Ret t" "th_inv s" "\<not> th_freed s"
  shows "th_view t = th_view s"
  using sum_list_cond_broadcast [of owned T_sem T_asleep "th_pcs s"] assms(3)
  unfolding destroy_posts_inv(2) [OF assms] by (simp add: th_view_def)

lemma destroy_ends_view:
  assumes "destroy_ends c s = Ret t" "th_inv s" "\<not> th_freed s"
  shows "pool_step Fifo (th_view s) (th_view t)"
proof -
  from assms(1) obtain q where t: "t = s\<lparr>th_queue := q, th_freed := True,
      th_discarded := th_discarded s @ jq_items (th_queue s)\<rparr>"
    by (auto simp: destroy_ends_def outcome_simps split: option.splits if_splits)
  have "th_inv t" using destroy_ends_inv [OF assms] .
  then have "owned pc = 0" if "pc \<in> set (th_pcs s)" for pc using that by (auto simp: t th_inv_def)
  then have "sum_list (map owned (th_pcs s)) = {#}" by (simp add: sum_list_map_zero)
  then have "th_view t = (th_view s)\<lparr>pending := [], discarded := discarded (th_view s) @ pending (th_view s)\<rparr>"
    using assms(3) by (simp add: th_view_def t)
  then show ?thesis using pool_step.discard by metis
qed

lemma th_view_step:
  assumes "th_inv s" "th_step l s = Ret t"
  shows "pool_step Fifo (th_view s) (th_view t)"
proof (cases l)
  case (Th_work w ch)
  with assms show ?thesis using thread_do_view by (auto split: if_splits)
next
  case (Th_wakeup w)
  with assms(2) show ?thesis
    using sum_list_update_same [of w "th_pcs s" owned T_sem]
    by (intro silent_view) (auto simp: th_view_def split: if_splits)
next
  case (Th_add c b f a)
  with assms show ?thesis using add_link_view by (auto simp: with_pool_def split: if_splits)
next
  case (Th_add_post c ch)
  with assms have "add_post c ch s = Ret t" "\<not> th_freed s" by (auto simp: with_pool_def split: if_splits)
  then show ?thesis using add_post_view assms(1) by (intro silent_view)
next
  case (Th_destroy_post c)
  with assms have "destroy_posts c s = Ret t" "\<not> th_freed s" by (auto split: if_splits)
  then show ?thesis using destroy_posts_view assms(1) by (intro silent_view)
next
  case (Th_destroy_end c)
  with assms have "destroy_ends c s = Ret t" "\<not> th_freed s" by (auto split: if_splits)
  then show ?thesis using destroy_ends_view assms(1) by blast
qed (use assms(2) in \<open>auto simp: th_view_def init_returns_def with_pool_def thpool_pause_def thread_hold_def thread_unhold_def
      destroy_begins_def intro!: pool_step.silent split: if_splits\<close>)

interpretation thv: pool_refinement th_step th_init th_inv Fifo th_view
proof (unfold_locales, goal_cases)
  case (1 s)
  then show ?case
    by (elim th_init_start) (auto simp: th_view_def th_start_def empty_view_def jq_items_def empty_queue_ok sum_list_map_zero)
next
  case (2 s l t)
  then show ?case by (rule th_view_step)
qed

section \<open>Progress\<close>

fun tpc_work :: "tpc \<Rightarrow> nat" where
  "tpc_work T_asleep = 0"
| "tpc_work T_sem = 1"
| "tpc_work T_dead = 0"
| "tpc_work T_unlock = 1"
| "tpc_work T_dying = 2"
| "tpc_work T_loop = 4"
| "tpc_work T_start = 5"
| "tpc_work T_dec = 5"
| "tpc_work (T_job a) = 6"
| "tpc_work T_pull = 7"
| "tpc_work T_inc = 8"
| "tpc_work T_check = 9"
| "tpc_work (T_post j) = 17"

text \<open>
  A bound on the steps the threads can take without new work: a waiting job may cost a post (11), a
  posted semaphore a round through the loop (9), the rest is the way of each thread to its next sleep.
\<close>

definition th_work :: "('f, 'a) th_sys \<Rightarrow> nat" where
  "th_work s = 11 * length (jq_chain (th_queue s)) + 9 * nat (bsem_v (jq_has_jobs (th_queue s))) +
     sum_list (map tpc_work (th_pcs s))"

lemma tpc_work_signal:
  assumes "cond_signal_ok T_asleep ch pcs"
  shows "sum_list (map tpc_work (cond_signal T_sem ch pcs)) \<le> Suc (sum_list (map tpc_work pcs))"
proof (cases ch)
  case None
  then show ?thesis by (simp add: cond_signal_def)
next
  case (Some w)
  with assms have "w < length pcs" "pcs ! w = T_asleep" by (auto simp: cond_signal_ok_def)
  with sum_list_update_add [OF this(1), of tpc_work T_sem] Some show ?thesis by (simp add: cond_signal_def)
qed

lemma thread_do_work:
  assumes "thread_do w ch (th_pcs s ! w) s = Ret t" "w < length (th_pcs s)" "th_inv s" "\<not> th_freed s"
  shows "th_work t < th_work s"
proof -
  note inv = assms(3) [unfolded th_inv_running [OF assms(4)]]
  have q: "jq_ok (th_queue s)" using inv by auto
  have np: "th_pcs s ! w \<noteq> T_post None" using inv assms(2) nth_mem by metis
  have v: "nat (bsem_v (jq_has_jobs (th_queue s))) \<le> 1"
    using jq_ok_parts(1) [OF q] by (auto simp: bsem_ok_def)
  have sum: "sum_list (map tpc_work ((th_pcs s)[w := pc])) + tpc_work (th_pcs s ! w) =
      sum_list (map tpc_work (th_pcs s)) + tpc_work pc" for pc by (rule sum_list_update_add [OF assms(2)])
  from assms(1) q np show ?thesis
  proof (cases rule: thread_do_cases)
    case (post a)
    let ?pcs = "cond_signal T_sem ch (th_pcs s)"
    have w: "w < length ?pcs" "?pcs ! w = T_post (Some a)"
      using nth_cond_signal(1) [OF post(3) assms(2), of T_sem] nth_cond_signal(2) [OF post(3) assms(2)] post(1) assms(2)
      by auto
    have "sum_list (map tpc_work (?pcs[w := T_job a])) + 17 = sum_list (map tpc_work ?pcs) + 6"
      using sum_list_update_add [OF w(1), of tpc_work "T_job a"] w(2) by simp
    moreover have "sum_list (map tpc_work ?pcs) \<le> Suc (sum_list (map tpc_work (th_pcs s)))"
      by (rule tpc_work_signal [OF post(3)])
    ultimately show ?thesis unfolding post(4) by (simp add: th_work_def)
  next
    case (job a j)
    have own: "owned (th_pcs s ! w) = {#a#}" "owned T_dec = {#}" using job(1) by simp_all
    have "blocks_ok (th_queue s) (th_pcs s)" using inv by auto
    from blocks_ok_free(2) [OF this assms(2) own q] jq_ok_upd(2) [OF q _ refl] sum [of T_dec] job
    show ?thesis by (simp add: th_work_def)
  next
    case loop
    with sum [of T_sem] sum [of T_dying] show ?thesis by (auto simp: th_work_def)
  next
    case check
    with sum [of T_inc] sum [of T_loop] show ?thesis by (auto simp: th_work_def)
  next
    case start
    with sum [of T_loop] show ?thesis by (simp add: th_work_def)
  next
    case took
    with sum [of T_check] show ?thesis by (simp add: th_work_def)
  next
    case sleeps
    with sum [of T_asleep] show ?thesis by (simp add: th_work_def)
  next
    case inc
    with sum [of T_pull] show ?thesis by (simp add: th_work_def)
  next
    case pull_empty
    with sum [of T_dec] show ?thesis by (simp add: th_work_def)
  next
    case (pull_last a q')
    with sum [of "T_job a"] show ?thesis by (simp add: th_work_def)
  next
    case (pull_more a xs q')
    with sum [of "T_post (Some a)"] show ?thesis by (simp add: th_work_def)
  next
    case dec
    with sum [of T_loop] show ?thesis by (simp add: th_work_def)
  next
    case dying
    with sum [of T_unlock] show ?thesis by (simp add: th_work_def)
  next
    case unlock
    with sum [of T_dead] show ?thesis by (simp add: th_work_def)
  qed
qed

interpretation thd: draining_system th_step th_init th_inv th_own th_work
proof (unfold_locales, goal_cases)
  case (1 s l t)
  then show ?case using thread_do_work by (cases l) (auto split: if_splits)
qed


text \<open>
  While no pool of the process is destroyed, no wake-up is lost: a posted semaphore is seen by a thread
  that is awake, and a waiting job is announced by the semaphore, by a thread about to fetch it, or by
  the caller that has just added it.
\<close>

fun fetching :: "tpc \<Rightarrow> bool" where
  "fetching T_check = True"
| "fetching T_inc = True"
| "fetching T_pull = True"
| "fetching (T_post j) = True"
| "fetching _ = False"

fun ending :: "tpc \<Rightarrow> bool" where
  "ending T_dying = True"
| "ending T_unlock = True"
| "ending T_dead = True"
| "ending _ = False"

abbreviation th_v :: "('f, 'a) th_sys \<Rightarrow> int" where
  "th_v s \<equiv> bsem_v (jq_has_jobs (th_queue s))"

definition announced :: "('f, 'a) th_sys \<Rightarrow> bool" where
  "announced s \<longleftrightarrow> th_v s = 1 \<or> (\<exists>pc\<in>set (th_pcs s). fetching pc) \<or> (\<exists>c. jq_rwmutex (th_queue s) = M_held (Client c))"

definition serving :: "('f, 'a) th_sys \<Rightarrow> bool" where
  "serving s \<longleftrightarrow> threads_keepalive s \<noteq> 0 \<and> \<not> th_freed s \<and> th_destroying s = None \<and> th_discarded s = [] \<and>
     (\<forall>c. th_count_lock s \<noteq> M_held (Client c)) \<and> (\<forall>pc\<in>set (th_pcs s). \<not> ending pc) \<and>
     (th_v s = 1 \<and> th_pcs s \<noteq> [] \<longrightarrow> (\<exists>pc\<in>set (th_pcs s). pc \<noteq> T_asleep)) \<and>
     (jq_chain (th_queue s) \<noteq> [] \<longrightarrow> announced s)"

fun kills :: "('f, 'a) th_label \<Rightarrow> bool" where
  "kills Th_destroy_begin = True"
| "kills Th_other_destroy = True"
| "kills _ = False"

lemma serving_goto:
  assumes "serving s" "w < length (th_pcs s)" "th_pcs s' = th_pcs s" "threads_keepalive s' = threads_keepalive s"
    "th_freed s' = th_freed s" "th_destroying s' = th_destroying s" "\<not> ending pc" "th_count_lock s' = th_count_lock s"
    "th_discarded s' = th_discarded s"
    "pc = T_asleep \<Longrightarrow> th_v s' \<noteq> 1" "jq_chain (th_queue s') \<noteq> [] \<Longrightarrow> announced (goto w pc s')"
  shows "serving (goto w pc s')"
proof -
  have "pc \<in> set ((th_pcs s)[w := pc])" using assms(2) by (simp add: set_update_memI)
  then have "\<exists>x\<in>set ((th_pcs s)[w := pc]). x \<noteq> T_asleep" if "th_v s' = 1" using assms(10) that by blast
  moreover have "\<forall>x\<in>set ((th_pcs s)[w := pc]). \<not> ending x"
    using assms(1,7) by (auto simp: serving_def dest!: in_set_updateD)
  ultimately show ?thesis using assms by (simp add: serving_def)
qed

lemma announced_fetching: "w < length (th_pcs s) \<Longrightarrow> fetching pc \<Longrightarrow> announced (goto w pc s)"
  using set_update_memI [of w "th_pcs s" pc] by (auto simp: announced_def)

lemma announced_stay:
  assumes "announced s" "w < length (th_pcs s)" "fetching (th_pcs s ! w) \<Longrightarrow> fetching pc"
  shows "announced (goto w pc s)"
  using assms ex_update [of "th_pcs s" fetching w pc] by (auto simp: announced_def)

lemma announced_queue:
  "announced (goto w pc (s\<lparr>th_alive := n\<rparr>)) = announced (goto w pc s)"
  "announced (goto w pc (s\<lparr>th_working := n\<rparr>)) = announced (goto w pc s)"
  by (simp_all add: announced_def)

lemma serving_thread:
  assumes "thread_do w ch (th_pcs s ! w) s = Ret t" "w < length (th_pcs s)" "th_inv s" "serving s"
  shows "serving t"
proof -
  have run: "\<not> th_freed s" "threads_keepalive s \<noteq> 0" and ne: "\<not> ending (th_pcs s ! w)"
    and ann: "jq_chain (th_queue s) \<noteq> [] \<Longrightarrow> announced s" using assms(2,4) by (auto simp: serving_def)
  note inv = assms(3) [unfolded th_inv_running [OF run(1)]]
  have q: "jq_ok (th_queue s)" using inv by auto
  have np: "th_pcs s ! w \<noteq> T_post None" using inv assms(2) nth_mem by metis
  note move = serving_goto [OF assms(4,2)]
  note stay = announced_stay [OF ann assms(2)]
  from assms(1) q np show ?thesis
  proof (cases rule: thread_do_cases)
    case start
    then show ?thesis using stay by (auto intro!: move simp: announced_queue)
  next
    case loop
    then show ?thesis using stay run by (auto intro!: move)
  next
    case took
    show ?thesis unfolding took(3) using assms(2) by (intro move announced_fetching) simp_all
  next
    case sleeps
    then show ?thesis using stay by (auto intro!: move)
  next
    case check
    then show ?thesis using announced_fetching [OF assms(2)] run by (auto intro!: move)
  next
    case inc
    show ?thesis unfolding inc(3) using assms(2) by (intro move announced_fetching) simp_all
  next
    case pull_empty
    then show ?thesis by (auto intro!: move)
  next
    case (pull_last a q')
    then show ?thesis by (auto intro!: move)
  next
    case (pull_more a xs q')
    show ?thesis unfolding pull_more(10) using assms(2) by (intro move announced_fetching) simp_all
  next
    case (post a)
    have w: "w < length (cond_signal T_sem ch (th_pcs s))" using assms(2) by simp
    have "\<forall>pc\<in>set (cond_signal T_sem ch (th_pcs s)). \<not> ending pc"
      using cond_signal_set(1) [of T_sem ch "th_pcs s"] assms(4) by (auto simp: serving_def)
    then have "\<forall>pc\<in>set ((cond_signal T_sem ch (th_pcs s))[w := T_job a]). \<not> ending pc"
      by (intro all_set_update) simp_all
    moreover have "T_job a \<in> set ((cond_signal T_sem ch (th_pcs s))[w := T_job a])"
      using w by (rule set_update_memI)
    ultimately show ?thesis using assms(4) unfolding post(4) by (auto simp: serving_def announced_def)
  next
    case (job a j)
    have own: "owned (th_pcs s ! w) = {#a#}" "owned T_dec = {#}" using job(1) by simp_all
    have "blocks_ok (th_queue s) (th_pcs s)" using inv by auto
    note f = blocks_ok_free(2) [OF this assms(2) own q]
    have "announced (goto w T_dec s)" if "jq_chain (th_queue s) \<noteq> []" using stay [OF that] job by simp
    then show ?thesis unfolding job(3) using jq_ok_upd(2) [OF q f refl]
      by (intro move) (simp_all add: announced_def)
  next
    case dec
    then show ?thesis using stay by (auto intro!: move simp: announced_queue)
  qed (use ne in auto)
qed


lemma serving_flags:
  "serving (s\<lparr>th_signalled := x\<rparr>) = serving s" "serving (s\<lparr>th_held := x\<rparr>) = serving s"
  "serving (s\<lparr>threads_on_hold := n\<rparr>) = serving s" "serving (s\<lparr>th_ready := y\<rparr>) = serving s"
  by (simp_all add: serving_def announced_def)

lemma serving_step:
  assumes "th_inv s" "serving s" "\<not> kills l" "th_step l s = Ret t"
  shows "serving t"
proof (cases l)
  case (Th_work w ch)
  with assms show ?thesis using serving_thread by (auto split: if_splits)
next
  case (Th_wakeup w)
  with assms(4) have w: "w < length (th_pcs s)" "th_pcs s ! w = T_asleep" "t = goto w T_sem s"
    by (auto split: if_splits)
  have "announced (goto w T_sem s)" if "jq_chain (th_queue s) \<noteq> []"
    using announced_stay [of s w T_sem] assms(2) that w by (auto simp: serving_def)
  with w show ?thesis by (auto intro!: serving_goto [OF assms(2)])
next
  case (Th_add c b f a)
  with assms(4) have "add_link c b f a s = Ret t" "\<not> th_freed s" by (auto simp: with_pool_def split: if_splits)
  from this(1) assms(1) this(2) show ?thesis
  proof (cases rule: add_link_cases)
    case (1 q)
    then show ?thesis using assms(2) by (auto simp: serving_def announced_def)
  qed
next
  case (Th_add_post c ch)
  with assms(4) have "add_post c ch s = Ret t" "\<not> th_freed s" by (auto simp: with_pool_def split: if_splits)
  note st = add_post_cases [OF this(1) assms(1) this(2)]
  have "\<forall>pc\<in>set (cond_signal T_sem ch (th_pcs s)). \<not> ending pc"
    using cond_signal_set(1) [of T_sem ch "th_pcs s"] assms(2) by (auto simp: serving_def)
  moreover have "\<exists>pc\<in>set (cond_signal T_sem ch (th_pcs s)). pc \<noteq> T_asleep" if "th_pcs s \<noteq> []"
  proof (cases ch)
    case None
    with st(2) that show ?thesis by (cases "th_pcs s") (auto simp: cond_signal_def cond_signal_ok_def)
  next
    case (Some w)
    with st(2) show ?thesis
      using set_update_memI [of w "th_pcs s" T_sem] by (auto simp: cond_signal_def cond_signal_ok_def)
  qed
  moreover have "cond_signal T_sem ch (th_pcs s) \<noteq> [] \<longleftrightarrow> th_pcs s \<noteq> []"
    by (metis cond_signal_length(1) length_0_conv)
  ultimately show ?thesis using assms(2) unfolding st(3) by (auto simp: serving_def announced_def)
next
  case Th_other_init
  with assms(2,4) show ?thesis by (auto simp: serving_def announced_def)
next
  case Th_destroy_post
  with assms(2,4) show ?thesis by (auto simp: serving_def destroy_posts_def split: if_splits)
next
  case Th_destroy_end
  with assms(2,4) show ?thesis by (auto simp: serving_def destroy_ends_def split: if_splits)
qed (use assms(2-4) in \<open>auto simp: serving_flags init_returns_def with_pool_def thpool_pause_def thread_hold_def
      thread_unhold_def split: if_splits\<close>)

lemma serving_init: "th_init s \<Longrightarrow> serving s"
  by (elim th_init_start) (auto simp: serving_def announced_def th_start_def empty_queue_ok)

lemma is_working_le: "sum_list (map is_working pcs) \<le> length pcs"
proof (induction pcs)
  case (Cons pc pcs)
  moreover have "is_working pc \<le> 1" by (cases pc) auto
  ultimately show ?case by simp
qed simp

lemma idle_alive_less:
  assumes "w < length pcs" "is_alive (pcs ! w) = 0"
  shows "sum_list (map is_alive pcs) < length pcs"
  using sum_list_update_add [OF assms(1), of is_alive T_loop] is_alive_le [of "pcs[w := T_loop]"] assms(2) by simp

lemma idle_working_less:
  assumes "w < length pcs" "is_working (pcs ! w) = 0"
  shows "sum_list (map is_working pcs) < length pcs"
  using sum_list_update_add [OF assms(1), of is_working T_dec] is_working_le [of "pcs[w := T_dec]"] assms(2) by simp

text \<open>Every thread can move unless it sleeps, has ended or waits for a lock that is held.\<close>

lemma thread_do_progress:
  assumes "th_inv s" "\<not> th_freed s" "w < length (th_pcs s)"
  shows "(\<exists>ch t. thread_do w ch (th_pcs s ! w) s = Ret t) \<or> th_pcs s ! w = T_asleep \<or> th_pcs s ! w = T_dead \<or>
    (\<exists>u. th_count_lock s = M_held u \<and> th_pcs s ! w \<in> {T_start, T_inc, T_dec, T_dying}) \<or>
    (\<exists>u. jq_rwmutex (th_queue s) = M_held u \<and> th_pcs s ! w = T_pull)"
proof -
  note inv = assms(1) [unfolded th_inv_running [OF assms(2)]]
  have q: "jq_ok (th_queue s)" and np: "T_post None \<notin> set (th_pcs s)" and bl: "blocks_ok (th_queue s) (th_pcs s)"
    using inv by auto
  note b = bsem_ok_ops [OF jq_ok_parts(1) [OF q]]
  have len: "int (length (th_pcs s)) \<le> INT_MAX" and counts: "th_alive s = int (sum_list (map is_alive (th_pcs s)))"
    "th_working s = int (sum_list (map is_working (th_pcs s)))" using inv by (auto simp: shape_ok_def counts_ok_def)
  have bounds: "sum_list (map is_working (th_pcs s)) \<le> length (th_pcs s)" "sum_list (map is_alive (th_pcs s)) \<le> length (th_pcs s)"
    by (rule is_working_le, rule is_alive_le)
  have low: "is_alive (th_pcs s ! w) \<le> sum_list (map is_alive (th_pcs s))"
    "is_working (th_pcs s ! w) \<le> sum_list (map is_working (th_pcs s))"
    using sum_list_member_le [OF assms(3)] by auto
  have up: "is_alive (th_pcs s ! w) = 0 \<Longrightarrow> sum_list (map is_alive (th_pcs s)) < length (th_pcs s)"
    "is_working (th_pcs s ! w) = 0 \<Longrightarrow> sum_list (map is_working (th_pcs s)) < length (th_pcs s)"
    using idle_alive_less [OF assms(3)] idle_working_less [OF assms(3)] by auto
  have cl: "th_count_lock s = M_free \<or> (\<exists>u. th_count_lock s = M_held u)"
    and rw: "jq_rwmutex (th_queue s) = M_free \<or> (\<exists>u. jq_rwmutex (th_queue s) = M_held u)"
    using inv by (auto elim: lock_ok_cases)
  have sec: "count_section t M_free (Ret n) = Ret (n, M_free)" for t n by (simp add: count_section_def)
  show ?thesis
  proof (cases "th_pcs s ! w")
    case T_start
    then have "c_add (th_alive s) 1 = Ret (th_alive s + 1)"
      using up(1) len counts(1) by (simp add: c_add_def in_int_def INT_MIN_def)
    with T_start cl sec show ?thesis by auto
  next
    case T_inc
    then have "c_add (th_working s) 1 = Ret (th_working s + 1)"
      using up(2) len counts(2) by (simp add: c_add_def in_int_def INT_MIN_def)
    with T_inc cl sec show ?thesis by auto
  next
    case T_dec
    then have "c_sub (th_working s) 1 = Ret (th_working s - 1)"
      using low(2) len counts(2) bounds(1) by (simp add: c_sub_def in_int_def INT_MIN_def)
    with T_dec cl sec show ?thesis by auto
  next
    case T_dying
    then have "c_sub (th_alive s) 1 = Ret (th_alive s - 1)"
      using low(1) len counts(1) bounds(2) by (simp add: c_sub_def in_int_def INT_MIN_def)
    with T_dying cl show ?thesis by auto
  next
    case T_sem
    then show ?thesis using b(3) by auto
  next
    case T_pull
    show ?thesis
    proof (cases "jq_rwmutex (th_queue s) = M_free")
      case True
      let ?q = "(th_queue s)\<lparr>jq_rwmutex := M_held (Worker w)\<rparr>"
      have ok: "jq_ok ?q" "jq_chain ?q = jq_chain (th_queue s)" using q by simp_all
      have "\<exists>r q'. jobqueue_unlink ?q = Ret (r, q') \<and> jq_rwmutex q' = M_held (Worker w)"
        using jobqueue_unlink_empty [OF ok(1)] jobqueue_unlink_ok [OF ok(1)]
        by (cases "jq_chain ?q") auto
      then obtain r q' where "jobqueue_unlink ?q = Ret (r, q')" "jq_rwmutex q' = M_held (Worker w)" by blast
      with True T_pull show ?thesis by (cases "0 < jq_len q'") auto
    next
      case False
      with rw T_pull show ?thesis by auto
    qed
  next
    case (T_post j)
    obtain ch where "cond_signal_ok T_asleep ch (th_pcs s)" using cond_signal_ok_ex [of T_asleep "th_pcs s"] by blast
    moreover have "jq_rwmutex (th_queue s) = M_held (Worker w)"
      using inv lock_ok_holder assms(3) T_post by (metis posts_simps(1))
    ultimately have "\<exists>t. thread_do w ch (T_post j) s = Ret t" using b(1) by simp
    with T_post show ?thesis by metis
  next
    case (T_job a)
    then have "a \<in> dom (jq_jobs (th_queue s))" using blocks_ok_free(3) [OF bl assms(3) _ _ q, of a T_dec] by simp
    with T_job show ?thesis by auto
  next
    case T_unlock
    then have "th_count_lock s = M_held (Worker w)" using inv lock_ok_holder assms(3) by (metis unlocks_simps(1))
    with T_unlock show ?thesis by auto
  qed simp_all
qed


lemma serving_quiescent:
  assumes "th_inv s" "serving s" "quiescent th_step th_own s" "\<And>w. w < length (th_pcs s) \<Longrightarrow> \<not> th_held s ! w"
    "\<And>c. jq_rwmutex (th_queue s) \<noteq> M_held (Client c)"
  shows "\<And>pc. pc \<in> set (th_pcs s) \<Longrightarrow> pc = T_asleep" "th_pcs s \<noteq> [] \<Longrightarrow> jq_chain (th_queue s) = []" "th_working s = 0"
proof -
  have run: "\<not> th_freed s" and noend: "\<And>pc. pc \<in> set (th_pcs s) \<Longrightarrow> \<not> ending pc"
    using assms(2) by (auto simp: serving_def)
  note inv = assms(1) [unfolded th_inv_running [OF run]]
  have stuck: "thread_do w ch (th_pcs s ! w) s \<noteq> Ret t" if "w < length (th_pcs s)" for w ch t
  proof -
    have "th_step (Th_work w ch) s \<noteq> Ret t"
      using assms(3) unfolding quiescent_def by (metis th_own.simps(1))
    with that assms(4) run show ?thesis by simp
  qed
  have prog: "th_pcs s ! w = T_asleep \<or> (\<exists>u. th_count_lock s = M_held u) \<or>
      (\<exists>u. jq_rwmutex (th_queue s) = M_held u \<and> th_pcs s ! w = T_pull)" if "w < length (th_pcs s)" for w
    using thread_do_progress [OF assms(1) run that] stuck [OF that] noend [OF nth_mem [OF that]] by auto
  have "lock_ok unlocks (th_pcs s) (th_count_lock s)" using inv by auto
  then have cl: "th_count_lock s \<noteq> M_held u" for u
  proof (cases rule: lock_ok_cases)
    case (2 w)
    with noend [OF nth_mem [OF 2(2)]] show ?thesis by (auto simp: unlocks_def)
  next
    case (3 c)
    with assms(2) show ?thesis by (simp add: serving_def)
  qed simp
  have "lock_ok posts (th_pcs s) (jq_rwmutex (th_queue s))" using inv by auto
  then have rw: "jq_rwmutex (th_queue s) \<noteq> M_held u" for u
  proof (cases rule: lock_ok_cases)
    case (2 w)
    with prog [OF 2(2)] cl show ?thesis by (auto simp: posts_def)
  next
    case (3 c)
    with assms(5) [of c] show ?thesis by simp
  qed simp
  show asleep: "pc = T_asleep" if "pc \<in> set (th_pcs s)" for pc
    using that prog cl rw by (auto simp: in_set_conv_nth)
  show "jq_chain (th_queue s) = []" if "th_pcs s \<noteq> []"
  proof (rule ccontr)
    assume "jq_chain (th_queue s) \<noteq> []"
    with assms(2,5) asleep have "th_v s = 1" by (fastforce simp: serving_def announced_def)
    with assms(2) that asleep show False by (auto simp: serving_def)
  qed
  have "is_working pc = 0" if "pc \<in> set (th_pcs s)" for pc using asleep [OF that] by simp
  then show "th_working s = 0" using inv by (simp add: counts_ok_def sum_list_map_zero_iff)
qed


text \<open>The threads' own steps leave the callers' part of the state alone.\<close>

lemma own_frame_step:
  assumes "th_own l" "th_step l s = Ret t" "th_inv s"
  shows "th_held t = th_held s" "length (th_pcs t) = length (th_pcs s)" "th_submitted t = th_submitted s"
    "th_discarded t = th_discarded s" "threads_keepalive t = threads_keepalive s" "\<not> kills l"
    "jq_rwmutex (th_queue t) = M_held (Client c) \<Longrightarrow> jq_rwmutex (th_queue s) = M_held (Client c)"
proof -
  from assms(1) obtain w ch where l: "l = Th_work w ch" by (cases l) auto
  with assms(2) have w: "w < length (th_pcs s)" "\<not> th_freed s" and do: "thread_do w ch (th_pcs s ! w) s = Ret t"
    by (auto split: if_splits)
  note inv = assms(3) [unfolded th_inv_running [OF w(2)]]
  have q: "jq_ok (th_queue s)" using inv by auto
  have np: "th_pcs s ! w \<noteq> T_post None" using inv w(1) nth_mem by metis
  from do q np have "th_held t = th_held s \<and> length (th_pcs t) = length (th_pcs s) \<and> th_submitted t = th_submitted s \<and>
    th_discarded t = th_discarded s \<and> threads_keepalive t = threads_keepalive s \<and>
    (jq_rwmutex (th_queue t) = M_held (Client c) \<longrightarrow> jq_rwmutex (th_queue s) = M_held (Client c))"
    by (cases rule: thread_do_cases) simp_all
  then show "th_held t = th_held s" "length (th_pcs t) = length (th_pcs s)" "th_submitted t = th_submitted s"
    "th_discarded t = th_discarded s" "threads_keepalive t = threads_keepalive s"
    "jq_rwmutex (th_queue t) = M_held (Client c) \<Longrightarrow> jq_rwmutex (th_queue s) = M_held (Client c)"
    by simp_all
  show "\<not> kills l" using l by simp
qed

definition same_calls :: "('f, 'a) th_sys \<Rightarrow> ('f, 'a) th_sys \<Rightarrow> bool" where
  "same_calls s t \<longleftrightarrow> th_inv t \<and> th_held t = th_held s \<and> length (th_pcs t) = length (th_pcs s) \<and>
     th_submitted t = th_submitted s \<and> th_discarded t = th_discarded s \<and> threads_keepalive t = threads_keepalive s \<and>
     (\<forall>c. jq_rwmutex (th_queue t) = M_held (Client c) \<longrightarrow> jq_rwmutex (th_queue s) = M_held (Client c))"

lemma own_frame:
  assumes "th_inv s" "list_all th_own ks" "run th_step ks s = Ret t"
  shows "same_calls s t"
proof (rule run_keeps [OF assms(3,2)])
  show "same_calls s s" using assms(1) by (simp add: same_calls_def)
next
  fix l u v
  assume "same_calls s u" "th_own l" "th_step l u = Ret v"
  then show "same_calls s v"
    using own_frame_step [of l u v] th_inv_step [of u l v] by (auto simp: same_calls_def)
qed

lemma serving_run:
  assumes "th_inv s" "serving s" "run th_step ls s = Ret t" "\<not> list_ex kills ls"
  shows "serving t"
proof -
  have "list_all (\<lambda>l. \<not> kills l) ls" using assms(4) by (simp add: list_all_iff list_ex_iff)
  from run_keeps [OF assms(3) this, of "\<lambda>u. th_inv u \<and> serving u"] assms(1,2) show ?thesis
    using serving_step th_inv_step by blast
qed

lemma own_not_kills: "list_all th_own ks \<Longrightarrow> \<not> list_ex kills ks"
proof (induction ks)
  case (Cons l ks)
  then show ?case by (cases l) auto
qed simp

section \<open>Properties\<close>

text \<open>
  A pool of two threads for the witnesses. The block of the queue has old contents with \<open>len\<close> zero.
  After \<open>th_demo_up\<close> both threads sleep and \<open>thpool_init\<close> has returned; then two jobs are added.
\<close>

definition th_junk :: "(nat, nat) jobqueue" where
  "th_junk = \<lparr>jq_rwmutex = M_uninit, jq_front = Some 3, jq_rear = Some 4,
     jq_has_jobs = \<lparr>bsem_mutex = M_uninit, bsem_cond = False, bsem_v = 7\<rparr>, jq_len = 0, jq_jobs = Map.empty\<rparr>"

definition th_demo_env :: "(nat, nat) init_env" where
  "th_demo_env = \<lparr>malloc_thpool = True, malloc_jobqueue = Some th_junk, malloc_bsem = True,
     malloc_thread_array = True, malloc_thread = (\<lambda>_. True)\<rparr>"

definition th_demo :: "(nat, nat) th_sys" where
  "th_demo = th_start 2 (empty_queue th_junk)"

definition th_demo_up :: "(nat, nat) th_label list" where
  "th_demo_up = [Th_work 0 None, Th_work 1 None, Th_ready, Th_work 0 None, Th_work 0 None, Th_work 1 None, Th_work 1 None]"

definition th_demo_calls :: "(nat, nat) th_label list" where
  "th_demo_calls = th_demo_up @ [Th_add 0 10 7 1, Th_add_post 0 (Some 0), Th_add 0 11 8 2, Th_add_post 0 (Some 1)]"

lemma th_demo_thpool_init: "thpool_init (Client 0) th_demo_env 2 = Ret th_demo"
proof -
  have "jobqueue_init (Client 0) (Some th_junk) True = Ret (0, Some (empty_queue th_junk))"
    using jobqueue_init_any [of th_junk "Client 0"] by (simp add: th_junk_def)
  then show ?thesis by (simp add: thpool_init_def th_demo_env_def th_demo_def)
qed

lemma th_demo_init: "th_init th_demo"
proof -
  have "in_int 2" "malloc_jobqueue th_demo_env = Some th_junk" "jq_jobs th_junk = Map.empty"
    by (simp_all add: th_demo_env_def th_junk_def)
  with th_demo_thpool_init show ?thesis unfolding th_init_def by blast
qed

lemmas th_run_defs = th_demo_def th_start_def empty_queue_def th_junk_def numeral_2_eq_2 goto_def count_section_def
  c_add_def c_sub_def bsem_try_def bsem_post_def bsem_post_all_def add_link_def add_post_def with_pool_def init_returns_def
  jobqueue_link_def jobqueue_unlink_def cond_signal_ok_def cond_signal_def cond_broadcast_def new_job_def begun_work_def
  work_at_def in_int_def INT_MAX_def INT_MIN_def

definition th_demo_loaded :: "(nat, nat) th_sys" where
  "th_demo_loaded = (case run th_step th_demo_calls th_demo of Ret s \<Rightarrow> s)"

lemma th_demo_loaded_run:
  "run th_step th_demo_calls th_demo = Ret th_demo_loaded" "th_pcs th_demo_loaded = [T_sem, T_sem]"
  "th_held th_demo_loaded = [False, False]" "jq_rwmutex (th_queue th_demo_loaded) = M_free"
  "th_submitted th_demo_loaded = [(7, 1), (8, 2)]"
  by (simp_all add: th_demo_loaded_def th_demo_calls_def th_demo_up_def th_run_defs)

text \<open>At rest everything is completed.\<close>

lemma thpool_rest:
  assumes "th_init s0" "run th_step ls s0 = Ret s" "\<not> list_ex kills ls" "th_pcs s \<noteq> []"
    and "\<And>w. w < length (th_pcs s) \<Longrightarrow> \<not> th_held s ! w" "\<And>c. jq_rwmutex (th_queue s) \<noteq> M_held (Client c)"
    and "list_all th_own ks" "run th_step ks s = Ret t" "quiescent th_step th_own t"
  shows "th_finished t = mset (th_submitted s)" "jq_len (th_queue t) = 0" "th_working t = 0"
proof -
  have inv: "th_inv s" using th.inv_run [OF th_init_inv [OF assms(1)] assms(2)] .
  have serv: "serving s" using serving_run [OF th_init_inv serving_init assms(2,3)] assms(1) by blast
  have calls: "same_calls s t" using own_frame [OF inv assms(7,8)] .
  have st: "serving t" using serving_run [OF inv serv assms(8) own_not_kills [OF assms(7)]] .
  have t: "th_inv t" "\<not> th_freed t" using calls st by (auto simp: same_calls_def serving_def)
  have rest: "\<And>pc. pc \<in> set (th_pcs t) \<Longrightarrow> pc = T_asleep" "th_pcs t \<noteq> [] \<Longrightarrow> jq_chain (th_queue t) = []" "th_working t = 0"
    using serving_quiescent [OF t(1) st assms(9)] calls assms(5,6) by (auto simp: same_calls_def)
  have "length (th_pcs t) = length (th_pcs s)" using calls by (simp add: same_calls_def)
  with assms(4) have "th_pcs t \<noteq> []" by auto
  then have ch: "jq_chain (th_queue t) = []" by (rule rest(2))
  then show "jq_len (th_queue t) = 0" using t jq_chain_empty_iff by (auto simp: th_inv_running)
  show "th_working t = 0" by (rule rest(3))
  have "reachable th_step th_init t"
    using run_reachable [OF assms(8)] run_reachable [OF assms(2)] assms(1) reach_init by metis
  then have prom: "pool_promise Fifo (th_view t)" by (rule thv.reachable_promise)
  have "owned pc = 0" if "pc \<in> set (th_pcs t)" for pc using rest(1) [OF that] by simp
  then have "running (th_view t) = {#}" by (simp add: th_view_def sum_list_map_zero)
  moreover have "pending (th_view t) = []" using ch by (simp add: th_view_def jq_items_def)
  moreover have "discarded (th_view t) = []" using st by (simp add: serving_def th_view_def)
  ultimately have "finished (th_view t) = mset (submitted (th_view t))" using promise_all_finished [OF prom] by simp
  then show "th_finished t = mset (th_submitted s)" using calls by (simp add: th_view_def same_calls_def)
qed

text \<open>
  C2. Progress: after any calls of a pool with at least one thread during which no pool of the process
  is destroyed, when no \<open>thpool_add_work\<close> is under way and no thread is on hold, the threads take at
  most \<open>th_work s\<close> steps whatever the schedule, some schedule brings them to rest, and at rest all
  submitted jobs are completed, the queue is empty and no thread counts as working, so that the loops
  of \<open>thpool_wait\<close> end.
\<close>

theorem thpool_completes:
  assumes "th_init s0" "run th_step ls s0 = Ret s" "\<not> list_ex kills ls" "th_pcs s \<noteq> []"
    and "\<And>w. w < length (th_pcs s) \<Longrightarrow> \<not> th_held s ! w" "\<And>c. jq_rwmutex (th_queue s) \<noteq> M_held (Client c)"
  shows "(\<exists>ks t. list_all th_own ks \<and> run th_step ks s = Ret t \<and> quiescent th_step th_own t) \<and>
    (\<forall>ks t. list_all th_own ks \<longrightarrow> run th_step ks s = Ret t \<longrightarrow> length ks \<le> th_work s \<and>
       (quiescent th_step th_own t \<longrightarrow> th_finished t = mset (th_submitted s) \<and>
          jq_len (th_queue t) = 0 \<and> th_working t = 0))"
proof (intro conjI allI impI)
  have inv: "th_inv s" using th.inv_run [OF th_init_inv [OF assms(1)] assms(2)] .
  show "\<exists>ks t. list_all th_own ks \<and> run th_step ks s = Ret t \<and> quiescent th_step th_own t"
    using inv by (rule thd.drains)
  fix ks t
  assume own: "list_all th_own ks" "run th_step ks s = Ret t"
  show "length ks \<le> th_work s" using thd.own_run_bounded [OF inv own] by linarith
  assume q: "quiescent th_step th_own t"
  show "th_finished t = mset (th_submitted s)" "jq_len (th_queue t) = 0" "th_working t = 0"
    using thpool_rest [OF assms own q] by blast+
qed

theorem thpool_completes_witness:
  "\<exists>ks t. list_all th_own ks \<and> run th_step ks th_demo_loaded = Ret t \<and> th_finished t = {#(7, 1), (8, 2)#} \<and>
     jq_len (th_queue t) = 0 \<and> th_working t = 0"
proof -
  have kills: "\<not> list_ex kills th_demo_calls" by (simp add: th_demo_calls_def th_demo_up_def)
  have pcs: "th_pcs th_demo_loaded \<noteq> []" by (simp add: th_demo_loaded_run)
  have held: "\<not> th_held th_demo_loaded ! w" if "w < length (th_pcs th_demo_loaded)" for w
    using that by (auto simp: th_demo_loaded_run less_Suc_eq)
  have rw: "jq_rwmutex (th_queue th_demo_loaded) \<noteq> M_held (Client c)" for c by (simp add: th_demo_loaded_run)
  from thpool_completes [OF th_demo_init th_demo_loaded_run(1) kills pcs held rw]
  show ?thesis unfolding th_demo_loaded_run(5) by fastforce
qed


lemma th_demo_reachable: "run th_step ls th_demo = Ret s \<Longrightarrow> reachable th_step th_init s"
  using run_reachable th_demo_init reach_init by metis

text \<open>
  C4. The pool implements the abstract queue of tasks in every reachable state, also while it is paused,
  resumed or destroyed and while other pools switch the shared flags: jobs are conserved and begun
  in the order in which they were linked into the queue.
\<close>

theorem thpool_promise:
  assumes "reachable th_step th_init s"
  shows "pool_promise Fifo (th_view s)"
  using assms by (rule thv.reachable_promise)

theorem thpool_promise_witness:
  "pool_promise Fifo (th_view th_demo_loaded) \<and> submitted (th_view th_demo_loaded) = [(7, 1), (8, 2)]"
  using thpool_promise [OF th_demo_reachable [OF th_demo_loaded_run(1)]]
  by (simp add: th_view_def th_demo_loaded_run)

lemma th_begun_mono:
  assumes "th_inv s" "th_step l s = Ret t"
  shows "mset (th_begun s) \<subseteq># mset (th_begun t)"
proof -
  have "mset (begun (th_view s)) \<subseteq># mset (begun (th_view t))"
    using th_view_step [OF assms] by (cases rule: pool_step.cases) auto
  then show ?thesis by (simp add: th_view_def)
qed

lemma idle_running:
  assumes "th_inv s" "\<not> th_freed s" "th_working s = 0"
  shows "running (th_view s) = {#}"
proof -
  have "\<forall>pc\<in>set (th_pcs s). is_working pc = 0"
    using assms by (simp add: th_inv_running counts_ok_def sum_list_map_zero_iff)
  moreover have "is_working pc = 0 \<Longrightarrow> owned pc = 0" for pc by (cases pc) auto
  ultimately have "sum_list (map owned (th_pcs s)) = {#}" by (simp add: sum_list_map_zero)
  then show ?thesis by (simp add: th_view_def)
qed

lemma idle_looks:
  assumes "reachable th_step th_init s" "\<not> th_freed s" "th_discarded s = []" "jq_len (th_queue s) = 0"
    and "run th_step ls s = Ret t" "\<not> th_freed t" "th_working t = 0"
  shows "mset (th_submitted s) \<subseteq># th_finished t"
proof -
  have s: "th_inv s" "pool_promise Fifo (th_view s)"
    using assms(1) by (auto intro: th.inv_reachable thv.reachable_promise)
  have t: "th_inv t" "pool_promise Fifo (th_view t)"
    using run_reachable [OF assms(5,1)] by (auto intro: th.inv_reachable thv.reachable_promise)
  have "pending (th_view s) = []"
    using s(1) assms(2,4) jq_chain_empty_iff [of "th_queue s"] by (simp add: th_view_def jq_items_def th_inv_running)
  then have "mset (th_submitted s) = mset (th_begun s)"
    using s(2) assms(3) by (simp add: pool_promise_def conserved_def th_view_def)
  moreover have "list_all (\<lambda>_. True) ls" by (simp add: list_all_iff)
  from run_keeps [OF assms(5) this, of "\<lambda>u. th_inv u \<and> mset (th_begun s) \<subseteq># mset (th_begun u)"]
  have "mset (th_begun s) \<subseteq># mset (th_begun t)"
    using s(1) th_begun_mono th_inv_step subset_mset.trans by blast
  moreover have "mset (th_begun t) = th_finished t"
    using t(2) idle_running [OF t(1) assms(6,7)] by (simp add: pool_promise_def conserved_def th_view_def)
  ultimately show ?thesis by simp
qed

text \<open>
  C11. \<open>thpool_wait\<close> is right although it reads \<open>len\<close> and \<open>num_threads_working\<close> one after the other and
  without a lock: if it reads \<open>len\<close> as 0 in state \<open>s\<close> and later, after any steps of the threads and of other
  callers, reads \<open>num_threads_working\<close> as 0 in state \<open>t\<close>, then every job submitted before \<open>s\<close> is completed in \<open>t\<close>.
\<close>

theorem thpool_wait_correct:
  assumes "reachable th_step th_init s" "\<not> th_freed s" "th_discarded s = []" "jq_len (th_queue s) = 0"
    and "run th_step ls s = Ret t" "\<not> th_freed t" "th_working t = 0"
  shows "mset (th_submitted s) \<subseteq># th_finished t"
  using assms by (rule idle_looks)

text \<open>Two threads fetch and run the two jobs.\<close>

definition th_demo_fetch :: "(nat, nat) th_label list" where
  "th_demo_fetch = map (\<lambda>_. Th_work 0 None) [0..<5] @ map (\<lambda>_. Th_work 1 None) [0..<4]"

definition th_demo_finish :: "(nat, nat) th_label list" where
  "th_demo_finish = map (\<lambda>_. Th_work 0 None) [0..<2] @ map (\<lambda>_. Th_work 1 None) [0..<2]"

theorem thpool_wait_correct_witness:
  "case run th_step th_demo_fetch th_demo_loaded of
     Ret s \<Rightarrow> jq_len (th_queue s) = 0 \<and> th_working s = 2 \<and>
       (case run th_step th_demo_finish s of
          Ret t \<Rightarrow> th_working t = 0 \<and> {#(7, 1), (8, 2)#} \<subseteq># th_finished t | _ \<Rightarrow> False)
   | _ \<Rightarrow> False"
proof -
  obtain s t where s: "run th_step th_demo_fetch th_demo_loaded = Ret s" "\<not> th_freed s" "th_discarded s = []"
      "jq_len (th_queue s) = 0" "th_working s = 2" "th_submitted s = [(7, 1), (8, 2)]"
    and t: "run th_step th_demo_finish s = Ret t" "\<not> th_freed t" "th_working t = 0"
    by (simp add: th_demo_loaded_def th_demo_calls_def th_demo_up_def th_demo_fetch_def th_demo_finish_def th_run_defs
        upt_rec)
  have "reachable th_step th_init s"
    using run_reachable [OF s(1)] th_demo_reachable [OF th_demo_loaded_run(1)] by blast
  from thpool_wait_correct [OF this s(2-4) t] s t show ?thesis by simp
qed


text \<open>A pool with one thread, brought up, destroyed and freed before the thread has unlocked \<open>thcount_lock\<close>.\<close>

definition th_single :: "(nat, nat) th_sys" where
  "th_single = th_start 1 (empty_queue th_junk)"

definition th_race :: "(nat, nat) th_label list" where
  "th_race = [Th_work 0 None, Th_ready, Th_work 0 None, Th_work 0 None, Th_destroy_begin, Th_destroy_post 0,
     Th_work 0 None, Th_work 0 None, Th_work 0 None, Th_work 0 None, Th_destroy_end 0]"

lemma th_race_run:
  "\<exists>s. run th_step th_race th_single = Ret s \<and> th_freed s \<and> th_step (Th_work 0 None) s = UB Dangling"
  by (simp add: th_race_def th_single_def th_run_defs destroy_begins_def destroy_posts_def destroy_ends_def
      jobqueue_destroy_def jobqueue_clear_def clear_loop.simps bsem_reset_def bsem_init_def)

lemma th_single_init: "th_init th_single"
proof -
  have "jobqueue_init (Client 0) (Some th_junk) True = Ret (0, Some (empty_queue th_junk))"
    using jobqueue_init_any [of th_junk "Client 0"] by (simp add: th_junk_def)
  then have "thpool_init (Client 0) th_demo_env 1 = Ret th_single"
    by (simp add: thpool_init_def th_demo_env_def th_single_def)
  moreover have "in_int 1" "malloc_jobqueue th_demo_env = Some th_junk" "jq_jobs th_junk = Map.empty"
    by (simp_all add: th_demo_env_def th_junk_def)
  ultimately show ?thesis unfolding th_init_def by blast
qed





text \<open>
  The race at the end of \<open>thpool_destroy\<close> is real: from the start of a pool with one thread and no
  jobs there is an execution in which the pool is freed while the thread still has to unlock
  \<open>thcount_lock\<close>, which lies in the freed block.
\<close>

theorem thpool_destroy_race:
  "\<exists>s0 ls (s :: (nat, nat) th_sys). th_init s0 \<and> run th_step ls s0 = Ret s \<and> th_freed s \<and> th_submitted s = [] \<and>
     th_step (Th_work 0 None) s = UB Dangling"
proof -
  obtain s where s: "run th_step th_race th_single = Ret s" "th_freed s" "th_step (Th_work 0 None) s = UB Dangling"
    using th_race_run by blast
  moreover have "th_submitted s = []"
    using s(1) by (auto simp: th_race_def th_single_def th_run_defs destroy_begins_def destroy_posts_def destroy_ends_def
      jobqueue_destroy_def jobqueue_clear_def clear_loop.simps bsem_reset_def bsem_init_def)
  ultimately show ?thesis using th_single_init by blast
qed

text \<open>
  C31. \<open>thpool_destroy\<close> leaks no job: when it frees the pool, no thread owns a job, and the jobs left in the
  queue, which are the ones discarded, are all that was allocated and are freed with it.
\<close>

theorem thpool_destroy_frees:
  assumes "reachable th_step th_init s" "th_step (Th_destroy_end c) s = Ret t"
  shows "jq_jobs (th_queue t) = Map.empty \<and> th_freed t \<and> th_alive s = 0 \<and>
    mset (th_submitted t) = th_finished t + mset (th_discarded t)"
proof -
  have inv: "th_inv s" using assms(1) by (rule th.inv_reachable)
  from assms(2) obtain n q where run: "\<not> th_freed s" and alive: "th_alive s = 0"
    and q: "jobqueue_destroy (Client c) (th_queue s) = Ret q"
    and t: "t = s\<lparr>th_queue := q, th_freed := True, th_discarded := th_discarded s @ jq_items (th_queue s)\<rparr>"
    by (auto simp: destroy_ends_def outcome_simps split: option.splits if_splits)
  note parts = inv [unfolded th_inv_running [OF run]]
  have tinv: "th_inv t" using th_inv_step [OF inv assms(2)] .
  then have "owned pc = 0" if "pc \<in> set (th_pcs t)" for pc using that by (auto simp: t th_inv_def)
  then have none: "sum_list (map owned (th_pcs t)) = {#}" by (simp add: sum_list_map_zero)
  then have "mset (jq_chain (th_queue s)) = mset_set (dom (jq_jobs (th_queue s)))" "finite (dom (jq_jobs (th_queue s)))"
    using parts by (auto simp: blocks_ok_def t)
  then have all: "set (jq_chain (th_queue s)) = dom (jq_jobs (th_queue s))" by (metis finite_set_mset_mset_set set_mset_mset)
  have "jq_ok (th_queue s)" using parts by auto
  then have "jq_jobs q = jq_jobs (th_queue s) |` (- set (jq_chain (th_queue s)))"
    using jobqueue_clear_ok [of "th_queue s" "Client c"] q by (auto simp: jobqueue_destroy_def)
  then have "jq_jobs q = Map.empty" unfolding all by (auto simp: restrict_map_def fun_eq_iff)
  moreover have "reachable th_step th_init t" using assms reach_step by metis
  then have "pool_promise Fifo (th_view t)" by (rule thv.reachable_promise)
  ultimately show ?thesis
    using alive none by (simp add: t pool_promise_def conserved_def th_view_def)
qed


theorem thpool_destroy_frees_witness:
  "case run th_step (butlast th_race @ [Th_work 0 None]) th_single of
     Ret s \<Rightarrow> (case th_step (Th_destroy_end 0) s of
                 Ret t \<Rightarrow> jq_jobs (th_queue t) = Map.empty \<and> th_freed t | _ \<Rightarrow> False)
   | _ \<Rightarrow> False"
proof -
  obtain s t where s: "run th_step (butlast th_race @ [Th_work 0 None]) th_single = Ret s" "th_step (Th_destroy_end 0) s = Ret t"
    by (simp add: th_race_def th_single_def th_run_defs destroy_begins_def destroy_posts_def destroy_ends_def
      jobqueue_destroy_def jobqueue_clear_def clear_loop.simps bsem_reset_def bsem_init_def)
  have "reachable th_step th_init s" using run_reachable [OF s(1)] th_single_init reach_init by metis
  from thpool_destroy_frees [OF this s(2)] s show ?thesis by (simp del: run.simps th_step.simps)
qed

text \<open>
  The flag \<open>threads_keepalive\<close> is shared by all pools of the process. When another pool is destroyed
  the threads of this one may all end; then, whatever happens later, also if a pool is initialised
  again, no job of this pool is ever begun.
\<close>

lemma all_dead_step:
  assumes "\<forall>pc\<in>set (th_pcs s). pc = T_dead" "th_step l s = Ret t"
  shows "(\<forall>pc\<in>set (th_pcs t). pc = T_dead) \<and> th_begun t = th_begun s"
proof -
  have "cond_broadcast T_asleep T_sem (th_pcs s) = th_pcs s" unfolding cond_broadcast_def using assms(1) by (intro map_idI) auto
  moreover have "cond_signal T_sem ch (th_pcs s) = th_pcs s" if "cond_signal_ok T_asleep ch (th_pcs s)" for ch
    using assms(1) that by (fastforce simp: cond_signal_def cond_signal_ok_def in_set_conv_nth split: option.splits)
  moreover have dead: "th_pcs s ! w = T_dead" if "w < length (th_pcs s)" for w using assms(1) that by simp
  then have "\<nexists>w. l = Th_wakeup w" "\<nexists>w ch. l = Th_work w ch" using assms(2) by (auto split: if_splits)
  ultimately show ?thesis using assms
    by (cases l) (auto simp: outcome_simps init_returns_def with_pool_def add_link_def add_post_def thpool_pause_def
        thread_hold_def thread_unhold_def destroy_begins_def destroy_posts_def destroy_ends_def
        split: if_splits option.splits)
qed

theorem thpool_shared_flag:
  assumes "\<forall>pc\<in>set (th_pcs s). pc = T_dead" "run th_step ls s = Ret t"
  shows "th_begun t = th_begun s \<and> (\<forall>pc\<in>set (th_pcs t). pc = T_dead)"
proof -
  let ?P = "\<lambda>u. th_begun u = th_begun s \<and> (\<forall>pc\<in>set (th_pcs u). pc = T_dead)"
  have step: "?P v" if "?P u" "th_step l u = Ret v" for l u v using all_dead_step [of u l v] that by simp
  have "list_all (\<lambda>_. True) ls" by (simp add: list_all_iff)
  from run_keeps [OF assms(2) this, of ?P] show ?thesis using assms(1) step by blast
qed

text \<open>
  The witness: with one thread asleep, another pool is destroyed, a job is added (which wakes the
  thread), and the thread ends instead of executing it; then a new pool is initialised.
\<close>

definition th_starved :: "(nat, nat) th_label list" where
  "th_starved = [Th_work 0 None, Th_ready, Th_work 0 None, Th_work 0 None, Th_other_destroy, Th_add 0 10 7 1,
     Th_add_post 0 (Some 0), Th_work 0 None, Th_work 0 None, Th_work 0 None, Th_work 0 None, Th_work 0 None]"

theorem thpool_shared_flag_witness:
  "case run th_step th_starved th_single of
     Ret s \<Rightarrow> th_submitted s = [(7, 1)] \<and> \<not> th_freed s \<and>
       (case run th_step [Th_other_init, Th_add 0 11 8 2, Th_add_post 0 None] s of
          Ret t \<Rightarrow> th_begun t = th_begun s \<and> th_begun t = [] | _ \<Rightarrow> False)
   | _ \<Rightarrow> False"
proof -
  obtain s t where s: "run th_step th_starved th_single = Ret s" "th_submitted s = [(7, 1)]" "\<not> th_freed s"
      "\<forall>pc\<in>set (th_pcs s). pc = T_dead" "th_begun s = []"
    and t: "run th_step [Th_other_init, Th_add 0 11 8 2, Th_add_post 0 None] s = Ret t"
    by (simp add: th_starved_def th_single_def th_run_defs)
  from thpool_shared_flag [OF s(4) t] s t show ?thesis by (simp del: run.simps th_step.simps)
qed

text \<open>
  C37. \<open>thpool_pause\<close> works once its signals are delivered: while every thread is inside \<open>thread_hold\<close> and the
  flag \<open>threads_on_hold\<close> is set, no sequence of steps without \<open>thpool_resume\<close> or the initialisation of another pool
  begins or completes a job.
\<close>

fun unpauses :: "('f, 'a) th_label \<Rightarrow> bool" where
  "unpauses Th_resume = True"
| "unpauses Th_other_init = True"
| "unpauses _ = False"

definition paused :: "('f, 'a) th_sys \<Rightarrow> ('f, 'a) th_sys \<Rightarrow> bool" where
  "paused s t \<longleftrightarrow> threads_on_hold t \<noteq> 0 \<and> length (th_pcs t) = length (th_pcs s) \<and>
     (\<forall>w<length (th_pcs s). th_held t ! w) \<and> th_begun t = th_begun s \<and> th_finished t = th_finished s"

lemma paused_step:
  assumes "paused s u" "\<not> unpauses l" "th_step l u = Ret v"
  shows "paused s v"
  using assms
  by (cases l) (auto simp: paused_def outcome_simps init_returns_def with_pool_def add_link_def add_post_def thpool_pause_def
      thread_hold_def thread_unhold_def destroy_begins_def destroy_posts_def destroy_ends_def
      split: if_splits option.splits)

theorem thpool_paused:
  assumes "\<And>w. w < length (th_pcs s) \<Longrightarrow> th_held s ! w" "threads_on_hold s \<noteq> 0"
    and "run th_step ls s = Ret t" "\<not> list_ex unpauses ls"
  shows "th_begun t = th_begun s \<and> th_finished t = th_finished s \<and> (\<forall>w<length (th_pcs s). th_held t ! w)"
proof -
  have "list_all (\<lambda>l. \<not> unpauses l) ls" using assms(4) by (simp add: list_all_iff list_ex_iff)
  moreover have "paused s s" using assms(1,2) by (simp add: paused_def)
  ultimately have "paused s t" using run_keeps [OF assms(3), of "\<lambda>l. \<not> unpauses l" "paused s"] paused_step by blast
  then show ?thesis by (simp add: paused_def)
qed

definition th_demo_pause :: "(nat, nat) th_label list" where
  "th_demo_pause = [Th_pause, Th_deliver 0, Th_deliver 1]"

theorem thpool_paused_witness:
  "case run th_step th_demo_pause th_demo_loaded of
     Ret s \<Rightarrow> (case run th_step [Th_add 0 12 9 3, Th_add_post 0 None] s of
       Ret t \<Rightarrow> th_begun t = [] \<and> th_finished t = {#} | _ \<Rightarrow> False)
   | _ \<Rightarrow> False"
proof -
  obtain s t where s: "run th_step th_demo_pause th_demo_loaded = Ret s" "length (th_pcs s) = 2" "th_held s = [True, True]"
      "threads_on_hold s \<noteq> 0" "th_begun s = []" "th_finished s = {#}"
    and t: "run th_step [Th_add 0 12 9 3, Th_add_post 0 None] s = Ret t"
    by (simp add: th_demo_pause_def th_demo_loaded_def th_demo_calls_def th_demo_up_def th_run_defs thpool_pause_def
        thread_hold_def)
  have "th_held s ! w" if "w < length (th_pcs s)" for w using that s(2,3) by (auto simp: less_Suc_eq numeral_2_eq_2)
  from thpool_paused [OF this s(4) t] s t show ?thesis by (simp del: run.simps th_step.simps)
qed

text \<open>
  \<open>thpool_resume\<close> can be lost: if the signal of one thread is delivered only after \<open>thpool_resume\<close>, its
  handler sets the flag again, and every thread is on hold although the last call was a resume.
\<close>

theorem thpool_resume_lost:
  "\<exists>s. run th_step (th_demo_calls @ [Th_pause, Th_deliver 0, Th_resume, Th_deliver 1]) th_demo = Ret s \<and>
     threads_on_hold s \<noteq> 0 \<and> th_held s = [True, True] \<and> (\<forall>w ch. th_step (Th_work w ch) s = Blocked) \<and>
     (\<forall>w. th_step (Th_unhold w) s = Blocked)"
  by (auto simp: th_demo_calls_def th_demo_up_def th_run_defs thpool_pause_def thread_hold_def thread_unhold_def less_Suc_eq)


text \<open>
  \<open>jobqueue_init\<close> depends on the old contents of the block \<open>malloc\<close> returns, since \<open>jobqueue_clear\<close> tests \<open>len\<close>
  before it is set: it yields an empty queue if the old \<open>len\<close> is 0 (or 1 with a null \<open>front\<close>), and for every other
  content it follows the old \<open>front\<close> pointer, which is undefined behaviour.
\<close>

theorem jobqueue_init_result:
  assumes "jq_jobs q = Map.empty"
  shows "jobqueue_init t (Some q) True =
      (if jq_len q = 0 \<or> jq_len q = 1 \<and> jq_front q = None then Ret (0, Some (empty_queue q))
       else if jq_front q = None then UB Null_deref else UB Dangling) \<and>
    jq_ok (empty_queue q) \<and> jq_items (empty_queue q) = []"
  using jobqueue_init_any [OF assms] empty_queue_ok(1,2) [of q] by (simp add: jq_items_def)

theorem jobqueue_init_result_witness:
  "jobqueue_init (Client 0) (Some th_junk) True = Ret (0, Some (empty_queue th_junk)) \<and>
   jobqueue_init (Client 0) (Some (th_junk\<lparr>jq_len := 5\<rparr>)) True = UB Dangling"
proof -
  have "jq_jobs th_junk = Map.empty" "jq_jobs (th_junk\<lparr>jq_len := 5\<rparr>) = Map.empty" by (simp_all add: th_junk_def)
  from jobqueue_init_result [OF this(1), of "Client 0"] jobqueue_init_result [OF this(2), of "Client 0"]
  show ?thesis by (simp add: th_junk_def)
qed

lemma put_all_blocks:
  assumes "put_all jq_put ws (q, blocks) = Ret (q', blocks')"
  shows "blocks' = drop (length ws) blocks"
  using assms
proof (induction ws arbitrary: q blocks)
  case (Cons w ws)
  then obtain q1 b1 where one: "jq_put w (q, blocks) = Ret (q1, b1)" "put_all jq_put ws (q1, b1) = Ret (q', blocks')"
    by (auto simp: outcome_simps)
  then have "b1 = tl blocks" by (auto simp: jq_put_def outcome_simps)
  with one(2) have "put_all jq_put ws (q1, tl blocks) = Ret (q', blocks')" by simp
  with Cons.IH show ?case by (simp add: drop_Suc)
qed simp

lemma take_all_blocks:
  assumes "take_all jq_get n (q, blocks) = Ret (ws, q', blocks')"
  shows "blocks' = blocks"
  using assms
proof (induction n arbitrary: q ws)
  case (Suc n)
  then obtain w q1 b1 ws' where one: "jq_get (q, blocks) = Ret (w, q1, b1)" "take_all jq_get n (q1, b1) = Ret (ws', q', blocks')"
    by (auto simp: outcome_simps)
  then have "b1 = blocks" by (auto simp: jq_get_def outcome_simps split: option.splits)
  with one(2) have "take_all jq_get n (q1, blocks) = Ret (ws', q', blocks')" by simp
  with Suc.IH show ?case by blast
qed simp

text \<open>
  Round trip of the linked job queue: with fresh blocks from \<open>malloc\<close>, the jobs given to \<open>thpool_add_work\<close> one
  after the other are fetched in the same order with the same function and argument, every block is
  freed, and the queue is empty again.
\<close>

theorem jobqueue_roundtrip:
  assumes "jq_ok q" "jq_rwmutex q = M_free" "jq_items q = []" "length ws \<le> length blocks" "distinct blocks"
    and "set blocks \<inter> dom (jq_jobs q) = {}" "int (length ws) \<le> INT_MAX"
  shows "\<exists>q'. and_then (put_all jq_put ws (q, blocks)) (take_all jq_get (length ws)) = Ret (ws, q', drop (length ws) blocks) \<and>
    jq_ok q' \<and> jq_rwmutex q' = M_free \<and> jq_items q' = []"
proof -
  have "jq_len q = 0" using jq_ok_parts(5) [OF assms(1)] jq_ok_parts(2) [OF assms(1)] assms(3) by simp
  with assms have inv: "jq_inv (q, blocks)" "(jq_items \<circ> fst) (q, blocks) = []" "jq_fits ws (q, blocks)"
    by (simp_all add: jq_inv_def jq_fits_def)
  obtain r where r: "and_then (put_all jq_put ws (q, blocks)) (take_all jq_get (length ws)) = Ret (ws, r)" "jq_inv r"
      "(jq_items \<circ> fst) r = []"
    using jobs.put_take_roundtrip [OF inv] by blast
  obtain q' bs where qb: "r = (q', bs)" by (cases r)
  obtain q1 bs1 where one: "put_all jq_put ws (q, blocks) = Ret (q1, bs1)" "take_all jq_get (length ws) (q1, bs1) = Ret (ws, q', bs)"
    using r(1) qb by (auto simp: outcome_simps)
  have "bs1 = drop (length ws) blocks" using put_all_blocks [OF one(1)] .
  moreover have "bs = bs1" using take_all_blocks [OF one(2)] .
  ultimately show ?thesis using r qb by (auto simp: jq_inv_def)
qed

theorem jobqueue_roundtrip_witness:
  "\<exists>q'. and_then (put_all jq_put [(7, 1), (8, 2)] (empty_queue th_junk, [20, 21, 22])) (take_all jq_get 2) =
     Ret ([(7, 1), (8, 2)], q', [22]) \<and> jq_items q' = []"
proof -
  have "jq_items (empty_queue th_junk) = []" "length [(7::nat, 1::nat), (8, 2)] \<le> length [20, 21, 22::nat]"
    "distinct [20, 21, 22::nat]" "set [20, 21, 22] \<inter> dom (jq_jobs (empty_queue th_junk)) = {}"
    "int (length [(7::nat, 1::nat), (8, 2)]) \<le> INT_MAX"
    by (simp_all add: empty_queue_ok jq_items_def th_junk_def INT_MAX_def)
  from jobqueue_roundtrip [OF empty_queue_ok(1) empty_queue_ok(3) this] show ?thesis by (auto simp: numeral_2_eq_2)
qed


text \<open>
  The outcomes of \<open>thpool_init\<close>, error paths included: a failed allocation of the pool, of the semaphore or of
  the thread array ends the process with status 1; a failed allocation of the queue or of a thread is
  dereferenced, because the test comes after the first use or looks at the wrong pointer; otherwise
  the pool starts with an empty queue, and a negative number of threads counts as none.
\<close>

theorem thpool_init_outcomes:
  assumes "\<And>q. malloc_jobqueue env = Some q \<Longrightarrow> jq_jobs q = Map.empty \<and> jq_len q = 0"
  shows "thpool_init t env n =
    (if \<not> malloc_thpool env then Exit 1 else
     case malloc_jobqueue env of
       None \<Rightarrow> UB Null_deref
     | Some q \<Rightarrow>
         if \<not> malloc_bsem env \<or> \<not> malloc_thread_array env then Exit 1
         else if list_all (malloc_thread env) [0..<nat n] then Ret (th_start (nat n) (empty_queue q))
         else UB Null_deref)"
proof (cases "malloc_jobqueue env")
  case None
  then show ?thesis by (simp add: thpool_init_def jobqueue_init_def)
next
  case (Some q)
  then have q: "jobqueue_init t (Some q) True = Ret (0, Some (empty_queue q))"
    using assms jobqueue_init_any [of q t] by simp
  have all: "list_all (malloc_thread env) [0..<nat n] \<longleftrightarrow> \<not> (\<exists>i\<in>{0..<nat n}. \<not> malloc_thread env i)"
    by (auto simp: list_all_iff)
  have "(if n < 0 then 0 else n) = int (nat n)" by simp
  then show ?thesis using Some q unfolding all
    by (cases "malloc_bsem env") (auto simp: thpool_init_def jobqueue_init_def Let_def)
qed

theorem thpool_init_outcomes_witness:
  "thpool_init (Client 0) (th_demo_env\<lparr>malloc_thread := \<lambda>i. i < 1\<rparr>) 2 = UB Null_deref \<and>
   thpool_init (Client 0) (th_demo_env\<lparr>malloc_bsem := False\<rparr>) 2 = Exit 1"
proof -
  let ?a = "th_demo_env\<lparr>malloc_thread := \<lambda>i. i < 1\<rparr>" and ?b = "th_demo_env\<lparr>malloc_bsem := False\<rparr>"
  have a: "jq_jobs q = Map.empty \<and> jq_len q = 0" if "malloc_jobqueue ?a = Some q" for q
    using that by (auto simp: th_demo_env_def th_junk_def)
  have b: "jq_jobs q = Map.empty \<and> jq_len q = 0" if "malloc_jobqueue ?b = Some q" for q
    using that by (auto simp: th_demo_env_def th_junk_def)
  from thpool_init_outcomes [of ?a "Client 0" 2, OF a] thpool_init_outcomes [of ?b "Client 0" 2, OF b]
  show ?thesis by (simp add: th_demo_env_def upt_rec)
qed

end
