(* ===== verification/Workqueue.thy ===== *)
theory Workqueue
  imports Pool_Spec Pthread Heap_Lists
begin

text \<open>
  The work queue of \<open>src/libevent-thread/workqueue.c\<close>: a stack of jobs under one mutex, served by worker
  threads that own a heap block each.

  \<open>LL_ADD\<close> and \<open>LL_REMOVE\<close> are the two list macros, used for the list of workers and for the list of
  waiting jobs alike. \<open>wq_step\<close> interleaves the workers, the callers of \<open>workqueue_add_job\<close> and the
  walk of \<open>workqueue_shutdown\<close>, which writes the blocks of the workers without a lock. The log fields
  (\<open>wq_submitted\<close> and so on) record what happened to each job and influence nothing.
\<close>

section \<open>Data\<close>

record ll =
  ll_prev :: "addr option"
  ll_next :: "addr option"

record worker_t = ll +
  terminate :: int

record ('f, 'd) job_t = ll +
  job_function :: 'f
  user_data :: 'd

record workqueue_t =
  workers :: "addr option"
  waiting_jobs :: "addr option"
  jobs_mutex :: mutex

text \<open>
  Where a worker is: before the lock, asleep on \<open>jobs_cond\<close>, woken and about to take the mutex again,
  inside the critical section with the job it took, calling the job, executing it, out of the loop
  (with the mutex), gone.
\<close>

datatype wq_pc =
    W_lock
  | W_wait
  | W_woken
  | W_got "addr option"
  | W_run addr
  | W_exec addr
  | W_brk
  | W_exited

datatype shutdown_pc = S_idle | S_test "addr option" | S_next "addr option" | S_lock

record ('f, 'd) wq_sys =
  wq :: workqueue_t
  wq_blocks :: "addr \<rightharpoonup> worker_t"
  wq_jobs :: "addr \<rightharpoonup> ('f, 'd) job_t"
  wq_pcs :: "wq_pc list"
  wq_sd :: shutdown_pc
  wq_submitted :: "('f \<times> 'd) list"
  wq_begun :: "('f \<times> 'd) list"
  wq_finished :: "('f \<times> 'd) multiset"
  wq_discarded :: "('f \<times> 'd) list"

section \<open>The list macros\<close>

definition LL_ADD :: "addr option \<Rightarrow> (addr \<rightharpoonup> 'n ll_scheme) \<times> addr option \<Rightarrow> ((addr \<rightharpoonup> 'n ll_scheme) \<times> addr option) outcome" where
  "LL_ADD item = (\<lambda>(h, list).
     and_then (write_node h item (ll_prev_update (\<lambda>_. None))) (\<lambda>h1.
     and_then (write_node h1 item (ll_next_update (\<lambda>_. list))) (\<lambda>h2.
     Ret (h2, item))))"

definition LL_REMOVE :: "addr option \<Rightarrow> (addr \<rightharpoonup> 'n ll_scheme) \<times> addr option \<Rightarrow> ((addr \<rightharpoonup> 'n ll_scheme) \<times> addr option) outcome" where
  "LL_REMOVE item = (\<lambda>(h, list).
     and_then (read_node h item) (\<lambda>n.
     and_then (if ll_prev n \<noteq> None then write_node h (ll_prev n) (ll_next_update (\<lambda>_. ll_next n)) else Ret h) (\<lambda>h1.
     and_then (read_node h1 item) (\<lambda>n1.
     and_then (if ll_next n1 \<noteq> None then write_node h1 (ll_next n1) (ll_prev_update (\<lambda>_. ll_prev n1)) else Ret h1) (\<lambda>h2.
     and_then (read_node h2 item) (\<lambda>n2.
     let list' = (if list = item then ll_next n2 else list) in
     and_then (write_node h2 item (\<lambda>n. n\<lparr>ll_prev := None, ll_next := None\<rparr>)) (\<lambda>h3.
     Ret (h3, list'))))))))"

section \<open>Initialisation\<close>

definition blank_worker :: worker_t where
  "blank_worker = \<lparr>ll_prev = None, ll_next = None, terminate = 0\<rparr>"

definition blank_sys :: "('f, 'd) wq_sys" where
  "blank_sys = \<lparr>wq = \<lparr>workers = None, waiting_jobs = None, jobs_mutex = M_free\<rparr>,
     wq_blocks = Map.empty, wq_jobs = Map.empty, wq_pcs = [], wq_sd = S_idle,
     wq_submitted = [], wq_begun = [], wq_finished = {#}, wq_discarded = []\<rparr>"

text \<open>
  One round of the loop per worker: \<open>mem i\<close> says whether the \<open>i\<close>-th \<open>malloc\<close> succeeds (the block of
  worker \<open>i\<close> is at address \<open>i\<close>), \<open>rc i\<close> is what the \<open>i\<close>-th \<open>pthread_create\<close> returns.
\<close>

fun init_loop :: "(nat \<Rightarrow> bool) \<Rightarrow> (nat \<Rightarrow> int) \<Rightarrow> nat \<Rightarrow> nat \<Rightarrow> ('f, 'd) wq_sys \<Rightarrow> (int \<times> ('f, 'd) wq_sys) outcome" where
  "init_loop mem rc i 0 s = Ret (0, s)"
| "init_loop mem rc i (Suc k) s =
     (if \<not> mem i then Ret (1, s)
      else let h = (wq_blocks s)(i \<mapsto> blank_worker) in
        if rc i \<noteq> 0 then and_then (free_node h (Some i)) (\<lambda>h'. Ret (1, s\<lparr>wq_blocks := h'\<rparr>))
        else and_then (LL_ADD (Some i) (h, workers (wq s))) (\<lambda>(h', l).
          init_loop mem rc (Suc i) k
            (s\<lparr>wq := (wq s)\<lparr>workers := l\<rparr>, wq_blocks := h', wq_pcs := wq_pcs s @ [W_lock]\<rparr>)))"

definition workqueue_init :: "(nat \<Rightarrow> bool) \<Rightarrow> (nat \<Rightarrow> int) \<Rightarrow> int \<Rightarrow> (int \<times> ('f, 'd) wq_sys) outcome" where
  "workqueue_init mem rc numWorkers =
     init_loop mem rc 0 (nat (if numWorkers < 1 then 1 else numWorkers)) blank_sys"

section \<open>Workers\<close>

definition wq_goto :: "nat \<Rightarrow> wq_pc \<Rightarrow> ('f, 'd) wq_sys \<Rightarrow> ('f, 'd) wq_sys" where
  "wq_goto w pc s = s\<lparr>wq_pcs := (wq_pcs s)[w := pc]\<rparr>"

definition set_mutex :: "mutex \<Rightarrow> ('f, 'd) wq_sys \<Rightarrow> ('f, 'd) wq_sys" where
  "set_mutex m s = s\<lparr>wq := (wq s)\<lparr>jobs_mutex := m\<rparr>\<rparr>"

definition job_task :: "(addr \<rightharpoonup> ('f, 'd) job_t) \<Rightarrow> addr \<Rightarrow> 'f \<times> 'd" where
  "job_task h a = (job_function (the (h a)), user_data (the (h a)))"

text \<open>
  The worker holds the mutex: the inner loop and the two tests of \<open>terminate\<close>, then the job at the
  head of the list is taken. \<open>pthread_cond_wait\<close> gives the mutex back.
\<close>

definition worker_locked :: "nat \<Rightarrow> ('f, 'd) wq_sys \<Rightarrow> ('f, 'd) wq_sys outcome" where
  "worker_locked w s =
     and_then (read_node (wq_blocks s) (Some w)) (\<lambda>b.
       if waiting_jobs (wq s) = None \<and> terminate b = 0 then
         and_then (pthread_mutex_unlock (Worker w) 0 (jobs_mutex (wq s))) (\<lambda>(_, m).
           Ret (wq_goto w W_wait (set_mutex m s)))
       else if terminate b \<noteq> 0 then Ret (wq_goto w W_brk s)
       else let job = waiting_jobs (wq s) in
         and_then (if job \<noteq> None then LL_REMOVE job (wq_jobs s, waiting_jobs (wq s))
                   else Ret (wq_jobs s, waiting_jobs (wq s))) (\<lambda>(h, l).
           Ret (wq_goto w (W_got job) (s\<lparr>wq := (wq s)\<lparr>waiting_jobs := l\<rparr>, wq_jobs := h,
              wq_begun := wq_begun s @ (case job of None \<Rightarrow> [] | Some a \<Rightarrow> [job_task h a])\<rparr>))))"

fun worker_function :: "nat \<Rightarrow> wq_pc \<Rightarrow> ('f, 'd) wq_sys \<Rightarrow> ('f, 'd) wq_sys outcome" where
  "worker_function w W_lock s =
     and_then (pthread_mutex_lock (Worker w) 0 (jobs_mutex (wq s))) (\<lambda>(_, m). worker_locked w (set_mutex m s))"
| "worker_function w W_woken s =
     and_then (pthread_mutex_lock (Worker w) 0 (jobs_mutex (wq s))) (\<lambda>(_, m). worker_locked w (set_mutex m s))"
| "worker_function w W_wait s = Blocked"
| "worker_function w (W_got job) s =
     and_then (pthread_mutex_unlock (Worker w) 0 (jobs_mutex (wq s))) (\<lambda>(_, m).
       Ret (wq_goto w (case job of None \<Rightarrow> W_lock | Some a \<Rightarrow> W_run a) (set_mutex m s)))"
| "worker_function w (W_run a) s =
     and_then (read_node (wq_jobs s) (Some a)) (\<lambda>j. Ret (wq_goto w (W_exec a) s))"
| "worker_function w (W_exec a) s = Blocked"
| "worker_function w W_brk s =
     and_then (free_node (wq_blocks s) (Some w)) (\<lambda>h. Ret (wq_goto w W_exited (s\<lparr>wq_blocks := h\<rparr>)))"
| "worker_function w W_exited s = Blocked"

text \<open>The job function returns; it may have freed its job, as the one of the echo server does.\<close>

definition job_returns :: "nat \<Rightarrow> bool \<Rightarrow> addr \<Rightarrow> ('f, 'd) wq_sys \<Rightarrow> ('f, 'd) wq_sys outcome" where
  "job_returns w frees a s =
     and_then (if frees then free_node (wq_jobs s) (Some a) else Ret (wq_jobs s)) (\<lambda>h.
       Ret (wq_goto w W_lock (s\<lparr>wq_jobs := h, wq_finished := add_mset (job_task (wq_jobs s) a) (wq_finished s)\<rparr>)))"

section \<open>Callers\<close>

text \<open>
  A caller allocates a job, fills it in and adds it; the critical section is one step, which waits
  when the mutex is taken. \<open>ch\<close> is the worker the signal wakes.
\<close>

definition workqueue_add_job :: "tid \<Rightarrow> addr \<Rightarrow> nat option \<Rightarrow> ('f, 'd) wq_sys \<Rightarrow> ('f, 'd) wq_sys outcome" where
  "workqueue_add_job c a ch s =
     and_then (pthread_mutex_lock c 0 (jobs_mutex (wq s))) (\<lambda>(_, m).
     and_then (LL_ADD (Some a) (wq_jobs s, waiting_jobs (wq s))) (\<lambda>(h, l).
     if \<not> cond_signal_ok W_wait ch (wq_pcs s) then Blocked else
     and_then (pthread_mutex_unlock c 0 m) (\<lambda>(_, m').
     Ret (s\<lparr>wq := (wq s)\<lparr>waiting_jobs := l, jobs_mutex := m'\<rparr>, wq_jobs := h,
            wq_pcs := cond_signal W_woken ch (wq_pcs s),
            wq_submitted := wq_submitted s @ [job_task h a]\<rparr>))))"

definition alloc_job :: "addr \<Rightarrow> 'f \<Rightarrow> 'd \<Rightarrow> ('f, 'd) wq_sys \<Rightarrow> ('f, 'd) wq_sys" where
  "alloc_job a f d s =
     s\<lparr>wq_jobs := (wq_jobs s)(a \<mapsto> \<lparr>ll_prev = None, ll_next = None, job_function = f, user_data = d\<rparr>)\<rparr>"

definition list_jobs :: "('f, 'd) wq_sys \<Rightarrow> addr list" where
  "list_jobs s = chain ll_next (wq_jobs s) (length (wq_submitted s)) (waiting_jobs (wq s))"

text \<open>
  \<open>workqueue_shutdown\<close>: the walk over the workers (test of the pointer and write of \<open>terminate\<close>, then
  the step to \<open>next\<close>), then the critical section.
\<close>

fun shutdown_step :: "shutdown_pc \<Rightarrow> ('f, 'd) wq_sys \<Rightarrow> ('f, 'd) wq_sys outcome" where
  "shutdown_step S_idle s = Ret (s\<lparr>wq_sd := S_test (workers (wq s))\<rparr>)"
| "shutdown_step (S_test p) s =
     (if p = None then Ret (s\<lparr>wq_sd := S_lock\<rparr>)
      else and_then (write_node (wq_blocks s) p (terminate_update (\<lambda>_. 1))) (\<lambda>h.
        Ret (s\<lparr>wq_blocks := h, wq_sd := S_next p\<rparr>)))"
| "shutdown_step (S_next p) s =
     and_then (read_node (wq_blocks s) p) (\<lambda>b. Ret (s\<lparr>wq_sd := S_test (ll_next b)\<rparr>))"
| "shutdown_step S_lock s =
     and_then (pthread_mutex_lock (Client 0) 0 (jobs_mutex (wq s))) (\<lambda>(_, m).
     and_then (pthread_mutex_unlock (Client 0) 0 m) (\<lambda>(_, m').
     Ret (s\<lparr>wq := \<lparr>workers = None, waiting_jobs = None, jobs_mutex = m'\<rparr>,
            wq_pcs := cond_broadcast W_wait W_woken (wq_pcs s), wq_sd := S_idle,
            wq_discarded := wq_discarded s @ map (job_task (wq_jobs s)) (list_jobs s)\<rparr>)))"

section \<open>The whole system\<close>

datatype ('f, 'd) wq_label =
    Wq_worker nat
  | Wq_returns nat bool
  | Wq_spurious nat
  | Wq_add addr 'f 'd "nat option"
  | Wq_shutdown

fun wq_step :: "('f, 'd) wq_label \<Rightarrow> ('f, 'd) wq_sys \<Rightarrow> ('f, 'd) wq_sys outcome" where
  "wq_step (Wq_worker w) s =
     (if w < length (wq_pcs s) then worker_function w (wq_pcs s ! w) s else Blocked)"
| "wq_step (Wq_returns w frees) s =
     (if w < length (wq_pcs s)
      then (case wq_pcs s ! w of W_exec a \<Rightarrow> job_returns w frees a s | _ \<Rightarrow> Blocked) else Blocked)"
| "wq_step (Wq_spurious w) s =
     (if w < length (wq_pcs s) \<and> wq_pcs s ! w = W_wait then Ret (wq_goto w W_woken s) else Blocked)"
| "wq_step (Wq_add a f d ch) s =
     (if wq_jobs s a = None then workqueue_add_job (Client 0) a ch (alloc_job a f d s) else Blocked)"
| "wq_step Wq_shutdown s = shutdown_step (wq_sd s) s"

definition wq_init :: "('f, 'd) wq_sys \<Rightarrow> bool" where
  "wq_init s \<longleftrightarrow> (\<exists>mem rc n r. workqueue_init mem rc n = Ret (r, s))"


section \<open>The list macros on a stack\<close>

text \<open>
  \<open>LL_ADD\<close> never sets the back link of the old head, so all back links of the list stay null and the
  list is a stack. \<open>job_stack\<close> is the invariant of the list of waiting jobs.
\<close>

definition job_stack :: "(addr \<rightharpoonup> 'n ll_scheme) \<Rightarrow> addr option \<Rightarrow> addr list \<Rightarrow> bool" where
  "job_stack h p xs \<longleftrightarrow> list_at ll_next h p xs \<and> (\<forall>x\<in>set xs. ll_prev (the (h x)) = None)"

lemma LL_ADD_eq:
  "h a = Some n \<Longrightarrow> LL_ADD (Some a) (h, l) = Ret (h(a \<mapsto> n\<lparr>ll_prev := None, ll_next := l\<rparr>), Some a)"
  by (simp add: LL_ADD_def)

lemma job_stack_empty [simp]: "job_stack h None xs \<longleftrightarrow> xs = []"
  by (auto simp: job_stack_def)

lemma job_stack_add:
  assumes "job_stack h l xs" "a \<notin> set xs" "h a = Some n"
  shows "job_stack (h(a \<mapsto> n\<lparr>ll_prev := None, ll_next := l\<rparr>)) (Some a) (a # xs)"
  using assms by (auto simp: job_stack_def)

lemma job_stack_frame:
  "job_stack h l xs \<Longrightarrow> a \<notin> set xs \<Longrightarrow> job_stack (h(a := v)) l xs"
  by (auto simp: job_stack_def)

lemma job_stack_facts:
  assumes "job_stack h l xs"
  shows "distinct xs" "set xs \<subseteq> dom h"
  using assms list_at_distinct list_at_allocated unfolding job_stack_def by blast+

lemma job_stack_head:
  assumes "job_stack h (Some a) xs"
  obtains n ys where "xs = a # ys" "h a = Some n" "ll_prev n = None" "job_stack h (ll_next n) ys"
  using assms by (auto simp: job_stack_def list_at_Some)

lemma ll_prev_same: "ll_prev n = None \<Longrightarrow> n\<lparr>ll_prev := None\<rparr> = n"
  by (cases n) simp

lemma LL_REMOVE_head:
  assumes "job_stack h (Some a) xs" "h a = Some n"
  shows "LL_REMOVE (Some a) (h, Some a) = Ret (h(a \<mapsto> n\<lparr>ll_prev := None, ll_next := None\<rparr>), ll_next n)"
proof -
  from assms obtain ys where ys: "xs = a # ys" "ll_prev n = None" "job_stack h (ll_next n) ys"
    by (auto elim: job_stack_head)
  have d: "a \<notin> set ys" using job_stack_facts(1) [OF assms(1)] ys(1) by simp
  show ?thesis
  proof (cases "ll_next n")
    case None
    with ys assms(2) show ?thesis by (simp add: LL_REMOVE_def)
  next
    case (Some b)
    with ys(3) obtain m zs where m: "ys = b # zs" "h b = Some m" "ll_prev m = None" by (auto elim: job_stack_head)
    with d have "h(b \<mapsto> m\<lparr>ll_prev := None\<rparr>) = h" "a \<noteq> b" by (auto simp: ll_prev_same fun_upd_idem)
    with Some m ys assms(2) show ?thesis by (simp add: LL_REMOVE_def fun_upd_idem)
  qed
qed

lemma job_stack_unique: "job_stack h l xs \<Longrightarrow> job_stack h l ys \<Longrightarrow> xs = ys"
  by (auto simp: job_stack_def intro: list_at_unique)

lemma list_at_chain_le: "list_at nxt h p xs \<Longrightarrow> length xs \<le> k \<Longrightarrow> chain nxt h k p = xs"
proof (induction k arbitrary: p xs)
  case 0
  then show ?case by simp
next
  case (Suc k)
  then show ?case by (cases xs) (auto split: option.splits)
qed

section \<open>Initial states\<close>

text \<open>The state after \<open>k\<close> rounds of \<open>workqueue_init\<close> without an error.\<close>

definition started :: "nat \<Rightarrow> ('f, 'd) wq_sys" where
  "started k = blank_sys\<lparr>
     wq := \<lparr>workers = (if k = 0 then None else Some (k - 1)), waiting_jobs = None, jobs_mutex = M_free\<rparr>,
     wq_blocks := (\<lambda>i. if i < k then Some \<lparr>ll_prev = None, ll_next = (if i = 0 then None else Some (i - 1)), terminate = 0\<rparr> else None),
     wq_pcs := replicate k W_lock\<rparr>"

lemma started_0: "started 0 = blank_sys"
  by (simp add: started_def blank_sys_def)

lemma started_Suc:
  "(started k)\<lparr>wq := (wq (started k))\<lparr>workers := Some k\<rparr>,
     wq_blocks := (wq_blocks (started k))(k \<mapsto> blank_worker\<lparr>ll_prev := None, ll_next := workers (wq (started k))\<rparr>),
     wq_pcs := wq_pcs (started k) @ [W_lock]\<rparr> = started (Suc k)"
  by (auto simp: started_def blank_sys_def blank_worker_def fun_eq_iff less_Suc_eq replicate_append_same)

lemma started_free: "(started k)\<lparr>wq_blocks := (wq_blocks (started k))(k := None)\<rparr> = started k"
  by (auto simp: started_def blank_sys_def fun_eq_iff)

lemma init_loop_started:
  "init_loop mem rc i n (started i) =
     (case find (\<lambda>j. \<not> mem j \<or> rc j \<noteq> 0) [i..<i + n] of
        None \<Rightarrow> Ret (0, started (i + n)) | Some j \<Rightarrow> Ret (1, started j))"
proof (induction n arbitrary: i)
  case 0
  show ?case by simp
next
  case (Suc n)
  have up: "[i..<i + Suc n] = i # [Suc i..<Suc i + n]" using upt_conv_Cons by simp
  show ?case
    using Suc.IH [of "Suc i"] unfolding up by (simp add: LL_ADD_eq Let_def started_free started_Suc del: upt_Suc cong: option.case_cong)
qed

lemma wq_init_started: "wq_init s \<Longrightarrow> \<exists>k. s = started k"
  unfolding wq_init_def workqueue_init_def started_0 [symmetric]
  by (auto simp: init_loop_started split: option.splits)

section \<open>Invariant\<close>

fun wpc_owns :: "wq_pc \<Rightarrow> addr multiset" where
  "wpc_owns (W_got (Some a)) = {#a#}"
| "wpc_owns (W_run a) = {#a#}"
| "wpc_owns (W_exec a) = {#a#}"
| "wpc_owns _ = {#}"

fun wpc_holds :: "wq_pc \<Rightarrow> bool" where
  "wpc_holds (W_got j) = True"
| "wpc_holds W_brk = True"
| "wpc_holds W_exited = True"
| "wpc_holds _ = False"

definition wq_inv :: "('f, 'd) wq_sys \<Rightarrow> bool" where
  "wq_inv s \<longleftrightarrow>
     lock_ok wpc_holds (wq_pcs s) (jobs_mutex (wq s)) \<and>
     job_stack (wq_jobs s) (waiting_jobs (wq s)) (list_jobs s) \<and>
     length (list_jobs s) \<le> length (wq_submitted s) \<and>
     owned_blocks wpc_owns (wq_jobs s) (list_jobs s) (wq_pcs s) \<and>
     (\<forall>w<length (wq_pcs s). w \<in> dom (wq_blocks s) \<longleftrightarrow> wq_pcs s ! w \<noteq> W_exited) \<and>
     W_got None \<notin> set (wq_pcs s)"

lemma list_jobs_eq:
  assumes "job_stack (wq_jobs s) (waiting_jobs (wq s)) xs" "length xs \<le> length (wq_submitted s)"
  shows "list_jobs s = xs"
  using assms list_at_chain_le by (auto simp: job_stack_def list_jobs_def)


lemma wq_inv_parts:
  assumes "wq_inv s"
  shows "lock_ok wpc_holds (wq_pcs s) (jobs_mutex (wq s))"
    "job_stack (wq_jobs s) (waiting_jobs (wq s)) (list_jobs s)"
    "length (list_jobs s) \<le> length (wq_submitted s)"
    "owned_blocks wpc_owns (wq_jobs s) (list_jobs s) (wq_pcs s)"
    "\<And>w. w < length (wq_pcs s) \<Longrightarrow> w \<in> dom (wq_blocks s) \<longleftrightarrow> wq_pcs s ! w \<noteq> W_exited"
    "W_got None \<notin> set (wq_pcs s)"
  using assms by (auto simp: wq_inv_def)

section \<open>The steps, case by case\<close>

lemma set_mutex_simps [simp]:
  "wq_pcs (set_mutex m s) = wq_pcs s" "wq_blocks (set_mutex m s) = wq_blocks s" "wq_jobs (set_mutex m s) = wq_jobs s"
  "wq_submitted (set_mutex m s) = wq_submitted s" "wq_begun (set_mutex m s) = wq_begun s"
  "wq_finished (set_mutex m s) = wq_finished s" "wq_discarded (set_mutex m s) = wq_discarded s"
  "wq_sd (set_mutex m s) = wq_sd s" "jobs_mutex (wq (set_mutex m s)) = m"
  "waiting_jobs (wq (set_mutex m s)) = waiting_jobs (wq s)" "workers (wq (set_mutex m s)) = workers (wq s)"
  "list_jobs (set_mutex m s) = list_jobs s"
  by (simp_all add: set_mutex_def list_jobs_def)

lemma wq_goto_simps [simp]:
  "wq_pcs (wq_goto w pc s) = (wq_pcs s)[w := pc]" "wq_blocks (wq_goto w pc s) = wq_blocks s" "wq_jobs (wq_goto w pc s) = wq_jobs s"
  "wq_submitted (wq_goto w pc s) = wq_submitted s" "wq_begun (wq_goto w pc s) = wq_begun s"
  "wq_finished (wq_goto w pc s) = wq_finished s" "wq_discarded (wq_goto w pc s) = wq_discarded s"
  "wq_sd (wq_goto w pc s) = wq_sd s" "wq (wq_goto w pc s) = wq s" "list_jobs (wq_goto w pc s) = list_jobs s"
  by (simp_all add: wq_goto_def list_jobs_def)

lemma set_mutex_back: "m = jobs_mutex (wq s) \<Longrightarrow> set_mutex m (set_mutex m' s) = s"
  by (simp add: set_mutex_def)

lemma set_mutex_same: "jobs_mutex (wq s) = m \<Longrightarrow> set_mutex m s = s"
  by (cases s, cases "wq s") (auto simp: set_mutex_def)

definition at_lock :: "wq_pc \<Rightarrow> bool" where
  "at_lock pc \<longleftrightarrow> pc = W_lock \<or> pc = W_woken"

lemma at_lock_simps [simp]: "at_lock pc \<Longrightarrow> wpc_owns pc = {#}" "at_lock pc \<Longrightarrow> \<not> wpc_holds pc" "at_lock pc \<Longrightarrow> pc \<noteq> W_exited"
  by (auto simp: at_lock_def)

text \<open>The state in which worker \<open>w\<close> has taken the job at \<open>a\<close>.\<close>

definition taken :: "nat \<Rightarrow> addr \<Rightarrow> ('f, 'd) job_t \<Rightarrow> ('f, 'd) wq_sys \<Rightarrow> ('f, 'd) wq_sys" where
  "taken w a n s = wq_goto w (W_got (Some a)) (s\<lparr>
     wq := (wq s)\<lparr>waiting_jobs := ll_next n, jobs_mutex := M_held (Worker w)\<rparr>,
     wq_jobs := (wq_jobs s)(a \<mapsto> n\<lparr>ll_prev := None, ll_next := None\<rparr>),
     wq_begun := wq_begun s @ [job_task (wq_jobs s) a]\<rparr>)"

lemma worker_locked_eq:
  assumes "wq_inv s" "jobs_mutex (wq s) = M_free" "wq_blocks s w = Some b"
  shows "worker_locked w (set_mutex (M_held (Worker w)) s) =
    (if terminate b \<noteq> 0 then Ret (wq_goto w W_brk (set_mutex (M_held (Worker w)) s))
     else case waiting_jobs (wq s) of None \<Rightarrow> Ret (wq_goto w W_wait s)
        | Some a \<Rightarrow> Ret (taken w a (the (wq_jobs s a)) s))"
proof (cases "waiting_jobs (wq s)")
  case None
  with assms show ?thesis by (simp add: worker_locked_def set_mutex_back)
next
  case (Some a)
  have st: "job_stack (wq_jobs s) (Some a) (list_jobs s)" using wq_inv_parts(2) [OF assms(1)] Some by simp
  then obtain n where n: "wq_jobs s a = Some n" by (auto elim: job_stack_head)
  show ?thesis using Some assms(3) LL_REMOVE_head [OF st n] n
    by (simp add: worker_locked_def taken_def job_task_def set_mutex_def)
qed

lemma worker_function_lock:
  assumes "at_lock pc"
  shows "worker_function w pc s =
    and_then (pthread_mutex_lock (Worker w) 0 (jobs_mutex (wq s))) (\<lambda>(_, m). worker_locked w (set_mutex m s))"
  using assms by (auto simp: at_lock_def)

lemma worker_function_cases:
  assumes "worker_function w (wq_pcs s ! w) s = Ret t" "w < length (wq_pcs s)" "wq_inv s"
  obtains
    (sleeps) b where "at_lock (wq_pcs s ! w)" "jobs_mutex (wq s) = M_free" "wq_blocks s w = Some b" "terminate b = 0"
      "waiting_jobs (wq s) = None" "t = wq_goto w W_wait s"
  | (leaves) b where "at_lock (wq_pcs s ! w)" "jobs_mutex (wq s) = M_free" "wq_blocks s w = Some b" "terminate b \<noteq> 0"
      "t = wq_goto w W_brk (set_mutex (M_held (Worker w)) s)"
  | (takes) b a n xs where "at_lock (wq_pcs s ! w)" "jobs_mutex (wq s) = M_free" "wq_blocks s w = Some b" "terminate b = 0"
      "waiting_jobs (wq s) = Some a" "list_jobs s = a # xs" "wq_jobs s a = Some n"
      "job_stack (wq_jobs s) (ll_next n) xs" "a \<notin> set xs" "t = taken w a n s"
  | (unlocks) a where "wq_pcs s ! w = W_got (Some a)" "jobs_mutex (wq s) = M_held (Worker w)"
      "t = wq_goto w (W_run a) (set_mutex M_free s)"
  | (runs) a where "wq_pcs s ! w = W_run a" "t = wq_goto w (W_exec a) s"
  | (frees) "wq_pcs s ! w = W_brk" "t = wq_goto w W_exited (s\<lparr>wq_blocks := (wq_blocks s)(w := None)\<rparr>)"
proof (cases "at_lock (wq_pcs s ! w)")
  case True
  with assms(2,3) obtain b where b: "wq_blocks s w = Some b" using wq_inv_parts(5) [of s w] by auto
  have m: "jobs_mutex (wq s) = M_free" and
    l: "worker_locked w (set_mutex (M_held (Worker w)) s) = Ret t"
    using assms(1) unfolding worker_function_lock [OF True] by (auto simp: outcome_simps pthread_mutex_lock_Ret0)
  note l = l [unfolded worker_locked_eq [OF assms(3) m b]]
  consider "terminate b \<noteq> 0" | "terminate b = 0" "waiting_jobs (wq s) = None" |
    a where "terminate b = 0" "waiting_jobs (wq s) = Some a" by (cases "waiting_jobs (wq s)") auto
  then show ?thesis
  proof cases
    case 1
    with leaves True m b l show ?thesis by simp
  next
    case 2
    with sleeps True m b l show ?thesis by simp
  next
    case (3 a)
    from wq_inv_parts(2) [OF assms(3)] 3 obtain n xs where n: "list_jobs s = a # xs" "wq_jobs s a = Some n"
        "job_stack (wq_jobs s) (ll_next n) xs" by (metis job_stack_head)
    have "a \<notin> set xs" using job_stack_facts(1) [OF wq_inv_parts(2) [OF assms(3)]] n by simp
    with takes True m b l n 3 show ?thesis by simp
  qed
next
  case False
  have "wq_pcs s ! w \<noteq> W_got None" using assms(2,3) wq_inv_parts(6) nth_mem by metis
  with False assms(1) unlocks runs frees show ?thesis
    by (cases "wq_pcs s ! w") (auto simp: at_lock_def outcome_simps pthread_mutex_unlock_Ret0 free_node_def split: option.splits)
qed

lemma workqueue_add_job_cases:
  assumes "wq_step (Wq_add a f d ch) s = Ret t"
  obtains "wq_jobs s a = None" "jobs_mutex (wq s) = M_free" "cond_signal_ok W_wait ch (wq_pcs s)"
    "t = s\<lparr>wq := (wq s)\<lparr>waiting_jobs := Some a\<rparr>,
       wq_jobs := (wq_jobs s)(a \<mapsto> \<lparr>ll_prev = None, ll_next = waiting_jobs (wq s), job_function = f, user_data = d\<rparr>),
       wq_pcs := cond_signal W_woken ch (wq_pcs s), wq_submitted := wq_submitted s @ [(f, d)]\<rparr>"
proof -
  obtain m where "jobs_mutex (wq s) = m" by simp
  with that assms show ?thesis
    by (auto simp: workqueue_add_job_def alloc_job_def outcome_simps pthread_mutex_lock_Ret0 pthread_mutex_unlock_Ret0
        LL_ADD_eq job_task_def split: if_splits)
qed


section \<open>The invariant is kept\<close>

lemma wq_inv_started: "wq_inv (started k)"
  by (auto simp: wq_inv_def started_def blank_sys_def lock_ok_def owned_blocks_def list_jobs_def sum_list_map_zero split: if_splits)

text \<open>A worker moves on without touching jobs or blocks.\<close>

lemma wq_inv_goto:
  assumes "wq_inv s" "w < length (wq_pcs s)" "wpc_owns pc \<subseteq># wpc_owns (wq_pcs s ! w)" "pc \<noteq> W_got None"
    and "lock_ok wpc_holds ((wq_pcs s)[w := pc]) m" "pc \<noteq> W_exited" "wq_pcs s ! w \<noteq> W_exited"
  shows "wq_inv (wq_goto w pc (set_mutex m s))"
  using assms wq_inv_parts [OF assms(1)] owned_blocks_upd [OF _ assms(2,3)]
  by (auto simp: wq_inv_def nth_list_update dest!: in_set_updateD)

lemma wq_inv_same_mutex:
  "jobs_mutex (wq s) = m \<Longrightarrow> wq_inv (wq_goto w pc (set_mutex m s)) \<longleftrightarrow> wq_inv (wq_goto w pc s)"
  using set_mutex_back [of m s m] by (simp add: set_mutex_same)

lemma taken_list_jobs:
  assumes "wq_inv s" "list_jobs s = a # xs" "job_stack (wq_jobs s) (ll_next n) xs" "a \<notin> set xs"
  shows "list_jobs (taken w a n s) = xs"
proof -
  have "length xs \<le> length (wq_submitted s)" using wq_inv_parts(3) [OF assms(1)] assms(2) by simp
  then show ?thesis using job_stack_frame [OF assms(3,4)] by (intro list_jobs_eq) (auto simp: taken_def)
qed

lemma taken_inv:
  assumes "wq_inv s" "w < length (wq_pcs s)" "at_lock (wq_pcs s ! w)" "jobs_mutex (wq s) = M_free"
    and a: "list_jobs s = a # xs" "wq_jobs s a = Some n" "job_stack (wq_jobs s) (ll_next n) xs" "a \<notin> set xs"
  shows "wq_inv (taken w a n s)"
proof -
  note p = wq_inv_parts [OF assms(1)]
  let ?h = "(wq_jobs s)(a \<mapsto> n\<lparr>ll_prev := None, ll_next := None\<rparr>)"
  have "owned_blocks wpc_owns (wq_jobs s) xs ((wq_pcs s)[w := W_got (Some a)])"
    using p(4) assms(2,3) a(1,2) by (intro owned_blocks_take) auto
  then have "owned_blocks wpc_owns ?h xs ((wq_pcs s)[w := W_got (Some a)])" by (rule owned_blocks_heap) auto
  moreover have "job_stack ?h (ll_next n) xs" using job_stack_frame [OF a(3,4)] .
  moreover have "lock_ok wpc_holds ((wq_pcs s)[w := W_got (Some a)]) (M_held (Worker w))"
    using p(1) assms(2,4) by (intro lock_ok_acquire) auto
  ultimately show ?thesis
    using p(3,5,6) a(1) assms(2,3) unfolding wq_inv_def taken_list_jobs [OF assms(1) a(1,3,4)]
    by (auto simp: taken_def nth_list_update dest!: in_set_updateD)
qed

lemma worker_function_inv:
  assumes "worker_function w (wq_pcs s ! w) s = Ret t" "w < length (wq_pcs s)" "wq_inv s"
  shows "wq_inv t"
proof -
  note p = wq_inv_parts [OF assms(3)]
  note go = wq_inv_goto [OF assms(3,2)]
  note free = p(1) [unfolded lock_ok_def]
  from assms show ?thesis
  proof (cases rule: worker_function_cases)
    case (sleeps b)
    have "wq_inv (wq_goto w W_wait (set_mutex M_free s))"
      using p(1) sleeps(1,2) by (intro go lock_ok_stay) auto
    then show ?thesis using sleeps(2,6) by (simp add: wq_inv_same_mutex)
  next
    case (leaves b)
    have "lock_ok wpc_holds ((wq_pcs s)[w := W_brk]) (M_held (Worker w))"
      using p(1) leaves(2) assms(2) by (intro lock_ok_acquire) auto
    then show ?thesis using leaves(1) unfolding leaves(5) by (intro go) auto
  next
    case (takes b a n xs)
    then show ?thesis using taken_inv [OF assms(3,2)] by simp
  next
    case (unlocks a)
    have "lock_ok wpc_holds ((wq_pcs s)[w := W_run a]) M_free"
      using p(1) unlocks(2) by (intro lock_ok_release) auto
    then show ?thesis using unlocks(1) unfolding unlocks(3) by (intro go) auto
  next
    case (runs a)
    have "wq_inv (wq_goto w (W_exec a) (set_mutex (jobs_mutex (wq s)) s))"
      using p(1) runs(1) by (intro go lock_ok_stay) auto
    then show ?thesis using runs(2) by (simp add: wq_inv_same_mutex)
  next
    case frees
    have "lock_ok wpc_holds ((wq_pcs s)[w := W_exited]) (jobs_mutex (wq s))"
      using p(1) frees(1) by (intro lock_ok_stay) auto
    moreover have "owned_blocks wpc_owns (wq_jobs s) (list_jobs s) ((wq_pcs s)[w := W_exited])"
      using p(4) assms(2) by (intro owned_blocks_upd) auto
    ultimately show ?thesis
      using p(2,3,5,6) assms(2) unfolding frees(2) by (auto simp: wq_inv_def nth_list_update list_jobs_def dest!: in_set_updateD)
  qed
qed

lemma job_returns_cases:
  assumes "wq_step (Wq_returns w frees) s = Ret t" "wq_inv s"
  obtains a where "w < length (wq_pcs s)" "wq_pcs s ! w = W_exec a" "a \<notin> set (list_jobs s)" "a \<in> dom (wq_jobs s)"
    "t = wq_goto w W_lock (s\<lparr>wq_jobs := if frees then (wq_jobs s)(a := None) else wq_jobs s,
       wq_finished := add_mset (job_task (wq_jobs s) a) (wq_finished s)\<rparr>)"
proof -
  from assms(1) obtain a where a: "w < length (wq_pcs s)" "wq_pcs s ! w = W_exec a" "job_returns w frees a s = Ret t"
    by (auto split: if_splits wq_pc.splits)
  have own: "a \<in> dom (wq_jobs s)" "a \<notin> set (list_jobs s)"
    using owned_blocks_owned [OF wq_inv_parts(4) [OF assms(2)] a(1), of a] a(2) by auto
  with a that [OF a(1,2)] show ?thesis by (cases frees) (auto simp: job_returns_def)
qed

lemma job_returns_list_jobs:
  assumes "wq_inv s" "a \<notin> set (list_jobs s)"
  shows "job_stack ((wq_jobs s)(a := v)) (waiting_jobs (wq s)) (list_jobs s)"
    "chain ll_next ((wq_jobs s)(a := v)) (length (wq_submitted s)) (waiting_jobs (wq s)) = list_jobs s"
proof -
  show st: "job_stack ((wq_jobs s)(a := v)) (waiting_jobs (wq s)) (list_jobs s)"
    using job_stack_frame [OF wq_inv_parts(2) [OF assms(1)] assms(2)] .
  then show "chain ll_next ((wq_jobs s)(a := v)) (length (wq_submitted s)) (waiting_jobs (wq s)) = list_jobs s"
    using wq_inv_parts(3) [OF assms(1)] unfolding job_stack_def by (intro list_at_chain_le) auto
qed

lemma job_returns_inv:
  assumes "wq_step (Wq_returns w frees) s = Ret t" "wq_inv s"
  shows "wq_inv t"
  using assms
proof (cases rule: job_returns_cases)
  case (1 a)
  note p = wq_inv_parts [OF assms(2)]
  let ?pcs = "(wq_pcs s)[w := W_lock]"
  have "lock_ok wpc_holds ?pcs (jobs_mutex (wq s))" using p(1) 1(2) by (intro lock_ok_stay) auto
  moreover have "owned_blocks wpc_owns (wq_jobs s) (list_jobs s) ?pcs" using p(4) 1(1) by (intro owned_blocks_upd) auto
  moreover have "owned_blocks wpc_owns ((wq_jobs s)(a := None)) (list_jobs s) ?pcs"
    using p(4) 1(1,2) by (intro owned_blocks_free) auto
  moreover have "list_jobs t = list_jobs s" using job_returns_list_jobs [OF assms(2) 1(3), of None] 1(5)
    by (auto simp: list_jobs_def)
  ultimately show ?thesis using p(2,3,5,6) 1(1,2) job_returns_list_jobs(1) [OF assms(2) 1(3)] unfolding wq_inv_def
    by (auto simp: 1(5) nth_list_update dest!: in_set_updateD)
qed


lemma add_list_jobs:
  assumes "wq_step (Wq_add a f d ch) s = Ret t" "wq_inv s"
  shows "list_jobs t = a # list_jobs s \<and> job_stack (wq_jobs t) (waiting_jobs (wq t)) (list_jobs t) \<and>
    a \<notin> dom (wq_jobs s) \<and> a \<notin> set (list_jobs s)"
  using assms(1)
proof (cases rule: workqueue_add_job_cases)
  case 1
  note p = wq_inv_parts [OF assms(2)]
  from 1(1) have d: "a \<notin> dom (wq_jobs s)" by auto
  then have a: "a \<notin> set (list_jobs s)" using job_stack_facts(2) [OF p(2)] by blast
  have st: "job_stack (wq_jobs t) (Some a) (a # list_jobs s)"
    using p(2) a unfolding 1(4) by (auto simp: job_stack_def)
  then have "list_jobs t = a # list_jobs s" using p(3) by (intro list_jobs_eq) (simp_all add: 1(4))
  with d a st show ?thesis by (simp add: 1(4))
qed

lemma add_job_inv:
  assumes "wq_step (Wq_add a f d ch) s = Ret t" "wq_inv s"
  shows "wq_inv t"
  using assms(1)
proof (cases rule: workqueue_add_job_cases)
  case 1
  note p = wq_inv_parts [OF assms(2)]
  have l: "list_jobs t = a # list_jobs s" "job_stack (wq_jobs t) (waiting_jobs (wq t)) (list_jobs t)" "a \<notin> dom (wq_jobs s)"
    using add_list_jobs [OF assms] by blast+
  have "owned_blocks wpc_owns (wq_jobs t) (list_jobs t) (wq_pcs s)"
    using owned_blocks_add [OF p(4) l(3) job_stack_facts(2) [OF p(2)]] unfolding l(1) by (simp add: 1(4))
  then have "owned_blocks wpc_owns (wq_jobs t) (list_jobs t) (wq_pcs t)"
    using owned_blocks_pcs [of wpc_owns "wq_pcs t" "wq_pcs s" "wq_jobs t" "list_jobs t"] sum_list_cond_signal [OF 1(3), of wpc_owns W_woken]
    by (simp add: 1(4))
  moreover have "lock_ok wpc_holds (wq_pcs t) (jobs_mutex (wq t))"
    using lock_ok_signal [OF p(1) 1(3)] by (simp add: 1(4))
  moreover have "w \<in> dom (wq_blocks t) \<longleftrightarrow> wq_pcs t ! w \<noteq> W_exited" if "w < length (wq_pcs t)" for w
    using p(5) [of w] that nth_cond_signal(1) [OF 1(3), of w W_woken] nth_cond_signal(2) [OF 1(3), of w] by (auto simp: 1(4))
  moreover have "W_got None \<notin> set (wq_pcs t)"
    using p(6) by (auto simp: 1(4) cond_signal_def split: option.splits dest!: in_set_updateD)
  moreover have "length (list_jobs t) \<le> length (wq_submitted t)" using p(3) by (simp add: l(1)) (simp add: 1(4))
  ultimately show ?thesis using l(2) by (auto simp: wq_inv_def)
qed

lemma close_inv:
  assumes "shutdown_step S_lock s = Ret t" "wq_inv s"
  shows "wq_inv t"
proof -
  note p = wq_inv_parts [OF assms(2)]
  from assms(1) have t: "jobs_mutex (wq s) = M_free" "t = s\<lparr>wq := \<lparr>workers = None, waiting_jobs = None, jobs_mutex = M_free\<rparr>,
      wq_pcs := cond_broadcast W_wait W_woken (wq_pcs s), wq_sd := S_idle,
      wq_discarded := wq_discarded s @ map (job_task (wq_jobs s)) (list_jobs s)\<rparr>"
    by (auto simp: outcome_simps pthread_mutex_lock_Ret0 pthread_mutex_unlock_Ret0)
  have l: "list_jobs t = []" by (intro list_jobs_eq) (simp_all add: t(2))
  have "owned_blocks wpc_owns (wq_jobs t) [] (wq_pcs t)"
    using owned_blocks_drop [OF p(4)] owned_blocks_pcs [OF sum_list_cond_broadcast [of wpc_owns W_woken W_wait "wq_pcs s"], of "wq_jobs s" "[]"]
    by (simp add: t(2))
  moreover have "lock_ok wpc_holds (wq_pcs t) (jobs_mutex (wq t))"
    using lock_ok_broadcast [OF p(1)] t(1) by (simp add: t(2))
  moreover have "w \<in> dom (wq_blocks t) \<longleftrightarrow> wq_pcs t ! w \<noteq> W_exited" if "w < length (wq_pcs t)" for w
    using p(5) [of w] that by (auto simp: t(2) nth_cond_broadcast)
  moreover have "W_got None \<notin> set (wq_pcs t)" using p(6) by (auto simp: t(2) cond_broadcast_def)
  ultimately show ?thesis unfolding wq_inv_def l by (simp add: t(2))
qed

lemma shutdown_inv:
  assumes "wq_step Wq_shutdown s = Ret t" "wq_inv s"
  shows "wq_inv t"
proof (cases "wq_sd s")
  case S_lock
  with assms close_inv show ?thesis by simp
next
  case S_idle
  with assms show ?thesis by (auto simp: wq_inv_def list_jobs_def)
next
  case (S_next p)
  with assms show ?thesis by (auto simp: wq_inv_def list_jobs_def outcome_simps)
next
  case (S_test p)
  with assms show ?thesis
    by (auto simp: wq_inv_def list_jobs_def write_node_def split: if_splits option.splits)
qed

lemma wq_inv_step:
  assumes "wq_inv s" "wq_step l s = Ret t"
  shows "wq_inv t"
proof (cases l)
  case (Wq_worker w)
  with assms worker_function_inv show ?thesis by (auto split: if_splits)
next
  case (Wq_spurious w)
  with assms have w: "w < length (wq_pcs s)" "wq_pcs s ! w = W_wait" "t = wq_goto w W_woken s" by (auto split: if_splits)
  have "wq_inv (wq_goto w W_woken (set_mutex (jobs_mutex (wq s)) s))"
    using w wq_inv_parts(1) [OF assms(1)] by (intro wq_inv_goto [OF assms(1)] lock_ok_stay) auto
  with w show ?thesis by (simp add: set_mutex_same)
next
  case (Wq_returns w fr)
  with assms job_returns_inv show ?thesis by blast
next
  case (Wq_add a f d ch)
  show ?thesis using add_job_inv [OF assms(2) [unfolded Wq_add] assms(1)] .
next
  case Wq_shutdown
  with assms shutdown_inv show ?thesis by blast
qed

interpretation wqi: invariant_system wq_step wq_init wq_inv
proof (unfold_locales, goal_cases)
  case (1 s)
  then show ?case using wq_init_started wq_inv_started by metis
next
  case (2 s l t)
  then show ?case by (rule wq_inv_step)
qed

end
