(* ===== verification/Sockets.thy ===== *)
theory Sockets
  imports Study_Prelude "HOL-Library.Word"
begin

text \<open>
  The part of the socket interface the servers of the repository use: the table of open descriptors with
  their status flags. Every call takes the result the kernel gives as an argument. A \<open>close\<close> of a number
  that is not an open descriptor is counted in \<open>stray_closes\<close>: in a program with threads it may hit the
  descriptor of somebody else.

  \<open>setnonblock\<close> is the function of the echo server; \<open>int_of_size\<close> is the conversion of a \<open>size_t\<close> to
  \<open>int\<close> by assignment, which keeps the low 32 bits (implementation-defined, as all compilers do it).
\<close>

unbundle bit_operations_syntax

record os =
  fds :: "int \<rightharpoonup> int"
  stray_closes :: nat

definition O_RDWR :: int where "O_RDWR = 2"
definition O_NONBLOCK :: int where "O_NONBLOCK = 2048"

text \<open>\<open>socket\<close> and \<open>accept\<close> return a descriptor that was not open, or a negative number.\<close>

definition sys_open :: "int \<Rightarrow> os \<Rightarrow> os" where
  "sys_open r s = (if r < 0 then s else s\<lparr>fds := (fds s)(r \<mapsto> O_RDWR)\<rparr>)"

definition sys_close :: "int \<Rightarrow> os \<Rightarrow> os" where
  "sys_close fd s =
     (if fd \<in> dom (fds s) then s\<lparr>fds := (fds s)(fd := None)\<rparr> else s\<lparr>stray_closes := Suc (stray_closes s)\<rparr>)"

definition fcntl_getfl :: "int \<Rightarrow> int \<Rightarrow> os \<Rightarrow> int" where
  "fcntl_getfl rc fd s = (case fds s fd of None \<Rightarrow> - 1 | Some fl \<Rightarrow> if rc < 0 then - 1 else fl)"

definition fcntl_setfl :: "int \<Rightarrow> int \<Rightarrow> int \<Rightarrow> os \<Rightarrow> int \<times> os" where
  "fcntl_setfl rc fd fl s =
     (case fds s fd of
        None \<Rightarrow> (- 1, s)
      | Some _ \<Rightarrow> if rc < 0 then (- 1, s) else (0, s\<lparr>fds := (fds s)(fd \<mapsto> fl)\<rparr>))"

definition setnonblock :: "int \<Rightarrow> int \<Rightarrow> int \<Rightarrow> os \<Rightarrow> int \<times> os" where
  "setnonblock getfl setfl fd s =
     (let flags = fcntl_getfl getfl fd s in
      if flags < 0 then (flags, s)
      else let flags = flags OR O_NONBLOCK in
        (case fcntl_setfl setfl fd flags s of (r, s') \<Rightarrow> if r < 0 then (- 1, s') else (0, s')))"

section \<open>Lemmas\<close>

lemma sys_open_close [simp]:
  "0 \<le> fd \<Longrightarrow> fd \<notin> dom (fds s) \<Longrightarrow> sys_close fd (sys_open fd s) = s"
  by (cases s) (auto simp: sys_open_def sys_close_def fun_upd_idem)

lemma setnonblock_fds:
  "setnonblock g h fd s = (r, s') \<Longrightarrow>
     \<exists>fl. (s' = s \<or> s' = s\<lparr>fds := (fds s)(fd \<mapsto> fl)\<rparr> \<and> fd \<in> dom (fds s))"
  by (auto simp: setnonblock_def fcntl_setfl_def Let_def split: if_splits option.splits)

lemma setnonblock_dom: "setnonblock g h fd s = (r, s') \<Longrightarrow> dom (fds s') = dom (fds s) \<and> stray_closes s' = stray_closes s"
  by (drule setnonblock_fds) (auto split: if_splits)

lemma setnonblock_sets:
  assumes "setnonblock g h fd s = (r, s')" "0 \<le> r"
  shows "\<exists>fl. fds s' fd = Some fl \<and> fl AND O_NONBLOCK = O_NONBLOCK"
proof -
  have "(fl OR O_NONBLOCK) AND O_NONBLOCK = O_NONBLOCK" for fl :: int by (rule bit_eqI) (auto simp: bit_simps)
  then show ?thesis using assms
    by (auto simp: setnonblock_def fcntl_setfl_def Let_def split: if_splits option.splits)
qed

lemma sys_close_dom: "fd \<in> dom (fds s) \<Longrightarrow> dom (fds (sys_close fd s)) = dom (fds s) - {fd} \<and> stray_closes (sys_close fd s) = stray_closes s"
  by (auto simp: sys_close_def)

lemma sys_open_dom: "0 \<le> fd \<Longrightarrow> dom (fds (sys_open fd s)) = insert fd (dom (fds s)) \<and> stray_closes (sys_open fd s) = stray_closes s"
  by (auto simp: sys_open_def)

section \<open>Strings in buffers\<close>

definition NUL :: char where "NUL = CHR 0x00"

text \<open>The string an array of zeros holds after bytes were written to its front.\<close>

definition c_text :: "string \<Rightarrow> string" where
  "c_text bs = takeWhile (\<lambda>c. c \<noteq> NUL) bs"

lemma c_text_id: "NUL \<notin> set bs \<Longrightarrow> c_text bs = bs"
  by (auto simp: c_text_def takeWhile_eq_all_conv)

section \<open>Sizes read as int\<close>

definition int_of_size :: "nat \<Rightarrow> int" where
  "int_of_size n = sint (word_of_nat n :: 32 word)"

lemma int_of_size_alt: "int_of_size n = signed_take_bit 31 (int n)"
  unfolding int_of_size_def by transfer simp

lemma int_of_size_small: "n < 2147483648 \<Longrightarrow> int_of_size n = int n"
  by (simp add: int_of_size_alt signed_take_bit_int_eq_self)

lemma int_of_size_neg:
  assumes "2147483648 \<le> n" "n < 4294967296"
  shows "int_of_size n = int n - 4294967296"
proof -
  have "(int n + 2147483648) mod 4294967296 = (int n - 2147483648 + 4294967296) mod 4294967296" by (simp add: algebra_simps)
  also have "\<dots> = int n - 2147483648" using assms by (simp only: mod_add_self2) (simp add: mod_pos_pos_trivial)
  finally show ?thesis by (simp add: int_of_size_alt signed_take_bit_eq_take_bit_shift take_bit_eq_mod)
qed

end
