(* ===== verification/Echoserver.thy ===== *)
theory Echoserver
  imports Workqueue Sockets
begin

text \<open>
  The echo server of \<open>src/libevent-thread/echoserver_threaded.c\<close>: one thread accepts connections and hands
  each of them as a job to the work queue; the worker that takes the job runs the event loop of that
  client.

  libevent is not part of the repository. Its functions are the fields of a record that the
  definitions take as an argument; the locale \<open>libevent_laws\<close> states what the server relies on. The event
  loop of a client is modelled as the sequence of callbacks libevent makes until the loop ends.
\<close>

section \<open>libevent\<close>

record 'ev libevent =
  evbuffer_new :: "'ev \<Rightarrow> addr option \<times> 'ev"
  evbuffer_free :: "addr \<Rightarrow> 'ev \<Rightarrow> 'ev"
  event_base_new :: "'ev \<Rightarrow> addr option \<times> 'ev"
  event_base_free :: "addr \<Rightarrow> 'ev \<Rightarrow> 'ev"
  bufferevent_new :: "int \<Rightarrow> addr \<Rightarrow> 'ev \<Rightarrow> addr option \<times> 'ev"
  bufferevent_free :: "addr \<Rightarrow> 'ev \<Rightarrow> 'ev"
  bufferevent_base_set :: "addr \<Rightarrow> addr \<Rightarrow> 'ev \<Rightarrow> 'ev"
  bufferevent_settimeout :: "addr \<Rightarrow> int \<Rightarrow> int \<Rightarrow> 'ev \<Rightarrow> 'ev"
  bufferevent_enable :: "addr \<Rightarrow> 'ev \<Rightarrow> 'ev"
  input_length :: "addr \<Rightarrow> 'ev \<Rightarrow> nat"
  input_remove :: "addr \<Rightarrow> nat \<Rightarrow> 'ev \<Rightarrow> string \<times> 'ev"
  evbuffer_add :: "addr \<Rightarrow> string \<Rightarrow> 'ev \<Rightarrow> int \<times> 'ev"
  bufferevent_write_buffer :: "addr \<Rightarrow> addr \<Rightarrow> 'ev \<Rightarrow> int \<times> 'ev"
  loop_turn :: "addr \<Rightarrow> 'ev \<Rightarrow> 'ev"

section \<open>Data\<close>

definition SOCKET_READ_TIMEOUT_SECONDS :: int where "SOCKET_READ_TIMEOUT_SECONDS = 10"
definition SOCKET_WRITE_TIMEOUT_SECONDS :: int where "SOCKET_WRITE_TIMEOUT_SECONDS = 10"
definition NUM_THREADS :: int where "NUM_THREADS = 8"

record client_t =
  client_fd :: int
  client_evbase :: "addr option"
  client_buf_ev :: "addr option"
  client_output_buffer :: "addr option"

datatype job_fun = Server_job_function

record 'ev echo =
  e_os :: os
  e_clients :: "addr \<rightharpoonup> client_t"
  e_ev :: 'ev
  e_wq :: "(job_fun, addr) wq_sys"
  e_evbase_accept :: "addr option"

section \<open>Clients\<close>

definition closeClient :: "addr option \<Rightarrow> 'ev echo \<Rightarrow> 'ev echo outcome" where
  "closeClient client s =
     (if client \<noteq> None then
        and_then (read_node (e_clients s) client) (\<lambda>c.
        if client_fd c \<ge> 0 then
          let s = s\<lparr>e_os := sys_close (client_fd c) (e_os s)\<rparr> in
          and_then (write_node (e_clients s) client (client_fd_update (\<lambda>_. - 1))) (\<lambda>h.
          Ret (s\<lparr>e_clients := h\<rparr>))
        else Ret s)
      else Ret s)"

text \<open>One member of the client: if it is not null, free it with \<open>free\<close> and set it to null.\<close>

definition free_member :: "(client_t \<Rightarrow> addr option) \<Rightarrow> ((addr option \<Rightarrow> addr option) \<Rightarrow> client_t \<Rightarrow> client_t) \<Rightarrow>
    (addr \<Rightarrow> 'ev \<Rightarrow> 'ev) \<Rightarrow> addr option \<Rightarrow> 'ev echo \<Rightarrow> 'ev echo outcome" where
  "free_member get upd release client s =
     and_then (read_node (e_clients s) client) (\<lambda>c.
       case get c of
         None \<Rightarrow> Ret s
       | Some x \<Rightarrow>
           let s = s\<lparr>e_ev := release x (e_ev s)\<rparr> in
           and_then (write_node (e_clients s) client (upd (\<lambda>_. None))) (\<lambda>h. Ret (s\<lparr>e_clients := h\<rparr>)))"

definition closeAndFreeClient :: "'ev libevent \<Rightarrow> addr option \<Rightarrow> 'ev echo \<Rightarrow> 'ev echo outcome" where
  "closeAndFreeClient L client s =
     (if client \<noteq> None then
        and_then (closeClient client s) (\<lambda>s.
        and_then (free_member client_buf_ev client_buf_ev_update (bufferevent_free L) client s) (\<lambda>s.
        and_then (free_member client_evbase client_evbase_update (event_base_free L) client s) (\<lambda>s.
        and_then (free_member client_output_buffer client_output_buffer_update (evbuffer_free L) client s) (\<lambda>s.
        and_then (free_node (e_clients s) client) (\<lambda>h.
        Ret (s\<lparr>e_clients := h\<rparr>))))))
      else Ret s)"

section \<open>Callbacks\<close>

text \<open>The copy loop, with a bound on the number of rounds; running out of it is \<open>None\<close>.\<close>

fun read_loop :: "'ev libevent \<Rightarrow> addr \<Rightarrow> addr \<Rightarrow> nat \<Rightarrow> 'ev \<Rightarrow> 'ev option" where
  "read_loop L bev out 0 e = None"
| "read_loop L bev out (Suc k) e =
     (let nbytes = int_of_size (input_length L bev e) in
      if nbytes > 0 then
        let nbytes = (if nbytes > 4096 then 4096 else nbytes) in
        (case input_remove L bev (nat nbytes) e of (data, e) \<Rightarrow>
         case evbuffer_add L out data e of (_, e) \<Rightarrow> read_loop L bev out k e)
      else Some e)"

definition buffered_on_read :: "'ev libevent \<Rightarrow> nat \<Rightarrow> addr \<Rightarrow> addr option \<Rightarrow> 'ev echo \<Rightarrow> 'ev echo outcome" where
  "buffered_on_read L k bev client s =
     and_then (read_node (e_clients s) client) (\<lambda>c.
       case client_output_buffer c of
         None \<Rightarrow> UB Null_deref
       | Some out \<Rightarrow>
           (case read_loop L bev out k (e_ev s) of
              None \<Rightarrow> Blocked
            | Some e \<Rightarrow>
                (case bufferevent_write_buffer L bev out e of (r, e) \<Rightarrow>
                   let s = s\<lparr>e_ev := e\<rparr> in if r \<noteq> 0 then closeClient client s else Ret s)))"

definition buffered_on_write :: "'ev echo \<Rightarrow> 'ev echo outcome" where
  "buffered_on_write s = Ret s"

definition buffered_on_error :: "addr option \<Rightarrow> 'ev echo \<Rightarrow> 'ev echo outcome" where
  "buffered_on_error client s = closeClient client s"

datatype callback = On_read | On_write | On_error

definition run_callback :: "'ev libevent \<Rightarrow> addr \<Rightarrow> addr \<Rightarrow> callback \<Rightarrow> 'ev echo \<Rightarrow> 'ev echo outcome" where
  "run_callback L bev client cb s =
     (case cb of
        On_read \<Rightarrow> buffered_on_read L (Suc (input_length L bev (e_ev s))) bev (Some client) s
      | On_write \<Rightarrow> buffered_on_write s
      | On_error \<Rightarrow> buffered_on_error (Some client) s)"

fun event_base_dispatch :: "'ev libevent \<Rightarrow> addr \<Rightarrow> addr \<Rightarrow> callback list \<Rightarrow> 'ev echo \<Rightarrow> 'ev echo outcome" where
  "event_base_dispatch L bev client [] s = Ret s"
| "event_base_dispatch L bev client (cb # cbs) s =
     and_then (run_callback L bev client cb (s\<lparr>e_ev := loop_turn L bev (e_ev s)\<rparr>)) (event_base_dispatch L bev client cbs)"

definition server_job_function :: "'ev libevent \<Rightarrow> callback list \<Rightarrow> addr option \<Rightarrow> 'ev echo \<Rightarrow> 'ev echo outcome" where
  "server_job_function L cbs job s =
     and_then (read_node (wq_jobs (e_wq s)) job) (\<lambda>j.
     let client = user_data j in
     and_then (read_node (e_clients s) (Some client)) (\<lambda>c.
     case client_buf_ev c of
       None \<Rightarrow> UB Null_deref
     | Some bev \<Rightarrow>
         and_then (event_base_dispatch L bev client cbs s) (\<lambda>s.
         and_then (closeAndFreeClient L (Some client) s) (\<lambda>s.
         and_then (free_node (wq_jobs (e_wq s)) job) (\<lambda>h.
         Ret (s\<lparr>e_wq := (e_wq s)\<lparr>wq_jobs := h\<rparr>\<rparr>))))))"

section \<open>Accepting a connection\<close>

text \<open>What the kernel and \<open>malloc\<close> answer during one call of \<open>on_accept\<close>, and the worker the signal wakes.\<close>

record answers =
  a_accept :: int
  a_getfl :: int
  a_setfl :: int
  a_client :: "addr option"
  a_job :: "addr option"
  a_wakes :: "nat option"

definition add_job :: "answers \<Rightarrow> addr \<Rightarrow> addr \<Rightarrow> 'ev echo \<Rightarrow> 'ev echo outcome" where
  "add_job ans j p s =
     and_then (workqueue_add_job (Client 0) j (a_wakes ans) (alloc_job j Server_job_function p (e_wq s))) (\<lambda>q.
     Ret (s\<lparr>e_wq := q\<rparr>))"

definition set_client :: "addr \<Rightarrow> (client_t \<Rightarrow> client_t) \<Rightarrow> 'ev echo \<Rightarrow> 'ev echo outcome" where
  "set_client p f s = and_then (write_node (e_clients s) (Some p) f) (\<lambda>h. Ret (s\<lparr>e_clients := h\<rparr>))"

text \<open>The part of \<open>on_accept\<close> from the creation of the libevent objects on.\<close>

definition accept_job :: "'ev libevent \<Rightarrow> answers \<Rightarrow> addr \<Rightarrow> 'ev echo \<Rightarrow> 'ev echo outcome" where
  "accept_job L ans p s =
     (case a_job ans of
        None \<Rightarrow> closeAndFreeClient L (Some p) s
      | Some j \<Rightarrow> add_job ans j p s)"

definition accept_bufferevent :: "'ev libevent \<Rightarrow> answers \<Rightarrow> addr \<Rightarrow> addr \<Rightarrow> 'ev echo \<Rightarrow> 'ev echo outcome" where
  "accept_bufferevent L ans p base s =
     (case bufferevent_new L (a_accept ans) p (e_ev s) of (b, e) \<Rightarrow>
        and_then (set_client p (client_buf_ev_update (\<lambda>_. b)) (s\<lparr>e_ev := e\<rparr>)) (\<lambda>s.
        case b of
          None \<Rightarrow> closeAndFreeClient L (Some p) s
        | Some bev \<Rightarrow>
            let e = bufferevent_base_set L base bev (e_ev s);
                e = bufferevent_settimeout L bev SOCKET_READ_TIMEOUT_SECONDS SOCKET_WRITE_TIMEOUT_SECONDS e;
                e = bufferevent_enable L bev e
            in accept_job L ans p (s\<lparr>e_ev := e\<rparr>)))"

definition accept_evbase :: "'ev libevent \<Rightarrow> answers \<Rightarrow> addr \<Rightarrow> 'ev echo \<Rightarrow> 'ev echo outcome" where
  "accept_evbase L ans p s =
     (case event_base_new L (e_ev s) of (b, e) \<Rightarrow>
        and_then (set_client p (client_evbase_update (\<lambda>_. b)) (s\<lparr>e_ev := e\<rparr>)) (\<lambda>s.
        case b of
          None \<Rightarrow> closeAndFreeClient L (Some p) s
        | Some base \<Rightarrow> accept_bufferevent L ans p base s))"

definition accept_client :: "'ev libevent \<Rightarrow> answers \<Rightarrow> addr \<Rightarrow> 'ev echo \<Rightarrow> 'ev echo outcome" where
  "accept_client L ans p s =
     (let s = s\<lparr>e_clients := (e_clients s)(p \<mapsto> \<lparr>client_fd = a_accept ans, client_evbase = None, client_buf_ev = None,
                client_output_buffer = None\<rparr>)\<rparr> in
      case evbuffer_new L (e_ev s) of (b, e) \<Rightarrow>
        and_then (set_client p (client_output_buffer_update (\<lambda>_. b)) (s\<lparr>e_ev := e\<rparr>)) (\<lambda>s.
        case b of
          None \<Rightarrow> closeAndFreeClient L (Some p) s
        | Some out \<Rightarrow> accept_evbase L ans p s))"

definition on_accept :: "'ev libevent \<Rightarrow> answers \<Rightarrow> 'ev echo \<Rightarrow> 'ev echo outcome" where
  "on_accept L ans s =
     (if a_accept ans < 0 then Ret s
      else let s = s\<lparr>e_os := sys_open (a_accept ans) (e_os s)\<rparr> in
        case setnonblock (a_getfl ans) (a_setfl ans) (a_accept ans) (e_os s) of (r, os) \<Rightarrow>
          let s = s\<lparr>e_os := os\<rparr> in
          if r < 0 then Ret (s\<lparr>e_os := sys_close (a_accept ans) (e_os s)\<rparr>)
          else (case a_client ans of
                  None \<Rightarrow> Ret (s\<lparr>e_os := sys_close (a_accept ans) (e_os s)\<rparr>)
                | Some p \<Rightarrow> accept_client L ans p s))"


section \<open>The server\<close>

text \<open>
  While the accept loop runs, the main thread calls \<open>on_accept\<close> for every connection and the workers take
  steps of their own; a worker that executes a job runs \<open>server_job_function\<close>. A signal runs
  \<open>workqueue_shutdown\<close> (through \<open>killServer\<close>) step by step.
\<close>

datatype server_event =
    E_accept answers
  | E_worker nat
  | E_spurious nat
  | E_serve nat "callback list"
  | E_shutdown

definition lift_wq :: "(job_fun, addr) wq_label \<Rightarrow> 'ev echo \<Rightarrow> 'ev echo outcome" where
  "lift_wq l s = and_then (wq_step l (e_wq s)) (\<lambda>q. Ret (s\<lparr>e_wq := q\<rparr>))"

text \<open>The kernel returns descriptors that are not open, \<open>malloc\<close> blocks that are not allocated.\<close>

definition possible :: "answers \<Rightarrow> 'ev echo \<Rightarrow> bool" where
  "possible ans s \<longleftrightarrow>
     (0 \<le> a_accept ans \<longrightarrow> fds (e_os s) (a_accept ans) = None) \<and>
     (case a_client ans of None \<Rightarrow> True | Some p \<Rightarrow> e_clients s p = None) \<and>
     (case a_job ans of None \<Rightarrow> True | Some j \<Rightarrow> wq_jobs (e_wq s) j = None)"

fun echo_step :: "'ev libevent \<Rightarrow> server_event \<Rightarrow> 'ev echo \<Rightarrow> 'ev echo outcome" where
  "echo_step L (E_accept ans) s = (if possible ans s then on_accept L ans s else Blocked)"
| "echo_step L (E_worker w) s = lift_wq (Wq_worker w) s"
| "echo_step L (E_spurious w) s = lift_wq (Wq_spurious w) s"
| "echo_step L (E_serve w cbs) s =
     (if w < length (wq_pcs (e_wq s))
      then (case wq_pcs (e_wq s) ! w of
              W_exec j \<Rightarrow>
                and_then (server_job_function L cbs (Some j) s) (\<lambda>t.
                Ret (t\<lparr>e_wq := wq_goto w W_lock ((e_wq t)\<lparr>wq_finished :=
                  add_mset (job_task (wq_jobs (e_wq s)) j) (wq_finished (e_wq t))\<rparr>)\<rparr>))
            | _ \<Rightarrow> Blocked)
      else Blocked)"
| "echo_step L E_shutdown s = lift_wq Wq_shutdown s"

definition killServer :: "(job_fun, addr) wq_label list \<Rightarrow> 'ev echo \<Rightarrow> 'ev echo outcome" where
  "killServer ls s = and_then (run wq_step ls (e_wq s)) (\<lambda>q. Ret (s\<lparr>e_wq := q\<rparr>))"

record server_answers =
  r_socket :: int
  r_bind :: int
  r_listen :: int
  r_getfl :: int
  r_setfl :: int
  r_mem :: "nat \<Rightarrow> bool"
  r_thread :: "nat \<Rightarrow> int"

text \<open>
  \<open>err(1, ...)\<close> ends the process with status 1. \<open>evs\<close> is what happens while the accept loop runs, \<open>ls\<close> the
  steps of \<open>workqueue_shutdown\<close> and of the workers started so far when \<open>workqueue_init\<close> fails.
\<close>

definition listen_socket :: "server_answers \<Rightarrow> os \<Rightarrow> os outcome" where
  "listen_socket a s =
     (if r_socket a < 0 then Exit 1
      else let s = sys_open (r_socket a) s in
        if r_bind a < 0 then Exit 1
        else if r_listen a < 0 then Exit 1
        else (case setnonblock (r_getfl a) (r_setfl a) (r_socket a) s of (r, s) \<Rightarrow> if r < 0 then Exit 1 else Ret s))"

definition runServer :: "'ev libevent \<Rightarrow> server_answers \<Rightarrow> (job_fun, addr) wq_label list \<Rightarrow> server_event list \<Rightarrow>
    'ev echo \<Rightarrow> (int \<times> 'ev echo) outcome" where
  "runServer L a ls evs s =
     and_then (listen_socket a (e_os s)) (\<lambda>os.
     case event_base_new L (e_ev s) of (b, e) \<Rightarrow>
     let s = s\<lparr>e_os := os, e_ev := e, e_evbase_accept := b\<rparr> in
     case b of
       None \<Rightarrow> Ret (1, s\<lparr>e_os := sys_close (r_socket a) (e_os s)\<rparr>)
     | Some base \<Rightarrow>
         and_then (workqueue_init (r_mem a) (r_thread a) NUM_THREADS) (\<lambda>(r, q).
         let s = s\<lparr>e_wq := q\<rparr> in
         if r \<noteq> 0 then
           and_then (killServer ls (s\<lparr>e_os := sys_close (r_socket a) (e_os s)\<rparr>)) (\<lambda>s. Ret (1, s))
         else
           and_then (run (echo_step L) evs s) (\<lambda>s.
           Ret (0, s\<lparr>e_ev := event_base_free L base (e_ev s), e_evbase_accept := None,
                     e_os := sys_close (r_socket a) (e_os s)\<rparr>))))"

section \<open>What the server relies on\<close>

locale libevent_laws =
  fixes L :: "'ev libevent"
    and live :: "'ev \<Rightarrow> addr set"
    and input :: "addr \<Rightarrow> 'ev \<Rightarrow> string"
    and content :: "addr \<Rightarrow> 'ev \<Rightarrow> string"
    and queued :: "addr \<Rightarrow> 'ev \<Rightarrow> string"
  assumes evbuffer_new_Some: "evbuffer_new L e = (Some a, e') \<Longrightarrow> a \<notin> live e \<and> live e' = insert a (live e)"
    and evbuffer_new_None: "evbuffer_new L e = (None, e') \<Longrightarrow> live e' = live e"
    and evbuffer_free: "a \<in> live e \<Longrightarrow> live (evbuffer_free L a e) = live e - {a}"
    and event_base_new_Some: "event_base_new L e = (Some a, e') \<Longrightarrow> a \<notin> live e \<and> live e' = insert a (live e)"
    and event_base_new_None: "event_base_new L e = (None, e') \<Longrightarrow> live e' = live e"
    and event_base_free: "a \<in> live e \<Longrightarrow> live (event_base_free L a e) = live e - {a}"
    and bufferevent_new_Some: "bufferevent_new L fd p e = (Some a, e') \<Longrightarrow> a \<notin> live e \<and> live e' = insert a (live e)"
    and bufferevent_new_None: "bufferevent_new L fd p e = (None, e') \<Longrightarrow> live e' = live e"
    and bufferevent_free: "a \<in> live e \<Longrightarrow> live (bufferevent_free L a e) = live e - {a}"
    and live_settings: "live (bufferevent_base_set L b a e) = live e"
      "live (bufferevent_settimeout L a i j e) = live e" "live (bufferevent_enable L a e) = live e"
      "live (loop_turn L a e) = live e"
    and input_length: "input_length L a e = length (input a e)"
    and input_remove: "input_remove L a n e = (data, e') \<Longrightarrow>
      data = take n (input a e) \<and> input a e' = drop n (input a e) \<and> content b e' = content b e \<and>
      queued a e' = queued a e \<and> live e' = live e"
    and evbuffer_add: "evbuffer_add L b data e = (r, e') \<Longrightarrow>
      content b e' = content b e @ (if r = 0 then data else []) \<and> input a e' = input a e \<and>
      queued a e' = queued a e \<and> live e' = live e"
    and bufferevent_write_buffer: "bufferevent_write_buffer L a b e = (r, e') \<Longrightarrow>
      (if r = 0 then queued a e' = queued a e @ content b e \<and> content b e' = []
       else queued a e' = queued a e \<and> content b e' = content b e) \<and>
      input a e' = input a e \<and> live e' = live e"

end
