(* ===== verification/Workqueue_Theorems.thy ===== *)
theory Workqueue_Theorems
  imports Workqueue
begin

text \<open>
  What the work queue of \<open>workqueue.c\<close> promises to its callers (the echo server): it refines the abstract
  pool with a stack of tasks and completes every job as long as it is not shut down. What
  \<open>workqueue_shutdown\<close> does instead: a worker that leaves its loop keeps the mutex forever, and the walk
  over the workers reads blocks that workers free themselves.
\<close>

section \<open>Refinement\<close>

definition wq_view :: "('f, 'd) wq_sys \<Rightarrow> ('f \<times> 'd) pool_view" where
  "wq_view s = \<lparr>submitted = wq_submitted s, pending = map (job_task (wq_jobs s)) (list_jobs s),
     begun = wq_begun s, running = image_mset (job_task (wq_jobs s)) (sum_list (map wpc_owns (wq_pcs s))),
     finished = wq_finished s, discarded = wq_discarded s\<rparr>"

lemma job_task_link:
  "h a = Some n \<Longrightarrow> job_task (h(a \<mapsto> n\<lparr>ll_prev := p, ll_next := q\<rparr>)) = job_task h"
  by (auto simp: job_task_def fun_eq_iff)

lemma wq_view_goto:
  assumes "w < length (wq_pcs s)" "wpc_owns pc = wpc_owns (wq_pcs s ! w)"
  shows "wq_view (wq_goto w pc s) = wq_view s"
  using sum_list_update_same [OF assms] by (simp add: wq_view_def)

lemma wq_view_other [simp]:
  "wq_view (set_mutex m s) = wq_view s" "wq_view (s\<lparr>wq_blocks := bs\<rparr>) = wq_view s" "wq_view (s\<lparr>wq_sd := sd\<rparr>) = wq_view s"
  by (simp_all add: wq_view_def list_jobs_def)

lemma worker_view:
  assumes "worker_function w (wq_pcs s ! w) s = Ret t" "w < length (wq_pcs s)" "wq_inv s"
  shows "pool_step Lifo (wq_view s) (wq_view t)"
  using assms
proof (cases rule: worker_function_cases)
  case (takes b a n xs)
  let ?t = "job_task (wq_jobs s) a"
  have "sum_list (map wpc_owns (wq_pcs t)) = add_mset a (sum_list (map wpc_owns (wq_pcs s)))"
    using sum_list_update_add [OF assms(2), of wpc_owns "W_got (Some a)"] takes(1,10) by (simp add: taken_def)
  moreover have "list_jobs t = xs" using taken_list_jobs [OF assms(3) takes(6,8,9)] takes(10) by simp
  ultimately have "wq_view t = (wq_view s)\<lparr>pending := map (job_task (wq_jobs s)) xs, begun := begun (wq_view s) @ [?t],
      running := add_mset ?t (running (wq_view s))\<rparr>"
    using job_task_link [of "wq_jobs s" a n None None, OF takes(7)] by (simp add: wq_view_def) (simp add: takes(10) taken_def)
  then show ?thesis using pool_step.take [of "wq_view s" ?t "map (job_task (wq_jobs s)) xs" Lifo] takes(6) by (simp add: wq_view_def)
qed (use assms(2) in \<open>auto simp: wq_view_goto intro!: pool_step.silent\<close>)

lemma returns_view:
  assumes "wq_step (Wq_returns w frees) s = Ret t" "wq_inv s"
  shows "pool_step Lifo (wq_view s) (wq_view t)"
  using assms
proof (cases rule: job_returns_cases)
  case (1 a)
  let ?t = "job_task (wq_jobs s) a" and ?m = "sum_list (map wpc_owns (wq_pcs s))"
  let ?m' = "sum_list (map wpc_owns ((wq_pcs s)[w := W_lock]))"
  have m: "?m = add_mset a ?m'" using sum_list_update_add [OF 1(1), of wpc_owns W_lock] 1(2) by simp
  have "owned_blocks wpc_owns ((wq_jobs s)(a := None)) (list_jobs s) ((wq_pcs s)[w := W_lock])"
    using wq_inv_parts(4) [OF assms(2)] 1(1,2) by (intro owned_blocks_free) auto
  then have a: "a \<notin># ?m'" unfolding owned_blocks_def by auto
  have l: "list_jobs t = list_jobs s"
    using job_returns_list_jobs(2) [OF assms(2) 1(3), of None] 1(5) by (auto simp: list_jobs_def)
  have same: "job_task (wq_jobs t) x = job_task (wq_jobs s) x" if "x \<noteq> a" for x
    using that by (auto simp: 1(5) job_task_def)
  have "image_mset (job_task (wq_jobs t)) ?m' = image_mset (job_task (wq_jobs s)) ?m'"
    using a same by (rule image_mset_except)
  moreover have "map (job_task (wq_jobs t)) (list_jobs s) = map (job_task (wq_jobs s)) (list_jobs s)"
    using 1(3) same by (rule map_except)
  ultimately have "wq_view t = (wq_view s)\<lparr>running := running (wq_view s) - {#?t#}, finished := add_mset ?t (finished (wq_view s))\<rparr>"
    by (simp add: wq_view_def l m) (simp add: 1(5))
  then show ?thesis using pool_step.complete [of ?t "wq_view s" Lifo] by (simp add: wq_view_def m)
qed

lemma wq_add_view:
  assumes "wq_step (Wq_add a f d ch) s = Ret t" "wq_inv s"
  shows "pool_step Lifo (wq_view s) (wq_view t)"
  using assms(1)
proof (cases rule: workqueue_add_job_cases)
  case 1
  have l: "list_jobs t = a # list_jobs s" "a \<notin> dom (wq_jobs s)" "a \<notin> set (list_jobs s)"
    using add_list_jobs [OF assms] by blast+
  let ?m = "sum_list (map wpc_owns (wq_pcs s))"
  have m: "sum_list (map wpc_owns (wq_pcs t)) = ?m"
    using sum_list_cond_signal [OF 1(3), of wpc_owns W_woken] by (simp add: 1(4))
  have a: "a \<notin># ?m" using wq_inv_parts(4) [OF assms(2)] l(2) by (auto simp: owned_blocks_def)
  have same: "job_task (wq_jobs t) x = job_task (wq_jobs s) x" if "x \<noteq> a" for x
    using that by (auto simp: 1(4) job_task_def)
  have "image_mset (job_task (wq_jobs t)) ?m = image_mset (job_task (wq_jobs s)) ?m"
    using a same by (rule image_mset_except)
  moreover have "map (job_task (wq_jobs t)) (list_jobs s) = map (job_task (wq_jobs s)) (list_jobs s)"
    using l(3) same by (rule map_except)
  moreover have "job_task (wq_jobs t) a = (f, d)" by (simp add: 1(4) job_task_def)
  ultimately have "wq_view t = (wq_view s)\<lparr>submitted := submitted (wq_view s) @ [(f, d)],
      pending := insert_pending Lifo (f, d) (pending (wq_view s))\<rparr>"
    by (simp add: wq_view_def l m) (simp add: 1(4))
  then show ?thesis using pool_step.submit by metis
qed

lemma shutdown_view:
  assumes "wq_step Wq_shutdown s = Ret t" "wq_inv s"
  shows "pool_step Lifo (wq_view s) (wq_view t)"
proof (cases "wq_sd s")
  case S_lock
  from assms(1) S_lock have t: "t = s\<lparr>wq := \<lparr>workers = None, waiting_jobs = None, jobs_mutex = M_free\<rparr>,
      wq_pcs := cond_broadcast W_wait W_woken (wq_pcs s), wq_sd := S_idle,
      wq_discarded := wq_discarded s @ map (job_task (wq_jobs s)) (list_jobs s)\<rparr>"
    by (auto simp: outcome_simps pthread_mutex_lock_Ret0 pthread_mutex_unlock_Ret0)
  have "list_jobs t = []" by (intro list_jobs_eq) (simp_all add: t)
  moreover have "sum_list (map wpc_owns (wq_pcs t)) = sum_list (map wpc_owns (wq_pcs s))"
    by (simp add: t sum_list_cond_broadcast)
  ultimately have "wq_view t = (wq_view s)\<lparr>pending := [], discarded := discarded (wq_view s) @ pending (wq_view s)\<rparr>"
    by (simp add: wq_view_def) (simp add: t)
  then show ?thesis using pool_step.discard by metis
qed (use assms(1) in \<open>auto simp: outcome_simps split: if_splits intro!: pool_step.silent\<close>)

interpretation wqv: pool_refinement wq_step wq_init wq_inv Lifo wq_view
proof (unfold_locales, goal_cases)
  case (1 s)
  then obtain k where "s = started k" using wq_init_started by blast
  then show ?case by (simp add: wq_view_def empty_view_def list_jobs_def started_def blank_sys_def sum_list_map_zero)
next
  case (2 s l t)
  show ?case
  proof (cases l)
    case (Wq_worker w)
    with 2 worker_view show ?thesis by (auto split: if_splits)
  next
    case (Wq_returns w fr)
    with 2 returns_view show ?thesis by blast
  next
    case (Wq_spurious w)
    with 2 show ?thesis by (auto simp: wq_view_goto intro!: pool_step.silent split: if_splits)
  next
    case (Wq_add a f d ch)
    show ?thesis using wq_add_view [OF 2(2) [unfolded Wq_add] 2(1)] .
  next
    case Wq_shutdown
    with 2 shutdown_view show ?thesis by blast
  qed
qed


section \<open>Progress\<close>

fun wpc_work :: "wq_pc \<Rightarrow> nat" where
  "wpc_work W_wait = 0"
| "wpc_work W_exited = 0"
| "wpc_work W_brk = 1"
| "wpc_work W_lock = 2"
| "wpc_work W_woken = 2"
| "wpc_work (W_exec a) = 3"
| "wpc_work (W_run a) = 4"
| "wpc_work (W_got j) = 5"

text \<open>A waiting job costs the way from the lock back to the lock.\<close>

definition wq_work :: "('f, 'd) wq_sys \<Rightarrow> nat" where
  "wq_work s = 4 * length (list_jobs s) + sum_list (map wpc_work (wq_pcs s))"

fun wq_own :: "('f, 'd) wq_label \<Rightarrow> bool" where
  "wq_own (Wq_worker w) = True"
| "wq_own (Wq_returns w frees) = True"
| "wq_own _ = False"

lemma wq_work_goto:
  assumes "w < length (wq_pcs s)" "wpc_work pc < wpc_work (wq_pcs s ! w)" "wq_pcs u = wq_pcs s" "list_jobs u = list_jobs s"
  shows "wq_work (wq_goto w pc u) < wq_work s"
  using sum_list_update_less [where f = wpc_work, OF assms(1,2)] assms(3,4) by (simp add: wq_work_def)

lemma at_lock_work [simp]: "at_lock pc \<Longrightarrow> wpc_work pc = 2"
  by (auto simp: at_lock_def)

lemma worker_work:
  assumes "worker_function w (wq_pcs s ! w) s = Ret t" "w < length (wq_pcs s)" "wq_inv s"
  shows "wq_work t < wq_work s"
  using assms
proof (cases rule: worker_function_cases)
  case (takes b a n xs)
  have "list_jobs t = xs" using taken_list_jobs [OF assms(3) takes(6,8,9)] takes(10) by simp
  then show ?thesis using sum_list_update_add [OF assms(2), of wpc_work "W_got (Some a)"] takes(1,6)
    by (simp add: wq_work_def) (simp add: takes(10) taken_def)
next
  case frees
  then show ?thesis using assms(2) by (simp add: wq_work_goto list_jobs_def)
qed (use assms(2) in \<open>simp_all add: wq_work_goto\<close>)

lemma returns_work:
  assumes "wq_step (Wq_returns w frees) s = Ret t" "wq_inv s"
  shows "wq_work t < wq_work s"
  using assms
proof (cases rule: job_returns_cases)
  case (1 a)
  then show ?thesis using job_returns_list_jobs(2) [OF assms(2) 1(3), of None]
    unfolding 1(5) by (intro wq_work_goto) (auto simp: list_jobs_def)
qed

interpretation wqd: draining_system wq_step wq_init wq_inv wq_own wq_work
proof (unfold_locales, goal_cases)
  case (1 s l t)
  show ?case
  proof (cases l)
    case (Wq_worker w)
    with 1 worker_work show ?thesis by (auto split: if_splits)
  next
    case (Wq_returns w fr)
    with 1 returns_work show ?thesis by blast
  qed (use 1(2) in simp_all)
qed

text \<open>No shutdown has begun: no worker is told to stop, and when jobs wait some worker is awake.\<close>

definition wq_serving :: "('f, 'd) wq_sys \<Rightarrow> bool" where
  "wq_serving s \<longleftrightarrow> wq_sd s = S_idle \<and> (\<forall>b\<in>ran (wq_blocks s). terminate b = 0) \<and>
     wq_discarded s = [] \<and> W_brk \<notin> set (wq_pcs s) \<and> W_exited \<notin> set (wq_pcs s) \<and> wq_pcs s \<noteq> [] \<and>
     (\<forall>c. jobs_mutex (wq s) \<noteq> M_held (Client c)) \<and>
     (waiting_jobs (wq s) \<noteq> None \<longrightarrow> (\<exists>pc\<in>set (wq_pcs s). pc \<noteq> W_wait))"

lemma wq_serving_goto:
  assumes "wq_serving s" "w < length (wq_pcs s)" "pc \<notin> {W_brk, W_exited}"
    and "wq_pcs t = (wq_pcs s)[w := pc]" "wq_sd t = wq_sd s" "wq_blocks t = wq_blocks s" "wq_discarded t = wq_discarded s"
    and "pc = W_wait \<Longrightarrow> waiting_jobs (wq t) = None" "\<And>c. jobs_mutex (wq t) \<noteq> M_held (Client c)"
  shows "wq_serving t"
proof -
  have "\<exists>pc\<in>set (wq_pcs t). pc \<noteq> W_wait" if "waiting_jobs (wq t) \<noteq> None"
  proof -
    have "pc \<noteq> W_wait" using assms(8) that by blast
    then show ?thesis using assms(2,4) set_update_memI by metis
  qed
  then show ?thesis using assms by (auto simp: wq_serving_def dest!: in_set_updateD)
qed

lemma wq_serving_step:
  assumes "wq_inv s" "wq_serving s" "wq_step l s = Ret t" "l \<noteq> Wq_shutdown"
  shows "wq_serving t"
proof (cases l)
  case (Wq_worker w)
  with assms(3) have w: "w < length (wq_pcs s)" "worker_function w (wq_pcs s ! w) s = Ret t" by (auto split: if_splits)
  have alive: "terminate b = 0" if "wq_blocks s w = Some b" for b using assms(2) that by (auto simp: wq_serving_def ranI)
  have nb: "wq_pcs s ! w \<noteq> W_brk" using assms(2) w(1) nth_mem unfolding wq_serving_def by metis
  have mut: "jobs_mutex (wq s) \<noteq> M_held (Client c)" for c using assms(2) by (simp add: wq_serving_def)
  note go = wq_serving_goto [OF assms(2) w(1)]
  from w(2,1) assms(1) show ?thesis
  proof (cases rule: worker_function_cases)
    case (takes b a n xs)
    then show ?thesis by (intro go [of "W_got (Some a)"]) (simp_all add: taken_def)
  qed (use nb alive mut in \<open>auto intro: go\<close>)
next
  case (Wq_returns w fr)
  from assms(3) [unfolded Wq_returns] assms(1) show ?thesis
  proof (cases rule: job_returns_cases)
    case (1 a)
    then show ?thesis using assms(2) by (intro wq_serving_goto [OF assms(2) 1(1), of W_lock]) (simp_all add: wq_serving_def)
  qed
next
  case (Wq_spurious w)
  with assms have w: "w < length (wq_pcs s)" "t = wq_goto w W_woken s" by (auto split: if_splits)
  then show ?thesis using assms(2) by (intro wq_serving_goto [OF assms(2) w(1), of W_woken]) (simp_all add: wq_serving_def)
next
  case (Wq_add a f d ch)
  from assms(3) [unfolded Wq_add] show ?thesis
  proof (cases rule: workqueue_add_job_cases)
    case 1
    have "\<exists>pc\<in>set (wq_pcs t). pc \<noteq> W_wait"
    proof (cases ch)
      case None
      with 1(3,4) assms(2) show ?thesis
        by (cases "wq_pcs s") (auto simp: cond_signal_ok_def cond_signal_def wq_serving_def)
    next
      case (Some w)
      with 1(3) have "W_woken \<in> set (wq_pcs t)"
        by (auto simp: 1(4) cond_signal_ok_def cond_signal_def intro: set_update_memI)
      then show ?thesis by blast
    qed
    then show ?thesis using assms(2)
      by (auto simp: 1(4) wq_serving_def cond_signal_def split: option.splits dest!: in_set_updateD)
  qed
qed (use assms(4) in simp)

lemma wq_serving_run:
  assumes "wq_inv s" "wq_serving s" "run wq_step ls s = Ret t" "Wq_shutdown \<notin> set ls"
  shows "wq_serving t"
proof -
  have q: "list_all (\<lambda>l. l \<noteq> Wq_shutdown) ls" using assms(4) by (auto simp: list_all_iff)
  have "wq_inv t \<and> wq_serving t"
    using run_keeps [where P = "\<lambda>s. wq_inv s \<and> wq_serving s", OF assms(3) q] assms(1,2) wq_inv_step wq_serving_step by blast
  then show ?thesis ..
qed

lemma wq_serving_quiescent:
  assumes "wq_inv s" "wq_serving s" "quiescent wq_step wq_own s"
  shows "list_jobs s = []" "sum_list (map wpc_owns (wq_pcs s)) = {#}"
proof -
  note p = wq_inv_parts [OF assms(1)]
  have stuck: "\<not> (\<exists>t. worker_function w (wq_pcs s ! w) s = Ret t)" if "w < length (wq_pcs s)" for w
    using assms(3) that unfolding quiescent_def by (metis wq_own.simps(1) wq_step.simps(1))
  have noexec: "wq_pcs s ! w \<noteq> W_exec a" if "w < length (wq_pcs s)" for w a
  proof
    assume "wq_pcs s ! w = W_exec a"
    then have "\<exists>t. wq_step (Wq_returns w False) s = Ret t" using that by (simp add: job_returns_def)
    then show False using assms(3) unfolding quiescent_def by (metis wq_own.simps(2))
  qed
  have own: "a \<in> dom (wq_jobs s)" if "w < length (wq_pcs s)" "wq_pcs s ! w = W_run a" for w a
    using owned_blocks_owned(1) [OF p(4) that(1), of a] that(2) by simp
  have norun: "wq_pcs s ! w \<noteq> W_run a" if "w < length (wq_pcs s)" for w a
    using stuck [OF that] own [OF that, of a] by auto
  have nogot: "wq_pcs s ! w \<noteq> W_got j" if "w < length (wq_pcs s)" for w j
    using stuck [OF that] lock_ok_holder [OF p(1) that] by auto
  have gone: "wq_pcs s ! w \<noteq> W_brk" "wq_pcs s ! w \<noteq> W_exited" if "w < length (wq_pcs s)" for w
    using assms(2) that nth_mem unfolding wq_serving_def by metis+
  have m: "jobs_mutex (wq s) = M_free"
    using p(1)
  proof (cases rule: lock_ok_cases)
    case (2 w)
    then show ?thesis using nogot [of w] gone [of w] by (cases "wq_pcs s ! w") auto
  qed (use assms(2) in \<open>auto simp: wq_serving_def\<close>)
  have nolock: "\<not> at_lock (wq_pcs s ! w)" if "w < length (wq_pcs s)" for w
  proof
    assume at: "at_lock (wq_pcs s ! w)"
    then have "w \<in> dom (wq_blocks s)" using p(5) [OF that] by simp
    then obtain b where b: "wq_blocks s w = Some b" by auto
    have "\<exists>t. worker_function w (wq_pcs s ! w) s = Ret t"
      using worker_locked_eq [OF assms(1) m b] m
      by (cases "waiting_jobs (wq s)") (auto simp: worker_function_lock [OF at])
    then show False using stuck [OF that] by blast
  qed
  have wait: "pc = W_wait" if "pc \<in> set (wq_pcs s)" for pc
  proof -
    from that obtain w where w: "w < length (wq_pcs s)" "pc = wq_pcs s ! w" by (auto simp: in_set_conv_nth)
    show ?thesis using noexec [OF w(1)] norun [OF w(1)] nogot [OF w(1)] gone [OF w(1)] nolock [OF w(1)] unfolding w(2)
      by (metis wq_pc.exhaust at_lock_def)
  qed
  then have "wpc_owns pc = {#}" if "pc \<in> set (wq_pcs s)" for pc using that by fastforce
  then show "sum_list (map wpc_owns (wq_pcs s)) = {#}" by (rule sum_list_map_zero)
  have "waiting_jobs (wq s) = None" using assms(2) wait by (auto simp: wq_serving_def)
  then show "list_jobs s = []" using p(2) by simp
qed


section \<open>Safety of the workers and of adding jobs\<close>

lemma worker_no_ub:
  assumes "wq_inv s" "w < length (wq_pcs s)"
  shows "worker_function w (wq_pcs s ! w) s \<noteq> UB u"
proof -
  note p = wq_inv_parts [OF assms(1)]
  have lock: "jobs_mutex (wq s) \<noteq> M_uninit" "jobs_mutex (wq s) \<noteq> M_destroyed" using p(1) by (auto simp: lock_ok_def)
  show ?thesis
  proof (cases "at_lock (wq_pcs s ! w)")
    case True
    then obtain b where b: "wq_blocks s w = Some b" using p(5) [OF assms(2)] by auto
    show ?thesis using worker_locked_eq [OF assms(1) _ b] lock unfolding worker_function_lock [OF True]
      by (cases "jobs_mutex (wq s)") (auto split: option.splits)
  next
    case False
    then show ?thesis
      using p(5) [OF assms(2)] lock_ok_holder [OF p(1) assms(2)] owned_blocks_owned(1) [OF p(4) assms(2)]
      by (cases "wq_pcs s ! w") (auto simp: at_lock_def)
  qed
qed

definition wq_safe_label :: "('f, 'd) wq_label \<Rightarrow> bool" where
  "wq_safe_label l \<longleftrightarrow> l \<noteq> Wq_shutdown"

lemma wq_no_ub:
  assumes "wq_inv s" "wq_safe_label l"
  shows "wq_step l s \<noteq> UB u"
proof (cases l)
  case (Wq_worker w)
  then show ?thesis using worker_no_ub [OF assms(1)] by auto
next
  case (Wq_returns w fr)
  then show ?thesis using owned_blocks_owned(1) [OF wq_inv_parts(4) [OF assms(1)], of w]
    by (auto simp: job_returns_def split: wq_pc.splits)
next
  case (Wq_add a f d ch)
  have "jobs_mutex (wq s) \<noteq> M_uninit" "jobs_mutex (wq s) \<noteq> M_destroyed"
    using wq_inv_parts(1) [OF assms(1)] by (auto simp: lock_ok_def)
  then show ?thesis
    by (cases "jobs_mutex (wq s)") (auto simp: Wq_add workqueue_add_job_def alloc_job_def LL_ADD_eq)
qed (use assms(2) in \<open>auto simp: wq_safe_label_def\<close>)

lemma wq_no_exit: "wq_step l s \<noteq> Exit n"
proof (cases l)
  case (Wq_worker w)
  then show ?thesis
    by (cases "wq_pcs s ! w") (auto simp: worker_locked_def LL_REMOVE_def Let_def outcome_simps pthread_mutex_lock_def
      pthread_mutex_unlock_def read_node_def write_node_def free_node_def split: if_splits option.splits)
next
  case (Wq_returns w fr)
  then show ?thesis by (auto simp: job_returns_def outcome_simps free_node_def split: wq_pc.splits option.splits)
next
  case (Wq_add a f d ch)
  then show ?thesis by (auto simp: workqueue_add_job_def LL_ADD_def outcome_simps pthread_mutex_lock_def pthread_mutex_unlock_def
      write_node_def split: if_splits option.splits)
next
  case Wq_shutdown
  then show ?thesis
    by (cases "wq_sd s") (auto simp: outcome_simps pthread_mutex_lock_def pthread_mutex_unlock_def read_node_def write_node_def
      split: if_splits option.splits)
qed auto

interpretation wqs: safe_system wq_step wq_init wq_inv wq_safe_label
  by unfold_locales (use wq_no_ub in blast)

section \<open>A worker that has left its loop\<close>

text \<open>\<open>seized w s\<close>: worker \<open>w\<close> has left its loop and keeps the mutex.\<close>

definition seized :: "nat \<Rightarrow> ('f, 'd) wq_sys \<Rightarrow> bool" where
  "seized w s \<longleftrightarrow> w < length (wq_pcs s) \<and> wq_pcs s ! w \<in> {W_brk, W_exited}"

lemma seized_mutex: "wq_inv s \<Longrightarrow> seized w s \<Longrightarrow> jobs_mutex (wq s) = M_held (Worker w)"
  using lock_ok_holder [OF wq_inv_parts(1), of s w] by (auto simp: seized_def)

definition frozen :: "('f, 'd) wq_sys \<Rightarrow> ('f, 'd) wq_sys \<Rightarrow> bool" where
  "frozen s t \<longleftrightarrow> wq_begun t = wq_begun s \<and> wq_submitted t = wq_submitted s \<and> wq_discarded t = wq_discarded s"

lemma seized_step:
  assumes "wq_inv s" "seized w s" "wq_step l s = Ret t"
  shows "seized w t \<and> frozen s t"
proof -
  have m: "jobs_mutex (wq s) = M_held (Worker w)" using seized_mutex [OF assms(1,2)] .
  show ?thesis
  proof (cases l)
    case (Wq_worker v)
    with assms(3) have v: "v < length (wq_pcs s)" "worker_function v (wq_pcs s ! v) s = Ret t" by (auto split: if_splits)
    from v(2,1) assms(1) show ?thesis
      by (cases rule: worker_function_cases)
        (use m assms(2) v(1) in \<open>auto simp: seized_def frozen_def nth_list_update\<close>)
  next
    case (Wq_returns v fr)
    from assms(3) [unfolded Wq_returns] assms(1) show ?thesis
      by (cases rule: job_returns_cases) (use assms(2) in \<open>auto simp: seized_def frozen_def nth_list_update\<close>)
  next
    case (Wq_spurious v)
    with assms show ?thesis by (auto simp: seized_def frozen_def nth_list_update split: if_splits)
  next
    case (Wq_add a f d ch)
    from assms(3) [unfolded Wq_add] show ?thesis by (cases rule: workqueue_add_job_cases) (use m in simp)
  next
    case Wq_shutdown
    with assms(2,3) m show ?thesis
      by (cases "wq_sd s") (auto simp: seized_def frozen_def outcome_simps split: if_splits)
  qed
qed

lemma seized_run:
  assumes "wq_inv s" "seized w s" "run wq_step ls s = Ret t"
  shows "wq_inv t \<and> seized w t \<and> frozen s t"
  using assms
proof (induction ls arbitrary: s)
  case Nil
  then show ?case by (simp add: frozen_def)
next
  case (Cons l ls)
  then obtain u where u: "wq_step l s = Ret u" "run wq_step ls u = Ret t" by (auto simp: outcome_simps)
  have "wq_inv u" "seized w u" "frozen s u" using wq_inv_step seized_step Cons.prems(1,2) u(1) by blast+
  with Cons.IH u(2) show ?case by (auto simp: frozen_def)
qed


section \<open>The walk of the shutdown\<close>

text \<open>Every pointer to a worker that the walk can follow is the block of some thread.\<close>

fun sd_cursor :: "shutdown_pc \<Rightarrow> addr option" where
  "sd_cursor (S_test p) = p"
| "sd_cursor (S_next p) = p"
| "sd_cursor _ = None"

definition walk_ok :: "('f, 'd) wq_sys \<Rightarrow> bool" where
  "walk_ok s \<longleftrightarrow>
     (\<forall>p. workers (wq s) = Some p \<longrightarrow> p < length (wq_pcs s)) \<and>
     (\<forall>p. sd_cursor (wq_sd s) = Some p \<longrightarrow> p < length (wq_pcs s)) \<and>
     (\<forall>a b p. wq_blocks s a = Some b \<longrightarrow> ll_next b = Some p \<longrightarrow> p < length (wq_pcs s)) \<and>
     wq_sd s \<noteq> S_next None"

lemma walk_ok_step:
  assumes "wq_inv s" "walk_ok s" "wq_step l s = Ret t"
  shows "walk_ok t"
proof (cases l)
  case (Wq_worker w)
  with assms(3) have w: "w < length (wq_pcs s)" "worker_function w (wq_pcs s ! w) s = Ret t" by (auto split: if_splits)
  from w(2,1) assms(1) show ?thesis
    by (cases rule: worker_function_cases)
      (use assms(2) in \<open>auto simp: walk_ok_def taken_def ran_def split: if_splits\<close>)
next
  case (Wq_returns w fr)
  from assms(3) [unfolded Wq_returns] assms(1) show ?thesis
    by (cases rule: job_returns_cases) (use assms(2) in \<open>auto simp: walk_ok_def\<close>)
next
  case (Wq_spurious w)
  with assms(2,3) show ?thesis by (auto simp: walk_ok_def split: if_splits)
next
  case (Wq_add a f d ch)
  from assms(3) [unfolded Wq_add] show ?thesis
    by (cases rule: workqueue_add_job_cases) (use assms(2) in \<open>auto simp: walk_ok_def\<close>)
next
  case Wq_shutdown
  show ?thesis
  proof (cases "wq_sd s")
    case (S_test p)
    with assms(2,3) Wq_shutdown show ?thesis
      unfolding walk_ok_def by (auto simp: write_node_def split: if_splits option.splits)
  next
    case (S_next p)
    with assms(2,3) Wq_shutdown show ?thesis
      by (auto simp: walk_ok_def read_node_def split: option.splits dest: ranI)
  qed (use assms(2,3) Wq_shutdown in \<open>auto simp: walk_ok_def outcome_simps\<close>)
qed

lemma walk_ok_started: "walk_ok (started k)"
  by (auto simp: walk_ok_def started_def blank_sys_def ran_def split: if_splits)

interpretation wqw: invariant_system wq_step wq_init "\<lambda>s. wq_inv s \<and> walk_ok s"
proof (unfold_locales, goal_cases)
  case (1 s)
  then show ?case using wq_init_started wq_inv_started walk_ok_started by metis
next
  case (2 s l t)
  then show ?case using wq_inv_step walk_ok_step by blast
qed

lemma shutdown_ub:
  assumes "wq_inv s" "walk_ok s" "wq_step Wq_shutdown s = UB u"
  shows "u = Dangling \<and> (\<exists>w<length (wq_pcs s). sd_cursor (wq_sd s) = Some w \<and> wq_pcs s ! w = W_exited)"
proof -
  have m: "jobs_mutex (wq s) \<noteq> M_uninit" "jobs_mutex (wq s) \<noteq> M_destroyed"
    using wq_inv_parts(1) [OF assms(1)] by (auto simp: lock_ok_def)
  have dead: "wq_pcs s ! w = W_exited" if "w < length (wq_pcs s)" "wq_blocks s w = None" for w
    using wq_inv_parts(5) [OF assms(1) that(1)] that(2) by auto
  show ?thesis
  proof (cases "wq_sd s")
    case (S_test p)
    with assms(2,3) dead show ?thesis
      by (auto simp: walk_ok_def write_node_def split: if_splits option.splits)
  next
    case (S_next p)
    with assms(2,3) dead show ?thesis
      by (auto simp: walk_ok_def read_node_def split: if_splits option.splits)
  next
    case S_lock
    with assms(3) m show ?thesis by (cases "jobs_mutex (wq s)") auto
  qed (use assms(3) in auto)
qed

section \<open>Properties\<close>

lemma wq_init_inv: "wq_init s \<Longrightarrow> wq_inv s"
  by (rule wqi.inv_init)

lemma wq_serving_started: "0 < k \<Longrightarrow> wq_serving (started k)"
  by (auto simp: wq_serving_def started_def blank_sys_def ran_def split: if_splits)

lemma workqueue_init_started:
  "workqueue_init mem rc n =
     (case find (\<lambda>j. \<not> mem j \<or> rc j \<noteq> 0) [0..<nat (max 1 n)] of
        None \<Rightarrow> Ret (0, started (nat (max 1 n))) | Some j \<Rightarrow> Ret (1, started j))"
proof -
  have "(if n < 1 then 1 else n) = max 1 n" by simp
  then show ?thesis using init_loop_started [of mem rc 0 "nat (max 1 n)"]
    unfolding workqueue_init_def started_0 [symmetric] by (simp cong: option.case_cong)
qed

lemma started_workers:
  fixes s :: "nat \<Rightarrow> ('f, 'd) wq_sys"
  assumes "s = started"
  shows "list_at ll_next (wq_blocks (s k)) (workers (wq (s k))) (rev [0..<k])"
proof (induction k)
  case 0
  show ?case by (simp add: assms started_def)
next
  case (Suc k)
  have "list_at ll_next (wq_blocks (s (Suc k))) (workers (wq (s k))) (rev [0..<k])"
    by (rule list_at_frame [OF Suc.IH]) (auto simp: assms started_def)
  then show ?case by (auto simp: assms started_def)
qed

text \<open>
  C8. Progress of the work queue: after any calls without a shutdown of a queue whose initialisation
  succeeded, the workers take at most \<open>wq_work s\<close> steps whatever the schedule, some schedule brings them
  to rest, and at rest every job that was added is completed.
\<close>

theorem wq_completes:
  assumes "workqueue_init mem rc n = Ret (0, s0)" "run wq_step ls s0 = Ret s" "Wq_shutdown \<notin> set ls"
  shows "(\<exists>ks t. list_all wq_own ks \<and> run wq_step ks s = Ret t \<and> quiescent wq_step wq_own t) \<and>
    (\<forall>ks t. list_all wq_own ks \<longrightarrow> run wq_step ks s = Ret t \<longrightarrow> length ks \<le> wq_work s \<and>
       (quiescent wq_step wq_own t \<longrightarrow> wq_finished t = mset (wq_submitted t)))"
proof (intro conjI allI impI)
  have i: "wq_init s0" using assms(1) by (auto simp: wq_init_def)
  have k: "s0 = started (nat (max 1 n))" using assms(1) by (auto simp: workqueue_init_started split: option.splits)
  have inv: "wq_inv s" using wqi.inv_run [OF wq_init_inv [OF i] assms(2)] .
  have "wq_serving s0" unfolding k by (rule wq_serving_started) simp
  then have serv: "wq_serving s" using wq_serving_run [OF wq_init_inv [OF i] _ assms(2,3)] by blast
  show "\<exists>ks t. list_all wq_own ks \<and> run wq_step ks s = Ret t \<and> quiescent wq_step wq_own t"
    using inv by (rule wqd.drains)
  fix ks t
  assume own: "list_all wq_own ks" "run wq_step ks s = Ret t"
  show "length ks \<le> wq_work s" using wqd.own_run_bounded [OF inv own] by linarith
  assume q: "quiescent wq_step wq_own t"
  have "Wq_shutdown \<notin> set ks" using own(1) by (auto simp: list_all_iff)
  then have st: "wq_serving t" "wq_inv t" using wq_serving_run [OF inv serv own(2)] wqi.inv_run [OF inv own(2)] by auto
  have "reachable wq_step wq_init t"
    using run_reachable [OF own(2)] run_reachable [OF assms(2)] i reach_init by metis
  then have prom: "pool_promise Lifo (wq_view t)" by (rule wqv.reachable_promise)
  have "list_jobs t = []" "sum_list (map wpc_owns (wq_pcs t)) = {#}" using wq_serving_quiescent [OF st(2,1) q] by auto
  moreover have "wq_discarded t = []" using st(1) by (simp add: wq_serving_def)
  ultimately have "finished (wq_view t) = mset (submitted (wq_view t))"
    by (intro promise_all_finished [OF prom]) (simp_all add: wq_view_def)
  then show "wq_finished t = mset (wq_submitted t)" by (simp add: wq_view_def)
qed


text \<open>Two workers, three jobs.\<close>

definition wq_demo :: "(nat, nat) wq_sys" where
  "wq_demo = started 2"

definition wq_demo_calls :: "(nat, nat) wq_label list" where
  "wq_demo_calls = [Wq_worker 0, Wq_worker 1, Wq_add 10 5 50 (Some 1), Wq_add 11 6 60 (Some 0), Wq_worker 0]"

definition wq_demo_loaded :: "(nat, nat) wq_sys" where
  "wq_demo_loaded = (case run wq_step wq_demo_calls wq_demo of Ret s \<Rightarrow> s)"

lemma wq_demo_init: "workqueue_init (\<lambda>_. True) (\<lambda>_. 0) 2 = Ret (0, wq_demo)"
  by (simp add: workqueue_init_started wq_demo_def numeral_2_eq_2 upt_rec)

lemmas wq_run_defs = wq_demo_def started_def blank_sys_def worker_locked_def wq_goto_def set_mutex_def job_returns_def
  workqueue_add_job_def alloc_job_def cond_signal_ok_def cond_signal_def LL_ADD_eq LL_REMOVE_def job_task_def
  nth_Cons' replicate_Suc numeral_2_eq_2 list_jobs_def cond_broadcast_def

lemma wq_demo_loaded_run:
  "run wq_step wq_demo_calls wq_demo = Ret wq_demo_loaded" "wq_submitted wq_demo_loaded = [(5, 50), (6, 60)]"
  "wq_begun wq_demo_loaded = [(6, 60)]"
  by (simp_all add: wq_demo_loaded_def wq_demo_calls_def wq_run_defs)


lemma wq_demo_reachable: "run wq_step ls wq_demo = Ret s \<Longrightarrow> reachable wq_step wq_init s"
  using run_reachable wq_demo_init reach_init wq_init_def by metis

theorem wq_completes_witness:
  "\<exists>ks t. list_all wq_own ks \<and> run wq_step ks wq_demo_loaded = Ret t \<and> quiescent wq_step wq_own t \<and>
     wq_finished t = mset (wq_submitted t)"
proof -
  have "Wq_shutdown \<notin> set wq_demo_calls" by (simp add: wq_demo_calls_def)
  from wq_completes [OF wq_demo_init wq_demo_loaded_run(1) this] show ?thesis by blast
qed

text \<open>
  C16. The work queue implements the abstract pool with a stack of waiting tasks, also while it is shut
  down: in every reachable state jobs are conserved (each is waiting, taken exactly once, or thrown
  away by a shutdown), and every step is a step of the abstract pool, in which a job is added in front
  and the foremost job is taken.
\<close>

theorem wq_promise:
  assumes "reachable wq_step wq_init s"
  shows "pool_promise Lifo (wq_view s) \<and> (\<forall>l t. wq_step l s = Ret t \<longrightarrow> pool_step Lifo (wq_view s) (wq_view t))"
  using wqv.reachable_promise [OF assms] wqv.view_step [OF wqi.inv_reachable [OF assms]] by blast

theorem wq_promise_witness:
  "pool_promise Lifo (wq_view wq_demo_loaded) \<and> submitted (wq_view wq_demo_loaded) = [(5, 50), (6, 60)] \<and>
   begun (wq_view wq_demo_loaded) = [(6, 60)]"
  using wq_promise [OF wq_demo_reachable [OF wq_demo_loaded_run(1)]]
  by (simp add: wq_view_def wq_demo_loaded_run)

text \<open>
  C27. A worker that leaves its loop keeps \<open>jobs_mutex\<close>: from then on, whatever happens, no other worker
  ends, no job is begun any more, \<open>workqueue_add_job\<close> and the critical section of \<open>workqueue_shutdown\<close>
  wait forever. So a shutdown ends at most one worker.
\<close>

theorem wq_shutdown_stuck:
  assumes "reachable wq_step wq_init s" "w < length (wq_pcs s)" "wq_pcs s ! w \<in> {W_brk, W_exited}"
    and "run wq_step ls s = Ret t"
  shows "wq_begun t = wq_begun s \<and> wq_submitted t = wq_submitted s \<and> wq_discarded t = wq_discarded s \<and>
    (\<forall>v<length (wq_pcs t). wq_pcs t ! v \<in> {W_brk, W_exited} \<longleftrightarrow> v = w) \<and>
    (\<forall>a f d ch. wq_step (Wq_add a f d ch) t = Blocked) \<and>
    (wq_sd t = S_lock \<longrightarrow> wq_step Wq_shutdown t = Blocked)"
proof -
  have "seized w s" using assms(2,3) by (simp add: seized_def)
  then have t: "wq_inv t" "seized w t" "frozen s t"
    using seized_run [OF wqi.inv_reachable [OF assms(1)] _ assms(4)] by blast+
  have m: "jobs_mutex (wq t) = M_held (Worker w)" using seized_mutex [OF t(1,2)] .
  have "v = w" if "v < length (wq_pcs t)" "wq_pcs t ! v \<in> {W_brk, W_exited}" for v
    using seized_mutex [OF t(1), of v] that m by (simp add: seized_def)
  then show ?thesis using t(2,3) m
    by (auto simp: frozen_def seized_def workqueue_add_job_def alloc_job_def)
qed

definition wq_demo_dead :: "(nat, nat) wq_sys" where
  "wq_demo_dead = (case run wq_step [Wq_shutdown, Wq_shutdown, Wq_worker 1] wq_demo of Ret s \<Rightarrow> s)"

lemma wq_demo_dead_run:
  "run wq_step [Wq_shutdown, Wq_shutdown, Wq_worker 1] wq_demo = Ret wq_demo_dead" "wq_pcs wq_demo_dead = [W_lock, W_brk]"
  "wq_step (Wq_worker 1) wq_demo_dead = Ret (wq_goto 1 W_exited (wq_demo_dead\<lparr>wq_blocks := (wq_blocks wq_demo_dead)(1 := None)\<rparr>))"
  "wq_sd wq_demo_dead = S_next (Some 1)"
  by (simp_all add: wq_demo_dead_def wq_run_defs)

theorem wq_shutdown_stuck_witness: "wq_step (Wq_add 10 5 50 None) wq_demo_dead = Blocked"
  using wq_shutdown_stuck [OF wq_demo_reachable [OF wq_demo_dead_run(1)], of 1 "[]" wq_demo_dead] wq_demo_dead_run(2)
  by simp

text \<open>
  Undefined behaviour is possible in one place only: in the walk of \<open>workqueue_shutdown\<close> over the
  list of workers, when it reaches, or stands on, a worker that has already ended and freed its block.
  The workers themselves and \<open>workqueue_add_job\<close> are safe. The witness is an execution in which the
  walk does read a freed block.
\<close>

theorem wq_safe:
  assumes "reachable wq_step wq_init s" "wq_step l s = UB u"
  shows "l = Wq_shutdown \<and> u = Dangling \<and>
    (\<exists>w<length (wq_pcs s). wq_sd s \<in> {S_test (Some w), S_next (Some w)} \<and> wq_pcs s ! w = W_exited)"
proof -
  have "l = Wq_shutdown" using wqs.reachable_safe [OF assms(1)] assms(2) by (auto simp: wq_safe_label_def)
  moreover have "wq_inv s" "walk_ok s" using wqw.inv_reachable [OF assms(1)] by auto
  moreover have "wq_sd s \<in> {S_test (Some w), S_next (Some w)}" if "sd_cursor (wq_sd s) = Some w" for w
    using that by (cases "wq_sd s") auto
  ultimately show ?thesis using shutdown_ub assms(2) by blast
qed

theorem wq_safe_witness:
  "\<exists>s. run wq_step [Wq_shutdown, Wq_shutdown, Wq_worker 1, Wq_worker 1] wq_demo = Ret s \<and>
     wq_step Wq_shutdown s = UB Dangling \<and> (\<exists>w<length (wq_pcs s). wq_pcs s ! w = W_exited)"
proof -
  let ?s = "wq_goto 1 W_exited (wq_demo_dead\<lparr>wq_blocks := (wq_blocks wq_demo_dead)(1 := None)\<rparr>)"
  have "[Wq_shutdown, Wq_shutdown, Wq_worker 1, Wq_worker 1] = [Wq_shutdown, Wq_shutdown, Wq_worker 1] @ [Wq_worker 1]" by simp
  then have run: "run wq_step [Wq_shutdown, Wq_shutdown, Wq_worker 1, Wq_worker 1] wq_demo = Ret ?s"
    using wq_demo_dead_run(1,3) run_append [of wq_step _ "[Wq_worker 1]"] by (metis and_then.simps(1) run.simps)
  have ub: "wq_step Wq_shutdown ?s = UB Dangling" by (simp add: wq_demo_dead_run(4) read_node_def)
  from wq_safe [OF wq_demo_reachable [OF run] ub] run ub show ?thesis by blast
qed

text \<open>
  \<open>workqueue_init\<close> starts \<open>max 1 n\<close> workers; at the first failed \<open>malloc\<close> or \<open>pthread_create\<close>, in
  round \<open>j\<close>, it returns 1, the block of round \<open>j\<close> is not allocated, and the \<open>j\<close> workers of the earlier
  rounds stay: their threads run and their blocks are the list of workers.
\<close>

theorem workqueue_init_result:
  "workqueue_init mem rc n =
     (case find (\<lambda>j. \<not> mem j \<or> rc j \<noteq> 0) [0..<nat (max 1 n)] of
        None \<Rightarrow> Ret (0, started (nat (max 1 n))) | Some j \<Rightarrow> Ret (1, started j)) \<and>
   wq_pcs (started k :: ('f, 'd) wq_sys) = replicate k W_lock \<and> dom (wq_blocks (started k :: ('f, 'd) wq_sys)) = {..<k} \<and>
   list_at ll_next (wq_blocks (started k :: ('f, 'd) wq_sys)) (workers (wq (started k :: ('f, 'd) wq_sys))) (rev [0..<k])"
proof (intro conjI)
  show "list_at ll_next (wq_blocks (started k :: ('f, 'd) wq_sys)) (workers (wq (started k :: ('f, 'd) wq_sys))) (rev [0..<k])"
    by (rule started_workers [OF refl])
qed (auto simp: workqueue_init_started started_def split: if_splits)

end
