(* ===== verification/Echoserver_Theorems.thy ===== *)
theory Echoserver_Theorems
  imports Echoserver Workqueue_Theorems
begin

text \<open>
  The echo server gives back what it takes: every failing path of \<open>on_accept\<close> releases what it had
  created, the job of a client releases the client whatever the callbacks did, and the data read from a
  client is what is queued for it.
\<close>

section \<open>Releasing a client\<close>

lemma closeClient_eq:
  assumes "e_clients s p = Some c"
  shows "closeClient (Some p) s =
    Ret (if 0 \<le> client_fd c
         then s\<lparr>e_os := sys_close (client_fd c) (e_os s), e_clients := (e_clients s)(p \<mapsto> c\<lparr>client_fd := - 1\<rparr>)\<rparr> else s)"
  using assms by (simp add: closeClient_def)

text \<open>What is left of libevent when the members of a client have been freed in the order of the code.\<close>

definition drop_opt :: "(addr \<Rightarrow> 'ev \<Rightarrow> 'ev) \<Rightarrow> addr option \<Rightarrow> 'ev \<Rightarrow> 'ev" where
  "drop_opt f p e = (case p of None \<Rightarrow> e | Some x \<Rightarrow> f x e)"

definition released :: "'ev libevent \<Rightarrow> client_t \<Rightarrow> 'ev \<Rightarrow> 'ev" where
  "released L c e = drop_opt (evbuffer_free L) (client_output_buffer c)
     (drop_opt (event_base_free L) (client_evbase c) (drop_opt (bufferevent_free L) (client_buf_ev c) e))"

lemma free_member_eq:
  assumes "e_clients s p = Some c"
  shows "free_member get upd f (Some p) s =
    Ret (s\<lparr>e_ev := drop_opt f (get c) (e_ev s), e_clients := (e_clients s)(p \<mapsto> (if get c = None then c else upd (\<lambda>_. None) c))\<rparr>)"
  using assms by (cases "get c") (auto simp: free_member_def drop_opt_def fun_upd_idem)

lemma closeAndFreeClient_eq:
  assumes "e_clients s p = Some c"
  shows "closeAndFreeClient L (Some p) s =
    Ret (s\<lparr>e_os := (if 0 \<le> client_fd c then sys_close (client_fd c) (e_os s) else e_os s),
           e_clients := (e_clients s)(p := None), e_ev := released L c (e_ev s)\<rparr>)"
  using assms
  by (simp add: closeAndFreeClient_def closeClient_eq free_member_eq [where p = p] released_def)

definition objects :: "client_t \<Rightarrow> addr list" where
  "objects c = List.map_filter (\<lambda>x. x) [client_buf_ev c, client_evbase c, client_output_buffer c]"

definition client_ok :: "('ev \<Rightarrow> addr set) \<Rightarrow> client_t \<Rightarrow> 'ev echo \<Rightarrow> bool" where
  "client_ok live c s \<longleftrightarrow>
     (0 \<le> client_fd c \<longrightarrow> client_fd c \<in> dom (fds (e_os s))) \<and>
     distinct (objects c) \<and> set (objects c) \<subseteq> live (e_ev s)"

context libevent_laws
begin

lemma live_released:
  assumes "distinct (objects c)" "set (objects c) \<subseteq> live e"
  shows "live (released L c e) = live e - set (objects c)"
  using assms
  by (cases "client_buf_ev c"; cases "client_evbase c"; cases "client_output_buffer c")
    (auto simp: released_def drop_opt_def objects_def List.map_filter_def evbuffer_free event_base_free bufferevent_free)

lemma read_loop_frame:
  "read_loop L bev out k e = Some e' \<Longrightarrow> live e' = live e \<and> queued bev e' = queued bev e"
proof (induction k arbitrary: e)
  case 0
  then show ?case by simp
next
  case (Suc k)
  obtain data e1 where r: "input_remove L bev (nat (min 4096 (int_of_size (input_length L bev e)))) e = (data, e1)" by fastforce
  obtain x e2 where a: "evbuffer_add L out data e1 = (x, e2)" by fastforce
  have "live e2 = live e" "queued bev e2 = queued bev e"
    using input_remove [OF r] evbuffer_add [OF a] by auto
  with Suc r a show ?case by (auto simp: Let_def min_def split: if_splits)
qed

lemma read_loop_returns:
  "length (input bev e) < k \<Longrightarrow> \<exists>e'. read_loop L bev out k e = Some e'"
proof (induction k arbitrary: e)
  case 0
  then show ?case by simp
next
  case (Suc k)
  let ?n = "int_of_size (length (input bev e))"
  obtain data e1 where r: "input_remove L bev (nat (min 4096 ?n)) e = (data, e1)" by fastforce
  obtain x e2 where a: "evbuffer_add L out data e1 = (x, e2)" by fastforce
  have "length (input bev e2) < k" if "0 < ?n"
  proof -
    have "input bev e \<noteq> []" using that by (auto simp: int_of_size_small)
    moreover have "input bev e2 = drop (nat (min 4096 ?n)) (input bev e)"
      using input_remove [OF r] evbuffer_add [OF a] by simp
    ultimately show ?thesis using that Suc.prems by (cases "input bev e") auto
  qed
  with Suc.IH [of e2] r a show ?case by (auto simp: input_length Let_def min_def split: if_splits)
qed

lemma read_loop_copies:
  assumes "\<And>b data e. fst (evbuffer_add L b data e) = 0"
  shows "read_loop L bev out k e = Some e' \<Longrightarrow> length (input bev e) < 2147483648 \<Longrightarrow>
    content out e' = content out e @ input bev e \<and> input bev e' = []"
proof (induction k arbitrary: e)
  case 0
  then show ?case by simp
next
  case (Suc k)
  let ?n = "int (length (input bev e))"
  have n: "int_of_size (length (input bev e)) = ?n" using Suc.prems(2) by (rule int_of_size_small)
  obtain data e1 where r: "input_remove L bev (nat (min 4096 ?n)) e = (data, e1)" by fastforce
  obtain x e2 where a: "evbuffer_add L out data e1 = (x, e2)" by fastforce
  have x: "x = 0" using assms [of out data e1] a by simp
  let ?m = "nat (min 4096 ?n)"
  have e2: "content out e2 = content out e @ take ?m (input bev e)" "input bev e2 = drop ?m (input bev e)"
    using input_remove [OF r, of out] evbuffer_add [OF a, of bev] x by auto
  show ?case
  proof (cases "input bev e = []")
    case True
    with Suc.prems n show ?thesis by (simp add: input_length)
  next
    case False
    then have "read_loop L bev out k e2 = Some e'"
      using Suc.prems r a n by (auto simp: input_length Let_def min_def split: if_splits)
    then show ?thesis using Suc.IH [of e2] Suc.prems(2) e2 by simp
  qed
qed

text \<open>While the loop of a client runs, nothing changes but the buffers, and the client may be closed once.\<close>

definition serving_of :: "addr \<Rightarrow> client_t \<Rightarrow> 'ev echo \<Rightarrow> 'ev echo \<Rightarrow> bool" where
  "serving_of p c s t \<longleftrightarrow>
     (e_clients t = e_clients s \<and> e_os t = e_os s \<or>
      0 \<le> client_fd c \<and> e_clients t = (e_clients s)(p \<mapsto> c\<lparr>client_fd := - 1\<rparr>) \<and> e_os t = sys_close (client_fd c) (e_os s)) \<and>
     live (e_ev t) = live (e_ev s) \<and> e_wq t = e_wq s"

lemma serving_of_client:
  assumes "serving_of p c s u" "e_clients s p = Some c"
  obtains c' where "e_clients u p = Some c'" "client_output_buffer c' = client_output_buffer c"
    "0 \<le> client_fd c' \<longrightarrow> c' = c \<and> e_clients u = e_clients s \<and> e_os u = e_os s"
  using assms by (auto simp: serving_of_def)

lemma serving_of_ev: "serving_of p c s u \<Longrightarrow> live e = live (e_ev u) \<Longrightarrow> serving_of p c s (u\<lparr>e_ev := e\<rparr>)"
  by (auto simp: serving_of_def)

lemma closeClient_serving:
  assumes "serving_of p c s u" "e_clients s p = Some c"
  shows "\<exists>v. closeClient (Some p) u = Ret v \<and> serving_of p c s v"
proof -
  from assms obtain c' where c': "e_clients u p = Some c'" "client_output_buffer c' = client_output_buffer c"
    "0 \<le> client_fd c' \<longrightarrow> c' = c \<and> e_clients u = e_clients s \<and> e_os u = e_os s" by (rule serving_of_client)
  show ?thesis using closeClient_eq [OF c'(1)] c'(3) assms(1) by (auto simp: serving_of_def)
qed

lemma callback_serving:
  assumes "serving_of p c s u" "e_clients s p = Some c" "client_output_buffer c = Some out"
  shows "\<exists>v. run_callback L bev p cb u = Ret v \<and> serving_of p c s v"
proof (cases cb)
  case On_read
  from assms(1,2) obtain c' where c': "e_clients u p = Some c'" "client_output_buffer c' = client_output_buffer c"
    using serving_of_client by metis
  obtain e where e: "read_loop L bev out (Suc (input_length L bev (e_ev u))) (e_ev u) = Some e"
    using read_loop_returns [of bev "e_ev u" "Suc (input_length L bev (e_ev u))" out] input_length by auto
  obtain r e' where w: "bufferevent_write_buffer L bev out e = (r, e')" by fastforce
  have "live e' = live (e_ev u)" using bufferevent_write_buffer [OF w] read_loop_frame [OF e] by simp
  then have v: "serving_of p c s (u\<lparr>e_ev := e'\<rparr>)" using serving_of_ev [OF assms(1)] by simp
  have "run_callback L bev p cb u = (if r \<noteq> 0 then closeClient (Some p) (u\<lparr>e_ev := e'\<rparr>) else Ret (u\<lparr>e_ev := e'\<rparr>))"
    using c' assms(3) e w by (simp add: run_callback_def On_read buffered_on_read_def)
  then show ?thesis using closeClient_serving [OF v assms(2)] v by auto
next
  case On_error
  then show ?thesis using closeClient_serving [OF assms(1,2)] by (simp add: run_callback_def buffered_on_error_def)
next
  case On_write
  then show ?thesis using assms(1) by (simp add: run_callback_def buffered_on_write_def)
qed

lemma dispatch_serving:
  assumes "serving_of p c s u" "e_clients s p = Some c" "client_output_buffer c = Some out"
  shows "\<exists>v. event_base_dispatch L bev p cbs u = Ret v \<and> serving_of p c s v"
  using assms(1)
proof (induction cbs arbitrary: u)
  case Nil
  then show ?case by simp
next
  case (Cons cb cbs)
  let ?u = "u\<lparr>e_ev := loop_turn L bev (e_ev u)\<rparr>"
  have "serving_of p c s ?u" using Cons.prems live_settings(4) by (intro serving_of_ev) auto
  then obtain v where "run_callback L bev p cb ?u = Ret v" "serving_of p c s v"
    using callback_serving [OF _ assms(2,3)] by blast
  with Cons.IH show ?case by simp
qed

lemma objects_fd [simp]: "objects (c\<lparr>client_fd := x\<rparr>) = objects c"
  by (simp add: objects_def)

lemma released_fd [simp]: "released L (c\<lparr>client_fd := x\<rparr>) e = released L c e"
  by (simp add: released_def)

lemma server_job_releases:
  assumes "wq_jobs (e_wq s) j = Some job" "user_data job = p" "e_clients s p = Some c" "client_ok live c s"
    and "client_buf_ev c = Some bev" "client_output_buffer c = Some out"
  shows "\<exists>t. server_job_function L cbs (Some j) s = Ret t \<and> e_clients t = (e_clients s)(p := None) \<and>
    e_os t = (if 0 \<le> client_fd c then sys_close (client_fd c) (e_os s) else e_os s) \<and>
    live (e_ev t) = live (e_ev s) - set (objects c) \<and> e_wq t = (e_wq s)\<lparr>wq_jobs := (wq_jobs (e_wq s))(j := None)\<rparr>"
proof -
  have "serving_of p c s s" by (simp add: serving_of_def)
  then obtain v where v: "event_base_dispatch L bev p cbs s = Ret v" "serving_of p c s v"
    using dispatch_serving [OF _ assms(3,6)] by blast
  define c' where "c' = the (e_clients v p)"
  have c': "e_clients v p = Some c'" "objects c' = objects c" "released L c' = released L c"
    "(e_clients v)(p := None) = (e_clients s)(p := None)"
    "(if 0 \<le> client_fd c' then sys_close (client_fd c') (e_os v) else e_os v) =
     (if 0 \<le> client_fd c then sys_close (client_fd c) (e_os s) else e_os s)"
    using v(2) assms(3) by (auto simp: serving_of_def c'_def fun_eq_iff)
  have "live (released L c (e_ev v)) = live (e_ev s) - set (objects c)"
    using live_released [of c "e_ev v"] assms(4) v(2) by (auto simp: client_ok_def serving_of_def)
  moreover have "e_wq v = e_wq s" using v(2) by (simp add: serving_of_def)
  ultimately show ?thesis
    using assms c'(5) v(1) unfolding server_job_function_def
    by (simp add: closeAndFreeClient_eq [OF c'(1)] c'(3,4))
qed

section \<open>Accepting\<close>

text \<open>The two results of a call of \<open>on_accept\<close> that returns after the descriptor \<open>fd\<close> was accepted.\<close>

definition no_trace :: "'ev echo \<Rightarrow> 'ev echo \<Rightarrow> bool" where
  "no_trace s t \<longleftrightarrow> e_os t = e_os s \<and> e_clients t = e_clients s \<and> live (e_ev t) = live (e_ev s) \<and> e_wq t = e_wq s"

definition handed_over :: "answers \<Rightarrow> 'ev echo \<Rightarrow> 'ev echo \<Rightarrow> bool" where
  "handed_over ans s t \<longleftrightarrow>
     (\<exists>p j out base bev fl.
        a_client ans = Some p \<and> a_job ans = Some j \<and> fl AND O_NONBLOCK = O_NONBLOCK \<and>
        fds (e_os t) = (fds (e_os s))(a_accept ans \<mapsto> fl) \<and> stray_closes (e_os t) = stray_closes (e_os s) \<and>
        e_clients t = (e_clients s)(p \<mapsto> \<lparr>client_fd = a_accept ans, client_evbase = Some base, client_buf_ev = Some bev,
           client_output_buffer = Some out\<rparr>) \<and>
        distinct [bev, base, out] \<and> live (e_ev s) \<inter> {bev, base, out} = {} \<and>
        live (e_ev t) = live (e_ev s) \<union> {bev, base, out} \<and>
        wq_step (Wq_add j Server_job_function p (a_wakes ans)) (e_wq s) = Ret (e_wq t))"

text \<open>
  The state between the stages: \<open>u\<close> is \<open>s\<close> plus the descriptor and the client \<open>p\<close> with some of its
  objects. Giving up from here leads back to \<open>s\<close>.
\<close>

definition stage :: "answers \<Rightarrow> addr \<Rightarrow> client_t \<Rightarrow> 'ev echo \<Rightarrow> 'ev echo \<Rightarrow> bool" where
  "stage ans p c s u \<longleftrightarrow>
     (\<exists>fl. fl AND O_NONBLOCK = O_NONBLOCK \<and> e_os u = (e_os s)\<lparr>fds := (fds (e_os s))(a_accept ans \<mapsto> fl)\<rparr>) \<and>
     e_clients s p = None \<and> e_clients u = (e_clients s)(p \<mapsto> c) \<and> client_fd c = a_accept ans \<and> 0 \<le> a_accept ans \<and>
     fds (e_os s) (a_accept ans) = None \<and>
     distinct (objects c) \<and> live (e_ev s) \<inter> set (objects c) = {} \<and> live (e_ev u) = live (e_ev s) \<union> set (objects c) \<and>
     e_wq u = e_wq s"

lemma give_up:
  assumes "stage ans p c s u"
  shows "\<exists>t. closeAndFreeClient L (Some p) u = Ret t \<and> no_trace s t"
proof -
  from assms obtain fl where fl: "e_os u = (e_os s)\<lparr>fds := (fds (e_os s))(a_accept ans \<mapsto> fl)\<rparr>" by (auto simp: stage_def)
  have c: "e_clients u p = Some c" "client_fd c = a_accept ans" "0 \<le> a_accept ans" using assms by (auto simp: stage_def)
  have "sys_close (a_accept ans) (e_os u) = e_os s"
    using assms by (cases "e_os s") (auto simp: fl sys_close_def stage_def fun_upd_idem)
  moreover have "(e_clients u)(p := None) = e_clients s" using assms by (auto simp: stage_def fun_upd_idem)
  moreover have "live (released L c (e_ev u)) = live (e_ev s)"
    using live_released [of c "e_ev u"] assms by (auto simp: stage_def)
  ultimately show ?thesis using closeAndFreeClient_eq [OF c(1)] c(2,3) assms by (simp add: no_trace_def stage_def)
qed

lemma stage_set:
  assumes "stage ans p c s u" "client_fd (f c) = client_fd c"
    and "distinct (objects (f c))" "live (e_ev s) \<inter> set (objects (f c)) = {}" "live e = live (e_ev s) \<union> set (objects (f c))"
  shows "\<exists>v. set_client p f (u\<lparr>e_ev := e\<rparr>) = Ret v \<and> stage ans p (f c) s v \<and> e_ev v = e"
  using assms by (auto simp: set_client_def stage_def)

text \<open>The stages in the order of the code; each either gives up or goes on.\<close>

definition accept_ok :: "answers \<Rightarrow> 'ev echo \<Rightarrow> 'ev echo outcome \<Rightarrow> bool" where
  "accept_ok ans s m \<longleftrightarrow>
     (\<exists>t. m = Ret t \<and> (no_trace s t \<or> handed_over ans s t)) \<or>
     m = Blocked \<and> (jobs_mutex (wq (e_wq s)) \<noteq> M_free \<or> \<not> cond_signal_ok W_wait (a_wakes ans) (wq_pcs (e_wq s)))"

lemma give_up_ok: "stage ans p c s u \<Longrightarrow> accept_ok ans s (closeAndFreeClient L (Some p) u)"
  unfolding accept_ok_def using give_up by blast

lemma add_job_ok:
  assumes "stage ans p \<lparr>client_fd = a_accept ans, client_evbase = Some base, client_buf_ev = Some bev, client_output_buffer = Some out\<rparr> s u"
    and "a_client ans = Some p" "a_job ans = Some j" "wq_jobs (e_wq s) j = None" "wq_inv (e_wq s)"
  shows "accept_ok ans s (add_job ans j p u)"
proof -
  have wq: "e_wq u = e_wq s" using assms(1) by (simp add: stage_def)
  have m: "jobs_mutex (wq (e_wq s)) \<noteq> M_uninit" "jobs_mutex (wq (e_wq s)) \<noteq> M_destroyed"
    using wq_inv_parts(1) [OF assms(5)] by (auto simp: lock_ok_def)
  show ?thesis
  proof (cases "jobs_mutex (wq (e_wq s)) = M_free \<and> cond_signal_ok W_wait (a_wakes ans) (wq_pcs (e_wq s))")
    case True
    then obtain q where q: "wq_step (Wq_add j Server_job_function p (a_wakes ans)) (e_wq s) = Ret q"
      using assms(4) by (simp add: workqueue_add_job_def alloc_job_def LL_ADD_eq)
    then have "add_job ans j p u = Ret (u\<lparr>e_wq := q\<rparr>)" using assms(4) wq by (simp add: add_job_def)
    moreover have "handed_over ans s (u\<lparr>e_wq := q\<rparr>)"
      using assms(1-3) q unfolding handed_over_def stage_def objects_def List.map_filter_def by fastforce
    ultimately show ?thesis by (auto simp: accept_ok_def)
  next
    case False
    then show ?thesis using m wq
      by (cases "jobs_mutex (wq (e_wq s))") (auto simp: add_job_def workqueue_add_job_def alloc_job_def LL_ADD_eq accept_ok_def)
  qed
qed

lemma objects_simps [simp]:
  "objects \<lparr>client_fd = fd, client_evbase = x, client_buf_ev = y, client_output_buffer = z\<rparr> =
     List.map_filter (\<lambda>x. x) [y, x, z]"
  "List.map_filter (\<lambda>x. x) (None # xs) = List.map_filter (\<lambda>x. x) xs"
  "List.map_filter (\<lambda>x. x) (Some x # xs) = x # List.map_filter (\<lambda>x. x) xs"
  "List.map_filter (\<lambda>x. x) [] = []"
  by (simp_all add: objects_def List.map_filter_def)

lemma accept_job_ok:
  assumes "stage ans p \<lparr>client_fd = a_accept ans, client_evbase = Some base, client_buf_ev = Some bev, client_output_buffer = Some out\<rparr> s u"
    and "a_client ans = Some p" "\<And>j. a_job ans = Some j \<Longrightarrow> wq_jobs (e_wq s) j = None" "wq_inv (e_wq s)"
  shows "accept_ok ans s (accept_job L ans p u)"
  using give_up_ok [OF assms(1)] add_job_ok [OF assms(1,2) _ _ assms(4)] assms(3)
  by (simp add: accept_job_def split: option.splits)

lemma accept_bufferevent_ok:
  assumes "stage ans p \<lparr>client_fd = a_accept ans, client_evbase = Some base, client_buf_ev = None, client_output_buffer = Some out\<rparr> s u"
    and "a_client ans = Some p" "\<And>j. a_job ans = Some j \<Longrightarrow> wq_jobs (e_wq s) j = None" "wq_inv (e_wq s)"
  shows "accept_ok ans s (accept_bufferevent L ans p base u)"
proof -
  obtain b e where b: "bufferevent_new L (a_accept ans) p (e_ev u) = (b, e)" by fastforce
  let ?f = "client_buf_ev_update (\<lambda>_. b)"
  have lu: "live (e_ev u) = live (e_ev s) \<union> {base, out}" "base \<noteq> out" "live (e_ev s) \<inter> {base, out} = {}"
    using assms(1) by (auto simp: stage_def)
  obtain v where v: "set_client p ?f (u\<lparr>e_ev := e\<rparr>) = Ret v"
      "stage ans p \<lparr>client_fd = a_accept ans, client_evbase = Some base, client_buf_ev = b, client_output_buffer = Some out\<rparr> s v" "e_ev v = e"
    using stage_set [OF assms(1), of ?f e] lu bufferevent_new_Some [of "a_accept ans" p "e_ev u" _ e]
      bufferevent_new_None [of "a_accept ans" p "e_ev u" e] b by (cases b) auto
  show ?thesis
  proof (cases b)
    case None
    with v give_up_ok [OF v(2)] b show ?thesis by (simp add: accept_bufferevent_def)
  next
    case (Some bev)
    let ?e = "bufferevent_enable L bev (bufferevent_settimeout L bev SOCKET_READ_TIMEOUT_SECONDS SOCKET_WRITE_TIMEOUT_SECONDS
        (bufferevent_base_set L base bev e))"
    have "stage ans p \<lparr>client_fd = a_accept ans, client_evbase = Some base, client_buf_ev = Some bev, client_output_buffer = Some out\<rparr>
        s (v\<lparr>e_ev := ?e\<rparr>)"
      using v(2,3) Some by (simp add: stage_def live_settings)
    from accept_job_ok [OF this assms(2,3,4)] show ?thesis using v b Some by (simp add: accept_bufferevent_def)
  qed
qed

lemma accept_evbase_ok:
  assumes "stage ans p \<lparr>client_fd = a_accept ans, client_evbase = None, client_buf_ev = None, client_output_buffer = Some out\<rparr> s u"
    and "a_client ans = Some p" "\<And>j. a_job ans = Some j \<Longrightarrow> wq_jobs (e_wq s) j = None" "wq_inv (e_wq s)"
  shows "accept_ok ans s (accept_evbase L ans p u)"
proof -
  obtain b e where b: "event_base_new L (e_ev u) = (b, e)" by fastforce
  let ?f = "client_evbase_update (\<lambda>_. b)"
  have lu: "live (e_ev u) = live (e_ev s) \<union> {out}" "live (e_ev s) \<inter> {out} = {}"
    using assms(1) by (auto simp: stage_def)
  obtain v where v: "set_client p ?f (u\<lparr>e_ev := e\<rparr>) = Ret v"
      "stage ans p \<lparr>client_fd = a_accept ans, client_evbase = b, client_buf_ev = None, client_output_buffer = Some out\<rparr> s v"
    using stage_set [OF assms(1), of ?f e] lu event_base_new_Some [of "e_ev u" _ e]
      event_base_new_None [of "e_ev u" e] b by (cases b) auto
  show ?thesis
  proof (cases b)
    case None
    with v give_up_ok [OF v(2)] b show ?thesis by (simp add: accept_evbase_def)
  next
    case (Some base)
    with accept_bufferevent_ok [OF v(2) [unfolded Some] assms(2,3,4)] v b show ?thesis by (simp add: accept_evbase_def)
  qed
qed

lemma accept_client_ok:
  assumes "fl AND O_NONBLOCK = O_NONBLOCK" "u = s\<lparr>e_os := (e_os s)\<lparr>fds := (fds (e_os s))(a_accept ans \<mapsto> fl)\<rparr>\<rparr>"
    and "0 \<le> a_accept ans" "fds (e_os s) (a_accept ans) = None" "e_clients s p = None"
    and "a_client ans = Some p" "\<And>j. a_job ans = Some j \<Longrightarrow> wq_jobs (e_wq s) j = None" "wq_inv (e_wq s)"
  shows "accept_ok ans s (accept_client L ans p u)"
proof -
  let ?c = "\<lparr>client_fd = a_accept ans, client_evbase = None, client_buf_ev = None, client_output_buffer = None\<rparr>"
  let ?u = "u\<lparr>e_clients := (e_clients u)(p \<mapsto> ?c)\<rparr>"
  have st: "stage ans p ?c s ?u" using assms(1-5) by (auto simp: stage_def)
  obtain b e where b: "evbuffer_new L (e_ev s) = (b, e)" by fastforce
  let ?f = "client_output_buffer_update (\<lambda>_. b)"
  obtain v where v: "set_client p ?f (?u\<lparr>e_ev := e\<rparr>) = Ret v"
      "stage ans p \<lparr>client_fd = a_accept ans, client_evbase = None, client_buf_ev = None, client_output_buffer = b\<rparr> s v"
    using stage_set [OF st, of ?f e] evbuffer_new_Some [of "e_ev s" _ e] evbuffer_new_None [of "e_ev s" e] b
    by (cases b) auto
  have e: "e_ev u = e_ev s" using assms(2) by simp
  show ?thesis
  proof (cases b)
    case None
    with v(1) give_up_ok [OF v(2)] b e show ?thesis by (simp add: accept_client_def)
  next
    case (Some out)
    with accept_evbase_ok [OF v(2) [unfolded Some] assms(6-8)] v(1) b e show ?thesis by (simp add: accept_client_def)
  qed
qed

lemma on_accept_ok:
  assumes "possible ans s" "wq_inv (e_wq s)"
  shows "accept_ok ans s (on_accept L ans s)"
proof (cases "a_accept ans < 0")
  case True
  then show ?thesis by (simp add: on_accept_def accept_ok_def no_trace_def)
next
  case False
  then have fd: "0 \<le> a_accept ans" "fds (e_os s) (a_accept ans) = None" using assms(1) by (auto simp: possible_def)
  have j: "wq_jobs (e_wq s) j = None" if "a_job ans = Some j" for j using assms(1) that by (simp add: possible_def)
  let ?os = "sys_open (a_accept ans) (e_os s)"
  obtain r os where r: "setnonblock (a_getfl ans) (a_setfl ans) (a_accept ans) ?os = (r, os)" by fastforce
  have os: "\<exists>fl. os = (e_os s)\<lparr>fds := (fds (e_os s))(a_accept ans \<mapsto> fl)\<rparr>"
    using setnonblock_fds [OF r] fd by (auto simp: sys_open_def)
  then have cl: "sys_close (a_accept ans) os = e_os s"
    using fd by (cases "e_os s") (auto simp: sys_close_def fun_upd_idem)
  show ?thesis
  proof (cases "r < 0 \<or> a_client ans = None")
    case True
    then show ?thesis using False r cl by (auto simp: on_accept_def Let_def accept_ok_def no_trace_def)
  next
    case ok: False
    then obtain p where p: "a_client ans = Some p" "0 \<le> r" by auto
    obtain fl where fl: "os = (e_os s)\<lparr>fds := (fds (e_os s))(a_accept ans \<mapsto> fl)\<rparr>" "fl AND O_NONBLOCK = O_NONBLOCK"
      using os setnonblock_sets [OF r p(2)] by auto
    have "accept_ok ans s (accept_client L ans p (s\<lparr>e_os := os\<rparr>))"
      using accept_client_ok [OF fl(2) _ fd _ p(1) j assms(2)] fl(1) assms(1) p(1) by (simp add: possible_def)
    then show ?thesis using False ok r p by (simp add: on_accept_def Let_def)
  qed
qed

section \<open>The running server\<close>

text \<open>
  The books: \<open>F\<close> are the descriptors and \<open>V\<close> the libevent objects from before the first connection. Every
  client belongs to one job that is not completed; what is open or allocated beyond \<open>F\<close> and \<open>V\<close> belongs to
  exactly one client.
\<close>

definition exclusive :: "int set \<Rightarrow> addr set \<Rightarrow> client_t \<Rightarrow> bool" where
  "exclusive F V c \<longleftrightarrow> client_buf_ev c \<noteq> None \<and> client_evbase c \<noteq> None \<and> client_output_buffer c \<noteq> None \<and>
     distinct (objects c) \<and> set (objects c) \<inter> V = {} \<and> 0 \<le> client_fd c \<and> client_fd c \<notin> F"

definition books :: "int set \<Rightarrow> addr set \<Rightarrow> nat \<Rightarrow> 'ev echo \<Rightarrow> bool" where
  "books F V n s \<longleftrightarrow>
     reachable wq_step wq_init (e_wq s) \<and> wq_discarded (e_wq s) = [] \<and>
     finite (dom (e_clients s)) \<and>
     image_mset snd (mset (wq_submitted (e_wq s)) - wq_finished (e_wq s)) = mset_set (dom (e_clients s)) \<and>
     (\<forall>c\<in>ran (e_clients s). exclusive F V c) \<and>
     (\<forall>p q c d. p \<noteq> q \<longrightarrow> e_clients s p = Some c \<longrightarrow> e_clients s q = Some d \<longrightarrow>
        set (objects c) \<inter> set (objects d) = {} \<and> client_fd c \<noteq> client_fd d) \<and>
     dom (fds (e_os s)) = F \<union> client_fd ` ran (e_clients s) \<and>
     live (e_ev s) = V \<union> (\<Union>c\<in>ran (e_clients s). set (objects c)) \<and>
     stray_closes (e_os s) = n"

lemma books_parts:
  assumes "books F V n s"
  shows "reachable wq_step wq_init (e_wq s)" "wq_discarded (e_wq s) = []" "finite (dom (e_clients s))"
    "image_mset snd (mset (wq_submitted (e_wq s)) - wq_finished (e_wq s)) = mset_set (dom (e_clients s))"
    "\<forall>c\<in>ran (e_clients s). exclusive F V c"
    "\<forall>p q c d. p \<noteq> q \<longrightarrow> e_clients s p = Some c \<longrightarrow> e_clients s q = Some d \<longrightarrow>
        set (objects c) \<inter> set (objects d) = {} \<and> client_fd c \<noteq> client_fd d"
    "dom (fds (e_os s)) = F \<union> client_fd ` ran (e_clients s)"
    "live (e_ev s) = V \<union> (\<Union>c\<in>ran (e_clients s). set (objects c))" "stray_closes (e_os s) = n"
  using assms unfolding books_def by - (elim conjE, assumption)+

lemma books_wq:
  assumes "books F V n s" "wq_step l (e_wq s) = Ret q" "wq_submitted q = wq_submitted (e_wq s)"
    "wq_finished q = wq_finished (e_wq s)" "wq_discarded q = wq_discarded (e_wq s)"
  shows "books F V n (s\<lparr>e_wq := q\<rparr>)"
  using assms reach_step by (auto simp: books_def)

lemma worker_frame:
  assumes "wq_inv q" "wq_step l q = Ret q'" "l \<in> range Wq_worker \<union> range Wq_spurious"
  shows "wq_submitted q' = wq_submitted q \<and> wq_finished q' = wq_finished q \<and> wq_discarded q' = wq_discarded q"
proof -
  consider w where "l = Wq_worker w" | w where "l = Wq_spurious w" using assms(3) by blast
  then show ?thesis
  proof cases
    case (1 w)
    with assms(2) have w: "w < length (wq_pcs q)" "worker_function w (wq_pcs q ! w) q = Ret q'" by (auto split: if_splits)
    from w(2,1) assms(1) show ?thesis by (cases rule: worker_function_cases) (auto simp: taken_def)
  next
    case (2 w)
    with assms(2) show ?thesis by (auto split: if_splits)
  qed
qed

lemma books_worker:
  assumes "books F V n s" "lift_wq l s = Ret t" "l \<in> range Wq_worker \<union> range Wq_spurious"
  shows "books F V n t"
proof -
  from assms(2) obtain q where q: "wq_step l (e_wq s) = Ret q" "t = s\<lparr>e_wq := q\<rparr>"
    by (auto simp: lift_wq_def outcome_simps)
  have "wq_inv (e_wq s)" using assms(1) wqi.inv_reachable by (auto simp: books_def)
  from worker_frame [OF this q(1) assms(3)] show ?thesis using books_wq [OF assms(1) q(1)] q(2) by simp
qed

lemma finished_submitted:
  assumes "reachable wq_step wq_init q" "wq_discarded q = []"
  shows "wq_finished q \<subseteq># mset (wq_submitted q)"
    "mset (wq_submitted q) - wq_finished q = mset (pending (wq_view q)) + running (wq_view q)"
proof -
  have c: "mset (wq_submitted q) = running (wq_view q) + wq_finished q + mset (pending (wq_view q))"
    using wqv.reachable_promise [OF assms(1)] assms(2) by (simp add: pool_promise_def conserved_def wq_view_def)
  then show "wq_finished q \<subseteq># mset (wq_submitted q)" by simp
  show "mset (wq_submitted q) - wq_finished q = mset (pending (wq_view q)) + running (wq_view q)"
    using c by (simp add: ac_simps)
qed

lemma books_accept:
  assumes "books F V n s" "handed_over ans s t" "possible ans s" "0 \<le> a_accept ans"
  shows "books F V n t"
proof -
  from assms(2) obtain p j out base bev fl where h:
      "a_client ans = Some p" "a_job ans = Some j" "fds (e_os t) = (fds (e_os s))(a_accept ans \<mapsto> fl)"
      "stray_closes (e_os t) = stray_closes (e_os s)"
      "e_clients t = (e_clients s)(p \<mapsto> \<lparr>client_fd = a_accept ans, client_evbase = Some base, client_buf_ev = Some bev,
         client_output_buffer = Some out\<rparr>)"
      "distinct [bev, base, out]" "live (e_ev s) \<inter> {bev, base, out} = {}"
      "live (e_ev t) = live (e_ev s) \<union> {bev, base, out}"
      "wq_step (Wq_add j Server_job_function p (a_wakes ans)) (e_wq s) = Ret (e_wq t)"
    unfolding handed_over_def by (elim exE conjE) (rule that; assumption)
  let ?c = "\<lparr>client_fd = a_accept ans, client_evbase = Some base, client_buf_ev = Some bev, client_output_buffer = Some out\<rparr>"
  have fresh: "e_clients s p = None" "fds (e_os s) (a_accept ans) = None"
    using assms(3,4) h(1) by (auto simp: possible_def)
  note b = books_parts [OF assms(1)]
  from h(9) have q: "wq_submitted (e_wq t) = wq_submitted (e_wq s) @ [(Server_job_function, p)]"
      "wq_finished (e_wq t) = wq_finished (e_wq s)" "wq_discarded (e_wq t) = wq_discarded (e_wq s)"
    by (cases rule: workqueue_add_job_cases; simp)+
  have "wq_finished (e_wq s) \<subseteq># mset (wq_submitted (e_wq s))" using finished_submitted(1) [OF b(1,2)] .
  then have "mset (wq_submitted (e_wq t)) - wq_finished (e_wq t) =
      add_mset (Server_job_function, p) (mset (wq_submitted (e_wq s)) - wq_finished (e_wq s))"
    using multiset_diff_union_assoc [of "wq_finished (e_wq s)" "mset (wq_submitted (e_wq s))" "{#(Server_job_function, p)#}"] by (simp add: q)
  then have jobs: "image_mset snd (mset (wq_submitted (e_wq t)) - wq_finished (e_wq t)) = mset_set (dom (e_clients t))"
    using b(3,4) fresh(1) by (simp add: h(5) domIff)
  have ran: "ran (e_clients t) = insert ?c (ran (e_clients s))" using fresh(1) by (simp add: h(5) ran_map_upd)
  have "a_accept ans \<notin> dom (fds (e_os s))" using fresh(2) by auto
  then have nf: "a_accept ans \<notin> F" "a_accept ans \<notin> client_fd ` ran (e_clients s)" by (simp_all add: b(7))
  have fd: "client_fd c \<noteq> a_accept ans" if "c \<in> ran (e_clients s)" for c using imageI [OF that, of client_fd] nf(2) by metis
  have ob: "set (objects ?c) \<inter> V = {}" "\<And>c. c \<in> ran (e_clients s) \<Longrightarrow> set (objects c) \<inter> set (objects ?c) = {}"
    using b(8) h(7) by auto
  have ex: "exclusive F V ?c" using ob(1) nf(1) h(6) assms(4) by (simp add: exclusive_def)
  have pair: "set (objects c) \<inter> set (objects d) = {} \<and> client_fd c \<noteq> client_fd d"
    if "p' \<noteq> q'" "e_clients t p' = Some c" "e_clients t q' = Some d" for p' q' c d
    using that b(6) ob(2) [of c] ob(2) [of d] fd [of c] fd [of d] ranI [of "e_clients s" p' c] ranI [of "e_clients s" q' d]
    by (cases "p' = p"; cases "q' = p") (auto simp: h(5) simp del: objects_simps)
  show ?thesis unfolding books_def
  proof (intro conjI)
    show "reachable wq_step wq_init (e_wq t)" using reach_step [OF b(1) h(9)] .
    show "\<forall>p q c d. p \<noteq> q \<longrightarrow> e_clients t p = Some c \<longrightarrow> e_clients t q = Some d \<longrightarrow>
        set (objects c) \<inter> set (objects d) = {} \<and> client_fd c \<noteq> client_fd d" using pair by blast
    show "\<forall>c\<in>ran (e_clients t). exclusive F V c" using ex b(5) by (simp add: ran)
    show "finite (dom (e_clients t))" using b(3) by (simp add: h(5))
    show "dom (fds (e_os t)) = F \<union> client_fd ` ran (e_clients t)" using b(7) by (simp add: ran h(3))
    show "live (e_ev t) = V \<union> (\<Union>c\<in>ran (e_clients t). set (objects c))" using b(8) h(8) by (simp add: ran)
    show "image_mset snd (mset (wq_submitted (e_wq t)) - wq_finished (e_wq t)) = mset_set (dom (e_clients t))" by (rule jobs)
    show "wq_discarded (e_wq t) = []" using b(2) q(3) by simp
    show "stray_closes (e_os t) = n" using b(9) h(4) by simp
  qed
qed

lemma outstanding_client:
  assumes "books F V n s" "w < length (wq_pcs (e_wq s))" "wq_pcs (e_wq s) ! w = W_exec j"
  obtains job c bev out where "wq_jobs (e_wq s) j = Some job" "e_clients s (user_data job) = Some c"
    "client_buf_ev c = Some bev" "client_output_buffer c = Some out" "client_ok live c s" "0 \<le> client_fd c"
    "job_task (wq_jobs (e_wq s)) j \<in># mset (wq_submitted (e_wq s)) - wq_finished (e_wq s)"
proof -
  note b = books_parts [OF assms(1)]
  let ?h = "wq_jobs (e_wq s)" and ?own = "sum_list (map wpc_owns (wq_pcs (e_wq s)))"
  have inv: "wq_inv (e_wq s)" using wqi.inv_reachable [OF b(1)] .
  have "j \<in> dom ?h" using owned_blocks_owned(1) [OF wq_inv_parts(4) [OF inv] assms(2), of j] assms(3) by simp
  then obtain job where job: "?h j = Some job" by blast
  have own: "?own = add_mset j (sum_list (map wpc_owns ((wq_pcs (e_wq s))[w := W_lock])))"
    using sum_list_update_add [OF assms(2), of wpc_owns W_lock] assms(3) by simp
  have "j \<in># ?own" unfolding own by simp
  then have "job_task ?h j \<in># running (wq_view (e_wq s))" by (auto simp: wq_view_def)
  then have task: "job_task ?h j \<in># mset (wq_submitted (e_wq s)) - wq_finished (e_wq s)"
    using finished_submitted(2) [OF b(1,2)] by simp
  then have "user_data job \<in># mset_set (dom (e_clients s))"
    unfolding b(4) [symmetric] using job by (force simp: job_task_def)
  then obtain c where c: "e_clients s (user_data job) = Some c" using b(3) by auto
  have ran: "c \<in> ran (e_clients s)" using c by (rule ranI)
  then have ex: "exclusive F V c" using b(5) by blast
  have "client_fd c \<in> dom (fds (e_os s))" "set (objects c) \<subseteq> live (e_ev s)" using ran b(7,8) by auto
  then have ok: "client_ok live c s" using ex by (simp add: client_ok_def exclusive_def)
  obtain bev out where bo: "client_buf_ev c = Some bev" "client_output_buffer c = Some out" "0 \<le> client_fd c"
    using ex unfolding exclusive_def by blast
  show ?thesis by (rule that [OF job c bo(1,2) ok bo(3) task])
qed

lemma ran_remove:
  assumes "m p = Some c" "\<And>q. m q = Some c \<Longrightarrow> q = p"
  shows "ran (m(p := None)) = ran m - {c}"
proof (intro equalityI subsetI)
  fix x
  assume "x \<in> ran (m(p := None))"
  then obtain q where "(m(p := None)) q = Some x" by (auto simp: ran_def)
  then have "q \<noteq> p" "m q = Some x" by (simp_all split: if_splits)
  then show "x \<in> ran m - {c}" using assms(2) [of q] ranI [of m q x] by auto
next
  fix x
  assume x: "x \<in> ran m - {c}"
  then obtain q where "m q = Some x" by (auto simp: ran_def)
  moreover have "q \<noteq> p" using x assms(1) calculation by auto
  ultimately have "(m(p := None)) q = Some x" by simp
  then show "x \<in> ran (m(p := None))" by (rule ranI)
qed

lemma books_serve:
  assumes "books F V n s" "w < length (wq_pcs (e_wq s))" "wq_pcs (e_wq s) ! w = W_exec j"
  shows "\<exists>t. echo_step L (E_serve w cbs) s = Ret t \<and> books F V n t"
proof -
  from assms obtain job c bev out where j: "wq_jobs (e_wq s) j = Some job" "e_clients s (user_data job) = Some c"
    "client_buf_ev c = Some bev" "client_output_buffer c = Some out" "client_ok live c s" "0 \<le> client_fd c"
    "job_task (wq_jobs (e_wq s)) j \<in># mset (wq_submitted (e_wq s)) - wq_finished (e_wq s)"
    by (rule outstanding_client)
  note b = books_parts [OF assms(1)]
  let ?p = "user_data job" and ?task = "job_task (wq_jobs (e_wq s)) j"
  obtain t0 where t0: "server_job_function L cbs (Some j) s = Ret t0" "e_clients t0 = (e_clients s)(?p := None)"
      "e_os t0 = sys_close (client_fd c) (e_os s)" "live (e_ev t0) = live (e_ev s) - set (objects c)"
      "e_wq t0 = (e_wq s)\<lparr>wq_jobs := (wq_jobs (e_wq s))(j := None)\<rparr>"
    using server_job_releases [OF j(1) refl j(2,5,3,4), of cbs] j(6) by auto
  define q where "q = wq_goto w W_lock ((e_wq s)\<lparr>wq_jobs := (wq_jobs (e_wq s))(j := None),
      wq_finished := add_mset ?task (wq_finished (e_wq s))\<rparr>)"
  let ?t = "t0\<lparr>e_wq := q\<rparr>"
  have step: "echo_step L (E_serve w cbs) s = Ret ?t" using assms(2,3) t0(1,5) by (simp add: q_def)
  have wq: "wq_step (Wq_returns w True) (e_wq s) = Ret q" using assms(2,3) j(1) by (simp add: job_returns_def q_def)
  have same: "q' = ?p" if "e_clients s q' = Some c" for q' using b(6) that j(2) by blast
  have ran: "ran (e_clients ?t) = ran (e_clients s) - {c}" using ran_remove [of "e_clients s", OF j(2) same] by (simp add: t0(2))
  have c: "c \<in> ran (e_clients s)" using j(2) by (rule ranI)
  have apart: "set (objects d) \<inter> set (objects c) = {}" "client_fd d \<noteq> client_fd c" if "d \<in> ran (e_clients s)" "d \<noteq> c" for d
  proof -
    from that(1) obtain q' where "e_clients s q' = Some d" by (auto simp: ran_def)
    with that(2) j(2) b(6) show "set (objects d) \<inter> set (objects c) = {}" "client_fd d \<noteq> client_fd c" by (metis option.inject)+
  qed
  have ex: "exclusive F V c" using b(5) c by blast
  have "books F V n ?t" unfolding books_def
  proof (intro conjI)
    show "reachable wq_step wq_init (e_wq ?t)" using reach_step [OF b(1) wq] by simp
    show "wq_discarded (e_wq ?t) = []" using b(2) by (simp add: q_def)
    show "finite (dom (e_clients ?t))" using b(3) by (simp add: t0(2))
    have "mset (wq_submitted q) - wq_finished q = mset (wq_submitted (e_wq s)) - wq_finished (e_wq s) - {#?task#}"
      by (simp add: q_def)
    then show "image_mset snd (mset (wq_submitted (e_wq ?t)) - wq_finished (e_wq ?t)) = mset_set (dom (e_clients ?t))"
      using image_mset_Diff [of "{#?task#}" "mset (wq_submitted (e_wq s)) - wq_finished (e_wq s)" snd] j(1,7) b(4)
        mset_set.remove [OF b(3), of ?p] domI [of "e_clients s", OF j(2)]
      by (simp add: t0(2) job_task_def)
    show "\<forall>c\<in>ran (e_clients ?t). exclusive F V c" using b(5) ran by blast
    show "\<forall>p q c d. p \<noteq> q \<longrightarrow> e_clients ?t p = Some c \<longrightarrow> e_clients ?t q = Some d \<longrightarrow>
        set (objects c) \<inter> set (objects d) = {} \<and> client_fd c \<noteq> client_fd d" using b(6) by (simp add: t0(2))
    have cl: "client_fd c \<in> dom (fds (e_os s))" using b(7) c by auto
    show "stray_closes (e_os ?t) = n" using sys_close_dom [OF cl] b(9) by (simp add: t0(3))
    let ?R = "ran (e_clients s) - {c}"
    have R: "ran (e_clients s) = insert c ?R" using c by blast
    have "client_fd c \<notin> client_fd ` ?R"
    proof
      assume "client_fd c \<in> client_fd ` ?R"
      then obtain d where "client_fd c = client_fd d" "d \<in> ?R" by (rule imageE)
      with apart(2) [of d] show False by simp
    qed
    then have "client_fd c \<notin> F \<union> client_fd ` ?R" using ex by (simp add: exclusive_def)
    moreover have "dom (fds (e_os s)) = insert (client_fd c) (F \<union> client_fd ` ?R)" using b(7) R by (metis Un_insert_right image_insert)
    ultimately show "dom (fds (e_os ?t)) = F \<union> client_fd ` ran (e_clients ?t)"
      unfolding ran using sys_close_dom [OF cl] by (simp add: t0(3))
    have "set (objects c) \<inter> (V \<union> (\<Union>d\<in>?R. set (objects d))) = {}" using ex apart(1) by (fastforce simp: exclusive_def)
    moreover have "live (e_ev s) = set (objects c) \<union> (V \<union> (\<Union>d\<in>?R. set (objects d)))" using b(8) R by (metis UN_insert sup_left_commute)
    ultimately show "live (e_ev ?t) = V \<union> (\<Union>c\<in>ran (e_clients ?t). set (objects c))"
      unfolding ran by (simp add: t0(4)) blast
  qed
  with step show ?thesis by blast
qed

text \<open>Every event but the shutdown keeps the books and is free of undefined behaviour.\<close>

lemma books_step:
  assumes "books F V n s" "ev \<noteq> E_shutdown"
  shows "(\<exists>t. echo_step L ev s = Ret t \<and> books F V n t) \<or> echo_step L ev s = Blocked"
proof (cases ev)
  case (E_accept ans)
  note b = books_parts [OF assms(1)]
  show ?thesis
  proof (cases "possible ans s")
    case True
    have "accept_ok ans s (on_accept L ans s)" using on_accept_ok [OF True wqi.inv_reachable [OF b(1)]] .
    then consider t where "on_accept L ans s = Ret t" "no_trace s t" | t where "on_accept L ans s = Ret t" "handed_over ans s t"
      | "on_accept L ans s = Blocked" by (auto simp: accept_ok_def)
    then show ?thesis
    proof cases
      case (1 t)
      then have "books F V n t" using assms(1) by (simp add: books_def no_trace_def)
      with 1 True E_accept show ?thesis by simp
    next
      case (2 t)
      show ?thesis
      proof (cases "a_accept ans < 0")
        case True
        with 2 have "t = s" by (simp add: on_accept_def)
        with 2 E_accept assms(1) \<open>possible ans s\<close> show ?thesis by simp
      next
        case False
        then have "books F V n t" using books_accept [OF assms(1) 2(2) True] by simp
        with 2 True E_accept show ?thesis by simp
      qed
    next
      case 3
      with E_accept True show ?thesis by simp
    qed
  qed (use E_accept in simp)
next
  case (E_serve w cbs)
  show ?thesis
  proof (cases "w < length (wq_pcs (e_wq s)) \<and> (\<exists>j. wq_pcs (e_wq s) ! w = W_exec j)")
    case True
    then obtain j where "w < length (wq_pcs (e_wq s))" "wq_pcs (e_wq s) ! w = W_exec j" by blast
    from books_serve [OF assms(1) this] E_serve show ?thesis by blast
  next
    case False
    then show ?thesis using E_serve by (auto split: wq_pc.splits)
  qed
next
  case (E_worker w)
  have "wq_inv (e_wq s)" using wqi.inv_reachable books_parts(1) [OF assms(1)] by blast
  then show ?thesis using wq_no_ub [of "e_wq s" "Wq_worker w"] wq_no_exit [of "Wq_worker w" "e_wq s"] books_worker [OF assms(1), of "Wq_worker w"] E_worker
    by (cases "wq_step (Wq_worker w) (e_wq s)") (auto simp: lift_wq_def wq_safe_label_def simp del: wq_step.simps)
next
  case (E_spurious w)
  then show ?thesis using books_worker [OF assms(1), of "Wq_spurious w"] by (auto simp: lift_wq_def)
qed (use assms(2) in simp)

lemma books_run:
  assumes "books F V n s" "E_shutdown \<notin> set evs"
  shows "(\<exists>t. run (echo_step L) evs s = Ret t \<and> books F V n t) \<or> run (echo_step L) evs s = Blocked"
  using assms
proof (induction evs arbitrary: s)
  case Nil
  then show ?case by simp
next
  case (Cons ev evs)
  from books_step [OF Cons.prems(1), of ev] Cons.prems(2)
  consider t where "echo_step L ev s = Ret t" "books F V n t" | "echo_step L ev s = Blocked" by auto
  then show ?case
  proof cases
    case (1 t)
    with Cons.IH [OF 1(2)] Cons.prems(2) show ?thesis by simp
  qed simp
qed

lemma books_init:
  assumes "wq_init (e_wq s)" "e_clients s = Map.empty"
  shows "books (dom (fds (e_os s))) (live (e_ev s)) (stray_closes (e_os s)) s"
proof -
  from wq_init_started [OF assms(1)] obtain k where "e_wq s = started k" by blast
  then show ?thesis using assms reach_init by (auto simp: books_def started_def blank_sys_def)
qed

end

section \<open>A libevent that keeps the laws\<close>

record demo_ev =
  d_live :: "addr list"
  d_input :: "addr \<Rightarrow> string"
  d_content :: "addr \<Rightarrow> string"
  d_queued :: "addr \<Rightarrow> string"

definition d_new :: "demo_ev \<Rightarrow> addr option \<times> demo_ev" where
  "d_new e = (let a = Suc (fold max (d_live e) 0) in (Some a, e\<lparr>d_live := a # d_live e\<rparr>))"

definition d_free :: "addr \<Rightarrow> demo_ev \<Rightarrow> demo_ev" where
  "d_free a e = e\<lparr>d_live := removeAll a (d_live e)\<rparr>"

definition demo_L :: "demo_ev libevent" where
  "demo_L = \<lparr>evbuffer_new = d_new, evbuffer_free = d_free, event_base_new = d_new, event_base_free = d_free,
     bufferevent_new = (\<lambda>fd p. d_new), bufferevent_free = d_free, bufferevent_base_set = (\<lambda>b a e. e),
     bufferevent_settimeout = (\<lambda>a i j e. e), bufferevent_enable = (\<lambda>a e. e),
     input_length = (\<lambda>a e. length (d_input e a)),
     input_remove = (\<lambda>a n e. (take n (d_input e a), e\<lparr>d_input := (d_input e)(a := drop n (d_input e a))\<rparr>)),
     evbuffer_add = (\<lambda>b d e. (0, e\<lparr>d_content := (d_content e)(b := d_content e b @ d)\<rparr>)),
     bufferevent_write_buffer = (\<lambda>a b e. (0, e\<lparr>d_queued := (d_queued e)(a := d_queued e a @ d_content e b),
        d_content := (d_content e)(b := [])\<rparr>)),
     loop_turn = (\<lambda>a e. e)\<rparr>"

lemma fold_max_ge: "x \<in> set xs \<Longrightarrow> x \<le> fold max xs (n :: nat)" "n \<le> fold max xs n"
proof (induction xs arbitrary: n)
  case (Cons y ys)
  case 1
  then show ?case using Cons.IH [of "max y n"] by (auto intro: order_trans [rotated])
next
  case (Cons y ys)
  case 2
  show ?case using Cons.IH(2) [of "max y n"] by simp
qed simp_all

lemma d_new_fresh: "d_new e = (Some a, e') \<Longrightarrow> a \<notin> set (d_live e) \<and> set (d_live e') = insert a (set (d_live e))"
  using fold_max_ge(1) [of a "d_live e" 0] by (auto simp: d_new_def Let_def)

interpretation demo: libevent_laws demo_L "set \<circ> d_live" "\<lambda>a e. d_input e a" "\<lambda>a e. d_content e a" "\<lambda>a e. d_queued e a"
  by unfold_locales (auto simp: demo_L_def d_free_def dest: d_new_fresh, auto simp: d_new_def Let_def)


section \<open>Properties\<close>

text \<open>A server with two workers, before the first connection.\<close>

definition demo_ev0 :: demo_ev where
  "demo_ev0 = \<lparr>d_live = [], d_input = (\<lambda>_. ''hello''), d_content = (\<lambda>_. []), d_queued = (\<lambda>_. [])\<rparr>"

definition echo_demo :: "demo_ev echo" where
  "echo_demo = \<lparr>e_os = \<lparr>fds = [3 \<mapsto> O_RDWR], stray_closes = 0\<rparr>, e_clients = Map.empty, e_ev = demo_ev0,
     e_wq = started 2, e_evbase_accept = None\<rparr>"

definition echo_answers :: answers where
  "echo_answers = \<lparr>a_accept = 5, a_getfl = 0, a_setfl = 0, a_client = Some 100, a_job = Some 200, a_wakes = None\<rparr>"

lemma echo_demo_init: "wq_init (e_wq echo_demo)"
  using workqueue_init_started [of "\<lambda>_. True" "\<lambda>_. 0" 2] unfolding wq_init_def
  by (intro exI [of _ "\<lambda>_. True"] exI [of _ "\<lambda>_. 0"] exI [of _ 2] exI [of _ 0])
    (simp add: echo_demo_def numeral_2_eq_2 upt_rec)

lemma echo_demo_clients: "e_clients echo_demo = Map.empty"
  by (simp add: echo_demo_def)

text \<open>
  C12. The running server leaks nothing: after any events without a shutdown (connections, whatever
  the kernel, \<open>malloc\<close> and libevent answer, steps of the workers, jobs with any sequence of callbacks)
  there was no undefined behaviour, the client blocks are exactly those of the jobs that are not
  completed, one each; the open descriptors and the live libevent objects are those from the start and
  those of the clients, and no descriptor was closed twice. When all jobs are completed everything is
  as at the start.
\<close>

theorem echo_no_leak:
  assumes "libevent_laws L live input content queued"
    and "wq_init (e_wq s)" "e_clients s = Map.empty" "E_shutdown \<notin> set evs"
  shows "run (echo_step L) evs s = Blocked \<or>
    (\<exists>t. run (echo_step L) evs s = Ret t \<and>
       image_mset snd (mset (wq_submitted (e_wq t)) - wq_finished (e_wq t)) = mset_set (dom (e_clients t)) \<and>
       dom (fds (e_os t)) = dom (fds (e_os s)) \<union> client_fd ` ran (e_clients t) \<and>
       live (e_ev t) = live (e_ev s) \<union> (\<Union>c\<in>ran (e_clients t). set (objects c)) \<and>
       stray_closes (e_os t) = stray_closes (e_os s) \<and>
       (wq_finished (e_wq t) = mset (wq_submitted (e_wq t)) \<longrightarrow>
          e_clients t = Map.empty \<and> dom (fds (e_os t)) = dom (fds (e_os s)) \<and> live (e_ev t) = live (e_ev s)))"
proof -
  note laws = assms(1)
  from libevent_laws.books_run [OF laws libevent_laws.books_init [OF laws assms(2,3)] assms(4)]
  consider t where "run (echo_step L) evs s = Ret t"
      "libevent_laws.books live (dom (fds (e_os s))) (live (e_ev s)) (stray_closes (e_os s)) t"
    | "run (echo_step L) evs s = Blocked" by blast
  then show ?thesis
  proof cases
    case (1 t)
    note b = libevent_laws.books_parts [OF laws 1(2)]
    have "e_clients t = Map.empty" if "wq_finished (e_wq t) = mset (wq_submitted (e_wq t))"
    proof -
      have "mset_set (dom (e_clients t)) = {#}" using b(4) that by simp
      then show ?thesis using b(3) by (simp add: mset_set_empty_iff)
    qed
    then show ?thesis using 1(1) b(4,7,8,9) by (intro disjI2 exI [of _ t]) auto
  qed simp
qed

text \<open>One connection is accepted, a worker takes it, serves it with two callbacks and the client is gone.\<close>

definition echo_events :: "server_event list" where
  "echo_events = [E_accept echo_answers, E_worker 0, E_worker 0, E_worker 0, E_serve 0 [On_read, On_error]]"

lemmas echo_run_defs = on_accept_def possible_def echo_answers_def setnonblock_def fcntl_getfl_def fcntl_setfl_def sys_open_def
  sys_close_def accept_client_def accept_evbase_def accept_bufferevent_def accept_job_def set_client_def add_job_def
  d_new_def demo_ev0_def Let_def O_RDWR_def O_NONBLOCK_def lift_wq_def


lemmas echo_call_defs = server_job_function_def run_callback_def buffered_on_read_def buffered_on_write_def buffered_on_error_def
  closeAndFreeClient_def closeClient_def free_member_def wq_goto_def set_mutex_def worker_locked_def LL_REMOVE_def job_task_def
  d_free_def int_of_size_small workqueue_add_job_def alloc_job_def LL_ADD_eq cond_signal_ok_def cond_signal_def

lemma echo_demo_run:
  "\<exists>t. run (echo_step demo_L) echo_events echo_demo = Ret t \<and> wq_finished (e_wq t) = mset (wq_submitted (e_wq t)) \<and>
     wq_submitted (e_wq t) = [(Server_job_function, 100)]"
  by (simp add: echo_events_def echo_run_defs echo_demo_def demo_L_def started_def blank_sys_def numeral_2_eq_2 echo_call_defs)

theorem echo_no_leak_witness:
  "\<exists>t. run (echo_step demo_L) echo_events echo_demo = Ret t \<and> wq_submitted (e_wq t) = [(Server_job_function, 100)] \<and>
     e_clients t = Map.empty \<and> dom (fds (e_os t)) = dom (fds (e_os echo_demo)) \<and> stray_closes (e_os t) = 0"
proof -
  obtain t where t: "run (echo_step demo_L) echo_events echo_demo = Ret t" "wq_finished (e_wq t) = mset (wq_submitted (e_wq t))"
      "wq_submitted (e_wq t) = [(Server_job_function, 100)]" using echo_demo_run by blast
  have "E_shutdown \<notin> set echo_events" by (simp add: echo_events_def)
  from echo_no_leak [OF demo.libevent_laws_axioms echo_demo_init echo_demo_clients this] t
  have "e_clients t = Map.empty \<and> dom (fds (e_os t)) = dom (fds (e_os echo_demo)) \<and> stray_closes (e_os t) = stray_closes (e_os echo_demo)"
    by auto
  with t show ?thesis by (simp add: echo_demo_def)
qed

text \<open>
  \<open>on_accept\<close> for every pattern of failures: either it leaves no trace (the descriptor is closed
  again, the client block and the libevent objects are freed, no job is added), or the connection is
  handed over: the descriptor is open and non-blocking, the client has its three objects, and one
  job for it is in the work queue. It waits only for the mutex of the work queue.
\<close>

theorem on_accept_result:
  assumes "libevent_laws L live input content queued" "possible ans s" "reachable wq_step wq_init (e_wq s)"
  shows "(\<exists>t. on_accept L ans s = Ret t \<and> e_os t = e_os s \<and> e_clients t = e_clients s \<and> live (e_ev t) = live (e_ev s) \<and> e_wq t = e_wq s) \<or>
    (\<exists>t p j out base bev fl. on_accept L ans s = Ret t \<and> a_client ans = Some p \<and> a_job ans = Some j \<and>
        fl AND O_NONBLOCK = O_NONBLOCK \<and> fds (e_os t) = (fds (e_os s))(a_accept ans \<mapsto> fl) \<and>
        e_clients t = (e_clients s)(p \<mapsto> \<lparr>client_fd = a_accept ans, client_evbase = Some base, client_buf_ev = Some bev,
           client_output_buffer = Some out\<rparr>) \<and>
        distinct [bev, base, out] \<and> live (e_ev s) \<inter> {bev, base, out} = {} \<and> live (e_ev t) = live (e_ev s) \<union> {bev, base, out} \<and>
        wq_step (Wq_add j Server_job_function p (a_wakes ans)) (e_wq s) = Ret (e_wq t)) \<or>
    on_accept L ans s = Blocked \<and>
      (jobs_mutex (wq (e_wq s)) \<noteq> M_free \<or> \<not> cond_signal_ok W_wait (a_wakes ans) (wq_pcs (e_wq s)))"
proof -
  note laws = assms(1)
  have "libevent_laws.accept_ok live ans s (on_accept L ans s)"
    using libevent_laws.on_accept_ok [OF laws assms(2) wqi.inv_reachable [OF assms(3)]] .
  then consider t where "on_accept L ans s = Ret t" "libevent_laws.no_trace live s t"
    | t where "on_accept L ans s = Ret t" "libevent_laws.handed_over live ans s t"
    | "on_accept L ans s = Blocked" "jobs_mutex (wq (e_wq s)) \<noteq> M_free \<or> \<not> cond_signal_ok W_wait (a_wakes ans) (wq_pcs (e_wq s))"
    unfolding libevent_laws.accept_ok_def [OF laws] by blast
  then show ?thesis
  proof cases
    case (1 t)
    then show ?thesis unfolding libevent_laws.no_trace_def [OF laws] by blast
  next
    case (2 t)
    from 2(2) [unfolded libevent_laws.handed_over_def [OF laws]] obtain p j out base bev fl where
      "a_client ans = Some p \<and> a_job ans = Some j \<and> fl AND O_NONBLOCK = O_NONBLOCK \<and>
        fds (e_os t) = (fds (e_os s))(a_accept ans \<mapsto> fl) \<and> stray_closes (e_os t) = stray_closes (e_os s) \<and>
        e_clients t = (e_clients s)(p \<mapsto> \<lparr>client_fd = a_accept ans, client_evbase = Some base, client_buf_ev = Some bev,
           client_output_buffer = Some out\<rparr>) \<and>
        distinct [bev, base, out] \<and> live (e_ev s) \<inter> {bev, base, out} = {} \<and>
        live (e_ev t) = live (e_ev s) \<union> {bev, base, out} \<and>
        wq_step (Wq_add j Server_job_function p (a_wakes ans)) (e_wq s) = Ret (e_wq t)" by (elim exE)
    with 2(1) show ?thesis
      by (intro disjI2 disjI1 exI [of _ t] exI [of _ p] exI [of _ j] exI [of _ out] exI [of _ base] exI [of _ bev] exI [of _ fl]) simp
  next
    case 3
    then show ?thesis by simp
  qed
qed

lemma echo_demo_possible: "possible echo_answers echo_demo"
  by (simp add: possible_def echo_answers_def echo_demo_def started_def blank_sys_def)

lemma echo_demo_accept: "\<exists>t. on_accept demo_L echo_answers echo_demo = Ret t \<and> e_clients t 100 \<noteq> None"
  by (simp add: echo_run_defs echo_demo_def demo_L_def started_def blank_sys_def numeral_2_eq_2 echo_call_defs)

theorem on_accept_result_witness:
  "\<exists>t fl. on_accept demo_L echo_answers echo_demo = Ret t \<and> e_clients t 100 \<noteq> None \<and> fds (e_os t) = [3 \<mapsto> O_RDWR, 5 \<mapsto> fl] \<and>
     fl AND O_NONBLOCK = O_NONBLOCK"
proof -
  obtain t where t: "on_accept demo_L echo_answers echo_demo = Ret t" "e_clients t 100 \<noteq> None" using echo_demo_accept by blast
  then have "e_clients t \<noteq> e_clients echo_demo" by (auto simp: echo_demo_def)
  with on_accept_result [OF demo.libevent_laws_axioms echo_demo_possible reach_init [of wq_init, OF echo_demo_init]] t
  have "\<exists>fl. fl AND O_NONBLOCK = O_NONBLOCK \<and> fds (e_os t) = (fds (e_os echo_demo))(a_accept echo_answers \<mapsto> fl)" by auto
  then show ?thesis using t by (auto simp: echo_demo_def echo_answers_def)
qed

text \<open>
  \<open>buffered_on_read\<close> echoes: when fewer than \<open>2 ^ 31\<close> bytes are waiting and libevent takes the data, the loop
  ends, the input buffer is empty and everything that was waiting has been queued for the client
  behind what its output buffer held. From \<open>2 ^ 31\<close> bytes on the length, read into an \<open>int\<close>, is negative and the
  loop copies nothing.
\<close>

theorem echo_read:
  assumes "libevent_laws L live input content queued" "e_clients s p = Some c" "client_output_buffer c = Some out"
    and "\<And>b data e. fst (evbuffer_add L b data e) = 0" "\<And>a b e. fst (bufferevent_write_buffer L a b e) = 0"
  shows "(length (input bev (e_ev s)) < 2 ^ 31 \<longrightarrow>
      (\<exists>e. buffered_on_read L (Suc (length (input bev (e_ev s)))) bev (Some p) s = Ret (s\<lparr>e_ev := e\<rparr>) \<and>
         queued bev e = queued bev (e_ev s) @ content out (e_ev s) @ input bev (e_ev s) \<and> input bev e = [] \<and> content out e = [])) \<and>
    (2 ^ 31 \<le> length (input bev (e_ev s)) \<and> length (input bev (e_ev s)) < 2 ^ 32 \<longrightarrow>
      (\<exists>e. buffered_on_read L (Suc 0) bev (Some p) s = Ret (s\<lparr>e_ev := e\<rparr>) \<and> input bev e = input bev (e_ev s)))"
proof (intro conjI impI)
  note laws = assms(1)
  let ?n = "length (input bev (e_ev s))"
  have wr: "\<exists>e'. bufferevent_write_buffer L bev out e = (0, e')" for e
    using assms(5) [of bev out e] by (cases "bufferevent_write_buffer L bev out e") simp
  { assume n: "?n < 2 ^ 31"
    obtain e where e: "read_loop L bev out (Suc ?n) (e_ev s) = Some e"
      using libevent_laws.read_loop_returns [OF laws, of bev "e_ev s" "Suc ?n"] by blast
    have c: "content out e = content out (e_ev s) @ input bev (e_ev s) \<and> input bev e = []"
      using libevent_laws.read_loop_copies [OF laws assms(4) e] n by simp
    have q: "queued bev e = queued bev (e_ev s)" using libevent_laws.read_loop_frame [OF laws e] by simp
    obtain e' where w: "bufferevent_write_buffer L bev out e = (0, e')" using wr by blast
    have "queued bev e' = queued bev e @ content out e" "content out e' = []" "input bev e' = input bev e"
      using libevent_laws.bufferevent_write_buffer [OF laws w] by auto
    moreover have "buffered_on_read L (Suc ?n) bev (Some p) s = Ret (s\<lparr>e_ev := e'\<rparr>)"
      using assms(2,3) e w by (simp add: buffered_on_read_def)
    ultimately show "\<exists>e. buffered_on_read L (Suc ?n) bev (Some p) s = Ret (s\<lparr>e_ev := e\<rparr>) \<and>
         queued bev e = queued bev (e_ev s) @ content out (e_ev s) @ input bev (e_ev s) \<and> input bev e = [] \<and> content out e = []"
      using c q by (intro exI [of _ e']) simp }
  assume n: "2 ^ 31 \<le> ?n \<and> ?n < 2 ^ 32"
  then have "int_of_size ?n < 0" using int_of_size_neg [of ?n] by simp
  then have "read_loop L bev out (Suc 0) (e_ev s) = Some (e_ev s)" by (simp add: libevent_laws.input_length [OF laws])
  moreover obtain e' where w: "bufferevent_write_buffer L bev out (e_ev s) = (0, e')" using wr by blast
  ultimately have "buffered_on_read L (Suc 0) bev (Some p) s = Ret (s\<lparr>e_ev := e'\<rparr>)"
    using assms(2,3) by (simp add: buffered_on_read_def del: read_loop.simps)
  moreover have "input bev e' = input bev (e_ev s)" using libevent_laws.bufferevent_write_buffer [OF laws w] by simp
  ultimately show "\<exists>e. buffered_on_read L (Suc 0) bev (Some p) s = Ret (s\<lparr>e_ev := e\<rparr>) \<and> input bev e = input bev (e_ev s)" by blast
qed

definition echo_client :: "demo_ev echo" where
  "echo_client = echo_demo\<lparr>e_clients := [100 \<mapsto> \<lparr>client_fd = 5, client_evbase = Some 2, client_buf_ev = Some 3, client_output_buffer = Some 1\<rparr>]\<rparr>"

theorem echo_read_witness:
  "\<exists>e. buffered_on_read demo_L (Suc (length ''hello'')) 3 (Some 100) echo_client = Ret (echo_client\<lparr>e_ev := e\<rparr>) \<and> d_queued e 3 = ''hello''"
proof -
  let ?c = "\<lparr>client_fd = 5, client_evbase = Some 2, client_buf_ev = Some 3, client_output_buffer = Some 1\<rparr>"
  have "e_clients echo_client 100 = Some ?c" "client_output_buffer ?c = Some 1" by (simp_all add: echo_client_def)
  moreover have "fst (evbuffer_add demo_L b d e) = 0" "fst (bufferevent_write_buffer demo_L a b e) = 0" for a b d e
    by (simp_all add: demo_L_def)
  ultimately show ?thesis
    using echo_read [OF demo.libevent_laws_axioms, of echo_client 100 ?c 1 3] by (auto simp: echo_client_def echo_demo_def demo_ev0_def)
qed


text \<open>
  Failing starts of the server. When \<open>runServer\<close> returns 1 the listening socket is closed again. If the
  event base could not be created nothing is left behind; the other case is a failed \<open>workqueue_init\<close>
  (one of the eight rounds had no memory or no thread), and then the event base stays allocated.
  Failures of the socket calls end the process with status 1.
\<close>

theorem runServer_failures:
  assumes "libevent_laws L live input content queued" "0 \<le> r_socket a \<Longrightarrow> fds (e_os s) (r_socket a) = None"
  shows "(r_socket a < 0 \<or> r_bind a < 0 \<or> r_listen a < 0 \<longrightarrow> runServer L a ls evs s = Exit 1) \<and>
    (runServer L a ls evs s = Ret (1, t) \<longrightarrow> e_os t = e_os s \<and>
      (e_evbase_accept t = None \<and> live (e_ev t) = live (e_ev s) \<or>
       (\<exists>base i. e_evbase_accept t = Some base \<and> base \<notin> live (e_ev s) \<and> live (e_ev t) = insert base (live (e_ev s)) \<and>
          i < 8 \<and> (\<not> r_mem a i \<or> r_thread a i \<noteq> 0))))"
proof (rule conjI [OF impI impI])
  assume "r_socket a < 0 \<or> r_bind a < 0 \<or> r_listen a < 0"
  then show "runServer L a ls evs s = Exit 1" by (auto simp: runServer_def listen_socket_def Let_def)
next
  note laws = assms(1)
  assume ret: "runServer L a ls evs s = Ret (1, t)"
  then obtain os where os: "listen_socket a (e_os s) = Ret os" by (auto simp: runServer_def outcome_simps)
  then have fd: "0 \<le> r_socket a" "fds (e_os s) (r_socket a) = None"
    using assms(2) by (auto simp: listen_socket_def Let_def split: if_splits)
  obtain r where "setnonblock (r_getfl a) (r_setfl a) (r_socket a) (sys_open (r_socket a) (e_os s)) = (r, os)"
    using os by (auto simp: listen_socket_def Let_def split: if_splits prod.splits)
  from setnonblock_fds [OF this] fd have "\<exists>fl. os = (e_os s)\<lparr>fds := (fds (e_os s))(r_socket a \<mapsto> fl)\<rparr>"
    by (auto simp: sys_open_def)
  then have cl: "sys_close (r_socket a) os = e_os s" using fd by (cases "e_os s") (auto simp: sys_close_def fun_upd_idem)
  obtain b e where b: "event_base_new L (e_ev s) = (b, e)" by fastforce
  show "e_os t = e_os s \<and>
      (e_evbase_accept t = None \<and> live (e_ev t) = live (e_ev s) \<or>
       (\<exists>base i. e_evbase_accept t = Some base \<and> base \<notin> live (e_ev s) \<and> live (e_ev t) = insert base (live (e_ev s)) \<and>
          i < 8 \<and> (\<not> r_mem a i \<or> r_thread a i \<noteq> 0)))"
  proof (cases b)
    case None
    with ret os b cl libevent_laws.event_base_new_None [OF laws, of "e_ev s" e] show ?thesis by (auto simp: runServer_def)
  next
    case (Some base)
    have l: "base \<notin> live (e_ev s)" "live e = insert base (live (e_ev s))"
      using libevent_laws.event_base_new_Some [OF laws, of "e_ev s" base e] b Some by auto
    obtain rq and q :: "(job_fun, addr) wq_sys" where q: "workqueue_init (r_mem a) (r_thread a) NUM_THREADS = Ret (rq, q)"
      using ret os b Some by (auto simp: runServer_def Let_def outcome_simps)
    have "rq \<noteq> 0" using ret os b Some q by (auto simp: runServer_def Let_def outcome_simps)
    then obtain i where i: "find (\<lambda>j. \<not> r_mem a j \<or> r_thread a j \<noteq> 0) [0..<8] = Some i"
      using q by (auto simp: workqueue_init_started NUM_THREADS_def split: option.splits)
    have "i < 8" "\<not> r_mem a i \<or> r_thread a i \<noteq> 0" using i unfolding find_Some_iff by auto
    moreover have "e_os t = e_os s" "e_evbase_accept t = Some base" "e_ev t = e"
      using ret os b Some q \<open>rq \<noteq> 0\<close> cl by (auto simp: runServer_def Let_def outcome_simps killServer_def)
    ultimately show ?thesis using l by auto
  qed
qed

definition failing_start :: server_answers where
  "failing_start = \<lparr>r_socket = 4, r_bind = 0, r_listen = 0, r_getfl = 0, r_setfl = 0, r_mem = (\<lambda>i. i < 1), r_thread = (\<lambda>_. 0)\<rparr>"

lemma failing_start_run: "\<exists>t. runServer demo_L failing_start [] [] echo_demo = Ret (1, t) \<and> d_live (e_ev t) \<noteq> []"
  by (simp add: runServer_def listen_socket_def failing_start_def echo_run_defs echo_demo_def demo_L_def killServer_def
      workqueue_init_started NUM_THREADS_def upt_rec)

theorem runServer_failures_witness:
  "\<exists>t base. runServer demo_L failing_start [] [] echo_demo = Ret (1, t) \<and> e_os t = e_os echo_demo \<and>
     e_evbase_accept t = Some base \<and> set (d_live (e_ev t)) = {base}"
proof -
  obtain t where t: "runServer demo_L failing_start [] [] echo_demo = Ret (1, t)" "d_live (e_ev t) \<noteq> []"
    using failing_start_run by blast
  have "fds (e_os echo_demo) (r_socket failing_start) = None" by (simp add: echo_demo_def failing_start_def)
  from runServer_failures [OF demo.libevent_laws_axioms this, of "[]" "[]" t] t show ?thesis
    by (auto simp: echo_demo_def demo_ev0_def)
qed

end
