(* ===== verification/ThreadPool_Win.thy ===== *)
theory ThreadPool_Win
  imports Pool_Spec "HOL-Library.Word"
begin

text \<open>
  The Windows thread pool of \<open>src/threadpool/threadPool2/ThreadPool.cpp\<close> and \<open>ThreadPool.h\<close> (the copy under
  \<open>ThreadPoolDemo\<close> is the same). Its counters are \<open>unsigned short\<close>, so they are words of 16 bits here.

  A critical section (the scope of an \<open>AutoLock\<close>) is one step; \<open>CRITICAL_SECTION\<close> is recursive, so
  \<open>NotifyThread\<close> inside \<open>PostRequest\<close> is part of the same step. Between two critical sections other
  threads may move. What the Win32 calls, \<open>new\<close> and the requests answer are arguments. \<open>tw_step\<close> is the
  whole system: the threads, the callers of \<open>PostRequest\<close> and \<open>Destroy\<close>.
\<close>

type_synonym ushort = "16 word"

section \<open>Requests and logging (ThreadPool.h)\<close>

record abstract_request =
  m_bAborted :: bool
  m_usRequestID :: ushort

definition AbstractRequest :: abstract_request where
  "AbstractRequest = \<lparr>m_bAborted = False, m_usRequestID = 0\<rparr>"

definition SetRequestID :: "ushort \<Rightarrow> abstract_request \<Rightarrow> abstract_request" where
  "SetRequestID i r = r\<lparr>m_usRequestID := i\<rparr>"

definition GetRequestID :: "abstract_request \<Rightarrow> ushort" where
  "GetRequestID r = m_usRequestID r"

definition Abort :: "abstract_request \<Rightarrow> abstract_request" where
  "Abort r = r\<lparr>m_bAborted := True\<rparr>"

definition ClearAbortFlag :: "abstract_request \<Rightarrow> abstract_request" where
  "ClearAbortFlag r = r\<lparr>m_bAborted := False\<rparr>"

definition IsAborted :: "abstract_request \<Rightarrow> bool" where
  "IsAborted r = m_bAborted r"

text \<open>\<open>std::setfill('0')\<close> and \<open>std::setw(w)\<close> on a decimal number.\<close>

fun digits :: "nat \<Rightarrow> string" where
  "digits n = (if n < 10 then [char_of (48 + n)] else digits (n div 10) @ [char_of (48 + n mod 10)])"

declare digits.simps [simp del]

definition padded :: "nat \<Rightarrow> nat \<Rightarrow> string" where
  "padded w n = replicate (w - length (digits n)) (CHR ''0'') @ digits n"

definition PrepareLog :: "nat \<Rightarrow> nat \<Rightarrow> nat \<Rightarrow> string \<Rightarrow> string" where
  "PrepareLog tid active last_error log =
     ''##TP## [TID='' @ padded 8 tid @ ''] [ACTIVE REQUEST='' @ padded 4 active @ ''] [LAST ERROR='' @
     padded 4 last_error @ ''] '' @ log @ '']''"

definition PrepareRequestLog :: "abstract_request \<Rightarrow> string \<Rightarrow> string" where
  "PrepareRequestLog r log = ''##RQ## [RID='' @ padded 8 (unat (GetRequestID r)) @ ''] [Desc='' @ log @ '']''"

section \<open>The pool object\<close>

record semaphore =
  sem_count :: nat
  sem_max :: nat
  sem_open :: bool

text \<open>An entry of the array of thread handles: never written, NULL, the handle of a thread, or a handle that was closed.\<close>

datatype thread_handle = H_indet | H_null | H_thread nat | H_closed

fun is_thread :: "thread_handle \<Rightarrow> bool" where
  "is_thread (H_thread i) = True"
| "is_thread _ = False"

record 'r pool =
  m_bDestroyed :: bool
  m_usThreadCount :: ushort
  m_usSemaphoreCount :: ushort
  m_lActiveThread :: ushort
  m_usPendingReqCount :: ushort
  m_hSemaphore :: "semaphore option"
  m_phThreadList :: "thread_handle list option"
  m_RequestQueue :: "'r list"

definition ThreadPool :: "'r pool" where
  "ThreadPool = \<lparr>m_bDestroyed = False, m_usThreadCount = 0, m_usSemaphoreCount = 0, m_lActiveThread = 0,
     m_usPendingReqCount = 0, m_hSemaphore = None, m_phThreadList = None, m_RequestQueue = []\<rparr>"

text \<open>\<open>ReleaseSemaphore\<close> fails, and changes nothing, if the maximum would be exceeded.\<close>

definition ReleaseSemaphore :: "nat \<Rightarrow> semaphore option \<Rightarrow> bool \<times> semaphore option" where
  "ReleaseSemaphore n h =
     (case h of
        None \<Rightarrow> (False, None)
      | Some sem \<Rightarrow>
          if sem_open sem \<and> 0 < n \<and> sem_count sem + n \<le> sem_max sem
          then (True, Some (sem\<lparr>sem_count := sem_count sem + n\<rparr>)) else (False, Some sem))"

definition NotifyThread :: "'r pool \<Rightarrow> bool \<times> 'r pool" where
  "NotifyThread p =
     (case ReleaseSemaphore 1 (m_hSemaphore p) of (ok, h) \<Rightarrow>
        if \<not> ok then (False, p\<lparr>m_hSemaphore := h\<rparr>)
        else (True, p\<lparr>m_hSemaphore := h, m_usSemaphoreCount := m_usSemaphoreCount p + 1\<rparr>))"

text \<open>\<open>mem\<close> says whether \<open>push_back\<close> gets its memory; if not, the exception is caught.\<close>

definition PostRequest :: "bool \<Rightarrow> 'r \<Rightarrow> 'r pool \<Rightarrow> bool \<times> 'r pool" where
  "PostRequest mem r p =
     (if m_phThreadList p = None then (False, p)
      else if \<not> mem then (False, p)
      else let p = p\<lparr>m_RequestQueue := m_RequestQueue p @ [r]\<rparr> in
        if m_usSemaphoreCount p < m_usThreadCount p then
          (case NotifyThread p of (ok, p) \<Rightarrow>
             if \<not> ok then (False, p\<lparr>m_usPendingReqCount := m_usPendingReqCount p + 1\<rparr>) else (True, p))
        else (True, p\<lparr>m_usPendingReqCount := m_usPendingReqCount p + 1\<rparr>))"

text \<open>\<open>std::list::remove\<close> removes every element equal to its argument.\<close>

definition PopRequest :: "'r list \<Rightarrow> 'r option \<times> 'r list" where
  "PopRequest q = (case q of [] \<Rightarrow> (None, []) | r # rs \<Rightarrow> (Some r, removeAll r q))"

definition IsDestroyed :: "'r pool \<Rightarrow> bool" where
  "IsDestroyed p = m_bDestroyed p"

definition SetDestroyFlag :: "bool \<Rightarrow> 'r pool \<Rightarrow> 'r pool" where
  "SetDestroyFlag b p = p\<lparr>m_bDestroyed := b\<rparr>"

definition CancelRequests :: "'r pool \<Rightarrow> 'r pool" where
  "CancelRequests p = p\<lparr>m_RequestQueue := []\<rparr>"

text \<open>Constructor and destructor of \<open>AutoCounter\<close>.\<close>

definition counter_begin :: "'r pool \<Rightarrow> 'r pool" where
  "counter_begin p = p\<lparr>m_lActiveThread := m_lActiveThread p + 1\<rparr>"

definition counter_end :: "'r pool \<Rightarrow> 'r pool" where
  "counter_end p = p\<lparr>m_lActiveThread := m_lActiveThread p - 1\<rparr>"

section \<open>Threads\<close>

text \<open>
  Where a thread is in \<open>ProcessRequests\<close>: waiting for the semaphore, having taken it, having counted it,
  counted as active, about to pop, executing, after a successful execution, about to notify, about to
  leave the scope of the counter for the next round, about to leave it for good, ended.
\<close>

datatype 'r ppc =
    P_wait
  | P_taken
  | P_counting
  | P_check
  | P_pop
  | P_exec 'r
  | P_recheck
  | P_notify
  | P_again
  | P_exit
  | P_done

datatype destroy_pc = D_none | D_flag | D_release | D_wait

record 'r tw_sys =
  tw_pool :: "'r pool"
  tw_pcs :: "'r ppc list"
  tw_destroy :: destroy_pc
  tw_result :: "bool option"
  tw_posted :: "'r list"
  tw_begun :: "'r list"
  tw_finished :: "'r multiset"

definition thread_goto :: "nat \<Rightarrow> 'r ppc \<Rightarrow> 'r pool \<Rightarrow> 'r tw_sys \<Rightarrow> 'r tw_sys" where
  "thread_goto w pc p s = s\<lparr>tw_pool := p, tw_pcs := (tw_pcs s)[w := pc]\<rparr>"

text \<open>How a request ends: with the value \<open>Execute\<close> returns, or by an exception.\<close>

datatype execution = Returns int | Throws

definition WaitForSemaphore :: "'r pool \<Rightarrow> 'r pool outcome" where
  "WaitForSemaphore p =
     (case m_hSemaphore p of
        None \<Rightarrow> Blocked
      | Some sem \<Rightarrow>
          if 0 < sem_count sem then Ret (p\<lparr>m_hSemaphore := Some (sem\<lparr>sem_count := sem_count sem - 1\<rparr>)\<rparr>) else Blocked)"

definition notify_pending :: "'r pool \<Rightarrow> 'r pool" where
  "notify_pending p =
     (if m_usPendingReqCount p > 0 then
        if m_usSemaphoreCount p < m_usThreadCount p then
          (case NotifyThread p of (ok, p) \<Rightarrow>
             if \<not> ok then p else p\<lparr>m_usPendingReqCount := m_usPendingReqCount p - 1\<rparr>)
        else p
      else p)"

fun ProcessRequests :: "nat \<Rightarrow> execution \<Rightarrow> 'r ppc \<Rightarrow> 'r tw_sys \<Rightarrow> 'r tw_sys outcome" where
  "ProcessRequests w x P_wait s =
     and_then (WaitForSemaphore (tw_pool s)) (\<lambda>p. Ret (thread_goto w P_taken p s))"
| "ProcessRequests w x P_taken s =
     (let p = tw_pool s in Ret (thread_goto w P_counting (p\<lparr>m_usSemaphoreCount := m_usSemaphoreCount p - 1\<rparr>) s))"
| "ProcessRequests w x P_counting s = Ret (thread_goto w P_check (counter_begin (tw_pool s)) s)"
| "ProcessRequests w x P_check s =
     Ret (thread_goto w (if IsDestroyed (tw_pool s) then P_exit else P_pop) (tw_pool s) s)"
| "ProcessRequests w x P_pop s =
     (case PopRequest (m_RequestQueue (tw_pool s)) of (r, q) \<Rightarrow>
        let p = (tw_pool s)\<lparr>m_RequestQueue := q\<rparr> in
        (case r of
           None \<Rightarrow> Ret (thread_goto w P_again p s)
         | Some r \<Rightarrow> Ret ((thread_goto w (P_exec r) p s)\<lparr>tw_begun := tw_begun s @ [r]\<rparr>)))"
| "ProcessRequests w x (P_exec r) s =
     Ret ((thread_goto w (if x = Returns 0 then P_recheck else P_again) (tw_pool s) s)\<lparr>
            tw_finished := add_mset r (tw_finished s)\<rparr>)"
| "ProcessRequests w x P_recheck s =
     Ret (thread_goto w (if IsDestroyed (tw_pool s) then P_exit else P_notify) (tw_pool s) s)"
| "ProcessRequests w x P_notify s = Ret (thread_goto w P_again (notify_pending (tw_pool s)) s)"
| "ProcessRequests w x P_again s = Ret (thread_goto w P_wait (counter_end (tw_pool s)) s)"
| "ProcessRequests w x P_exit s = Ret (thread_goto w P_done (counter_end (tw_pool s)) s)"
| "ProcessRequests w x P_done s = Blocked"


section \<open>Creation\<close>

text \<open>
  \<open>new HANDLE[n]\<close> fails with an exception, which \<open>AddThreads\<close> catches (\<open>mem\<close>); \<open>thr i\<close> says whether the \<open>i\<close>-th
  \<open>CreateThread\<close> succeeds.
\<close>

fun thread_loop :: "(nat \<Rightarrow> bool) \<Rightarrow> nat \<Rightarrow> nat \<Rightarrow> thread_handle list \<Rightarrow> bool \<times> thread_handle list \<times> nat" where
  "thread_loop thr i 0 hs = (True, hs, i)"
| "thread_loop thr i (Suc k) hs =
     (if thr i then thread_loop thr (Suc i) k (hs[i := H_thread i]) else (False, hs[i := H_null], i))"

definition AddThreads :: "bool \<Rightarrow> (nat \<Rightarrow> bool) \<Rightarrow> 'r tw_sys \<Rightarrow> bool \<times> 'r tw_sys" where
  "AddThreads mem thr s =
     (if \<not> mem then (False, s)
      else let n = unat (m_usThreadCount (tw_pool s)) in
        (case thread_loop thr 0 n (replicate n H_indet) of (ok, hs, m) \<Rightarrow>
           (ok, s\<lparr>tw_pool := (tw_pool s)\<lparr>m_phThreadList := Some hs\<rparr>, tw_pcs := replicate m P_wait\<rparr>)))"

text \<open>
  \<open>Destroy\<close> as its four sections: the test and \<open>CancelRequests\<close>, \<open>SetDestroyFlag\<close>, the release of the
  semaphore, and \<open>DestroyPool\<close>, which waits for all threads and then closes their handles and the one of the semaphore.
  \<open>fails\<close> is the first of these \<open>CloseHandle\<close> calls that fails, if any does. A wait on NULL or a closed handle fails.
\<close>

definition tw_destroy_begins :: "'r tw_sys \<Rightarrow> 'r tw_sys" where
  "tw_destroy_begins s =
     (if m_phThreadList (tw_pool s) = None then s\<lparr>tw_result := Some False\<rparr>
      else s\<lparr>tw_pool := CancelRequests (tw_pool s), tw_destroy := D_flag, tw_result := None\<rparr>)"

definition destroy_releases :: "'r tw_sys \<Rightarrow> 'r tw_sys" where
  "destroy_releases s =
     (let p = tw_pool s in
      if m_lActiveThread p < m_usThreadCount p then
        (case ReleaseSemaphore (unat (m_usThreadCount p) - unat (m_lActiveThread p)) (m_hSemaphore p) of (ok, h) \<Rightarrow>
           if \<not> ok then s\<lparr>tw_pool := p\<lparr>m_hSemaphore := h\<rparr>, tw_destroy := D_none, tw_result := Some False\<rparr>
           else s\<lparr>tw_pool := p\<lparr>m_hSemaphore := h\<rparr>, tw_destroy := D_wait\<rparr>)
      else s\<lparr>tw_destroy := D_wait\<rparr>)"

definition DestroyPool :: "nat option \<Rightarrow> 'r tw_sys \<Rightarrow> 'r tw_sys outcome" where
  "DestroyPool fails s =
     (let p = tw_pool s in
      case m_phThreadList p of
        None \<Rightarrow> UB Null_deref
      | Some hs \<Rightarrow>
          if H_indet \<in> set hs then UB Indeterminate
          else if \<not> list_all is_thread hs then Ret (s\<lparr>tw_destroy := D_none, tw_result := Some False\<rparr>)
          else if \<not> list_all (\<lambda>pc. pc = P_done) (tw_pcs s) then Blocked
          else (case fails of
              None \<Rightarrow>
                Ret (s\<lparr>tw_pool := p\<lparr>m_phThreadList := None,
                     m_hSemaphore := map_option (\<lambda>sem. sem\<lparr>sem_open := False\<rparr>) (m_hSemaphore p), m_RequestQueue := []\<rparr>,
                   tw_destroy := D_none, tw_result := Some True\<rparr>)
            | Some i \<Rightarrow>
                Ret (s\<lparr>tw_pool := p\<lparr>m_phThreadList :=
                     (if i < length hs then Some (replicate i H_closed @ drop i hs) else None)\<rparr>,
                   tw_destroy := D_none, tw_result := Some False\<rparr>)))"

fun Destroy :: "nat option \<Rightarrow> destroy_pc \<Rightarrow> 'r tw_sys \<Rightarrow> 'r tw_sys outcome" where
  "Destroy fails D_none s = Ret (tw_destroy_begins s)"
| "Destroy fails D_flag s = Ret (s\<lparr>tw_pool := SetDestroyFlag True (tw_pool s), tw_destroy := D_release\<rparr>)"
| "Destroy fails D_release s = Ret (destroy_releases s)"
| "Destroy fails D_wait s = DestroyPool fails s"

text \<open>
  \<open>Create\<close>. When the threads cannot be created it calls \<open>Destroy\<close> and returns false; the steps of that call
  follow as steps of the system.
\<close>

definition Create :: "ushort \<Rightarrow> bool \<Rightarrow> bool \<Rightarrow> (nat \<Rightarrow> bool) \<Rightarrow> 'r tw_sys \<Rightarrow> bool \<times> 'r tw_sys" where
  "Create n sem_ok mem thr s =
     (let p = tw_pool s in
      if m_phThreadList p \<noteq> None then (False, s)
      else if n = 0 then (False, s)
      else if n > 64 then (False, s)
      else
        let p = p\<lparr>m_lActiveThread := 0, m_usSemaphoreCount := 0, m_usPendingReqCount := 0, m_usThreadCount := n\<rparr> in
        if \<not> sem_ok then (False, s\<lparr>tw_pool := p\<lparr>m_hSemaphore := None, m_usThreadCount := 0\<rparr>\<rparr>)
        else
          let s = s\<lparr>tw_pool := p\<lparr>m_hSemaphore := Some \<lparr>sem_count = 0, sem_max = unat n, sem_open = True\<rparr>\<rparr>\<rparr> in
          (case AddThreads mem thr s of (ok, s) \<Rightarrow>
             if \<not> ok then (False, tw_destroy_begins s)
             else (True, s\<lparr>tw_pool := SetDestroyFlag False (tw_pool s)\<rparr>)))"

text \<open>The destructor destroys a pool that still exists.\<close>

definition ThreadPool_destructor :: "'r tw_sys \<Rightarrow> 'r tw_sys" where
  "ThreadPool_destructor s = (if m_phThreadList (tw_pool s) \<noteq> None then tw_destroy_begins s else s)"

definition new_sys :: "'r tw_sys" where
  "new_sys = \<lparr>tw_pool = ThreadPool, tw_pcs = [], tw_destroy = D_none, tw_result = None,
     tw_posted = [], tw_begun = [], tw_finished = {#}\<rparr>"

section \<open>The whole system\<close>

datatype 'r tw_label =
    Tw_thread nat execution
  | Tw_post bool 'r
  | Tw_destroy "nat option"

text \<open>\<open>tw_posted\<close> logs the requests that were put into the queue.\<close>

fun tw_step :: "'r tw_label \<Rightarrow> 'r tw_sys \<Rightarrow> 'r tw_sys outcome" where
  "tw_step (Tw_thread w x) s =
     (if w < length (tw_pcs s) then ProcessRequests w x (tw_pcs s ! w) s else Blocked)"
| "tw_step (Tw_post mem r) s =
     (case PostRequest mem r (tw_pool s) of (ok, p) \<Rightarrow>
        Ret (s\<lparr>tw_pool := p,
          tw_posted := (if m_phThreadList (tw_pool s) \<noteq> None \<and> mem then tw_posted s @ [r] else tw_posted s)\<rparr>))"
| "tw_step (Tw_destroy fails) s = Destroy fails (tw_destroy s) s"

definition tw_init :: "'r tw_sys \<Rightarrow> bool" where
  "tw_init s \<longleftrightarrow> (\<exists>n sem_ok mem thr. Create n sem_ok mem thr new_sys = (True, s))"

section \<open>The pool after a successful creation\<close>

lemma is_thread_handles: "list_all is_thread hs \<Longrightarrow> H_indet \<notin> set hs"
  by (auto simp: list_all_iff)

lemma thread_loop_all:
  assumes "\<forall>j. i \<le> j \<and> j < i + k \<longrightarrow> thr j"
  shows "thread_loop thr i k (map H_thread [0..<i] @ replicate k H_indet) = (True, map H_thread [0..<i + k], i + k)"
  using assms
proof (induction k arbitrary: i)
  case 0
  then show ?case by simp
next
  case (Suc k)
  have "(map H_thread [0..<i] @ replicate (Suc k) H_indet)[i := H_thread i] = map H_thread [0..<Suc i] @ replicate k H_indet"
    by (simp add: list_update_append)
  then show ?case using Suc.IH [of "Suc i"] Suc.prems by simp
qed

lemma thread_loop_fails:
  assumes "i \<le> j" "j < i + k" "\<not> thr j" "\<forall>l. i \<le> l \<and> l < j \<longrightarrow> thr l"
  shows "thread_loop thr i k (map H_thread [0..<i] @ replicate k H_indet) =
    (False, map H_thread [0..<j] @ H_null # replicate (i + k - Suc j) H_indet, j)"
  using assms
proof (induction k arbitrary: i)
  case 0
  then show ?case by simp
next
  case (Suc k)
  have up: "(map H_thread [0..<i] @ replicate (Suc k) H_indet)[i := x] = map H_thread [0..<i] @ x # replicate k H_indet" for x
    by (simp add: list_update_append)
  show ?case
  proof (cases "i = j")
    case True
    with Suc.prems(3) up show ?thesis by simp
  next
    case False
    with Suc.prems have "thr i" by simp
    with False Suc.IH [of "Suc i"] Suc.prems up [of "H_thread i"] show ?thesis by simp
  qed
qed

definition tw_started :: "ushort \<Rightarrow> 'r tw_sys" where
  "tw_started n = new_sys\<lparr>tw_pool := ThreadPool\<lparr>m_usThreadCount := n,
       m_hSemaphore := Some \<lparr>sem_count = 0, sem_max = unat n, sem_open = True\<rparr>,
       m_phThreadList := Some (map H_thread [0..<unat n])\<rparr>,
     tw_pcs := replicate (unat n) P_wait\<rparr>"


lemma first_failure:
  fixes n :: nat
  assumes "\<not> (\<forall>i<n. thr i)"
  obtains j where "j < n" "\<not> thr j" "\<forall>l<j. thr l"
proof -
  from assms have "\<exists>j. j < n \<and> \<not> thr j" by blast
  then obtain j where "j < n \<and> \<not> thr j" "\<forall>l<j. \<not> (l < n \<and> \<not> thr l)"
    using exists_least_iff [of "\<lambda>j. j < n \<and> \<not> thr j"] by blast
  then show ?thesis using that [of j] by auto
qed

lemma Create_starts:
  assumes "0 < n" "n \<le> 64" "\<forall>i<unat n. thr i"
  shows "Create n True True thr new_sys = (True, tw_started n)"
proof -
  have "n \<noteq> 0" "\<not> n > 64" using assms by auto
  then show ?thesis using thread_loop_all [of 0 "unat n" thr] assms(3)
    by (simp add: Create_def Let_def AddThreads_def new_sys_def ThreadPool_def tw_started_def SetDestroyFlag_def)
qed

lemma Create_True:
  fixes t :: "'a tw_sys"
  assumes "Create n sem_ok mem thr new_sys = (True, t)"
  shows "0 < n" "n \<le> 64" "t = tw_started n"
proof -
  have n: "n \<noteq> 0" "\<not> n > 64" "sem_ok" "mem"
    using assms by (auto simp: Create_def Let_def AddThreads_def new_sys_def ThreadPool_def split: if_splits)
  then show "0 < n" "n \<le> 64" by (auto simp: word_neq_0_conv)
  have "\<forall>i<unat n. thr i"
  proof (rule ccontr)
    assume "\<not> ?thesis"
    then obtain j where "j < unat n" "\<not> thr j" "\<forall>l<j. thr l" by (rule first_failure)
    then show False using thread_loop_fails [of 0 j "unat n" thr] n assms
      by (auto simp: Create_def Let_def AddThreads_def new_sys_def ThreadPool_def split: if_splits)
  qed
  then have "Create n True True thr new_sys = (True, tw_started n :: 'a tw_sys)"
    by (rule Create_starts [OF \<open>0 < n\<close> \<open>n \<le> 64\<close>])
  then show "t = tw_started n" using assms n by simp
qed

lemma tw_init_started: "tw_init s \<Longrightarrow> \<exists>n. 0 < n \<and> n \<le> 64 \<and> s = tw_started n"
  unfolding tw_init_def using Create_True by blast

end
