(* ===== verification/ThreadPool_Win_Theorems.thy ===== *)
theory ThreadPool_Win_Theorems
  imports ThreadPool_Win
begin

text \<open>
  What the Windows thread pool promises. Until \<open>Destroy\<close> is called, the four 16-bit counters mean what
  their names say and the semaphore never overflows. Used with distinct requests that succeed, the
  pool refines the abstract queue and completes every request. Failing requests, a request
  that is posted twice and a \<open>Destroy\<close> in the wrong moment break these promises.
\<close>

section \<open>Counters\<close>

fun is_taken :: "'r ppc \<Rightarrow> nat" where
  "is_taken P_taken = 1"
| "is_taken _ = 0"

fun is_active :: "'r ppc \<Rightarrow> nat" where
  "is_active P_check = 1"
| "is_active P_pop = 1"
| "is_active (P_exec r) = 1"
| "is_active P_recheck = 1"
| "is_active P_notify = 1"
| "is_active P_again = 1"
| "is_active P_exit = 1"
| "is_active _ = 0"

lemma unat_inc: "unat (x :: ushort) < 65535 \<Longrightarrow> unat (x + 1) = Suc (unat x)"
  by (simp add: unat_word_ariths)

lemma unat_dec: "0 < unat (x :: ushort) \<Longrightarrow> unat (x - 1) = unat x - 1"
  by (rule unat_minus_one) auto

text \<open>
  The accounting of the pool: the semaphore count and the threads that have taken it but not yet counted it
  down make up \<open>m_usSemaphoreCount\<close>, which never exceeds the number of threads; \<open>m_lActiveThread\<close> counts the active
  threads. Only \<open>Destroy\<close> releases the semaphore without counting. \<open>counters\<close> adds what holds as long as \<open>Destroy\<close> was not
  called.
\<close>

definition accounting :: "'r tw_sys \<Rightarrow> bool" where
  "accounting s \<longleftrightarrow>
     (let p = tw_pool s; n = unat (m_usThreadCount p) in
      1 \<le> n \<and> n \<le> 64 \<and> length (tw_pcs s) \<le> n \<and>
      (\<exists>c. m_hSemaphore p = Some \<lparr>sem_count = c, sem_max = n, sem_open = True\<rparr> \<and>
         unat (m_usSemaphoreCount p) = c + sum_list (map is_taken (tw_pcs s))) \<and>
      unat (m_usSemaphoreCount p) \<le> n \<and>
      unat (m_lActiveThread p) = sum_list (map is_active (tw_pcs s)))"

lemma accountingE:
  assumes "accounting s"
  obtains n c where "n = unat (m_usThreadCount (tw_pool s))" "1 \<le> n" "n \<le> 64" "length (tw_pcs s) \<le> n"
    "m_hSemaphore (tw_pool s) = Some \<lparr>sem_count = c, sem_max = n, sem_open = True\<rparr>"
    "unat (m_usSemaphoreCount (tw_pool s)) = c + sum_list (map is_taken (tw_pcs s))"
    "unat (m_usSemaphoreCount (tw_pool s)) \<le> n"
    "unat (m_lActiveThread (tw_pool s)) = sum_list (map is_active (tw_pcs s))"
  using assms unfolding accounting_def Let_def by blast

definition counters :: "'r tw_sys \<Rightarrow> bool" where
  "counters s \<longleftrightarrow> accounting s \<and> length (tw_pcs s) = unat (m_usThreadCount (tw_pool s)) \<and> m_phThreadList (tw_pool s) \<noteq> None \<and>
     \<not> m_bDestroyed (tw_pool s) \<and> P_exit \<notin> set (tw_pcs s) \<and> P_done \<notin> set (tw_pcs s)"

lemma counters_accounting: "counters s \<Longrightarrow> accounting s"
  by (simp add: counters_def)

lemma countersE:
  assumes "counters s"
  obtains n c where "n = unat (m_usThreadCount (tw_pool s))" "1 \<le> n" "n \<le> 64" "length (tw_pcs s) = n" "m_phThreadList (tw_pool s) \<noteq> None"
    "m_hSemaphore (tw_pool s) = Some \<lparr>sem_count = c, sem_max = n, sem_open = True\<rparr>"
    "unat (m_usSemaphoreCount (tw_pool s)) = c + sum_list (map is_taken (tw_pcs s))"
    "unat (m_usSemaphoreCount (tw_pool s)) \<le> n"
    "unat (m_lActiveThread (tw_pool s)) = sum_list (map is_active (tw_pcs s))"
    "\<not> m_bDestroyed (tw_pool s)" "P_exit \<notin> set (tw_pcs s)" "P_done \<notin> set (tw_pcs s)"
  using assms unfolding counters_def accounting_def Let_def by blast

lemma counters_started: "0 < n \<Longrightarrow> n \<le> 64 \<Longrightarrow> counters (tw_started n)"
  by (auto simp: counters_def accounting_def tw_started_def new_sys_def ThreadPool_def sum_list_replicate word_le_nat_alt word_less_nat_alt)

lemma is_active_le: "sum_list (map is_active pcs) \<le> length pcs"
proof (induction pcs)
  case (Cons pc pcs)
  then show ?case by (cases pc) auto
qed simp

text \<open>A notification when the counter is below the number of threads always succeeds.\<close>

lemma accounting_notify:
  assumes "accounting s" "p = (tw_pool s)\<lparr>m_RequestQueue := q\<rparr>" "m_usSemaphoreCount p < m_usThreadCount p"
  shows "\<exists>c. m_hSemaphore (tw_pool s) = Some \<lparr>sem_count = c, sem_max = unat (m_usThreadCount p), sem_open = True\<rparr> \<and>
    NotifyThread p = (True, p\<lparr>m_hSemaphore := Some \<lparr>sem_count = Suc c, sem_max = unat (m_usThreadCount p), sem_open = True\<rparr>,
      m_usSemaphoreCount := m_usSemaphoreCount p + 1\<rparr>) \<and>
    unat (m_usSemaphoreCount p + 1) = Suc (c + sum_list (map is_taken (tw_pcs s))) \<and>
    unat (m_usSemaphoreCount p + 1) \<le> unat (m_usThreadCount p)"
  using assms(1)
proof (rule accountingE)
  fix n c
  assume n: "n = unat (m_usThreadCount (tw_pool s))" "n \<le> 64"
    "m_hSemaphore (tw_pool s) = Some \<lparr>sem_count = c, sem_max = n, sem_open = True\<rparr>"
    "unat (m_usSemaphoreCount (tw_pool s)) = c + sum_list (map is_taken (tw_pcs s))"
  have lt: "unat (m_usSemaphoreCount (tw_pool s)) < n" using assms(2,3) n(1) by (simp add: word_less_nat_alt)
  then have "unat (m_usSemaphoreCount (tw_pool s) + 1) = Suc (unat (m_usSemaphoreCount (tw_pool s)))" using n(2) by (intro unat_inc) simp
  then show ?thesis using n lt assms(2) by (intro exI [of _ c]) (auto simp: NotifyThread_def ReleaseSemaphore_def)
qed

lemmas NotifyThread_ok = accounting_notify [OF counters_accounting]

lemma accounting_post:
  assumes "accounting s" "PostRequest mem r (tw_pool s) = (ok, p)"
  shows "accounting (s\<lparr>tw_pool := p, tw_posted := rs\<rparr>)" "mem \<Longrightarrow> m_phThreadList (tw_pool s) \<noteq> None \<Longrightarrow> ok"
proof -
  let ?p = "(tw_pool s)\<lparr>m_RequestQueue := m_RequestQueue (tw_pool s) @ [r]\<rparr>"
  consider "\<not> mem \<or> m_phThreadList (tw_pool s) = None"
    | "mem" "m_phThreadList (tw_pool s) \<noteq> None" "m_usSemaphoreCount ?p < m_usThreadCount ?p"
    | "mem" "m_phThreadList (tw_pool s) \<noteq> None" "\<not> m_usSemaphoreCount ?p < m_usThreadCount ?p" by blast
  then have "accounting (s\<lparr>tw_pool := p, tw_posted := rs\<rparr>) \<and> (mem \<and> m_phThreadList (tw_pool s) \<noteq> None \<longrightarrow> ok)"
  proof cases
    case 1
    with assms show ?thesis by (auto simp: PostRequest_def accounting_def split: if_splits)
  next
    case 2
    from accounting_notify [OF assms(1) refl 2(3)] assms 2 show ?thesis
      by (auto simp: PostRequest_def Let_def accounting_def)
  next
    case 3
    with assms show ?thesis by (auto simp: PostRequest_def Let_def accounting_def)
  qed
  then show "accounting (s\<lparr>tw_pool := p, tw_posted := rs\<rparr>)" "mem \<Longrightarrow> m_phThreadList (tw_pool s) \<noteq> None \<Longrightarrow> ok" by auto
qed

lemma PostRequest_frame:
  assumes "PostRequest mem r p = (ok, p')"
  shows "m_phThreadList p' = m_phThreadList p" "m_bDestroyed p' = m_bDestroyed p" "m_usThreadCount p' = m_usThreadCount p"
    "m_RequestQueue p' = m_RequestQueue p \<or> m_RequestQueue p' = m_RequestQueue p @ [r]" "m_phThreadList p = None \<Longrightarrow> p' = p \<and> \<not> ok"
  using assms by (auto simp: PostRequest_def NotifyThread_def Let_def split: if_splits prod.splits)

lemma counters_post:
  assumes "counters s" "PostRequest mem r (tw_pool s) = (ok, p)"
  shows "counters (s\<lparr>tw_pool := p, tw_posted := rs\<rparr>)" "mem \<Longrightarrow> ok"
  using accounting_post [OF counters_accounting [OF assms(1)] assms(2)] PostRequest_frame [OF assms(2)] assms(1)
  by (simp_all add: counters_def)

text \<open>One step of a thread, as far as the counters go.\<close>

lemma accounting_goto:
  assumes "accounting s" "w < length (tw_pcs s)" "m_usThreadCount p = m_usThreadCount (tw_pool s)"
    and "m_hSemaphore p = Some \<lparr>sem_count = c, sem_max = unat (m_usThreadCount p), sem_open = True\<rparr>"
    and "unat (m_usSemaphoreCount p) = c + sum_list (map is_taken ((tw_pcs s)[w := pc]))"
    and "unat (m_usSemaphoreCount p) \<le> unat (m_usThreadCount p)"
    and "unat (m_lActiveThread p) = sum_list (map is_active ((tw_pcs s)[w := pc]))"
  shows "accounting (thread_goto w pc p s)"
  using assms unfolding accounting_def Let_def thread_goto_def by auto

lemma accounting_thread:
  assumes "accounting s" "w < length (tw_pcs s)" "ProcessRequests w x (tw_pcs s ! w) s = Ret t"
  shows "accounting t"
  using assms(1)
proof (rule accountingE)
  fix n c
  let ?p = "tw_pool s"
  assume n: "n = unat (m_usThreadCount ?p)" "1 \<le> n" "n \<le> 64" "length (tw_pcs s) \<le> n"
    "m_hSemaphore ?p = Some \<lparr>sem_count = c, sem_max = n, sem_open = True\<rparr>"
    "unat (m_usSemaphoreCount ?p) = c + sum_list (map is_taken (tw_pcs s))"
    "unat (m_usSemaphoreCount ?p) \<le> n" "unat (m_lActiveThread ?p) = sum_list (map is_active (tw_pcs s))"
  note go = accounting_goto [OF assms(1,2)]
  have tk: "sum_list (map is_taken ((tw_pcs s)[w := pc])) + is_taken (tw_pcs s ! w) = sum_list (map is_taken (tw_pcs s)) + is_taken pc" for pc
    by (rule sum_list_update_add [OF assms(2)])
  have ac: "sum_list (map is_active ((tw_pcs s)[w := pc])) + is_active (tw_pcs s ! w) = sum_list (map is_active (tw_pcs s)) + is_active pc" for pc
    by (rule sum_list_update_add [OF assms(2)])
  have log: "accounting (u\<lparr>tw_begun := b, tw_finished := f\<rparr>) = accounting u" "accounting (u\<lparr>tw_begun := b\<rparr>) = accounting u"
    "accounting (u\<lparr>tw_finished := f\<rparr>) = accounting u" for u b f
    by (simp_all add: accounting_def)
  show ?thesis
  proof (cases "tw_pcs s ! w")
    case P_wait
    with assms(3) n tk [of P_taken] ac [of P_taken] show ?thesis
      by (auto simp: WaitForSemaphore_def outcome_simps intro!: go split: if_splits)
  next
    case P_taken
    have "0 < unat (m_usSemaphoreCount ?p)" using n(6) tk [of P_counting] P_taken by simp
    with P_taken assms(3) n tk [of P_counting] ac [of P_counting] show ?thesis
      by (auto simp: unat_dec Let_def intro!: go)
  next
    case P_counting
    have "sum_list (map is_active (tw_pcs s)) \<le> 64" using is_active_le [of "tw_pcs s"] n(3,4) by simp
    then have "unat (m_lActiveThread ?p + 1) = Suc (unat (m_lActiveThread ?p))" using n(8) by (intro unat_inc) simp
    with P_counting assms(3) n tk [of P_check] ac [of P_check] show ?thesis
      by (auto simp: counter_begin_def intro!: go)
  next
    case P_check
    with assms(3) n tk [of P_pop] ac [of P_pop] tk [of P_exit] ac [of P_exit] show ?thesis by (auto simp: IsDestroyed_def intro!: go)
  next
    case P_pop
    obtain r q where q: "PopRequest (m_RequestQueue ?p) = (r, q)" by fastforce
    have t: "t = (case r of None \<Rightarrow> thread_goto w P_again (?p\<lparr>m_RequestQueue := q\<rparr>) s
        | Some r \<Rightarrow> (thread_goto w (P_exec r) (?p\<lparr>m_RequestQueue := q\<rparr>) s)\<lparr>tw_begun := tw_begun s @ [r]\<rparr>)"
      using P_pop assms(3) q by (simp add: Let_def split: option.splits)
    have "accounting (thread_goto w pc (?p\<lparr>m_RequestQueue := q\<rparr>) s)" if "is_taken pc = 0" "is_active pc = 1" for pc
      using that n tk [of pc] ac [of pc] P_pop by (intro go [where c = c]) auto
    then show ?thesis unfolding t by (cases r) (auto simp: log)
  next
    case (P_exec r)
    have "accounting (thread_goto w pc ?p s)" if "is_taken pc = 0" "is_active pc = 1" for pc
      using that n tk [of pc] ac [of pc] P_exec by (intro go [where c = c]) auto
    then show ?thesis using P_exec assms(3) by (auto simp: log)
  next
    case P_recheck
    with assms(3) n tk [of P_notify] ac [of P_notify] tk [of P_exit] ac [of P_exit] show ?thesis by (auto simp: IsDestroyed_def intro!: go)
  next
    case P_notify
    show ?thesis
    proof (cases "m_usPendingReqCount ?p > 0 \<and> m_usSemaphoreCount ?p < m_usThreadCount ?p")
      case True
      from accounting_notify [of s ?p "m_RequestQueue ?p"] assms(1) True P_notify assms(3) n tk [of P_again] ac [of P_again]
      show ?thesis by (auto simp: notify_pending_def intro!: go)
    next
      case False
      then have "notify_pending ?p = ?p" by (auto simp: notify_pending_def)
      with P_notify assms(3) n tk [of P_again] ac [of P_again] show ?thesis by (auto intro!: go)
    qed
  next
    case P_again
    have "0 < unat (m_lActiveThread ?p)" using n(8) ac [of P_wait] P_again by simp
    with P_again assms(3) n tk [of P_wait] ac [of P_wait] show ?thesis
      by (auto simp: counter_end_def unat_dec intro!: go)
  next
    case P_exit
    have "0 < unat (m_lActiveThread ?p)" using n(8) ac [of P_done] P_exit by simp
    with P_exit assms(3) n tk [of P_done] ac [of P_done] show ?thesis
      by (auto simp: counter_end_def unat_dec intro!: go)
  next
    case P_done
    then show ?thesis using assms(3) by simp
  qed
qed


text \<open>A step of a thread leaves the array of handles and the flag alone; it leaves the loop only when the flag is set.\<close>

lemma thread_pool_frame:
  assumes "ProcessRequests w x pc s = Ret t"
  shows "m_phThreadList (tw_pool t) = m_phThreadList (tw_pool s)" "m_bDestroyed (tw_pool t) = m_bDestroyed (tw_pool s)"
    "m_usThreadCount (tw_pool t) = m_usThreadCount (tw_pool s)"
    "\<exists>pc'. tw_pcs t = (tw_pcs s)[w := pc'] \<and> (pc' \<in> {P_exit, P_done} \<longrightarrow> m_bDestroyed (tw_pool s) \<or> pc = P_exit)"
  using assms
  by (cases pc; auto simp: thread_goto_def outcome_simps Let_def WaitForSemaphore_def counter_begin_def counter_end_def
      IsDestroyed_def notify_pending_def NotifyThread_def split: option.splits prod.splits if_splits)+

lemma counters_thread:
  assumes "counters s" "w < length (tw_pcs s)" "ProcessRequests w x (tw_pcs s ! w) s = Ret t"
  shows "counters t"
proof -
  have "tw_pcs s ! w \<noteq> P_exit" using assms(1,2) nth_mem by (metis counters_def)
  then show ?thesis
    using accounting_thread [OF counters_accounting [OF assms(1)] assms(2,3)] thread_pool_frame [OF assms(3)] assms(1)
    by (auto simp: counters_def dest!: in_set_updateD)
qed

lemma counters_step:
  assumes "counters s" "tw_step l s = Ret t" "\<And>b. l \<noteq> Tw_destroy b"
  shows "counters t"
proof (cases l)
  case (Tw_thread w x)
  with assms counters_thread show ?thesis by (auto split: if_splits)
next
  case (Tw_post mem r)
  obtain ok p where p: "PostRequest mem r (tw_pool s) = (ok, p)" by fastforce
  from counters_post(1) [OF assms(1) p] assms(2) Tw_post p show ?thesis by auto
qed (use assms(3) in simp)

text \<open>The invariant of the whole system: as long as \<open>Destroy\<close> was not called the counters are right.\<close>

definition quiet :: "'r tw_sys \<Rightarrow> bool" where
  "quiet s \<longleftrightarrow> tw_destroy s = D_none \<and> tw_result s = None"

definition tw_inv :: "'r tw_sys \<Rightarrow> bool" where
  "tw_inv s \<longleftrightarrow> (quiet s \<longrightarrow> counters s)"

lemma thread_frame:
  assumes "ProcessRequests w x pc s = Ret t"
  shows "tw_destroy t = tw_destroy s \<and> tw_result t = tw_result s \<and> tw_posted t = tw_posted s"
  using assms by (cases pc) (auto simp: thread_goto_def outcome_simps Let_def split: option.splits prod.splits)

lemma not_quiet_step:
  assumes "tw_step l s = Ret t" "\<not> quiet s \<or> (\<exists>b. l = Tw_destroy b)"
  shows "\<not> quiet t"
proof (cases l)
  case (Tw_thread w x)
  with assms thread_frame [of w x "tw_pcs s ! w" s t] show ?thesis by (auto simp: quiet_def split: if_splits)
next
  case (Tw_post mem r)
  with assms show ?thesis by (auto simp: quiet_def split: prod.splits)
next
  case (Tw_destroy b)
  with assms show ?thesis
    by (cases "tw_destroy s")
      (auto simp: quiet_def tw_destroy_begins_def destroy_releases_def DestroyPool_def Let_def split: if_splits option.splits prod.splits)
qed

interpretation tw: invariant_system tw_step tw_init tw_inv
proof (unfold_locales, goal_cases)
  case (1 s)
  then show ?case using tw_init_started counters_started by (auto simp: tw_inv_def)
next
  case (2 s l t)
  show ?case unfolding tw_inv_def
  proof
    assume "quiet t"
    then have "quiet s" "\<And>b. l \<noteq> Tw_destroy b" using not_quiet_step [OF 2(2)] by blast+
    then show "counters t" using counters_step [OF _ 2(2)] 2(1) by (auto simp: tw_inv_def)
  qed
qed

section \<open>Disciplined use\<close>

text \<open>
  Requests that are not in use already and succeed, fewer than 65535 of them waiting at a time, and
  no \<open>Destroy\<close>.
\<close>

definition disciplined :: "'r tw_label \<Rightarrow> 'r tw_sys \<Rightarrow> bool" where
  "disciplined l s =
     (case l of
        Tw_thread w x \<Rightarrow> x = Returns 0
      | Tw_post mem r \<Rightarrow> r \<notin> set (tw_posted s) \<and> length (m_RequestQueue (tw_pool s)) < 65535
      | Tw_destroy b \<Rightarrow> False)"

definition disc_step :: "'r tw_label \<Rightarrow> 'r tw_sys \<Rightarrow> 'r tw_sys outcome" where
  "disc_step l s = (if disciplined l s then tw_step l s else Blocked)"

text \<open>Threads that hold a semaphore count for a request they have not popped yet; threads with a request.\<close>

fun carries :: "'r ppc \<Rightarrow> nat" where
  "carries P_taken = 1"
| "carries P_counting = 1"
| "carries P_check = 1"
| "carries P_pop = 1"
| "carries _ = 0"

fun is_busy :: "'r ppc \<Rightarrow> nat" where
  "is_busy (P_exec r) = 1"
| "is_busy P_recheck = 1"
| "is_busy P_notify = 1"
| "is_busy _ = 0"

fun executing :: "'r ppc \<Rightarrow> 'r multiset" where
  "executing (P_exec r) = {#r#}"
| "executing _ = {#}"

definition tokens :: "'r tw_sys \<Rightarrow> nat" where
  "tokens s = (case m_hSemaphore (tw_pool s) of None \<Rightarrow> 0 | Some sem \<Rightarrow> sem_count sem) + sum_list (map carries (tw_pcs s))"

text \<open>
  Every waiting request has its semaphore count or is pending, and pending requests are not forgotten:
  some thread will notify for them.
\<close>

definition disc_inv :: "'r tw_sys \<Rightarrow> bool" where
  "disc_inv s \<longleftrightarrow>
     counters s \<and> quiet s \<and> distinct (tw_posted s) \<and> tw_posted s = tw_begun s @ m_RequestQueue (tw_pool s) \<and>
     length (m_RequestQueue (tw_pool s)) = tokens s + unat (m_usPendingReqCount (tw_pool s)) \<and>
     (0 < unat (m_usPendingReqCount (tw_pool s)) \<longrightarrow> 0 < tokens s + sum_list (map is_busy (tw_pcs s)))"

definition tw_view :: "'r tw_sys \<Rightarrow> 'r pool_view" where
  "tw_view s = \<lparr>submitted = tw_posted s, pending = m_RequestQueue (tw_pool s), begun = tw_begun s,
     running = sum_list (map executing (tw_pcs s)), finished = tw_finished s, discarded = []\<rparr>"

lemma is_taken_le_carries: "is_taken pc \<le> carries pc"
  by (cases pc) simp_all

lemma disc_inv_started: "0 < n \<Longrightarrow> n \<le> 64 \<Longrightarrow> disc_inv (tw_started n)"
  using counters_started [of n]
  by (simp add: disc_inv_def tokens_def quiet_def tw_started_def new_sys_def ThreadPool_def sum_list_replicate)

lemma tokens_pos:
  assumes "counters s" "\<not> m_usSemaphoreCount (tw_pool s) < m_usThreadCount (tw_pool s)"
  shows "0 < tokens s"
  using assms(1)
proof (rule countersE)
  fix n k
  assume "n = unat (m_usThreadCount (tw_pool s))" "1 \<le> n" "m_hSemaphore (tw_pool s) = Some \<lparr>sem_count = k, sem_max = n, sem_open = True\<rparr>"
    "unat (m_usSemaphoreCount (tw_pool s)) = k + sum_list (map is_taken (tw_pcs s))"
  moreover from this have "0 < unat (m_usSemaphoreCount (tw_pool s))" using assms(2) unfolding word_less_nat_alt by linarith
  moreover have "sum_list (map is_taken (tw_pcs s)) \<le> sum_list (map carries (tw_pcs s))"
    by (rule sum_list_mono) (rule is_taken_le_carries)
  ultimately show ?thesis by (simp add: tokens_def) linarith
qed

lemma disc_post:
  assumes "disc_inv s" "disc_step (Tw_post mem r) s = Ret t"
  shows "disc_inv t \<and> pool_step Fifo (tw_view s) (tw_view t)"
proof -
  let ?p = "(tw_pool s)\<lparr>m_RequestQueue := m_RequestQueue (tw_pool s) @ [r]\<rparr>"
  have c: "counters s" "quiet s" using assms(1) by (auto simp: disc_inv_def)
  have r: "r \<notin> set (tw_posted s)" "length (m_RequestQueue (tw_pool s)) < 65535"
    and step: "tw_step (Tw_post mem r) s = Ret t"
    using assms(2) by (auto simp: disc_step_def disciplined_def split: if_splits)
  have ct: "counters t" using counters_step [OF c(1) step] by simp
  have list: "m_phThreadList (tw_pool s) \<noteq> None" and n: "1 \<le> unat (m_usThreadCount (tw_pool s))" using c(1) by (auto simp: counters_def accounting_def Let_def)
  have sub: "pool_step Fifo (tw_view s) (tw_view (s\<lparr>tw_pool := p, tw_posted := tw_posted s @ [r]\<rparr>))"
    if "m_RequestQueue p = m_RequestQueue (tw_pool s) @ [r]" for p
  proof -
    have "tw_view (s\<lparr>tw_pool := p, tw_posted := tw_posted s @ [r]\<rparr>) = (tw_view s)\<lparr>submitted := submitted (tw_view s) @ [r],
        pending := insert_pending Fifo r (pending (tw_view s))\<rparr>" using that by (simp add: tw_view_def)
    then show ?thesis using pool_step.submit by metis
  qed
  consider "\<not> mem" | "mem" "m_usSemaphoreCount ?p < m_usThreadCount ?p" | "mem" "\<not> m_usSemaphoreCount ?p < m_usThreadCount ?p" by blast
  then show ?thesis
  proof cases
    case 1
    with step list have "t = s" by (simp add: PostRequest_def)
    with assms(1) show ?thesis by (simp add: pool_step.silent)
  next
    case 2
    from NotifyThread_ok [OF c(1) refl 2(2)] obtain k where k:
        "m_hSemaphore (tw_pool s) = Some \<lparr>sem_count = k, sem_max = unat (m_usThreadCount ?p), sem_open = True\<rparr>"
        "NotifyThread ?p = (True, ?p\<lparr>m_hSemaphore := Some \<lparr>sem_count = Suc k, sem_max = unat (m_usThreadCount ?p), sem_open = True\<rparr>,
          m_usSemaphoreCount := m_usSemaphoreCount ?p + 1\<rparr>)" by blast
    with 2 step list have t: "t = s\<lparr>tw_pool := ?p\<lparr>m_hSemaphore := Some \<lparr>sem_count = Suc k, sem_max = unat (m_usThreadCount ?p), sem_open = True\<rparr>,
          m_usSemaphoreCount := m_usSemaphoreCount ?p + 1\<rparr>, tw_posted := tw_posted s @ [r]\<rparr>"
      by (simp add: PostRequest_def Let_def)
    have "disc_inv t" using assms(1) ct k(1) r(1) by (auto simp: disc_inv_def tokens_def quiet_def t)
    then show ?thesis using sub t by simp
  next
    case 3
    then have t: "t = s\<lparr>tw_pool := ?p\<lparr>m_usPendingReqCount := m_usPendingReqCount (tw_pool s) + 1\<rparr>, tw_posted := tw_posted s @ [r]\<rparr>"
      using step list by (simp add: PostRequest_def Let_def)
    have "unat (m_usPendingReqCount (tw_pool s)) < 65535" using assms(1) r(2) by (auto simp: disc_inv_def)
    note inc = unat_inc [OF this]
    have "0 < tokens s" using tokens_pos [OF c(1)] 3(2) by simp
    then have "disc_inv t" using assms(1) ct r(1) inc by (auto simp: disc_inv_def tokens_def quiet_def t)
    then show ?thesis using sub t by simp
  qed
qed


text \<open>Steps of a thread that neither take nor complete a request.\<close>

lemma disc_move:
  assumes "disc_inv s" "w < length (tw_pcs s)" "counters t" "quiet t"
    and t: "tw_pcs t = (tw_pcs s)[w := pc]" "tw_posted t = tw_posted s" "tw_begun t = tw_begun s"
      "m_RequestQueue (tw_pool t) = m_RequestQueue (tw_pool s)" "tw_finished t = tw_finished s"
    and "executing pc = executing (tw_pcs s ! w)"
    and "tokens t + unat (m_usPendingReqCount (tw_pool t)) = tokens s + unat (m_usPendingReqCount (tw_pool s))"
    and "0 < unat (m_usPendingReqCount (tw_pool t)) \<Longrightarrow> 0 < tokens t + sum_list (map is_busy (tw_pcs t))"
  shows "disc_inv t \<and> pool_step Fifo (tw_view s) (tw_view t)"
proof -
  have "tw_view t = tw_view s" using t sum_list_update_same [OF assms(2,10)] by (simp add: tw_view_def)
  moreover have "disc_inv t" using assms(1,3,4,11,12) t unfolding disc_inv_def by auto
  ultimately show ?thesis by (simp add: pool_step.silent)
qed

lemma disc_thread:
  assumes "disc_inv s" "disc_step (Tw_thread w x) s = Ret t"
  shows "disc_inv t \<and> pool_step Fifo (tw_view s) (tw_view t)"
proof -
  have w: "w < length (tw_pcs s)" "x = Returns 0" and step: "ProcessRequests w x (tw_pcs s ! w) s = Ret t"
    using assms(2) by (auto simp: disc_step_def disciplined_def split: if_splits)
  have c: "counters s" "quiet s" using assms(1) by (auto simp: disc_inv_def)
  have ct: "counters t" using counters_thread [OF c(1) w(1) step] .
  have qt: "quiet t" using c(2) thread_frame [OF step] by (simp add: quiet_def)
  obtain k n where k: "m_hSemaphore (tw_pool s) = Some \<lparr>sem_count = k, sem_max = n, sem_open = True\<rparr>" "\<not> m_bDestroyed (tw_pool s)"
    "P_exit \<notin> set (tw_pcs s)" using c(1) by (auto simp: counters_def accounting_def Let_def)
  have ca: "sum_list (map carries ((tw_pcs s)[w := pc])) + carries (tw_pcs s ! w) = sum_list (map carries (tw_pcs s)) + carries pc" for pc
    by (rule sum_list_update_add [OF w(1)])
  have bu: "sum_list (map is_busy ((tw_pcs s)[w := pc])) + is_busy (tw_pcs s ! w) = sum_list (map is_busy (tw_pcs s)) + is_busy pc" for pc
    by (rule sum_list_update_add [OF w(1)])
  note inv = assms(1) [unfolded disc_inv_def]
  note go = disc_move [OF assms(1) w(1) ct qt]
  let ?p = "tw_pool s"
  show ?thesis
  proof (cases "tw_pcs s ! w")
    case P_wait
    with step k have t: "0 < k" "t = thread_goto w P_taken (?p\<lparr>m_hSemaphore := Some \<lparr>sem_count = k - 1, sem_max = n, sem_open = True\<rparr>\<rparr>) s"
      by (auto simp: WaitForSemaphore_def outcome_simps split: if_splits)
    then show ?thesis using t k ca [of P_taken] bu [of P_taken] P_wait inv
      by (intro go [of P_taken]) (auto simp: thread_goto_def tokens_def)
  next
    case P_taken
    with step have t: "t = thread_goto w P_counting (?p\<lparr>m_usSemaphoreCount := m_usSemaphoreCount ?p - 1\<rparr>) s" by (simp add: Let_def)
    then show ?thesis using t k ca [of P_counting] bu [of P_counting] P_taken inv
      by (intro go [of P_counting]) (auto simp: thread_goto_def tokens_def)
  next
    case P_counting
    with step have t: "t = thread_goto w P_check (counter_begin ?p) s" by simp
    then show ?thesis using t k ca [of P_check] bu [of P_check] P_counting inv
      by (intro go [of P_check]) (auto simp: thread_goto_def tokens_def counter_begin_def)
  next
    case P_check
    with step k have t: "t = thread_goto w P_pop ?p s" by (simp add: IsDestroyed_def)
    then show ?thesis using t k ca [of P_pop] bu [of P_pop] P_check inv
      by (intro go [of P_pop]) (auto simp: thread_goto_def tokens_def)
  next
    case P_pop
    have "0 < tokens s" using ca [of P_wait] P_pop by (simp add: tokens_def)
    then obtain r rs where q: "m_RequestQueue ?p = r # rs" using inv by (cases "m_RequestQueue ?p") auto
    have "distinct (r # rs)" using inv q by (metis distinct_append)
    then have pop: "PopRequest (m_RequestQueue ?p) = (Some r, rs)" by (simp add: PopRequest_def q removeAll_filter_not_eq filter_id_conv) (metis)
    with P_pop step have t: "t = (thread_goto w (P_exec r) (?p\<lparr>m_RequestQueue := rs\<rparr>) s)\<lparr>tw_begun := tw_begun s @ [r]\<rparr>" by simp
    have "disc_inv t" using inv q ct qt k ca [of "P_exec r"] bu [of "P_exec r"] P_pop
      by (auto simp: disc_inv_def t thread_goto_def tokens_def)
    moreover have "tw_view t = (tw_view s)\<lparr>pending := rs, begun := begun (tw_view s) @ [r], running := add_mset r (running (tw_view s))\<rparr>"
      using sum_list_update_add [OF w(1), of executing "P_exec r"] P_pop by (simp add: tw_view_def t thread_goto_def)
    ultimately show ?thesis using pool_step.take [of "tw_view s" r rs Fifo] q by (simp add: tw_view_def)
  next
    case (P_exec r)
    with step w(2) have t: "t = (thread_goto w P_recheck ?p s)\<lparr>tw_finished := add_mset r (tw_finished s)\<rparr>" by simp
    have "disc_inv t" using inv ct qt k ca [of P_recheck] bu [of P_recheck] P_exec
      by (auto simp: disc_inv_def t thread_goto_def tokens_def)
    moreover have "sum_list (map executing (tw_pcs s)) = add_mset r (sum_list (map executing ((tw_pcs s)[w := P_recheck])))"
      using sum_list_update_add [OF w(1), of executing P_recheck] P_exec by simp
    moreover from this have "tw_view t = (tw_view s)\<lparr>running := running (tw_view s) - {#r#}, finished := add_mset r (finished (tw_view s))\<rparr>"
      by (simp add: tw_view_def t thread_goto_def)
    ultimately show ?thesis using pool_step.complete [of r "tw_view s" Fifo] by (simp add: tw_view_def)
  next
    case P_recheck
    with step k have t: "t = thread_goto w P_notify ?p s" by (simp add: IsDestroyed_def)
    then show ?thesis using t k ca [of P_notify] bu [of P_notify] P_recheck inv
      by (intro go [of P_notify]) (auto simp: thread_goto_def tokens_def)
  next
    case P_again
    with step have t: "t = thread_goto w P_wait (counter_end ?p) s" by simp
    then show ?thesis using t k ca [of P_wait] bu [of P_wait] P_again inv
      by (intro go [of P_wait]) (auto simp: thread_goto_def tokens_def counter_end_def)
  next
    case P_notify
    then have t: "t = thread_goto w P_again (notify_pending ?p) s" using step by simp
    consider "\<not> 0 < m_usPendingReqCount ?p" | "0 < m_usPendingReqCount ?p" "m_usSemaphoreCount ?p < m_usThreadCount ?p"
      | "0 < m_usPendingReqCount ?p" "\<not> m_usSemaphoreCount ?p < m_usThreadCount ?p" by blast
    then show ?thesis
    proof cases
      case 1
      then have "notify_pending ?p = ?p" "m_usPendingReqCount ?p = 0" by (simp_all add: notify_pending_def word_gt_0)
      then show ?thesis using t k ca [of P_again] P_notify by (intro go [of P_again]) (auto simp: thread_goto_def tokens_def)
    next
      case 2
      have "0 < unat (m_usPendingReqCount ?p)" using 2(1) by (simp add: word_less_nat_alt)
      moreover have "NotifyThread ?p = (True, ?p\<lparr>m_hSemaphore := Some \<lparr>sem_count = Suc k, sem_max = unat (m_usThreadCount ?p), sem_open = True\<rparr>,
          m_usSemaphoreCount := m_usSemaphoreCount ?p + 1\<rparr>)"
        using NotifyThread_ok [OF c(1), of ?p "m_RequestQueue ?p"] 2(2) k(1) by auto
      ultimately show ?thesis using t 2 k ca [of P_again] P_notify
        by (intro go [of P_again]) (auto simp: thread_goto_def tokens_def notify_pending_def unat_dec)
    next
      case 3
      then have "notify_pending ?p = ?p" by (simp add: notify_pending_def)
      then show ?thesis using t k ca [of P_again] P_notify tokens_pos [OF c(1) 3(2)]
        by (intro go [of P_again]) (auto simp: thread_goto_def tokens_def)
    qed
  next
    case P_exit
    then show ?thesis using k(3) w(1) nth_mem by metis
  next
    case P_done
    with step show ?thesis by simp
  qed
qed


lemma disc_inv_step:
  assumes "disc_inv s" "disc_step l s = Ret t"
  shows "disc_inv t \<and> pool_step Fifo (tw_view s) (tw_view t)"
proof (cases l)
  case (Tw_destroy b)
  with assms(2) show ?thesis by (simp add: disc_step_def disciplined_def)
next
  case (Tw_thread w x)
  show ?thesis using disc_thread [OF assms(1) assms(2) [unfolded Tw_thread]] .
next
  case (Tw_post mem r)
  show ?thesis using disc_post [OF assms(1) assms(2) [unfolded Tw_post]] .
qed

interpretation twd: pool_refinement disc_step tw_init disc_inv Fifo tw_view
proof (unfold_locales, goal_cases)
  case (1 s)
  then show ?case using tw_init_started disc_inv_started by metis
next
  case (2 s l t)
  then show ?case using disc_inv_step by blast
next
  case (3 s)
  then obtain n where "s = tw_started n" using tw_init_started by blast
  then show ?case by (simp add: tw_view_def empty_view_def tw_started_def new_sys_def ThreadPool_def sum_list_replicate)
next
  case (4 s l t)
  then show ?case using disc_inv_step by blast
qed

fun ppc_work :: "'r ppc \<Rightarrow> nat" where
  "ppc_work P_wait = 0"
| "ppc_work P_taken = 8"
| "ppc_work P_counting = 7"
| "ppc_work P_check = 6"
| "ppc_work P_pop = 5"
| "ppc_work (P_exec r) = 4"
| "ppc_work P_recheck = 3"
| "ppc_work P_notify = 2"
| "ppc_work P_again = 1"
| "ppc_work P_exit = 1"
| "ppc_work P_done = 0"

text \<open>A count of the semaphore costs a round of nine steps, a pending request one step more.\<close>

definition tw_work :: "'r tw_sys \<Rightarrow> nat" where
  "tw_work s = (case m_hSemaphore (tw_pool s) of None \<Rightarrow> 0 | Some sem \<Rightarrow> 9 * sem_count sem) +
     10 * unat (m_usPendingReqCount (tw_pool s)) + sum_list (map ppc_work (tw_pcs s))"

fun tw_own :: "'r tw_label \<Rightarrow> bool" where
  "tw_own (Tw_thread w x) = True"
| "tw_own _ = False"

lemma notify_work:
  assumes "counters s"
  shows "9 * sem_count (the (m_hSemaphore (notify_pending (tw_pool s)))) + 10 * unat (m_usPendingReqCount (notify_pending (tw_pool s)))
    \<le> 9 * sem_count (the (m_hSemaphore (tw_pool s))) + 10 * unat (m_usPendingReqCount (tw_pool s)) \<and> m_hSemaphore (notify_pending (tw_pool s)) \<noteq> None"
proof (cases "0 < m_usPendingReqCount (tw_pool s) \<and> m_usSemaphoreCount (tw_pool s) < m_usThreadCount (tw_pool s)")
  case True
  then have "0 < unat (m_usPendingReqCount (tw_pool s))" by (simp add: word_less_nat_alt)
  then show ?thesis using True NotifyThread_ok [OF assms, of "tw_pool s" "m_RequestQueue (tw_pool s)"]
    by (auto simp: notify_pending_def unat_dec)
next
  case False
  then have "notify_pending (tw_pool s) = tw_pool s" by (auto simp: notify_pending_def)
  moreover have "m_hSemaphore (tw_pool s) \<noteq> None" using assms by (auto simp: counters_def accounting_def Let_def)
  ultimately show ?thesis by simp
qed

lemma thread_work:
  assumes "counters s" "w < length (tw_pcs s)" "ProcessRequests w x (tw_pcs s ! w) s = Ret t"
  shows "tw_work t < tw_work s"
proof -
  have sum: "sum_list (map ppc_work ((tw_pcs s)[w := pc])) + ppc_work (tw_pcs s ! w) = sum_list (map ppc_work (tw_pcs s)) + ppc_work pc" for pc
    by (rule sum_list_update_add [OF assms(2)])
  obtain k n where k: "m_hSemaphore (tw_pool s) = Some \<lparr>sem_count = k, sem_max = n, sem_open = True\<rparr>" using assms(1) by (auto simp: counters_def accounting_def Let_def)
  show ?thesis
  proof (cases "tw_pcs s ! w")
    case P_notify
    then have "t = thread_goto w P_again (notify_pending (tw_pool s)) s" using assms(3) by simp
    then show ?thesis using notify_work [OF assms(1)] sum [of P_again] P_notify k by (auto simp: tw_work_def thread_goto_def)
  next
    case P_wait
    then show ?thesis using assms(3) k sum [of P_taken] by (auto simp: tw_work_def thread_goto_def WaitForSemaphore_def outcome_simps split: if_splits)
  next
    case P_pop
    then show ?thesis using assms(3) k sum [of P_again] sum [of "P_exec (hd (m_RequestQueue (tw_pool s)))"]
      by (auto simp: tw_work_def thread_goto_def PopRequest_def split: list.splits)
  next
    case (P_exec r)
    then show ?thesis using assms(3) k sum [of P_again] sum [of P_recheck] by (auto simp: tw_work_def thread_goto_def)
  next
    case P_check
    then show ?thesis using assms(3) k sum [of P_exit] sum [of P_pop] by (auto simp: tw_work_def thread_goto_def)
  next
    case P_recheck
    then show ?thesis using assms(3) k sum [of P_exit] sum [of P_notify] by (auto simp: tw_work_def thread_goto_def)
  qed (use assms(3) k sum [of P_counting] sum [of P_check] sum [of P_wait] sum [of P_done] in \<open>auto simp: tw_work_def thread_goto_def Let_def counter_begin_def counter_end_def\<close>)
qed

interpretation twq: draining_system disc_step tw_init disc_inv tw_own tw_work
proof (unfold_locales, goal_cases)
  case (1 s l t)
  then show ?case using thread_work [of s _ _ t]
    by (cases l) (auto simp: disc_inv_def disc_step_def split: if_splits)
qed

lemma disc_quiescent:
  assumes "disc_inv s" "quiescent disc_step tw_own s"
  shows "m_RequestQueue (tw_pool s) = []" "sum_list (map executing (tw_pcs s)) = {#}"
proof -
  obtain k n where k: "m_hSemaphore (tw_pool s) = Some \<lparr>sem_count = k, sem_max = n, sem_open = True\<rparr>"
    "P_exit \<notin> set (tw_pcs s)" "P_done \<notin> set (tw_pcs s)" "1 \<le> length (tw_pcs s)"
    using assms(1) by (auto simp: disc_inv_def counters_def accounting_def Let_def)
  have stuck: "\<not> (\<exists>t. ProcessRequests w (Returns 0) (tw_pcs s ! w) s = Ret t)" if "w < length (tw_pcs s)" for w
  proof
    assume "\<exists>t. ProcessRequests w (Returns 0) (tw_pcs s ! w) s = Ret t"
    then have "\<exists>t. disc_step (Tw_thread w (Returns 0)) s = Ret t" using that by (simp add: disc_step_def disciplined_def)
    then show False using assms(2) unfolding quiescent_def by (metis tw_own.simps(1))
  qed
  have wait: "tw_pcs s ! w = P_wait \<and> k = 0" if "w < length (tw_pcs s)" for w
  proof (cases "tw_pcs s ! w")
    case P_wait
    then show ?thesis using stuck [OF that] k(1) by (cases "k = 0") (auto simp: WaitForSemaphore_def)
  next
    case P_exit
    then show ?thesis using that k(2) nth_mem by metis
  next
    case P_done
    then show ?thesis using that k(3) nth_mem by metis
  next
    case P_pop
    then show ?thesis using stuck [OF that]
      by (cases "PopRequest (m_RequestQueue (tw_pool s))"; cases "fst (PopRequest (m_RequestQueue (tw_pool s)))") (auto simp: Let_def)
  qed (use stuck [OF that] in \<open>auto simp: Let_def\<close>)
  then have all: "pc = P_wait" if "pc \<in> set (tw_pcs s)" for pc using that by (auto simp: in_set_conv_nth)
  have zero: "sum_list (map f (tw_pcs s)) = 0" if "f P_wait = 0" for f :: "'a ppc \<Rightarrow> nat"
    using all that by (intro sum_list_map_zero) blast
  have "k = 0" using wait [of 0] k(4) by (cases "tw_pcs s") auto
  then have "tokens s = 0" using zero [of carries] k(1) by (simp add: tokens_def)
  then show "m_RequestQueue (tw_pool s) = []" using assms(1) zero [of is_busy] by (auto simp: disc_inv_def)
  have "executing pc = {#}" if "pc \<in> set (tw_pcs s)" for pc using all [OF that] by simp
  then show "sum_list (map executing (tw_pcs s)) = {#}" by (rule sum_list_map_zero)
qed


section \<open>Destruction\<close>

text \<open>The three sections of \<open>Destroy\<close> before it waits for the threads.\<close>

definition destroy_call :: "nat option \<Rightarrow> 'r tw_label list" where
  "destroy_call b = [Tw_destroy b, Tw_destroy b, Tw_destroy b]"

lemma destroy_call_run:
  assumes "counters s" "quiet s"
  obtains c n where "n = unat (m_usThreadCount (tw_pool s))" "m_hSemaphore (tw_pool s) = Some \<lparr>sem_count = c, sem_max = n, sem_open = True\<rparr>"
    "c \<le> n" "unat (m_lActiveThread (tw_pool s)) \<le> n"
    "run tw_step (destroy_call b) s = Ret (
      let p = (tw_pool s)\<lparr>m_RequestQueue := [], m_bDestroyed := True\<rparr>; k = n - unat (m_lActiveThread p) in
      if k = 0 then s\<lparr>tw_pool := p, tw_destroy := D_wait\<rparr>
      else if unat (m_lActiveThread p) < c then s\<lparr>tw_pool := p, tw_destroy := D_none, tw_result := Some False\<rparr>
      else s\<lparr>tw_pool := p\<lparr>m_hSemaphore := Some \<lparr>sem_count = c + k, sem_max = n, sem_open = True\<rparr>\<rparr>, tw_destroy := D_wait\<rparr>)"
  using assms(1)
proof (rule countersE)
  fix n c
  assume n: "n = unat (m_usThreadCount (tw_pool s))" "length (tw_pcs s) = n" "m_phThreadList (tw_pool s) \<noteq> None"
    "m_hSemaphore (tw_pool s) = Some \<lparr>sem_count = c, sem_max = n, sem_open = True\<rparr>"
    "unat (m_usSemaphoreCount (tw_pool s)) = c + sum_list (map is_taken (tw_pcs s))" "unat (m_usSemaphoreCount (tw_pool s)) \<le> n"
    "unat (m_lActiveThread (tw_pool s)) = sum_list (map is_active (tw_pcs s))"
  have a: "unat (m_lActiveThread (tw_pool s)) \<le> n" using is_active_le [of "tw_pcs s"] n(2,7) by simp
  have q: "tw_destroy s = D_none" "tw_result s = None" using assms(2) by (simp_all add: quiet_def)
  then have "s\<lparr>tw_result := None\<rparr> = s" by simp
  show ?thesis
  proof (rule that [OF n(1,4)])
    show "c \<le> n" "unat (m_lActiveThread (tw_pool s)) \<le> n" using n(5,6) a by simp_all
    show "run tw_step (destroy_call b) s = Ret (
      let p = (tw_pool s)\<lparr>m_RequestQueue := [], m_bDestroyed := True\<rparr>; k = n - unat (m_lActiveThread p) in
      if k = 0 then s\<lparr>tw_pool := p, tw_destroy := D_wait\<rparr>
      else if unat (m_lActiveThread p) < c then s\<lparr>tw_pool := p, tw_destroy := D_none, tw_result := Some False\<rparr>
      else s\<lparr>tw_pool := p\<lparr>m_hSemaphore := Some \<lparr>sem_count = c + k, sem_max = n, sem_open = True\<rparr>\<rparr>, tw_destroy := D_wait\<rparr>)"
      using n(1,3,4,5,6) a q by (cases s, cases "tw_pool s")
        (auto simp: destroy_call_def tw_destroy_begins_def CancelRequests_def SetDestroyFlag_def destroy_releases_def Let_def
          ReleaseSemaphore_def word_less_nat_alt)
  qed
qed

text \<open>
  After a \<open>Destroy\<close> on an idle pool: the threads are on their way out and the semaphore has a count for
  each of those that still wait.
\<close>

fun leaving_work :: "'r ppc \<Rightarrow> nat" where
  "leaving_work P_wait = 5"
| "leaving_work P_taken = 4"
| "leaving_work P_counting = 3"
| "leaving_work P_check = 2"
| "leaving_work P_exit = 1"
| "leaving_work _ = 0"

fun is_waiting :: "'r ppc \<Rightarrow> nat" where
  "is_waiting P_wait = 1"
| "is_waiting _ = 0"

definition closing :: "'r tw_sys \<Rightarrow> bool" where
  "closing s \<longleftrightarrow> tw_destroy s = D_wait \<and> m_bDestroyed (tw_pool s) \<and>
     set (tw_pcs s) \<subseteq> {P_wait, P_taken, P_counting, P_check, P_exit, P_done} \<and>
     (\<exists>c k. m_hSemaphore (tw_pool s) = Some \<lparr>sem_count = c, sem_max = k, sem_open = True\<rparr> \<and> c = sum_list (map is_waiting (tw_pcs s))) \<and>
     (\<exists>hs. m_phThreadList (tw_pool s) = Some hs \<and> list_all is_thread hs)"

lemma closing_thread:
  assumes "closing s" "tw_step (Tw_thread w x) s = Ret t"
  shows "closing t \<and> sum_list (map leaving_work (tw_pcs t)) < sum_list (map leaving_work (tw_pcs s))"
proof -
  have w: "w < length (tw_pcs s)" "ProcessRequests w x (tw_pcs s ! w) s = Ret t" using assms(2) by (auto split: if_splits)
  have wa: "sum_list (map is_waiting ((tw_pcs s)[w := pc])) + is_waiting (tw_pcs s ! w) = sum_list (map is_waiting (tw_pcs s)) + is_waiting pc" for pc
    by (rule sum_list_update_add [OF w(1)])
  have le: "sum_list (map leaving_work ((tw_pcs s)[w := pc])) + leaving_work (tw_pcs s ! w) = sum_list (map leaving_work (tw_pcs s)) + leaving_work pc" for pc
    by (rule sum_list_update_add [OF w(1)])
  have pc: "tw_pcs s ! w \<in> {P_wait, P_taken, P_counting, P_check, P_exit, P_done}" using assms(1) w(1) nth_mem by (auto simp: closing_def)
  have up: "set ((tw_pcs s)[w := pc]) \<subseteq> {P_wait, P_taken, P_counting, P_check, P_exit, P_done}"
    if "pc \<in> {P_wait, P_taken, P_counting, P_check, P_exit, P_done}" for pc
    using that assms(1) by (auto simp: closing_def dest!: in_set_updateD)
  show ?thesis
  proof (cases "tw_pcs s ! w")
    case P_wait
    with assms(1) w(2) wa [of P_taken] le [of P_taken] up [of P_taken] show ?thesis
      by (auto simp: closing_def thread_goto_def WaitForSemaphore_def outcome_simps split: if_splits)
  next
    case P_taken
    with assms(1) w(2) wa [of P_counting] le [of P_counting] up [of P_counting] show ?thesis
      by (auto simp: closing_def thread_goto_def Let_def)
  next
    case P_counting
    with assms(1) w(2) wa [of P_check] le [of P_check] up [of P_check] show ?thesis
      by (auto simp: closing_def thread_goto_def counter_begin_def)
  next
    case P_check
    with assms(1) w(2) wa [of P_exit] le [of P_exit] up [of P_exit] show ?thesis
      by (auto simp: closing_def thread_goto_def IsDestroyed_def)
  next
    case P_exit
    with assms(1) w(2) wa [of P_done] le [of P_done] up [of P_done] show ?thesis
      by (auto simp: closing_def thread_goto_def counter_end_def)
  qed (use pc w(2) in auto)
qed

lemma closing_run:
  assumes "closing s" "list_all tw_own ks" "run tw_step ks s = Ret t"
  shows "closing t \<and> length ks + sum_list (map leaving_work (tw_pcs t)) \<le> sum_list (map leaving_work (tw_pcs s))"
  using assms
proof (induction ks arbitrary: s)
  case Nil
  then show ?case by simp
next
  case (Cons l ks)
  then obtain w x u where u: "l = Tw_thread w x" "tw_step (Tw_thread w x) s = Ret u" "run tw_step ks u = Ret t"
    by (cases l) (auto simp: outcome_simps)
  from closing_thread [OF Cons.prems(1) u(2)] Cons.IH [OF _ _ u(3)] Cons.prems(2) show ?case by auto
qed

lemma closing_quiescent:
  assumes "closing s" "quiescent tw_step tw_own s"
  shows "\<exists>v. tw_step (Tw_destroy None) s = Ret v \<and> tw_result v = Some True \<and> m_phThreadList (tw_pool v) = None"
proof -
  obtain c k hs where c: "m_hSemaphore (tw_pool s) = Some \<lparr>sem_count = c, sem_max = k, sem_open = True\<rparr>" "c = sum_list (map is_waiting (tw_pcs s))"
    and hs: "m_phThreadList (tw_pool s) = Some hs" "list_all is_thread hs" using assms(1) by (auto simp: closing_def)
  have "tw_pcs s ! w = P_done" if "w < length (tw_pcs s)" for w
  proof -
    have "\<not> (\<exists>t. ProcessRequests w (Returns 0) (tw_pcs s ! w) s = Ret t)"
      using assms(2) that unfolding quiescent_def by (metis tw_own.simps(1) tw_step.simps(1))
    moreover have "tw_pcs s ! w \<in> {P_wait, P_taken, P_counting, P_check, P_exit, P_done}" using assms(1) that nth_mem by (auto simp: closing_def)
    moreover have "0 < c" if "tw_pcs s ! w = P_wait"
      using sum_list_member_le [OF \<open>w < length (tw_pcs s)\<close>, of is_waiting] that c(2) by simp
    ultimately show ?thesis using c(1) by (auto simp: WaitForSemaphore_def Let_def)
  qed
  then have "list_all (\<lambda>pc. pc = P_done) (tw_pcs s)" by (simp add: list_all_length)
  then show ?thesis using assms(1) hs is_thread_handles [OF hs(2)] by (simp add: closing_def DestroyPool_def Let_def)
qed


section \<open>Properties\<close>

lemma tw_init_ok: "0 < n \<Longrightarrow> n \<le> 64 \<Longrightarrow> tw_init (tw_started n)"
  unfolding tw_init_def using Create_starts [of n "\<lambda>_. True"] by blast

text \<open>
  C6. Progress of the Windows pool under disciplined use: after any postings of distinct requests that
  succeed, fewer than 65535 of them waiting at a time, the threads take at most \<open>tw_work s\<close> steps whatever the
  schedule, some schedule brings them to rest, and at rest every posted request is completed, no
  request is pending, and the requests were begun in the order of the postings.
\<close>

theorem tw_completes:
  assumes "tw_init s0" "run disc_step ls s0 = Ret s"
  shows "(\<exists>ks t. list_all tw_own ks \<and> run disc_step ks s = Ret t \<and> quiescent disc_step tw_own t) \<and>
    (\<forall>ks t. list_all tw_own ks \<longrightarrow> run disc_step ks s = Ret t \<longrightarrow> length ks \<le> tw_work s \<and>
       (quiescent disc_step tw_own t \<longrightarrow> tw_finished t = mset (tw_posted t) \<and> tw_begun t = tw_posted t \<and>
          unat (m_usPendingReqCount (tw_pool t)) = 0))"
proof (intro conjI allI impI)
  have inv: "disc_inv s" using twd.inv_run [OF twd.inv_init [OF assms(1)] assms(2)] .
  show "\<exists>ks t. list_all tw_own ks \<and> run disc_step ks s = Ret t \<and> quiescent disc_step tw_own t"
    using inv by (rule twq.drains)
  fix ks t
  assume own: "list_all tw_own ks" "run disc_step ks s = Ret t"
  show "length ks \<le> tw_work s" using twq.own_run_bounded [OF inv own] by linarith
  assume q: "quiescent disc_step tw_own t"
  have t: "disc_inv t" using twd.inv_run [OF inv own(2)] .
  have "reachable disc_step tw_init t" using run_reachable [OF own(2)] run_reachable [OF assms(2)] assms(1) reach_init by metis
  then have prom: "pool_promise Fifo (tw_view t)" by (rule twd.reachable_promise)
  have rest: "m_RequestQueue (tw_pool t) = []" "sum_list (map executing (tw_pcs t)) = {#}" using disc_quiescent [OF t q] by auto
  then have "finished (tw_view t) = mset (submitted (tw_view t))" using promise_all_finished [OF prom] by (simp add: tw_view_def)
  then show "tw_finished t = mset (tw_posted t)" by (simp add: tw_view_def)
  show "tw_begun t = tw_posted t" "unat (m_usPendingReqCount (tw_pool t)) = 0" using t rest(1) by (auto simp: disc_inv_def)
qed

definition tw_demo :: "nat tw_sys" where
  "tw_demo = tw_started 1"

lemma tw_demo_init: "tw_init tw_demo"
  unfolding tw_demo_def by (rule tw_init_ok) simp_all

lemmas tw_run_defs = tw_demo_def tw_started_def new_sys_def ThreadPool_def PostRequest_def NotifyThread_def ReleaseSemaphore_def
  Let_def thread_goto_def WaitForSemaphore_def counter_begin_def counter_end_def IsDestroyed_def PopRequest_def notify_pending_def
  CancelRequests_def SetDestroyFlag_def tw_destroy_begins_def destroy_releases_def DestroyPool_def disc_step_def disciplined_def

lemma tw_demo_posted: "\<exists>s. run disc_step [Tw_post True 7, Tw_post True 8] tw_demo = Ret s \<and> tw_posted s = [7, 8] \<and>
    unat (m_usPendingReqCount (tw_pool s)) = 1"
  by (simp add: tw_run_defs)

theorem tw_completes_witness:
  "\<exists>s ks t. run disc_step [Tw_post True 7, Tw_post True 8] tw_demo = Ret s \<and> list_all tw_own ks \<and>
     run disc_step ks s = Ret t \<and> tw_finished t = mset (tw_posted t)"
  using tw_demo_posted tw_completes [OF tw_demo_init] by blast



text \<open>
  Requests that are lost. A request that fails (or throws) does not pass the notification on: with
  one thread, two requests and a failure of the first, the pool comes to rest with the second one still
  waiting. And a request that is posted twice is executed once, because \<open>PopRequest\<close> removes all
  entries equal to the first.
\<close>

theorem tw_lost_requests:
  "(\<exists>ls s. run tw_step ls (tw_started 1 :: nat tw_sys) = Ret s \<and> quiescent tw_step tw_own s \<and>
      tw_posted s = [7, 8] \<and> tw_begun s = [7] \<and> m_RequestQueue (tw_pool s) = [8]) \<and>
   (\<exists>ls s. run tw_step ls (tw_started 1 :: nat tw_sys) = Ret s \<and> quiescent tw_step tw_own s \<and>
      tw_posted s = [7, 7] \<and> tw_begun s = [7] \<and> m_RequestQueue (tw_pool s) = [])"
proof -
  let ?t = "\<lambda>x. Tw_thread 0 x :: nat tw_label"
  let ?l1 = "[Tw_post True 7, Tw_post True 8] @ replicate 5 (?t (Returns 0)) @ [?t (Returns 1), ?t (Returns 0)]"
  let ?l2 = "[Tw_post True 7, Tw_post True 7] @ replicate 15 (?t (Returns 0))"
  have rest: "quiescent tw_step tw_own s" if "tw_pcs s = [P_wait]" "m_hSemaphore (tw_pool s) = Some \<lparr>sem_count = 0, sem_max = k, sem_open = b\<rparr>"
    for s :: "nat tw_sys" and k b
    unfolding quiescent_def
  proof (intro allI impI)
    fix l :: "nat tw_label" and t :: "nat tw_sys"
    assume "tw_own l"
    then show "tw_step l s \<noteq> Ret t" using that by (cases l) (auto simp: WaitForSemaphore_def)
  qed
  have 1: "\<exists>s. run tw_step ?l1 (tw_started 1) = Ret s \<and> tw_pcs s = [P_wait] \<and>
      m_hSemaphore (tw_pool s) = Some \<lparr>sem_count = 0, sem_max = 1, sem_open = True\<rparr> \<and>
      tw_posted s = [7, 8] \<and> tw_begun s = [7] \<and> m_RequestQueue (tw_pool s) = [8]"
    by (simp add: tw_run_defs numeral_eq_Suc)
  have 2: "\<exists>s. run tw_step ?l2 (tw_started 1) = Ret s \<and> tw_pcs s = [P_wait] \<and>
      m_hSemaphore (tw_pool s) = Some \<lparr>sem_count = 0, sem_max = 1, sem_open = True\<rparr> \<and>
      tw_posted s = [7, 7] \<and> tw_begun s = [7] \<and> m_RequestQueue (tw_pool s) = []"
    by (simp add: tw_run_defs numeral_eq_Suc)
  show ?thesis using 1 2 rest by blast
qed


text \<open>
  \<open>Destroy\<close> releases the semaphore once for every thread that is not counted as active. If more wake-ups are
  outstanding than threads are active, the maximum of the semaphore would be exceeded, the release is
  refused and \<open>Destroy\<close> returns false: the requests are cancelled and the pool is marked as destroyed, but its
  threads still exist. Otherwise it goes on to wait for them. In particular a \<open>Destroy\<close> right after a
  \<open>PostRequest\<close> fails.
\<close>

theorem tw_destroy_result:
  assumes "reachable tw_step tw_init s" "tw_destroy s = D_none" "tw_result s = None"
    and "m_hSemaphore (tw_pool s) = Some sem"
  shows "\<exists>u. run tw_step [Tw_destroy b, Tw_destroy b, Tw_destroy b] s = Ret u \<and>
    m_RequestQueue (tw_pool u) = [] \<and> m_bDestroyed (tw_pool u) \<and> tw_pcs u = tw_pcs s \<and>
    m_phThreadList (tw_pool u) = m_phThreadList (tw_pool s) \<and>
    (if sem_count sem > unat (m_lActiveThread (tw_pool s)) then tw_result u = Some False
     else tw_result u = None \<and> tw_destroy u = D_wait)"
proof -
  have c: "counters s" "quiet s" using tw.inv_reachable [OF assms(1)] assms(2,3) by (simp_all add: tw_inv_def quiet_def)
  from c show ?thesis
  proof (rule destroy_call_run [where b = b])
    fix k n
    assume k: "n = unat (m_usThreadCount (tw_pool s))" "m_hSemaphore (tw_pool s) = Some \<lparr>sem_count = k, sem_max = n, sem_open = True\<rparr>"
      "k \<le> n" "unat (m_lActiveThread (tw_pool s)) \<le> n"
      "run tw_step (destroy_call b) s = Ret (
        let p = (tw_pool s)\<lparr>m_RequestQueue := [], m_bDestroyed := True\<rparr>; k' = n - unat (m_lActiveThread p) in
        if k' = 0 then s\<lparr>tw_pool := p, tw_destroy := D_wait\<rparr>
        else if unat (m_lActiveThread p) < k then s\<lparr>tw_pool := p, tw_destroy := D_none, tw_result := Some False\<rparr>
        else s\<lparr>tw_pool := p\<lparr>m_hSemaphore := Some \<lparr>sem_count = k + k', sem_max = n, sem_open = True\<rparr>\<rparr>, tw_destroy := D_wait\<rparr>)"
    have "sem_count sem = k" using k(2) assms(4) by auto
    then show ?thesis using k(3-5) assms(3) unfolding destroy_call_def by (auto simp: Let_def)
  qed
qed

lemma tw_demo_post: "\<exists>s sem. run tw_step [Tw_post True 7] tw_demo = Ret s \<and> tw_destroy s = D_none \<and> tw_result s = None \<and>
    m_hSemaphore (tw_pool s) = Some sem \<and> unat (m_lActiveThread (tw_pool s)) < sem_count sem"
  by (simp add: tw_run_defs)

lemma tw_demo_reachable: "run tw_step ls tw_demo = Ret s \<Longrightarrow> reachable tw_step tw_init s"
  using run_reachable tw_demo_init reach_init by metis

theorem tw_destroy_result_witness:
  "\<exists>s u. run tw_step [Tw_post True 7] tw_demo = Ret s \<and>
     run tw_step [Tw_destroy None, Tw_destroy None, Tw_destroy None] s = Ret u \<and> tw_result u = Some False \<and> m_bDestroyed (tw_pool u)"
proof -
  obtain s sem where s: "run tw_step [Tw_post True 7] tw_demo = Ret s" "tw_destroy s = D_none" "tw_result s = None"
      "m_hSemaphore (tw_pool s) = Some sem" "unat (m_lActiveThread (tw_pool s)) < sem_count sem" using tw_demo_post by blast
  from tw_destroy_result [OF tw_demo_reachable [OF s(1)] s(2-4), of None] s show ?thesis by auto
qed

text \<open>
  \<open>Destroy\<close> on an idle pool (all threads wait and no wake-up is outstanding) ends: its first three sections
  succeed, after them the threads take at most five steps each whatever the schedule, and when they
  have come to rest \<open>DestroyPool\<close> closes the handles, frees the list of threads and \<open>Destroy\<close> returns true.
\<close>

theorem tw_destroy_idle:
  assumes "reachable tw_step tw_init s" "tw_destroy s = D_none" "tw_result s = None"
    and "\<And>pc. pc \<in> set (tw_pcs s) \<Longrightarrow> pc = P_wait" "m_hSemaphore (tw_pool s) = Some sem" "sem_count sem = 0"
    and handles: "m_phThreadList (tw_pool s) = Some hs" "list_all is_thread hs"
  shows "\<exists>u. run tw_step [Tw_destroy b, Tw_destroy b, Tw_destroy b] s = Ret u \<and>
    (\<forall>ks t. list_all tw_own ks \<longrightarrow> run tw_step ks u = Ret t \<longrightarrow> length ks \<le> 5 * length (tw_pcs s) \<and>
       (quiescent tw_step tw_own t \<longrightarrow>
          (\<exists>v. tw_step (Tw_destroy None) t = Ret v \<and> tw_result v = Some True \<and> m_phThreadList (tw_pool v) = None)))"
proof -
  have c: "counters s" "quiet s" using tw.inv_reachable [OF assms(1)] assms(2,3) by (simp_all add: tw_inv_def quiet_def)
  have zero: "sum_list (map f (tw_pcs s)) = 0" if "f P_wait = 0" for f :: "'a ppc \<Rightarrow> nat"
    using assms(4) that by (intro sum_list_map_zero) metis
  have rep: "tw_pcs s = replicate (length (tw_pcs s)) P_wait" using assms(4) by (simp add: replicate_length_same)
  have len: "sum_list (map is_waiting (tw_pcs s)) = length (tw_pcs s)" "sum_list (map leaving_work (tw_pcs s)) = 5 * length (tw_pcs s)"
    by (subst rep, simp add: sum_list_replicate)+
  from c show ?thesis
  proof (rule destroy_call_run [where b = b])
    fix k n
    assume k: "n = unat (m_usThreadCount (tw_pool s))" "m_hSemaphore (tw_pool s) = Some \<lparr>sem_count = k, sem_max = n, sem_open = True\<rparr>"
      "run tw_step (destroy_call b) s = Ret (
        let p = (tw_pool s)\<lparr>m_RequestQueue := [], m_bDestroyed := True\<rparr>; k' = n - unat (m_lActiveThread p) in
        if k' = 0 then s\<lparr>tw_pool := p, tw_destroy := D_wait\<rparr>
        else if unat (m_lActiveThread p) < k then s\<lparr>tw_pool := p, tw_destroy := D_none, tw_result := Some False\<rparr>
        else s\<lparr>tw_pool := p\<lparr>m_hSemaphore := Some \<lparr>sem_count = k + k', sem_max = n, sem_open = True\<rparr>\<rparr>, tw_destroy := D_wait\<rparr>)"
    have "k = 0" using k(2) assms(5,6) by auto
    have n: "1 \<le> n" "length (tw_pcs s) = n" "unat (m_lActiveThread (tw_pool s)) = 0"
      using c(1) k(1) zero [of is_active] by (auto simp: counters_def accounting_def Let_def)
    let ?u = "s\<lparr>tw_pool := (tw_pool s)\<lparr>m_RequestQueue := [], m_bDestroyed := True,
        m_hSemaphore := Some \<lparr>sem_count = n, sem_max = n, sem_open = True\<rparr>\<rparr>, tw_destroy := D_wait\<rparr>"
    have u: "run tw_step [Tw_destroy b, Tw_destroy b, Tw_destroy b] s = Ret ?u"
      using k(3) n \<open>k = 0\<close> unfolding destroy_call_def by (simp add: Let_def)
    have cl: "closing ?u" using handles n(2) len(1) assms(4) by (auto simp: closing_def)
    have "length ks \<le> 5 * length (tw_pcs s) \<and> (quiescent tw_step tw_own t \<longrightarrow>
          (\<exists>v. tw_step (Tw_destroy None) t = Ret v \<and> tw_result v = Some True \<and> m_phThreadList (tw_pool v) = None))"
      if "list_all tw_own ks" "run tw_step ks ?u = Ret t" for ks t
      using closing_run [OF cl that] closing_quiescent [of t] len(2) by auto
    with u show ?thesis by blast
  qed
qed

theorem tw_destroy_idle_witness:
  "\<exists>u. run tw_step [Tw_destroy None, Tw_destroy None, Tw_destroy None] tw_demo = Ret u \<and>
     (\<forall>ks t. list_all tw_own ks \<longrightarrow> run tw_step ks u = Ret t \<longrightarrow> length ks \<le> 5)"
proof -
  have s: "tw_destroy tw_demo = D_none" "tw_result tw_demo = None" "\<And>pc. pc \<in> set (tw_pcs tw_demo) \<Longrightarrow> pc = P_wait"
    "m_hSemaphore (tw_pool tw_demo) = Some \<lparr>sem_count = 0, sem_max = 1, sem_open = True\<rparr>"
    "sem_count \<lparr>sem_count = 0, sem_max = 1, sem_open = True\<rparr> = 0"
    "m_phThreadList (tw_pool tw_demo) = Some [H_thread 0]" "list_all is_thread [H_thread 0]"
    "length (tw_pcs tw_demo) = 1"
    by (simp_all add: tw_run_defs)
  from tw_destroy_idle [OF reach_init [of tw_init, OF tw_demo_init] s(1-7), of None] s(8) show ?thesis by auto
qed

text \<open>
  \<open>Create\<close>, for every pattern of failures. It refuses zero or more than 64 threads and a pool that exists. Without
  a semaphore it returns false and leaves no pool. When memory for the handles is missing it
  returns false and the semaphore stays open. When thread \<open>j\<close> is the first that cannot be created, \<open>Create\<close> calls
  \<open>Destroy\<close>, whose wait for the threads reads the handles that were never written or, if \<open>j\<close> was the last
  one, fails on the null handle with the list of threads still in place. Otherwise the pool has \<open>n\<close>
  waiting threads.
\<close>

theorem tw_create_result:
  "(n = 0 \<or> n > 64 \<longrightarrow> Create n sem_ok mem thr new_sys = (False, new_sys :: 'r tw_sys)) \<and>
   (0 < n \<and> n \<le> 64 \<longrightarrow>
      fst (Create n False mem thr (new_sys :: 'r tw_sys)) = False \<and> m_phThreadList (tw_pool (snd (Create n False mem thr (new_sys :: 'r tw_sys)))) = None \<and>
      (\<exists>s :: 'r tw_sys. Create n True False thr new_sys = (False, s) \<and> m_phThreadList (tw_pool s) = None \<and> tw_destroy s = D_none \<and>
         m_hSemaphore (tw_pool s) = Some \<lparr>sem_count = 0, sem_max = unat n, sem_open = True\<rparr>) \<and>
      ((\<forall>i<unat n. thr i) \<longrightarrow> Create n True True thr new_sys = (True, tw_started n :: 'r tw_sys)) \<and>
      (\<forall>j<unat n. \<not> thr j \<and> (\<forall>l<j. thr l) \<longrightarrow>
         (\<exists>s :: 'r tw_sys. Create n True True thr new_sys = (False, s) \<and> tw_pcs s = replicate j P_wait \<and>
            DestroyPool b s = (if j + 1 < unat n then UB Indeterminate else Ret (s\<lparr>tw_destroy := D_none, tw_result := Some False\<rparr>)) \<and>
            m_phThreadList (tw_pool s) \<noteq> None)))"
proof (intro conjI impI allI)
  show "Create n sem_ok mem thr new_sys = (False, new_sys :: 'r tw_sys)" if "n = 0 \<or> n > 64"
    using that by (auto simp: Create_def new_sys_def ThreadPool_def Let_def)
next
  assume n: "0 < n \<and> n \<le> 64"
  then have n0: "n \<noteq> 0" "\<not> n > 64" by auto
  show "fst (Create n False mem thr (new_sys :: 'r tw_sys)) = False"
      "m_phThreadList (tw_pool (snd (Create n False mem thr (new_sys :: 'r tw_sys)))) = None"
      "\<exists>s :: 'r tw_sys. Create n True False thr new_sys = (False, s) \<and> m_phThreadList (tw_pool s) = None \<and> tw_destroy s = D_none \<and>
         m_hSemaphore (tw_pool s) = Some \<lparr>sem_count = 0, sem_max = unat n, sem_open = True\<rparr>"
    using n0 by (simp_all add: Create_def Let_def new_sys_def ThreadPool_def AddThreads_def tw_destroy_begins_def)
  show "Create n True True thr new_sys = (True, tw_started n :: 'r tw_sys)" if "\<forall>i<unat n. thr i"
    using Create_starts [OF _ _ that] n by blast
  fix j
  assume j: "j < unat n" "\<not> thr j \<and> (\<forall>l<j. thr l)"
  let ?hs = "map H_thread [0..<j] @ H_null # replicate (unat n - Suc j) H_indet"
  have loop: "thread_loop thr 0 (unat n) (replicate (unat n) H_indet) = (False, ?hs, j)"
    using thread_loop_fails [of 0 j "unat n" thr] j by simp
  have indet: "H_indet \<in> set ?hs \<longleftrightarrow> j + 1 < unat n" by auto
  show "\<exists>s :: 'r tw_sys. Create n True True thr new_sys = (False, s) \<and> tw_pcs s = replicate j P_wait \<and>
            DestroyPool b s = (if j + 1 < unat n then UB Indeterminate else Ret (s\<lparr>tw_destroy := D_none, tw_result := Some False\<rparr>)) \<and>
            m_phThreadList (tw_pool s) \<noteq> None"
    using n0 loop indet
    by (simp add: Create_def Let_def new_sys_def ThreadPool_def AddThreads_def tw_destroy_begins_def CancelRequests_def DestroyPool_def)
qed

theorem tw_create_result_witness:
  "\<exists>s :: nat tw_sys. Create 3 True True (\<lambda>i. i < 2) new_sys = (False, s) \<and> tw_pcs s = [P_wait, P_wait]"
proof -
  have "\<exists>s :: nat tw_sys. Create 3 True True (\<lambda>i. i < 2) new_sys = (False, s) \<and> tw_pcs s = replicate 2 P_wait"
    using tw_create_result [of 3 True True "\<lambda>i. i < 2" undefined, where 'r = nat, THEN conjunct2, rule_format,
        THEN conjunct2, THEN conjunct2, THEN conjunct2, THEN conjunct2, rule_format, of 2] by auto
  then show ?thesis by (simp add: numeral_2_eq_2)
qed

end
