(* ===== verification/Epoll_Pool.thy ===== *)
theory Epoll_Pool
  imports Pool_Spec Pthread Heap_Lists
begin

text \<open>
  The thread pool of \<open>src/epoll/server_epoll_pthread_pool.c\<close>: a singly linked queue of workers (the tasks)
  under one mutex, served by \<open>maxThreadNum\<close> threads.

  The pool is a global pointer, so the model keeps a \<open>cthreadpool option\<close>: \<open>None\<close> is the null pointer
  before \<open>poolInit\<close> and after \<open>poolDestroy\<close>, and every use of it then is undefined behaviour. The code signals
  after it has given the mutex back, and \<open>poolDestroy\<close> sets \<open>shutdown\<close> without taking it; both are
  separate steps of the model, as is the moment between the test of the waiting loop and
  \<open>pthread_cond_wait\<close>. A failed \<open>assert\<close> ends the process with the status of \<open>abort\<close>. The log fields
  (\<open>ep_submitted\<close> and so on) record what happened to each task and influence nothing.
\<close>

section \<open>Data\<close>

record ('f, 'd) cthreadworker =
  process :: 'f
  arg :: 'd
  next_worker :: "addr option"

record cthreadpool =
  queueLock :: mutex
  queueHead :: "addr option"
  shutdown :: int
  maxThreadNum :: int
  curQueueSize :: int

text \<open>
  Where a thread is: before the lock, inside the lock having found nothing to do, asleep on
  \<open>queueReady\<close>, woken and about to take the mutex again, inside the lock with the worker it took, running
  it, gone. \<open>R_absent\<close> stands for an entry of \<open>threadid\<close> that \<open>pthread_create\<close> has not filled in.
\<close>

datatype routine_pc =
    R_lock
  | R_sleep
  | R_wait
  | R_woken
  | R_got addr
  | R_exec addr
  | R_exited
  | R_absent

datatype ep_destroy_pc = D_idle | D_broadcast | D_join nat | D_free

record ('f, 'd) ep_sys =
  pool :: "cthreadpool option"
  ep_workers :: "addr \<rightharpoonup> ('f, 'd) cthreadworker"
  ep_pcs :: "routine_pc list"
  ep_signals :: nat
  ep_destroy :: ep_destroy_pc
  ep_submitted :: "('f \<times> 'd) list"
  ep_begun :: "('f \<times> 'd) list"
  ep_finished :: "('f \<times> 'd) multiset"
  ep_discarded :: "('f \<times> 'd) list"

definition THREAD_NUM :: int where "THREAD_NUM = 5"

definition c_assert :: "bool \<Rightarrow> 'a outcome \<Rightarrow> 'a outcome" where
  "c_assert b k = (if b then k else Exit abort_status)"

definition deref_pool :: "('f, 'd) ep_sys \<Rightarrow> (cthreadpool \<Rightarrow> 'a outcome) \<Rightarrow> 'a outcome" where
  "deref_pool s f = (case pool s of None \<Rightarrow> UB Null_deref | Some p \<Rightarrow> f p)"

definition set_pool :: "cthreadpool \<Rightarrow> ('f, 'd) ep_sys \<Rightarrow> ('f, 'd) ep_sys" where
  "set_pool p s = s\<lparr>pool := Some p\<rparr>"

definition ep_goto :: "nat \<Rightarrow> routine_pc \<Rightarrow> ('f, 'd) ep_sys \<Rightarrow> ('f, 'd) ep_sys" where
  "ep_goto w pc s = s\<lparr>ep_pcs := (ep_pcs s)[w := pc]\<rparr>"

definition worker_task :: "(addr \<rightharpoonup> ('f, 'd) cthreadworker) \<Rightarrow> addr \<Rightarrow> 'f \<times> 'd" where
  "worker_task h a = (process (the (h a)), arg (the (h a)))"

section \<open>Initialisation\<close>

text \<open>
  \<open>mem\<close> and \<open>ids\<close> say whether the two \<open>malloc\<close> calls succeed, which the code does not test; \<open>rc i\<close> is
  what the \<open>i\<close>-th \<open>pthread_create\<close> returns, which it does not test either.
\<close>

definition new_pool :: "(nat \<Rightarrow> int) \<Rightarrow> int \<Rightarrow> ('f, 'd) ep_sys" where
  "new_pool rc n =
     \<lparr>pool = Some \<lparr>queueLock = M_free, queueHead = None, shutdown = 0, maxThreadNum = n, curQueueSize = 0\<rparr>,
      ep_workers = Map.empty, ep_pcs = map (\<lambda>i. if rc i = 0 then R_lock else R_absent) [0..<nat n],
      ep_signals = 0, ep_destroy = D_idle, ep_submitted = [], ep_begun = [], ep_finished = {#}, ep_discarded = []\<rparr>"

definition poolInit :: "bool \<Rightarrow> bool \<Rightarrow> (nat \<Rightarrow> int) \<Rightarrow> int \<Rightarrow> ('f, 'd) ep_sys outcome" where
  "poolInit mem ids rc n =
     (if \<not> mem then UB Null_deref
      else if \<not> ids \<and> 0 < n then UB Null_deref
      else Ret (new_pool rc n))"

section \<open>Adding a worker\<close>

text \<open>The walk to the last worker of the queue. It would not end on a circular list, hence the option.\<close>

partial_function (option) last_member :: "(addr \<rightharpoonup> ('f, 'd) cthreadworker) \<Rightarrow> addr \<Rightarrow> addr outcome option" where
  "last_member h a =
     (case h a of
        None \<Rightarrow> Some (UB Dangling)
      | Some n \<Rightarrow> (case next_worker n of None \<Rightarrow> Some (Ret a) | Some b \<Rightarrow> last_member h b))"

definition link_worker :: "addr \<Rightarrow> addr option \<Rightarrow> (addr \<rightharpoonup> ('f, 'd) cthreadworker) \<Rightarrow> ((addr \<rightharpoonup> ('f, 'd) cthreadworker) \<times> addr option) outcome" where
  "link_worker new member h =
     (case member of
        None \<Rightarrow> Ret (h, Some new)
      | Some b \<Rightarrow>
         (case last_member h b of
            None \<Rightarrow> Blocked
          | Some r \<Rightarrow> and_then r (\<lambda>l.
              and_then (write_node h (Some l) (next_worker_update (\<lambda>_. Some new))) (\<lambda>h'. Ret (h', member)))))"

text \<open>
  \<open>poolAddWorker\<close> up to the unlock; \<open>mem\<close> is what \<open>malloc\<close> returns. The signal that follows is a step of its
  own, \<open>ep_signals\<close> counts the callers in between.
\<close>

definition poolAddWorker :: "tid \<Rightarrow> addr option \<Rightarrow> 'f \<Rightarrow> 'd \<Rightarrow> ('f, 'd) ep_sys \<Rightarrow> ('f, 'd) ep_sys outcome" where
  "poolAddWorker c mem f d s =
     (case mem of
        None \<Rightarrow> UB Null_deref
      | Some new \<Rightarrow>
         deref_pool s (\<lambda>p.
         and_then (pthread_mutex_lock c 0 (queueLock p)) (\<lambda>(_, m).
         and_then (link_worker new (queueHead p) ((ep_workers s)(new \<mapsto> \<lparr>process = f, arg = d, next_worker = None\<rparr>))) (\<lambda>(h, hd).
         c_assert (hd \<noteq> None) (
         and_then (c_add (curQueueSize p) 1) (\<lambda>n.
         and_then (pthread_mutex_unlock c 0 m) (\<lambda>(_, m').
         Ret (s\<lparr>pool := Some (p\<lparr>queueLock := m', queueHead := hd, curQueueSize := n\<rparr>), ep_workers := h,
                ep_signals := Suc (ep_signals s), ep_submitted := ep_submitted s @ [(f, d)]\<rparr>))))))))"

definition add_signal :: "nat option \<Rightarrow> ('f, 'd) ep_sys \<Rightarrow> ('f, 'd) ep_sys outcome" where
  "add_signal ch s =
     (if ep_signals s = 0 then Blocked
      else deref_pool s (\<lambda>p.
        if \<not> cond_signal_ok R_wait ch (ep_pcs s) then Blocked
        else Ret (s\<lparr>ep_signals := ep_signals s - 1, ep_pcs := cond_signal R_woken ch (ep_pcs s)\<rparr>)))"

section \<open>The threads\<close>

text \<open>
  The thread holds the mutex: the test of the waiting loop, the test for the shutdown, the two asserts, then
  the first worker is taken off the queue. \<open>shutdown\<close> is read twice by the code; it is only ever set, and an
  empty queue ends the waiting loop only when it is set, so one read gives the same result.
\<close>

definition routine_locked :: "nat \<Rightarrow> cthreadpool \<Rightarrow> ('f, 'd) ep_sys \<Rightarrow> ('f, 'd) ep_sys outcome" where
  "routine_locked w p s =
     (if curQueueSize p = 0 \<and> shutdown p = 0 then Ret (ep_goto w R_sleep (set_pool p s))
      else if curQueueSize p = 0 \<and> shutdown p \<noteq> 0 then
        and_then (pthread_mutex_unlock (Worker w) 0 (queueLock p)) (\<lambda>(_, m).
          Ret (ep_goto w R_exited (set_pool (p\<lparr>queueLock := m\<rparr>) s)))
      else c_assert (curQueueSize p \<noteq> 0) (c_assert (queueHead p \<noteq> None) (
        and_then (c_sub (curQueueSize p) 1) (\<lambda>n.
        and_then (read_node (ep_workers s) (queueHead p)) (\<lambda>k.
          Ret (ep_goto w (R_got (the (queueHead p)))
            ((set_pool (p\<lparr>curQueueSize := n, queueHead := next_worker k\<rparr>) s)\<lparr>ep_begun := ep_begun s @ [(process k, arg k)]\<rparr>)))))))"

fun threadRoutine :: "nat \<Rightarrow> routine_pc \<Rightarrow> ('f, 'd) ep_sys \<Rightarrow> ('f, 'd) ep_sys outcome" where
  "threadRoutine w R_lock s = deref_pool s (\<lambda>p.
     and_then (pthread_mutex_lock (Worker w) 0 (queueLock p)) (\<lambda>(_, m). routine_locked w (p\<lparr>queueLock := m\<rparr>) s))"
| "threadRoutine w R_woken s = deref_pool s (\<lambda>p.
     and_then (pthread_mutex_lock (Worker w) 0 (queueLock p)) (\<lambda>(_, m). routine_locked w (p\<lparr>queueLock := m\<rparr>) s))"
| "threadRoutine w R_sleep s = deref_pool s (\<lambda>p.
     and_then (pthread_mutex_unlock (Worker w) 0 (queueLock p)) (\<lambda>(_, m).
       Ret (ep_goto w R_wait (set_pool (p\<lparr>queueLock := m\<rparr>) s))))"
| "threadRoutine w (R_got a) s = deref_pool s (\<lambda>p.
     and_then (pthread_mutex_unlock (Worker w) 0 (queueLock p)) (\<lambda>(_, m).
     and_then (read_node (ep_workers s) (Some a)) (\<lambda>k.
       Ret (ep_goto w (R_exec a) (set_pool (p\<lparr>queueLock := m\<rparr>) s)))))"
| "threadRoutine w R_wait s = Blocked"
| "threadRoutine w (R_exec a) s = Blocked"
| "threadRoutine w R_exited s = Blocked"
| "threadRoutine w R_absent s = Blocked"

text \<open>The function of the worker returns, the block is freed and the loop starts again.\<close>

definition process_returns :: "nat \<Rightarrow> addr \<Rightarrow> ('f, 'd) ep_sys \<Rightarrow> ('f, 'd) ep_sys outcome" where
  "process_returns w a s =
     and_then (free_node (ep_workers s) (Some a)) (\<lambda>h.
       Ret (ep_goto w R_lock (s\<lparr>ep_workers := h, ep_finished := add_mset (worker_task (ep_workers s) a) (ep_finished s)\<rparr>)))"

section \<open>Destruction\<close>

partial_function (option) free_queue :: "(addr \<rightharpoonup> ('f, 'd) cthreadworker) \<Rightarrow> addr option \<Rightarrow> (addr \<rightharpoonup> ('f, 'd) cthreadworker) outcome option" where
  "free_queue h p =
     (case p of
        None \<Rightarrow> Some (Ret h)
      | Some a \<Rightarrow> (case h a of None \<Rightarrow> Some (UB Dangling) | Some n \<Rightarrow> free_queue (h(a := None)) (next_worker n)))"

definition queue :: "('f, 'd) ep_sys \<Rightarrow> addr list" where
  "queue s = (case pool s of None \<Rightarrow> [] | Some p \<Rightarrow> chain next_worker (ep_workers s) (nat (curQueueSize p)) (queueHead p))"

text \<open>
  \<open>poolDestroy\<close>: setting the flag, the broadcast, one join after the other, then the release of everything.
  A join of an entry of \<open>threadid\<close> that was never written is undefined.
\<close>

fun poolDestroy :: "ep_destroy_pc \<Rightarrow> ('f, 'd) ep_sys \<Rightarrow> ('f, 'd) ep_sys outcome" where
  "poolDestroy D_idle s = deref_pool s (\<lambda>p.
     if shutdown p \<noteq> 0 then Ret s
     else Ret ((set_pool (p\<lparr>shutdown := 1\<rparr>) s)\<lparr>ep_destroy := D_broadcast\<rparr>))"
| "poolDestroy D_broadcast s = deref_pool s (\<lambda>p.
     Ret (s\<lparr>ep_pcs := cond_broadcast R_wait R_woken (ep_pcs s), ep_destroy := D_join 0\<rparr>))"
| "poolDestroy (D_join i) s = deref_pool s (\<lambda>p.
     if int i < maxThreadNum p then
       (if ep_pcs s ! i = R_absent then UB Indeterminate
        else if ep_pcs s ! i = R_exited then Ret (s\<lparr>ep_destroy := D_join (Suc i)\<rparr>)
        else Blocked)
     else Ret (s\<lparr>ep_destroy := D_free\<rparr>))"
| "poolDestroy D_free s = deref_pool s (\<lambda>p.
     case free_queue (ep_workers s) (queueHead p) of
       None \<Rightarrow> Blocked
     | Some r \<Rightarrow> and_then r (\<lambda>h.
         and_then (pthread_mutex_destroy (queueLock p)) (\<lambda>_.
         and_then (pthread_cond_destroy True) (\<lambda>_.
           Ret (s\<lparr>pool := None, ep_workers := h, ep_destroy := D_idle,
                  ep_discarded := ep_discarded s @ map (worker_task (ep_workers s)) (queue s)\<rparr>)))))"

section \<open>The whole system\<close>

datatype ('f, 'd) ep_label =
    Ep_routine nat
  | Ep_returns nat
  | Ep_spurious nat
  | Ep_add "addr option" 'f 'd
  | Ep_signal "nat option"
  | Ep_destroy

fun ep_step :: "('f, 'd) ep_label \<Rightarrow> ('f, 'd) ep_sys \<Rightarrow> ('f, 'd) ep_sys outcome" where
  "ep_step (Ep_routine w) s = (if w < length (ep_pcs s) then threadRoutine w (ep_pcs s ! w) s else Blocked)"
| "ep_step (Ep_returns w) s =
     (if w < length (ep_pcs s) then (case ep_pcs s ! w of R_exec a \<Rightarrow> process_returns w a s | _ \<Rightarrow> Blocked) else Blocked)"
| "ep_step (Ep_spurious w) s =
     (if w < length (ep_pcs s) \<and> ep_pcs s ! w = R_wait then Ret (ep_goto w R_woken s) else Blocked)"
| "ep_step (Ep_add mem f d) s =
     (if case mem of None \<Rightarrow> False | Some a \<Rightarrow> ep_workers s a \<noteq> None then Blocked else poolAddWorker (Client 0) mem f d s)"
| "ep_step (Ep_signal ch) s = add_signal ch s"
| "ep_step Ep_destroy s = poolDestroy (ep_destroy s) s"

definition ep_init :: "('f, 'd) ep_sys \<Rightarrow> bool" where
  "ep_init s \<longleftrightarrow> (\<exists>mem ids rc n. poolInit mem ids rc n = Ret s)"

section \<open>The walks end\<close>

lemma last_member_list:
  "list_at next_worker h (Some a) (xs @ [r]) \<Longrightarrow> last_member h a = Some (Ret r)"
proof (induction xs arbitrary: a)
  case Nil
  then have "\<exists>n. a = r \<and> h a = Some n \<and> next_worker n = None" by (auto split: option.splits)
  then show ?case by (auto simp: last_member.simps [of h r])
next
  case (Cons x xs)
  then obtain n where n: "x = a" "h a = Some n" "list_at next_worker h (next_worker n) (xs @ [r])" by (auto split: option.splits)
  then obtain b where "next_worker n = Some b" by (cases xs) auto
  with n Cons.IH show ?case by (simp add: last_member.simps [of h a])
qed

lemma free_queue_list:
  "list_at next_worker h p xs \<Longrightarrow> free_queue h p = Some (Ret (h |` (- set xs)))"
proof (induction xs arbitrary: h p)
  case Nil
  then show ?case by (simp add: free_queue.simps [of h None])
next
  case (Cons a xs)
  then obtain n where n: "p = Some a" "h a = Some n" "list_at next_worker h (next_worker n) xs" by (auto split: option.splits)
  have "a \<notin> set xs" using list_at_distinct [OF Cons.prems] by simp
  then have "free_queue (h(a := None)) (next_worker n) = Some (Ret ((h(a := None)) |` (- set xs)))"
    using list_at_update n(3) by (intro Cons.IH) blast
  moreover have "(h(a := None)) |` (- set xs) = h |` (- set (a # xs))" by (auto simp: restrict_map_def fun_eq_iff)
  ultimately show ?case using n by (simp add: free_queue.simps [of h "Some a"])
qed

text \<open>Linking a fresh worker behind the last one is appending to the queue.\<close>

lemma link_worker_list:
  assumes "list_at next_worker h p xs" "a \<notin> dom h" "next_worker n = None"
  obtains h' where "link_worker a p (h(a \<mapsto> n)) = Ret (h', Some (hd (xs @ [a])))"
    "list_at next_worker h' (Some (hd (xs @ [a]))) (xs @ [a])" "dom h' = insert a (dom h)"
    "\<And>x. x \<in> dom h \<Longrightarrow> worker_task h' x = worker_task h x" "worker_task h' a = (process n, arg n)"
proof (cases xs rule: rev_cases)
  case Nil
  have "worker_task (h(a \<mapsto> n)) x = worker_task h x" if "x \<in> dom h" for x using assms(2) that by (auto simp: worker_task_def)
  with Nil assms(1,3) that [of "h(a \<mapsto> n)"] show ?thesis by (simp add: link_worker_def) (simp add: worker_task_def)
next
  case (snoc ys r)
  have a: "a \<notin> set xs" using assms(2) list_at_allocated [OF assms(1)] by blast
  from snoc assms(1) obtain m where m: "h r = Some m" "next_worker m = None" using list_at_append [of next_worker h p ys r "[]"] by auto
  obtain b where b: "p = Some b" "b = hd (xs @ [a])" using assms(1) snoc by (cases ys) auto
  let ?h = "h(a \<mapsto> n, r \<mapsto> m\<lparr>next_worker := Some a\<rparr>)"
  have "list_at next_worker (h(a \<mapsto> n)) (Some b) (ys @ [r])" using assms(1) a snoc b(1) by simp
  then have "last_member (h(a \<mapsto> n)) b = Some (Ret r)" by (rule last_member_list)
  moreover have "r \<noteq> a" using a snoc by auto
  ultimately have "link_worker a p (h(a \<mapsto> n)) = Ret (?h, p)" using m by (simp add: link_worker_def b(1))
  moreover have "list_at next_worker ?h p (xs @ [a])"
    using list_at_snoc [of next_worker h p ys r m a "m\<lparr>next_worker := Some a\<rparr>" n] assms(1,3) a snoc m by simp
  moreover have "dom ?h = insert a (dom h)" using m by auto
  moreover have "worker_task ?h x = worker_task h x" if "x \<in> dom h" for x using m assms(2) that by (auto simp: worker_task_def)
  moreover have "worker_task ?h a = (process n, arg n)" using \<open>r \<noteq> a\<close> by (simp add: worker_task_def)
  ultimately show ?thesis using that [of ?h] b by simp
qed

section \<open>Invariant\<close>

fun rpc_owns :: "routine_pc \<Rightarrow> addr multiset" where
  "rpc_owns (R_got a) = {#a#}"
| "rpc_owns (R_exec a) = {#a#}"
| "rpc_owns _ = {#}"

fun rpc_holds :: "routine_pc \<Rightarrow> bool" where
  "rpc_holds R_sleep = True"
| "rpc_holds (R_got a) = True"
| "rpc_holds _ = False"

fun rpc_awake :: "routine_pc \<Rightarrow> bool" where
  "rpc_awake R_sleep = False"
| "rpc_awake R_wait = False"
| "rpc_awake R_exited = False"
| "rpc_awake R_absent = False"
| "rpc_awake _ = True"

fun joined :: "ep_destroy_pc \<Rightarrow> routine_pc list \<Rightarrow> bool" where
  "joined (D_join i) pcs = (i \<le> length pcs \<and> (\<forall>j<i. pcs ! j = R_exited))"
| "joined D_free pcs = (\<forall>pc\<in>set pcs. pc = R_exited)"
| "joined _ pcs = True"

text \<open>
  \<open>ep_ok\<close>: the queue \<open>xs\<close> is what \<open>curQueueSize\<close> and \<open>queueHead\<close> say, every allocated worker is in the queue
  or with exactly one thread, a thread about to sleep has seen the queue empty and still holds the
  lock, and while workers wait and a thread sleeps either a signal is still to come or another thread
  is awake. The last part is what makes the signal after the unlock enough.
\<close>

definition ep_ok :: "cthreadpool \<Rightarrow> (addr \<rightharpoonup> ('f, 'd) cthreadworker) \<Rightarrow> addr list \<Rightarrow> routine_pc list \<Rightarrow> nat \<Rightarrow> ep_destroy_pc \<Rightarrow> bool" where
  "ep_ok p h xs pcs sig d \<longleftrightarrow>
     lock_ok rpc_holds pcs (queueLock p) \<and> (\<forall>c. queueLock p \<noteq> M_held (Client c)) \<and>
     list_at next_worker h (queueHead p) xs \<and> curQueueSize p = int (length xs) \<and> in_int (curQueueSize p) \<and>
     owned_blocks rpc_owns h xs pcs \<and> dom h = set xs \<union> set_mset (sum_list (map rpc_owns pcs)) \<and>
     (R_sleep \<in> set pcs \<longrightarrow> xs = []) \<and>
     (xs \<noteq> [] \<and> R_wait \<in> set pcs \<longrightarrow> 0 < sig \<or> (\<exists>pc\<in>set pcs. rpc_awake pc)) \<and>
     (R_exited \<in> set pcs \<longrightarrow> shutdown p \<noteq> 0) \<and> (d = D_idle \<longleftrightarrow> shutdown p = 0) \<and>
     nat (maxThreadNum p) = length pcs \<and> joined d pcs"

definition ep_inv :: "('f, 'd) ep_sys \<Rightarrow> bool" where
  "ep_inv s \<longleftrightarrow>
     (case pool s of
        None \<Rightarrow> ep_workers s = Map.empty \<and> (\<forall>pc\<in>set (ep_pcs s). pc = R_exited) \<and> ep_destroy s = D_idle
      | Some p \<Rightarrow> ep_ok p (ep_workers s) (queue s) (ep_pcs s) (ep_signals s) (ep_destroy s) \<and> ep_discarded s = [])"

lemma ep_okD:
  assumes "ep_ok p h xs pcs sig d"
  shows "lock_ok rpc_holds pcs (queueLock p)" "queueLock p \<noteq> M_held (Client c)" "list_at next_worker h (queueHead p) xs"
    "curQueueSize p = int (length xs)" "in_int (curQueueSize p)" "owned_blocks rpc_owns h xs pcs"
    "dom h = set xs \<union> set_mset (sum_list (map rpc_owns pcs))" "R_sleep \<in> set pcs \<Longrightarrow> xs = []"
    "xs \<noteq> [] \<Longrightarrow> R_wait \<in> set pcs \<Longrightarrow> 0 < sig \<or> (\<exists>pc\<in>set pcs. rpc_awake pc)"
    "R_exited \<in> set pcs \<Longrightarrow> shutdown p \<noteq> 0" "d = D_idle \<longleftrightarrow> shutdown p = 0" "nat (maxThreadNum p) = length pcs" "joined d pcs"
  using assms by (auto simp: ep_ok_def)

lemma ep_inv_pool:
  "ep_inv s \<Longrightarrow> pool s = Some p \<Longrightarrow> ep_ok p (ep_workers s) (queue s) (ep_pcs s) (ep_signals s) (ep_destroy s)"
  by (simp add: ep_inv_def)

lemma queue_eq:
  assumes "pool s = Some p" "ep_ok p (ep_workers s) xs pcs sig d"
  shows "queue s = xs"
  using assms list_at_chain [OF ep_okD(3) [OF assms(2)]] ep_okD(4) [OF assms(2)] by (simp add: queue_def)

lemma ep_invI:
  assumes "pool s = Some p" "ep_ok p (ep_workers s) xs (ep_pcs s) (ep_signals s) (ep_destroy s)" "ep_discarded s = []"
  shows "ep_inv s"
  using assms(1,2,3) unfolding queue_eq [OF assms(1,2), symmetric] by (simp add: ep_inv_def)

lemma set_pool_simps [simp]:
  "pool (set_pool p s) = Some p" "ep_workers (set_pool p s) = ep_workers s" "ep_pcs (set_pool p s) = ep_pcs s"
  "ep_signals (set_pool p s) = ep_signals s" "ep_destroy (set_pool p s) = ep_destroy s"
  "ep_submitted (set_pool p s) = ep_submitted s" "ep_begun (set_pool p s) = ep_begun s"
  "ep_finished (set_pool p s) = ep_finished s" "ep_discarded (set_pool p s) = ep_discarded s"
  by (simp_all add: set_pool_def)

lemma ep_goto_simps [simp]:
  "pool (ep_goto w pc s) = pool s" "ep_workers (ep_goto w pc s) = ep_workers s" "ep_pcs (ep_goto w pc s) = (ep_pcs s)[w := pc]"
  "ep_signals (ep_goto w pc s) = ep_signals s" "ep_destroy (ep_goto w pc s) = ep_destroy s"
  "ep_submitted (ep_goto w pc s) = ep_submitted s" "ep_begun (ep_goto w pc s) = ep_begun s"
  "ep_finished (ep_goto w pc s) = ep_finished s" "ep_discarded (ep_goto w pc s) = ep_discarded s"
  by (simp_all add: ep_goto_def)

lemma set_pool_same: "pool s = Some p \<Longrightarrow> set_pool p s = s"
  by (cases s) (simp add: set_pool_def)

lemma joined_upd:
  assumes "joined d pcs" "w < length pcs" "pcs ! w \<noteq> R_exited"
  shows "joined d (pcs[w := pc])"
proof (cases d)
  case (D_join i)
  with assms show ?thesis by (metis joined.simps(1) length_list_update nth_list_update_neq)
next
  case D_free
  with assms show ?thesis by (metis joined.simps(2) nth_mem)
qed simp_all

lemma ep_inv_init: "ep_init s \<Longrightarrow> ep_inv s"
proof -
  assume "ep_init s"
  then obtain rc n where s: "s = new_pool rc n" by (auto simp: ep_init_def poolInit_def split: if_splits)
  have "set (ep_pcs s) \<subseteq> {R_lock, R_absent}" by (auto simp: s new_pool_def)
  then have "sum_list (map rpc_owns (ep_pcs s)) = {#}" "\<forall>pc\<in>set (ep_pcs s). \<not> rpc_holds pc"
    "R_sleep \<notin> set (ep_pcs s)" "R_exited \<notin> set (ep_pcs s)" by (auto intro!: sum_list_map_zero)
  then show ?thesis
    by (intro ep_invI [where xs = "[]" and p = "the (pool s)"]) (auto simp: s new_pool_def ep_ok_def lock_ok_def owned_blocks_def)
qed

section \<open>The steps, case by case\<close>

definition rpc_at_lock :: "routine_pc \<Rightarrow> bool" where
  "rpc_at_lock pc \<longleftrightarrow> pc = R_lock \<or> pc = R_woken"

lemma rpc_at_lock_simps [simp]:
  "rpc_at_lock pc \<Longrightarrow> rpc_owns pc = {#}" "rpc_at_lock pc \<Longrightarrow> \<not> rpc_holds pc" "rpc_at_lock pc \<Longrightarrow> pc \<noteq> R_exited"
  by (auto simp: rpc_at_lock_def)

lemma threadRoutine_lock:
  assumes "rpc_at_lock pc"
  shows "threadRoutine w pc s = deref_pool s (\<lambda>p.
    and_then (pthread_mutex_lock (Worker w) 0 (queueLock p)) (\<lambda>(_, m). routine_locked w (p\<lparr>queueLock := m\<rparr>) s))"
  using assms by (auto simp: rpc_at_lock_def)

text \<open>The pool and the state in which thread \<open>w\<close> has taken the worker at \<open>a\<close>.\<close>

definition popped :: "nat \<Rightarrow> ('f, 'd) cthreadworker \<Rightarrow> cthreadpool \<Rightarrow> cthreadpool" where
  "popped w n p = p\<lparr>queueLock := M_held (Worker w), curQueueSize := curQueueSize p - 1, queueHead := next_worker n\<rparr>"

definition ep_taken :: "nat \<Rightarrow> addr \<Rightarrow> ('f, 'd) cthreadworker \<Rightarrow> cthreadpool \<Rightarrow> ('f, 'd) ep_sys \<Rightarrow> ('f, 'd) ep_sys" where
  "ep_taken w a n p s = ep_goto w (R_got a) ((set_pool (popped w n p) s)\<lparr>ep_begun := ep_begun s @ [(process n, arg n)]\<rparr>)"

lemma ep_queue_head:
  assumes "ep_ok p h xs pcs sig d" "xs \<noteq> []"
  obtains a ys n where "xs = a # ys" "queueHead p = Some a" "h a = Some n" "list_at next_worker h (next_worker n) ys"
    "a \<notin> set ys" "0 < curQueueSize p" "in_int (curQueueSize p - 1)"
proof -
  from assms(2) obtain a ys where xs: "xs = a # ys" by (cases xs) auto
  with ep_okD(3) [OF assms(1)] obtain n where "queueHead p = Some a" "h a = Some n" "list_at next_worker h (next_worker n) ys"
    by (auto split: option.splits)
  moreover have "a \<notin> set ys" using list_at_distinct [OF ep_okD(3) [OF assms(1)]] xs by simp
  moreover have "0 < curQueueSize p" "in_int (curQueueSize p - 1)"
    using ep_okD(4,5) [OF assms(1)] xs in_int_le [of "curQueueSize p - 1" "curQueueSize p"] by auto
  ultimately show ?thesis using that xs by blast
qed

lemma routine_locked_eq:
  assumes "ep_ok p (ep_workers s) xs pcs sig d" "queueLock p = M_free" "pool s = Some p"
  shows "routine_locked w (p\<lparr>queueLock := M_held (Worker w)\<rparr>) s =
    (case xs of
       [] \<Rightarrow> Ret (if shutdown p = 0 then ep_goto w R_sleep (set_pool (p\<lparr>queueLock := M_held (Worker w)\<rparr>) s) else ep_goto w R_exited s)
     | a # ys \<Rightarrow> Ret (ep_taken w a (the (ep_workers s a)) p s))"
proof (cases "xs = []")
  case True
  with ep_okD(3,4) [OF assms(1)] have "curQueueSize p = 0" by simp
  moreover have "set_pool (p\<lparr>queueLock := M_free\<rparr>) s = s" using assms(2,3) by (cases p) (simp add: set_pool_same)
  ultimately show ?thesis using True by (simp add: routine_locked_def)
next
  case False
  with ep_queue_head [OF assms(1)] obtain a ys n where n: "xs = a # ys" "queueHead p = Some a" "ep_workers s a = Some n"
    "0 < curQueueSize p" "in_int (curQueueSize p - 1)" by metis
  then show ?thesis by (simp add: routine_locked_def c_assert_def c_sub_def ep_taken_def popped_def)
qed

lemma threadRoutine_cases:
  assumes "threadRoutine w (ep_pcs s ! w) s = Ret t" "w < length (ep_pcs s)" "ep_inv s"
  obtains
    (sleeps) p where "rpc_at_lock (ep_pcs s ! w)" "pool s = Some p" "queueLock p = M_free" "queue s = []" "shutdown p = 0"
      "t = ep_goto w R_sleep (set_pool (p\<lparr>queueLock := M_held (Worker w)\<rparr>) s)"
  | (exits) p where "rpc_at_lock (ep_pcs s ! w)" "pool s = Some p" "queueLock p = M_free" "queue s = []" "shutdown p \<noteq> 0"
      "t = ep_goto w R_exited s"
  | (takes) p a xs n where "rpc_at_lock (ep_pcs s ! w)" "pool s = Some p" "queueLock p = M_free" "queue s = a # xs"
      "ep_workers s a = Some n" "t = ep_taken w a n p s"
  | (waits) p where "ep_pcs s ! w = R_sleep" "pool s = Some p" "queueLock p = M_held (Worker w)"
      "t = ep_goto w R_wait (set_pool (p\<lparr>queueLock := M_free\<rparr>) s)"
  | (runs) p a where "ep_pcs s ! w = R_got a" "pool s = Some p" "queueLock p = M_held (Worker w)"
      "t = ep_goto w (R_exec a) (set_pool (p\<lparr>queueLock := M_free\<rparr>) s)"
proof (cases "rpc_at_lock (ep_pcs s ! w)")
  case True
  with assms(1) obtain p where p: "pool s = Some p" "queueLock p = M_free"
    and l: "routine_locked w (p\<lparr>queueLock := M_held (Worker w)\<rparr>) s = Ret t"
    unfolding threadRoutine_lock [OF True] by (auto simp: deref_pool_def outcome_simps pthread_mutex_lock_Ret0 split: option.splits)
  note ok = ep_inv_pool [OF assms(3) p(1)]
  note l = l [unfolded routine_locked_eq [OF ok p(2,1)]]
  show ?thesis
  proof (cases "queue s")
    case Nil
    with True p l sleeps exits show ?thesis by (simp split: if_splits)
  next
    case (Cons a xs)
    with ep_queue_head [OF ok] obtain n where "ep_workers s a = Some n" by (metis list.inject list.distinct(1))
    with Cons True p l takes show ?thesis by simp
  qed
next
  case False
  with assms(1) waits runs show ?thesis
    by (cases "ep_pcs s ! w") (auto simp: rpc_at_lock_def deref_pool_def outcome_simps pthread_mutex_unlock_Ret0 split: option.splits)
qed

lemma process_returns_cases:
  assumes "ep_step (Ep_returns w) s = Ret t" "ep_inv s"
  obtains p a where "w < length (ep_pcs s)" "ep_pcs s ! w = R_exec a" "pool s = Some p" "a \<notin> set (queue s)" "a \<in> dom (ep_workers s)"
    "t = ep_goto w R_lock (s\<lparr>ep_workers := (ep_workers s)(a := None),
       ep_finished := add_mset (worker_task (ep_workers s) a) (ep_finished s)\<rparr>)"
proof -
  from assms(1) obtain a where a: "w < length (ep_pcs s)" "ep_pcs s ! w = R_exec a" "process_returns w a s = Ret t"
    by (auto split: if_splits routine_pc.splits)
  have "pool s \<noteq> None" using assms(2) a(1,2) nth_mem [OF a(1)] by (cases "pool s") (auto simp: ep_inv_def)
  then obtain p where p: "pool s = Some p" by auto
  have own: "a \<in> dom (ep_workers s)" "a \<notin> set (queue s)"
    using owned_blocks_owned [OF ep_okD(6) [OF ep_inv_pool [OF assms(2) p]] a(1), of a] a(2) by auto
  with a p that [OF a(1,2)] show ?thesis by (auto simp: process_returns_def)
qed

lemma add_cases:
  assumes "ep_step (Ep_add mem f d) s = Ret t" "ep_inv s"
  obtains p a h where "mem = Some a" "a \<notin> dom (ep_workers s)" "pool s = Some p" "queueLock p = M_free"
    "in_int (curQueueSize p + 1)"
    "t = s\<lparr>pool := Some (p\<lparr>queueHead := Some (hd (queue s @ [a])), curQueueSize := curQueueSize p + 1\<rparr>), ep_workers := h,
       ep_signals := Suc (ep_signals s), ep_submitted := ep_submitted s @ [(f, d)]\<rparr>"
    "list_at next_worker h (Some (hd (queue s @ [a]))) (queue s @ [a])" "dom h = insert a (dom (ep_workers s))"
    "\<And>x. x \<in> dom (ep_workers s) \<Longrightarrow> worker_task h x = worker_task (ep_workers s) x" "worker_task h a = (f, d)"
proof -
  from assms(1) obtain a p where a: "mem = Some a" "a \<notin> dom (ep_workers s)" "pool s = Some p" "queueLock p = M_free"
    by (auto simp: poolAddWorker_def deref_pool_def outcome_simps pthread_mutex_lock_Ret0 split: if_splits option.splits)
  note ok = ep_inv_pool [OF assms(2) a(3)]
  let ?n = "\<lparr>process = f, arg = d, next_worker = None\<rparr>"
  from link_worker_list [OF ep_okD(3) [OF ok] a(2), of ?n] obtain h where
    h: "link_worker a (queueHead p) ((ep_workers s)(a \<mapsto> ?n)) = Ret (h, Some (hd (queue s @ [a])))"
    and l: "list_at next_worker h (Some (hd (queue s @ [a]))) (queue s @ [a])" "dom h = insert a (dom (ep_workers s))"
      "\<And>x. x \<in> dom (ep_workers s) \<Longrightarrow> worker_task h x = worker_task (ep_workers s) x" "worker_task h a = (f, d)"
    by auto
  have "p\<lparr>queueLock := M_free\<rparr> = p" using a(4) by (cases p) simp
  then show ?thesis using a h l that [OF a(1-4), of h] assms(1)
    by (auto simp: poolAddWorker_def deref_pool_def outcome_simps c_assert_def c_add_def split: if_splits)
qed

section \<open>The invariant is kept\<close>

text \<open>A thread moves on without touching the queue.\<close>

lemma ep_ok_goto:
  assumes "ep_ok p h xs pcs sig d" "w < length pcs" "pcs ! w \<noteq> R_exited" "rpc_owns pc = rpc_owns (pcs ! w)"
    and "lock_ok rpc_holds (pcs[w := pc]) m" "\<And>c. m \<noteq> M_held (Client c)"
    and "rpc_awake pc \<or> xs = []" "pc = R_exited \<Longrightarrow> shutdown p \<noteq> 0"
  shows "ep_ok (p\<lparr>queueLock := m\<rparr>) h xs (pcs[w := pc]) sig d"
proof -
  have own: "owned_blocks rpc_owns h xs (pcs[w := pc])" "sum_list (map rpc_owns (pcs[w := pc])) = sum_list (map rpc_owns pcs)"
    using ep_okD(6) [OF assms(1)] assms(2,4) by (auto intro: owned_blocks_upd sum_list_update_same)
  have wake: "xs \<noteq> [] \<and> R_wait \<in> set (pcs[w := pc]) \<longrightarrow> 0 < sig \<or> (\<exists>pc\<in>set (pcs[w := pc]). rpc_awake pc)"
    using assms(2,7) set_update_memI by metis
  have "R_sleep \<in> set (pcs[w := pc]) \<longrightarrow> xs = []" using assms(7) ep_okD(8) [OF assms(1)] by (auto dest!: in_set_updateD)
  moreover have "R_exited \<in> set (pcs[w := pc]) \<longrightarrow> shutdown p \<noteq> 0" using assms(8) ep_okD(10) [OF assms(1)] by (auto dest!: in_set_updateD)
  moreover have "joined d (pcs[w := pc])" using ep_okD(13) [OF assms(1)] assms(2,3) by (rule joined_upd)
  ultimately show ?thesis using ep_okD(3,4,5,7,11,12) [OF assms(1)] assms(5,6) own wake unfolding ep_ok_def by simp
qed

lemma ep_ok_taken:
  assumes "ep_ok p h (a # xs) pcs sig d" "w < length pcs" "rpc_at_lock (pcs ! w)" "queueLock p = M_free" "h a = Some n"
  shows "ep_ok (popped w n p) h xs (pcs[w := R_got a]) sig d"
proof -
  from ep_queue_head [OF assms(1)] assms(5) have q: "list_at next_worker h (next_worker n) xs" "in_int (curQueueSize p - 1)" "a \<notin> set xs"
    by (metis list.distinct(1) list.inject option.inject)+
  have "owned_blocks rpc_owns h xs (pcs[w := R_got a])"
    using ep_okD(6) [OF assms(1)] assms(2,3,5) by (intro owned_blocks_take) auto
  moreover have "sum_list (map rpc_owns (pcs[w := R_got a])) = add_mset a (sum_list (map rpc_owns pcs))"
    using sum_list_update_add [OF assms(2), of rpc_owns "R_got a"] assms(3) by simp
  moreover have "lock_ok rpc_holds (pcs[w := R_got a]) (M_held (Worker w))"
    using ep_okD(1) [OF assms(1)] assms(2,4) by (intro lock_ok_acquire) auto
  moreover have "R_sleep \<notin> set (pcs[w := R_got a])" using ep_okD(8) [OF assms(1)] by (auto dest!: in_set_updateD)
  moreover have "\<exists>pc\<in>set (pcs[w := R_got a]). rpc_awake pc" using assms(2) set_update_memI by (metis rpc_awake.simps(7))
  moreover have "R_exited \<in> set (pcs[w := R_got a]) \<longrightarrow> shutdown p \<noteq> 0" using ep_okD(10) [OF assms(1)] by (auto dest!: in_set_updateD)
  moreover have "joined d (pcs[w := R_got a])" using ep_okD(13) [OF assms(1)] assms(2,3) by (intro joined_upd) auto
  ultimately show ?thesis using ep_okD(4,7,11,12) [OF assms(1)] q unfolding ep_ok_def popped_def by auto
qed

lemma ep_routine_inv:
  assumes "threadRoutine w (ep_pcs s ! w) s = Ret t" "w < length (ep_pcs s)" "ep_inv s"
  shows "ep_inv t"
proof -
  note ok = ep_inv_pool [OF assms(3)]
  have nd: "ep_discarded s = []" if "pool s = Some p" for p using assms(3) that by (simp add: ep_inv_def)
  from assms show ?thesis
  proof (cases rule: threadRoutine_cases)
    case (sleeps p)
    have "lock_ok rpc_holds ((ep_pcs s)[w := R_sleep]) (M_held (Worker w))"
      using ep_okD(1) [OF ok [OF sleeps(2)]] sleeps(3) assms(2) by (intro lock_ok_acquire) auto
    then have "ep_ok (p\<lparr>queueLock := M_held (Worker w)\<rparr>) (ep_workers s) (queue s) ((ep_pcs s)[w := R_sleep]) (ep_signals s) (ep_destroy s)"
      using sleeps by (intro ep_ok_goto [OF ok [OF sleeps(2)] assms(2)]) auto
    then show ?thesis using nd sleeps(2) unfolding sleeps(6) by (intro ep_invI) auto
  next
    case (exits p)
    have "lock_ok rpc_holds ((ep_pcs s)[w := R_exited]) M_free"
      using ep_okD(1) [OF ok [OF exits(2)]] exits(1,3) by (intro lock_ok_stay) auto
    then have "ep_ok (p\<lparr>queueLock := M_free\<rparr>) (ep_workers s) (queue s) ((ep_pcs s)[w := R_exited]) (ep_signals s) (ep_destroy s)"
      using exits by (intro ep_ok_goto [OF ok [OF exits(2)] assms(2)]) auto
    moreover have "p\<lparr>queueLock := M_free\<rparr> = p" using exits(3) by (cases p) simp
    ultimately show ?thesis using nd exits(2) unfolding exits(6) by (intro ep_invI) auto
  next
    case (takes p a xs n)
    show ?thesis unfolding takes(6) using ep_ok_taken [OF ok [OF takes(2), unfolded takes(4)] assms(2) takes(1,3,5)] nd [OF takes(2)]
      by (intro ep_invI) (auto simp: ep_taken_def)
  next
    case (waits p)
    have "queue s = []" using ep_okD(8) [OF ok [OF waits(2)]] waits(1) assms(2) nth_mem by metis
    moreover have "lock_ok rpc_holds ((ep_pcs s)[w := R_wait]) M_free"
      using ep_okD(1) [OF ok [OF waits(2)]] waits(3) by (intro lock_ok_release) auto
    ultimately have "ep_ok (p\<lparr>queueLock := M_free\<rparr>) (ep_workers s) (queue s) ((ep_pcs s)[w := R_wait]) (ep_signals s) (ep_destroy s)"
      using waits by (intro ep_ok_goto [OF ok [OF waits(2)] assms(2)]) auto
    then show ?thesis using nd waits(2) unfolding waits(4) by (intro ep_invI) auto
  next
    case (runs p a)
    have "lock_ok rpc_holds ((ep_pcs s)[w := R_exec a]) M_free"
      using ep_okD(1) [OF ok [OF runs(2)]] runs(3) by (intro lock_ok_release) auto
    then have "ep_ok (p\<lparr>queueLock := M_free\<rparr>) (ep_workers s) (queue s) ((ep_pcs s)[w := R_exec a]) (ep_signals s) (ep_destroy s)"
      using runs by (intro ep_ok_goto [OF ok [OF runs(2)] assms(2)]) auto
    then show ?thesis using nd runs(2) unfolding runs(4) by (intro ep_invI) auto
  qed
qed

lemma ep_returns_inv:
  assumes "ep_step (Ep_returns w) s = Ret t" "ep_inv s"
  shows "ep_inv t"
  using assms
proof (cases rule: process_returns_cases)
  case (1 p a)
  note ok = ep_inv_pool [OF assms(2) 1(3)]
  let ?pcs = "(ep_pcs s)[w := R_lock]" and ?h = "(ep_workers s)(a := None)"
  have m: "sum_list (map rpc_owns (ep_pcs s)) = add_mset a (sum_list (map rpc_owns ?pcs))"
    using sum_list_update_add [OF 1(1), of rpc_owns R_lock] 1(2) by simp
  have own: "owned_blocks rpc_owns ?h (queue s) ?pcs" using ep_okD(6) [OF ok] 1(1,2) by (intro owned_blocks_free) auto
  then have "a \<notin># sum_list (map rpc_owns ?pcs)" by (auto simp: owned_blocks_def)
  then have "dom ?h = set (queue s) \<union> set_mset (sum_list (map rpc_owns ?pcs))" using ep_okD(7) [OF ok] 1(4) unfolding m by auto
  moreover have "lock_ok rpc_holds ?pcs (queueLock p)" using ep_okD(1) [OF ok] 1(2) by (intro lock_ok_stay) auto
  moreover have "\<exists>pc\<in>set ?pcs. rpc_awake pc" using 1(1) set_update_memI by (metis rpc_awake.simps(5))
  moreover have "joined (ep_destroy s) ?pcs" using ep_okD(13) [OF ok] 1(1,2) by (auto intro: joined_upd)
  moreover have "R_sleep \<in> set ?pcs \<longrightarrow> queue s = []" "R_exited \<in> set ?pcs \<longrightarrow> shutdown p \<noteq> 0"
    using ep_okD(8,10) [OF ok] by (auto dest!: in_set_updateD)
  ultimately have "ep_ok p ?h (queue s) ?pcs (ep_signals s) (ep_destroy s)"
    using ep_okD(2,3,4,5,11,12) [OF ok] own 1(4) unfolding ep_ok_def by auto
  then show ?thesis using 1(3) assms(2) unfolding 1(6) by (intro ep_invI) (auto simp: ep_inv_def)
qed

lemma ep_add_inv:
  assumes "ep_step (Ep_add mem f d) s = Ret t" "ep_inv s"
  shows "ep_inv t"
  using assms
proof (cases rule: add_cases)
  case (1 p a h)
  note ok = ep_inv_pool [OF assms(2) 1(3)]
  have all: "set (queue s) \<subseteq> dom (ep_workers s)" using list_at_allocated [OF ep_okD(3) [OF ok]] .
  have "owned_blocks rpc_owns ((ep_workers s)(a \<mapsto> undefined)) (a # queue s) (ep_pcs s)"
    using owned_blocks_add [OF ep_okD(6) [OF ok] 1(2) all] .
  then have "owned_blocks rpc_owns h (queue s @ [a]) (ep_pcs s)"
    by (rule owned_blocks_perm [OF owned_blocks_heap]) (auto simp: 1(8))
  moreover have "R_sleep \<notin> set (ep_pcs s)"
    using ep_okD(1) [OF ok] 1(4) by (auto simp: lock_ok_def in_set_conv_nth)
  ultimately have "ep_ok (p\<lparr>queueHead := Some (hd (queue s @ [a])), curQueueSize := curQueueSize p + 1\<rparr>) h (queue s @ [a]) (ep_pcs s)
      (Suc (ep_signals s)) (ep_destroy s)"
    using ok 1(5,7,8) unfolding ep_ok_def by auto
  then show ?thesis using assms(2) 1(3) unfolding 1(6) by (intro ep_invI) (auto simp: ep_inv_def)
qed

text \<open>Threads that sleep are woken, by a signal, a broadcast or without a reason.\<close>

definition awakened :: "routine_pc list \<Rightarrow> routine_pc list \<Rightarrow> bool" where
  "awakened = list_all2 (\<lambda>x y. y = x \<or> x = R_wait \<and> y = R_woken)"

lemma awakened_nth:
  assumes "awakened pcs pcs'"
  shows "length pcs' = length pcs" "i < length pcs \<Longrightarrow> pcs' ! i = pcs ! i \<or> pcs ! i = R_wait \<and> pcs' ! i = R_woken"
  using assms by (auto simp: awakened_def list_all2_conv_all_nth)

lemma awakened_set: "awakened pcs pcs' \<Longrightarrow> pc \<noteq> R_woken \<Longrightarrow> pc \<in> set pcs' \<Longrightarrow> pc \<in> set pcs"
  unfolding awakened_def by (induction rule: list_all2_induct) auto

lemma awakened_owns: "awakened pcs pcs' \<Longrightarrow> sum_list (map rpc_owns pcs') = sum_list (map rpc_owns pcs)"
  unfolding awakened_def by (induction rule: list_all2_induct) auto

lemma awakened_joined:
  assumes "awakened pcs pcs'" "joined d pcs"
  shows "joined d pcs'"
proof (cases d)
  case (D_join i)
  with assms(2) have "i \<le> length pcs" "\<forall>j<i. pcs ! j = R_exited" by auto
  moreover have "pcs' ! j = R_exited" if "j < i" for j
    using calculation that awakened_nth(2) [OF assms(1), of j] by auto
  ultimately show ?thesis using awakened_nth(1) [OF assms(1)] D_join by simp
next
  case D_free
  then have "pcs ! i = R_exited" if "i < length pcs" for i using assms(2) nth_mem [OF that] by simp
  then have "pcs' ! i = R_exited" if "i < length pcs'" for i
    using that awakened_nth(1) [OF assms(1)] awakened_nth(2) [OF assms(1), of i] by force
  then show ?thesis using D_free by (auto simp: in_set_conv_nth)
qed simp_all

lemma ep_ok_awakened:
  assumes "ep_ok p h xs pcs sig d" "awakened pcs pcs'"
    and "xs \<noteq> [] \<Longrightarrow> R_wait \<in> set pcs' \<Longrightarrow> 0 < sig' \<or> (\<exists>pc\<in>set pcs'. rpc_awake pc)"
  shows "ep_ok p h xs pcs' sig' d"
proof -
  have "lock_ok rpc_holds pcs' (queueLock p)"
    using ep_okD(1) [OF assms(1)] awakened_nth [OF assms(2)] unfolding lock_ok_def by (metis rpc_holds.simps(4,5))
  moreover have "owned_blocks rpc_owns h xs pcs'" using owned_blocks_pcs [OF awakened_owns [OF assms(2)]] ep_okD(6) [OF assms(1)] by blast
  moreover have "R_sleep \<in> set pcs' \<longrightarrow> R_sleep \<in> set pcs" "R_exited \<in> set pcs' \<longrightarrow> R_exited \<in> set pcs"
    using awakened_set [OF assms(2)] by blast+
  moreover have "joined d pcs'" using awakened_joined [OF assms(2) ep_okD(13) [OF assms(1)]] .
  ultimately show ?thesis using assms(1,3) awakened_owns [OF assms(2)] awakened_nth(1) [OF assms(2)] unfolding ep_ok_def by auto
qed

lemma awakened_update: "w < length pcs \<Longrightarrow> pcs ! w = R_wait \<Longrightarrow> awakened pcs (pcs[w := R_woken])"
  by (auto simp: awakened_def list_all2_conv_all_nth nth_list_update)

lemma awakened_signal:
  assumes "cond_signal_ok R_wait ch pcs"
  shows "awakened pcs (cond_signal R_woken ch pcs)" "R_wait \<in> set (cond_signal R_woken ch pcs) \<Longrightarrow> R_woken \<in> set (cond_signal R_woken ch pcs)"
proof -
  have "awakened pcs pcs" by (simp add: awakened_def list.rel_refl)
  then show "awakened pcs (cond_signal R_woken ch pcs)"
    using assms by (auto simp: cond_signal_ok_def cond_signal_def awakened_update split: option.splits)
  show "R_woken \<in> set (cond_signal R_woken ch pcs)" if "R_wait \<in> set (cond_signal R_woken ch pcs)"
    using assms that by (auto simp: cond_signal_ok_def cond_signal_def set_update_memI split: option.splits)
qed

lemma awakened_broadcast: "awakened pcs (cond_broadcast R_wait R_woken pcs)" "R_wait \<notin> set (cond_broadcast R_wait R_woken pcs)"
  by (auto simp: awakened_def list_all2_conv_all_nth nth_cond_broadcast cond_broadcast_def)

lemma ep_spurious_inv:
  assumes "ep_step (Ep_spurious w) s = Ret t" "ep_inv s"
  shows "ep_inv t"
proof -
  from assms(1) have t: "w < length (ep_pcs s)" "ep_pcs s ! w = R_wait" "t = ep_goto w R_woken s" by (auto split: if_splits)
  then have "pool s \<noteq> None" using assms(2) nth_mem [OF t(1)] by (cases "pool s") (auto simp: ep_inv_def)
  then obtain p where p: "pool s = Some p" by auto
  have "\<exists>pc\<in>set ((ep_pcs s)[w := R_woken]). rpc_awake pc" using t(1) set_update_memI by (metis rpc_awake.simps(6))
  then have "ep_ok p (ep_workers s) (queue s) ((ep_pcs s)[w := R_woken]) (ep_signals s) (ep_destroy s)"
    using ep_ok_awakened [OF ep_inv_pool [OF assms(2) p] awakened_update [OF t(1,2)]] by blast
  then show ?thesis using p assms(2) unfolding t(3) by (intro ep_invI) (auto simp: ep_inv_def)
qed

lemma ep_signal_inv:
  assumes "ep_step (Ep_signal ch) s = Ret t" "ep_inv s"
  shows "ep_inv t"
proof -
  from assms(1) obtain p where p: "pool s = Some p" "cond_signal_ok R_wait ch (ep_pcs s)"
    "t = s\<lparr>ep_signals := ep_signals s - 1, ep_pcs := cond_signal R_woken ch (ep_pcs s)\<rparr>"
    by (auto simp: add_signal_def deref_pool_def split: if_splits option.splits)
  have "ep_ok p (ep_workers s) (queue s) (cond_signal R_woken ch (ep_pcs s)) (ep_signals s - 1) (ep_destroy s)"
    using ep_ok_awakened [OF ep_inv_pool [OF assms(2) p(1)] awakened_signal(1) [OF p(2)]] awakened_signal(2) [OF p(2)]
    by (metis rpc_awake.simps(6))
  then show ?thesis using p(1) assms(2) unfolding p(3) by (intro ep_invI) (auto simp: ep_inv_def)
qed

text \<open>\<open>poolDestroy\<close>, phase by phase.\<close>

lemma destroy_cases:
  assumes "ep_step Ep_destroy s = Ret t" "ep_inv s"
  obtains
    (flag) p where "pool s = Some p" "ep_destroy s = D_idle" "shutdown p = 0"
      "t = (set_pool (p\<lparr>shutdown := 1\<rparr>) s)\<lparr>ep_destroy := D_broadcast\<rparr>"
  | (wake) p where "pool s = Some p" "ep_destroy s = D_broadcast"
      "t = s\<lparr>ep_pcs := cond_broadcast R_wait R_woken (ep_pcs s), ep_destroy := D_join 0\<rparr>"
  | (join) p i where "pool s = Some p" "ep_destroy s = D_join i" "i < length (ep_pcs s)" "ep_pcs s ! i = R_exited"
      "t = s\<lparr>ep_destroy := D_join (Suc i)\<rparr>"
  | (all_joined) p where "pool s = Some p" "ep_destroy s = D_join (length (ep_pcs s))" "t = s\<lparr>ep_destroy := D_free\<rparr>"
  | (release) p where "pool s = Some p" "ep_destroy s = D_free" "\<forall>pc\<in>set (ep_pcs s). pc = R_exited"
      "t = s\<lparr>pool := None, ep_workers := Map.empty, ep_destroy := D_idle,
         ep_discarded := ep_discarded s @ map (worker_task (ep_workers s)) (queue s)\<rparr>"
proof -
  from assms(1) obtain p where p: "pool s = Some p" by (cases "ep_destroy s") (auto simp: deref_pool_def split: option.splits)
  note ok = ep_inv_pool [OF assms(2) p]
  show ?thesis
  proof (cases "ep_destroy s")
    case D_idle
    with assms(1) p flag ep_okD(11) [OF ok] show ?thesis by (auto simp: deref_pool_def)
  next
    case D_broadcast
    with assms(1) p wake show ?thesis by (simp add: deref_pool_def)
  next
    case (D_join i)
    then have "i \<le> length (ep_pcs s)" "int i < maxThreadNum p \<longleftrightarrow> i < length (ep_pcs s)" using ep_okD(12,13) [OF ok] by auto
    with assms(1) p D_join join all_joined show ?thesis by (auto simp: deref_pool_def split: if_splits)
  next
    case D_free
    then have gone: "\<forall>pc\<in>set (ep_pcs s). pc = R_exited" using ep_okD(13) [OF ok] by simp
    then have "sum_list (map rpc_owns (ep_pcs s)) = {#}" by (intro sum_list_map_zero) auto
    then have "dom (ep_workers s) = set (queue s)" using ep_okD(7) [OF ok] by simp
    then have "ep_workers s |` (- set (queue s)) = Map.empty" by (auto simp: restrict_map_def fun_eq_iff)
    then have "free_queue (ep_workers s) (queueHead p) = Some (Ret Map.empty)"
      using free_queue_list [OF ep_okD(3) [OF ok]] by simp
    with assms(1) D_free p gone release show ?thesis
      by (auto simp: deref_pool_def outcome_simps pthread_cond_destroy_def)
  qed
qed

lemma ep_destroy_inv:
  assumes "ep_step Ep_destroy s = Ret t" "ep_inv s"
  shows "ep_inv t"
proof -
  have nd: "ep_discarded s = []" if "pool s = Some p" for p using assms(2) that by (simp add: ep_inv_def)
  note ok = ep_inv_pool [OF assms(2)]
  from assms show ?thesis
  proof (cases rule: destroy_cases)
    case (flag p)
    have "ep_ok (p\<lparr>shutdown := 1\<rparr>) (ep_workers s) (queue s) (ep_pcs s) (ep_signals s) D_broadcast"
      using ok [OF flag(1)] by (auto simp: ep_ok_def)
    then show ?thesis using nd flag(1) unfolding flag(4) by (intro ep_invI) auto
  next
    case (wake p)
    have "ep_ok p (ep_workers s) (queue s) (ep_pcs s) (ep_signals s) (D_join 0)"
      using ok [OF wake(1)] wake(2) by (auto simp: ep_ok_def)
    then have "ep_ok p (ep_workers s) (queue s) (cond_broadcast R_wait R_woken (ep_pcs s)) (ep_signals s) (D_join 0)"
      using ep_ok_awakened awakened_broadcast by metis
    then show ?thesis using nd wake(1) unfolding wake(3) by (intro ep_invI) auto
  next
    case (join p i)
    have "ep_ok p (ep_workers s) (queue s) (ep_pcs s) (ep_signals s) (D_join (Suc i))"
      using ok [OF join(1)] join(2,3,4) by (auto simp: ep_ok_def less_Suc_eq)
    then show ?thesis using nd join(1) unfolding join(5) by (intro ep_invI) auto
  next
    case (all_joined p)
    have "ep_ok p (ep_workers s) (queue s) (ep_pcs s) (ep_signals s) D_free"
      using ok [OF all_joined(1)] all_joined(2) by (auto simp: ep_ok_def in_set_conv_nth)
    then show ?thesis using nd all_joined(1) unfolding all_joined(3) by (intro ep_invI) auto
  next
    case (release p)
    then show ?thesis by (simp add: ep_inv_def)
  qed
qed

interpretation ep: invariant_system ep_step ep_init ep_inv
proof (unfold_locales, goal_cases)
  case (1 s)
  then show ?case by (rule ep_inv_init)
next
  case (2 s l t)
  show ?case
  proof (cases l)
    case (Ep_routine w)
    with 2 ep_routine_inv show ?thesis by (auto split: if_splits)
  next
    case (Ep_returns w)
    with 2 ep_returns_inv show ?thesis by blast
  next
    case (Ep_spurious w)
    with 2 ep_spurious_inv show ?thesis by blast
  next
    case (Ep_add mem f d)
    show ?thesis using ep_add_inv [OF 2(2) [unfolded Ep_add] 2(1)] .
  next
    case (Ep_signal ch)
    with 2 ep_signal_inv show ?thesis by blast
  next
    case Ep_destroy
    with 2 ep_destroy_inv show ?thesis by blast
  qed
qed

end
