(* ===== verification/Epoll_Pool_Theorems.thy ===== *)
theory Epoll_Pool_Theorems
  imports Epoll_Pool
begin

text \<open>
  What the pool of \<open>server_epoll_pthread_pool.c\<close> promises: it refines the abstract queue of tasks, it completes
  every task although the signal comes after the unlock, its asserts never fail. What it does not
  promise: \<open>poolDestroy\<close> sets the flag and broadcasts without the mutex, so a thread between its test and
  its wait sleeps through the broadcast and the join never returns.
\<close>

section \<open>Refinement\<close>

definition ep_view :: "('f, 'd) ep_sys \<Rightarrow> ('f \<times> 'd) pool_view" where
  "ep_view s = \<lparr>submitted = ep_submitted s, pending = map (worker_task (ep_workers s)) (queue s), begun = ep_begun s,
     running = image_mset (worker_task (ep_workers s)) (sum_list (map rpc_owns (ep_pcs s))),
     finished = ep_finished s, discarded = ep_discarded s\<rparr>"

lemma queue_cong:
  "map_option curQueueSize (pool s) = map_option curQueueSize (pool t) \<Longrightarrow> map_option queueHead (pool s) = map_option queueHead (pool t) \<Longrightarrow>
     ep_workers s = ep_workers t \<Longrightarrow> queue s = queue t"
  by (auto simp: queue_def split: option.splits)

lemma ep_view_goto:
  assumes "w < length (ep_pcs s)" "rpc_owns pc = rpc_owns (ep_pcs s ! w)" "pool s = Some p"
  shows "ep_view (ep_goto w pc s) = ep_view s" "ep_view (ep_goto w pc (set_pool (p\<lparr>queueLock := m\<rparr>) s)) = ep_view s"
proof -
  have "queue (ep_goto w pc s) = queue s" "queue (ep_goto w pc (set_pool (p\<lparr>queueLock := m\<rparr>) s)) = queue s"
    using assms(3) by (auto intro: queue_cong)
  then show "ep_view (ep_goto w pc s) = ep_view s" "ep_view (ep_goto w pc (set_pool (p\<lparr>queueLock := m\<rparr>) s)) = ep_view s"
    using sum_list_update_same [OF assms(1,2)] by (simp_all add: ep_view_def)
qed

lemma queue_taken:
  assumes "ep_inv s" "w < length (ep_pcs s)" "rpc_at_lock (ep_pcs s ! w)" "pool s = Some p" "queueLock p = M_free"
    "queue s = a # xs" "ep_workers s a = Some n"
  shows "queue (ep_taken w a n p s) = xs"
  using ep_ok_taken [OF ep_inv_pool [OF assms(1,4), unfolded assms(6)] assms(2,3,5,7)]
  by (intro queue_eq [of _ "popped w n p"]) (auto simp: ep_taken_def)

lemma routine_view:
  assumes "threadRoutine w (ep_pcs s ! w) s = Ret t" "w < length (ep_pcs s)" "ep_inv s"
  shows "pool_step Fifo (ep_view s) (ep_view t)"
  using assms
proof (cases rule: threadRoutine_cases)
  case (takes p a xs n)
  let ?t = "worker_task (ep_workers s) a"
  have "queue t = xs" using queue_taken [OF assms(3,2) takes(1-5)] takes(6) by simp
  moreover have "sum_list (map rpc_owns (ep_pcs t)) = add_mset a (sum_list (map rpc_owns (ep_pcs s)))"
    using sum_list_update_add [OF assms(2), of rpc_owns "R_got a"] takes(1,6) by (simp add: ep_taken_def)
  moreover have "?t = (process n, arg n)" using takes(5) by (simp add: worker_task_def)
  ultimately have "ep_view t = (ep_view s)\<lparr>pending := map (worker_task (ep_workers s)) xs, begun := begun (ep_view s) @ [?t],
      running := add_mset ?t (running (ep_view s))\<rparr>"
    by (simp add: ep_view_def) (simp add: takes(6) ep_taken_def)
  then show ?thesis using pool_step.take [of "ep_view s" ?t "map (worker_task (ep_workers s)) xs" Fifo] takes(4) by (simp add: ep_view_def)
next
  case (sleeps p)
  then show ?thesis using ep_view_goto(2) [OF assms(2) _ sleeps(2)] by (simp add: pool_step.silent)
next
  case (exits p)
  then show ?thesis using ep_view_goto(1) [OF assms(2) _ exits(2)] by (simp add: pool_step.silent)
next
  case (waits p)
  then show ?thesis using ep_view_goto(2) [OF assms(2) _ waits(2)] by (simp add: pool_step.silent)
next
  case (runs p a)
  then show ?thesis using ep_view_goto(2) [OF assms(2) _ runs(2)] by (simp add: pool_step.silent)
qed

lemma queue_returns:
  assumes "ep_step (Ep_returns w) s = Ret t" "ep_inv s"
  shows "queue t = queue s"
  using assms
proof (cases rule: process_returns_cases)
  case (1 p a)
  note ok = ep_inv_pool [OF assms(2) 1(3)]
  have "list_at next_worker (ep_workers t) (queueHead p) (queue s)"
    using ep_okD(3) [OF ok] 1(4) by (simp add: 1(6))
  moreover have "pool t = Some p" by (simp add: 1(3,6))
  then have "list_at next_worker (ep_workers t) (queueHead p) (queue t)"
    using ep_okD(3) [OF ep_inv_pool [OF ep_returns_inv [OF assms]]] by blast
  ultimately show ?thesis using list_at_unique by blast
qed

lemma process_returns_view:
  assumes "ep_step (Ep_returns w) s = Ret t" "ep_inv s"
  shows "pool_step Fifo (ep_view s) (ep_view t)"
  using assms
proof (cases rule: process_returns_cases)
  case (1 p a)
  note ok = ep_inv_pool [OF assms(2) 1(3)]
  let ?t = "worker_task (ep_workers s) a" and ?m' = "sum_list (map rpc_owns ((ep_pcs s)[w := R_lock]))"
  have m: "sum_list (map rpc_owns (ep_pcs s)) = add_mset a ?m'" using sum_list_update_add [OF 1(1), of rpc_owns R_lock] 1(2) by simp
  have "owned_blocks rpc_owns ((ep_workers s)(a := None)) (queue s) ((ep_pcs s)[w := R_lock])"
    using ep_okD(6) [OF ok] 1(1,2) by (intro owned_blocks_free) auto
  then have a: "a \<notin># ?m'" unfolding owned_blocks_def by auto
  have same: "worker_task (ep_workers t) x = worker_task (ep_workers s) x" if "x \<noteq> a" for x
    using that by (auto simp: 1(6) worker_task_def)
  have "image_mset (worker_task (ep_workers t)) ?m' = image_mset (worker_task (ep_workers s)) ?m'"
    using a same by (rule image_mset_except)
  moreover have "map (worker_task (ep_workers t)) (queue s) = map (worker_task (ep_workers s)) (queue s)"
    using 1(4) same by (rule map_except)
  ultimately have "ep_view t = (ep_view s)\<lparr>running := running (ep_view s) - {#?t#}, finished := add_mset ?t (finished (ep_view s))\<rparr>"
    by (simp add: ep_view_def queue_returns [OF assms] m) (simp add: 1(6))
  then show ?thesis using pool_step.complete [of ?t "ep_view s" Fifo] by (simp add: ep_view_def m)
qed

lemma queue_add:
  assumes "ep_step (Ep_add (Some a) f d) s = Ret t" "ep_inv s"
  shows "queue t = queue s @ [a]"
  using assms
proof (cases rule: add_cases)
  case (1 p b h)
  have "pool t = Some (p\<lparr>queueHead := Some (hd (queue s @ [b])), curQueueSize := curQueueSize p + 1\<rparr>)" "ep_workers t = h"
    by (simp_all add: 1(6))
  then have "list_at next_worker h (Some (hd (queue s @ [b]))) (queue t)"
    using ep_okD(3) [OF ep_inv_pool [OF ep_add_inv [OF assms]]] by fastforce
  then show ?thesis using list_at_unique [OF _ 1(7)] 1(1) by simp
qed

lemma ep_add_view:
  assumes "ep_step (Ep_add mem f d) s = Ret t" "ep_inv s"
  shows "pool_step Fifo (ep_view s) (ep_view t)"
  using assms
proof (cases rule: add_cases)
  case (1 p a h)
  note ok = ep_inv_pool [OF assms(2) 1(3)]
  let ?m = "sum_list (map rpc_owns (ep_pcs s))"
  have h: "ep_workers t = h" "ep_pcs t = ep_pcs s" by (simp_all add: 1(6))
  have "image_mset (worker_task h) ?m = image_mset (worker_task (ep_workers s)) ?m"
    using 1(9) ep_okD(7) [OF ok] by (intro image_mset_cong) auto
  moreover have "map (worker_task h) (queue s) = map (worker_task (ep_workers s)) (queue s)"
    using 1(9) ep_okD(7) [OF ok] by (intro map_cong) auto
  ultimately have "ep_view t = (ep_view s)\<lparr>submitted := submitted (ep_view s) @ [(f, d)], pending := insert_pending Fifo (f, d) (pending (ep_view s))\<rparr>"
    using queue_add [OF assms(1) [unfolded 1(1)] assms(2)] 1(10) by (simp add: ep_view_def h) (simp add: 1(6))
  then show ?thesis using pool_step.submit by metis
qed

lemma ep_view_awakened:
  assumes "awakened (ep_pcs s) (ep_pcs t)" "pool t = pool s" "ep_workers t = ep_workers s" "ep_submitted t = ep_submitted s"
    "ep_begun t = ep_begun s" "ep_finished t = ep_finished s" "ep_discarded t = ep_discarded s"
  shows "ep_view t = ep_view s"
proof -
  have "queue t = queue s" using assms(2,3) by (intro queue_cong) auto
  then show ?thesis using awakened_owns [OF assms(1)] assms(3-7) by (simp add: ep_view_def)
qed

lemma ep_destroy_view:
  assumes "ep_step Ep_destroy s = Ret t" "ep_inv s"
  shows "pool_step Fifo (ep_view s) (ep_view t)"
  using assms
proof (cases rule: destroy_cases)
  case (flag p)
  then have "ep_view t = ep_view s" by (simp add: ep_view_def queue_def)
  then show ?thesis by (simp add: pool_step.silent)
next
  case (wake p)
  then have "ep_view t = ep_view s" using awakened_broadcast(1) by (intro ep_view_awakened) simp_all
  then show ?thesis by (simp add: pool_step.silent)
next
  case (release p)
  then have "sum_list (map rpc_owns (ep_pcs s)) = {#}" by (intro sum_list_map_zero) auto
  then have "ep_view t = (ep_view s)\<lparr>pending := [], discarded := discarded (ep_view s) @ pending (ep_view s)\<rparr>"
    by (simp add: release(4) ep_view_def) (simp add: queue_def)
  then show ?thesis using pool_step.discard by metis
qed (simp_all add: ep_view_def queue_def pool_step.silent)

interpretation epv: pool_refinement ep_step ep_init ep_inv Fifo ep_view
proof (unfold_locales, goal_cases)
  case (1 s)
  then obtain rc n where "s = new_pool rc n" by (auto simp: ep_init_def poolInit_def split: if_splits)
  then show ?case by (auto simp: ep_view_def empty_view_def queue_def new_pool_def intro!: sum_list_map_zero)
next
  case (2 s l t)
  show ?case
  proof (cases l)
    case (Ep_routine w)
    with 2 routine_view show ?thesis by (auto split: if_splits)
  next
    case (Ep_returns w)
    with 2 process_returns_view show ?thesis by blast
  next
    case (Ep_spurious w)
    with 2 have "w < length (ep_pcs s)" "ep_pcs s ! w = R_wait" "t = ep_goto w R_woken s" by (auto split: if_splits)
    then have "ep_view t = ep_view s" using awakened_update by (intro ep_view_awakened) simp_all
    then show ?thesis by (simp add: pool_step.silent)
  next
    case (Ep_add mem f d)
    show ?thesis using ep_add_view [OF 2(2) [unfolded Ep_add] 2(1)] .
  next
    case (Ep_signal ch)
    with 2 have "cond_signal_ok R_wait ch (ep_pcs s)" "t = s\<lparr>ep_signals := ep_signals s - 1, ep_pcs := cond_signal R_woken ch (ep_pcs s)\<rparr>"
      by (auto simp: add_signal_def deref_pool_def split: if_splits option.splits)
    then have "ep_view t = ep_view s" using awakened_signal(1) by (intro ep_view_awakened) simp_all
    then show ?thesis by (simp add: pool_step.silent)
  next
    case Ep_destroy
    with 2 ep_destroy_view show ?thesis by blast
  qed
qed

section \<open>Progress\<close>

fun rpc_work :: "routine_pc \<Rightarrow> nat" where
  "rpc_work R_sleep = 1"
| "rpc_work R_lock = 2"
| "rpc_work R_woken = 2"
| "rpc_work (R_exec a) = 3"
| "rpc_work (R_got a) = 4"
| "rpc_work _ = 0"

text \<open>A waiting worker costs the way from the lock back to it, a signal may wake one more thread.\<close>

definition ep_work :: "('f, 'd) ep_sys \<Rightarrow> nat" where
  "ep_work s = 3 * length (queue s) + 3 * ep_signals s + sum_list (map rpc_work (ep_pcs s))"

fun ep_own :: "('f, 'd) ep_label \<Rightarrow> bool" where
  "ep_own (Ep_routine w) = True"
| "ep_own (Ep_returns w) = True"
| "ep_own (Ep_signal ch) = True"
| "ep_own _ = False"

lemma rpc_at_lock_work [simp]: "rpc_at_lock pc \<Longrightarrow> rpc_work pc = 2"
  by (auto simp: rpc_at_lock_def)

lemma ep_work_goto:
  assumes "w < length (ep_pcs s)" "rpc_work pc < rpc_work (ep_pcs s ! w)" "ep_pcs t = (ep_pcs s)[w := pc]"
    "queue t = queue s" "ep_signals t = ep_signals s"
  shows "ep_work t < ep_work s"
  using sum_list_update_less [where f = rpc_work, OF assms(1,2)] assms(3-5) by (simp add: ep_work_def)

lemma queue_goto [simp]: "pool s = Some p \<Longrightarrow> queue (set_pool (p\<lparr>queueLock := m\<rparr>) s) = queue s" "queue (ep_goto w pc s) = queue s"
  by (rule queue_cong; simp)+

lemma routine_work:
  assumes "threadRoutine w (ep_pcs s ! w) s = Ret t" "w < length (ep_pcs s)" "ep_inv s"
  shows "ep_work t < ep_work s"
  using assms
proof (cases rule: threadRoutine_cases)
  case (takes p a xs n)
  have "queue t = xs" using queue_taken [OF assms(3,2) takes(1-5)] takes(6) by simp
  then show ?thesis using sum_list_update_add [OF assms(2), of rpc_work "R_got a"] takes(1,4)
    by (simp add: ep_work_def) (simp add: takes(6) ep_taken_def)
next
  case (sleeps p)
  then show ?thesis using assms(2) by (intro ep_work_goto [of w s R_sleep]) simp_all
next
  case (exits p)
  then show ?thesis using assms(2) by (intro ep_work_goto [of w s R_exited]) simp_all
next
  case (waits p)
  then show ?thesis using assms(2) by (intro ep_work_goto [of w s R_wait]) simp_all
next
  case (runs p a)
  then show ?thesis using assms(2) by (intro ep_work_goto [of w s "R_exec a"]) simp_all
qed

lemma ep_returns_work:
  assumes "ep_step (Ep_returns w) s = Ret t" "ep_inv s"
  shows "ep_work t < ep_work s"
  using assms
proof (cases rule: process_returns_cases)
  case (1 p a)
  then show ?thesis using queue_returns [OF assms] by (intro ep_work_goto [of w s R_lock]) simp_all
qed

lemma signal_work:
  assumes "ep_step (Ep_signal ch) s = Ret t"
  shows "ep_work t < ep_work s"
proof -
  from assms have t: "cond_signal_ok R_wait ch (ep_pcs s)" "0 < ep_signals s"
    "t = s\<lparr>ep_signals := ep_signals s - 1, ep_pcs := cond_signal R_woken ch (ep_pcs s)\<rparr>"
    by (auto simp: add_signal_def deref_pool_def split: if_splits option.splits)
  have "sum_list (map rpc_work (cond_signal R_woken ch (ep_pcs s))) \<le> sum_list (map rpc_work (ep_pcs s)) + 2"
  proof (cases ch)
    case (Some w)
    with t(1) show ?thesis using sum_list_update_add [of w "ep_pcs s" rpc_work R_woken] by (simp add: cond_signal_ok_def cond_signal_def)
  qed (simp add: cond_signal_def)
  moreover have "queue t = queue s" unfolding t(3) by (rule queue_cong) simp_all
  ultimately show ?thesis using t(2) by (simp add: ep_work_def) (simp add: t(3))
qed

interpretation epd: draining_system ep_step ep_init ep_inv ep_own ep_work
proof (unfold_locales, goal_cases)
  case (1 s l t)
  show ?case
  proof (cases l)
    case (Ep_routine w)
    with 1 routine_work show ?thesis by (auto split: if_splits)
  next
    case (Ep_returns w)
    with 1 ep_returns_work show ?thesis by blast
  next
    case (Ep_signal ch)
    with 1 signal_work show ?thesis by blast
  qed (use 1(2) in simp_all)
qed

text \<open>Nothing waits, or some thread is neither gone nor missing: this is all that is needed.\<close>

definition ep_alive :: "('f, 'd) ep_sys \<Rightarrow> bool" where
  "ep_alive s \<longleftrightarrow> pool s \<noteq> None \<and> (queue s = [] \<or> (\<exists>pc\<in>set (ep_pcs s). pc \<noteq> R_exited \<and> pc \<noteq> R_absent))"

lemma ep_alive_goto:
  assumes "w < length (ep_pcs s)" "ep_pcs t = (ep_pcs s)[w := pc]" "pool t \<noteq> None" "queue t = [] \<or> pc \<noteq> R_exited \<and> pc \<noteq> R_absent"
  shows "ep_alive t"
  using assms set_update_memI unfolding ep_alive_def by metis

lemma ep_alive_step:
  assumes "ep_inv s" "ep_alive s" "ep_own l" "ep_step l s = Ret t"
  shows "ep_alive t"
proof (cases l)
  case (Ep_routine w)
  with assms(4) have w: "w < length (ep_pcs s)" "threadRoutine w (ep_pcs s ! w) s = Ret t" by (auto split: if_splits)
  from w(2,1) assms(1) show ?thesis
  proof (cases rule: threadRoutine_cases)
    case (takes p a xs n)
    then show ?thesis using w(1) by (intro ep_alive_goto [of w s t "R_got a"]) (simp_all add: ep_taken_def)
  next
    case (exits p)
    then show ?thesis using w(1) by (intro ep_alive_goto [of w s t R_exited]) simp_all
  next
    case (sleeps p)
    then show ?thesis using w(1) by (intro ep_alive_goto [of w s t R_sleep]) simp_all
  next
    case (waits p)
    then show ?thesis using w(1) by (intro ep_alive_goto [of w s t R_wait]) simp_all
  next
    case (runs p a)
    then show ?thesis using w(1) by (intro ep_alive_goto [of w s t "R_exec a"]) simp_all
  qed
next
  case (Ep_returns w)
  from assms(4) [unfolded Ep_returns] assms(1) show ?thesis
  proof (cases rule: process_returns_cases)
    case (1 p a)
    then show ?thesis by (intro ep_alive_goto [of w s t R_lock]) simp_all
  qed
next
  case (Ep_signal ch)
  with assms(4) have t: "cond_signal_ok R_wait ch (ep_pcs s)" "t = s\<lparr>ep_signals := ep_signals s - 1, ep_pcs := cond_signal R_woken ch (ep_pcs s)\<rparr>"
    by (auto simp: add_signal_def deref_pool_def split: if_splits option.splits)
  have "queue t = queue s" unfolding t(2) by (rule queue_cong) simp_all
  moreover have "\<exists>pc\<in>set (ep_pcs t). pc \<noteq> R_exited \<and> pc \<noteq> R_absent" if "\<exists>pc\<in>set (ep_pcs s). pc \<noteq> R_exited \<and> pc \<noteq> R_absent"
    using t(1) that ex_update [of "ep_pcs s" "\<lambda>pc. pc \<noteq> R_exited \<and> pc \<noteq> R_absent" _ R_woken]
    by (auto simp: t(2) cond_signal_ok_def cond_signal_def split: option.splits)
  ultimately show ?thesis using assms(2) unfolding ep_alive_def by (auto simp: t(2))
qed (use assms(3) in simp_all)

lemma ep_quiescent:
  assumes "ep_inv s" "ep_alive s" "quiescent ep_step ep_own s"
  shows "queue s = []" "sum_list (map rpc_owns (ep_pcs s)) = {#}"
proof -
  from assms(2) obtain p where p: "pool s = Some p" by (auto simp: ep_alive_def)
  note ok = ep_inv_pool [OF assms(1) p]
  have stuck: "\<not> (\<exists>t. ep_step l s = Ret t)" if "ep_own l" for l using assms(3) that by (auto simp: quiescent_def)
  have sig: "ep_signals s = 0"
  proof (rule ccontr)
    assume "ep_signals s \<noteq> 0"
    moreover obtain ch where "cond_signal_ok R_wait ch (ep_pcs s)" using cond_signal_ok_ex [of R_wait "ep_pcs s"] by blast
    ultimately have "\<exists>t. ep_step (Ep_signal ch) s = Ret t" using p by (simp add: add_signal_def deref_pool_def)
    then show False using stuck [of "Ep_signal ch"] by simp
  qed
  have idle: "pc \<in> {R_wait, R_exited, R_absent}" if pc: "pc \<in> set (ep_pcs s)" for pc
  proof -
    from pc obtain w where w: "w < length (ep_pcs s)" "ep_pcs s ! w = pc" by (auto simp: in_set_conv_nth)
    have own: "a \<in> dom (ep_workers s)" if "a \<in># rpc_owns pc" for a using owned_blocks_owned(1) [OF ep_okD(6) [OF ok] w(1)] that w(2) by simp
    have hold: "\<exists>t. ep_step (Ep_routine v) s = Ret t" if "v < length (ep_pcs s)" "rpc_holds (ep_pcs s ! v)" for v
      using that lock_ok_holder [OF ep_okD(1) [OF ok] that] p owned_blocks_owned(1) [OF ep_okD(6) [OF ok] that(1)]
      by (cases "ep_pcs s ! v") (auto simp: deref_pool_def)
    have "queueLock p = M_free"
      using ep_okD(1) [OF ok]
    proof (cases rule: lock_ok_cases)
      case (2 v)
      then show ?thesis using hold [of v] stuck [of "Ep_routine v"] by auto
    qed (use ep_okD(2) [OF ok] in auto)
    then have "\<exists>t. ep_step (Ep_routine w) s = Ret t" if "rpc_at_lock pc"
      using that w p routine_locked_eq [OF ok, of w] by (simp add: threadRoutine_lock deref_pool_def split: list.splits)
    moreover have "\<exists>t. ep_step (Ep_returns w) s = Ret t" if "pc = R_exec a" for a
      using that w own [of a] by (auto simp: process_returns_def)
    ultimately show ?thesis
      using stuck [of "Ep_routine w"] stuck [of "Ep_returns w"] hold [OF w(1)] w(2) by (cases pc) (auto simp: rpc_at_lock_def)
  qed
  then have "rpc_owns pc = {#}" "\<not> rpc_awake pc" if "pc \<in> set (ep_pcs s)" for pc using that by fastforce+
  then show "sum_list (map rpc_owns (ep_pcs s)) = {#}" by (intro sum_list_map_zero) auto
  have "R_wait \<in> set (ep_pcs s)" if "queue s \<noteq> []" using assms(2) that idle by (auto simp: ep_alive_def)
  then show "queue s = []" using ep_okD(9) [OF ok] sig \<open>\<And>pc. pc \<in> set (ep_pcs s) \<Longrightarrow> \<not> rpc_awake pc\<close> by (metis less_irrefl)
qed

section \<open>Safety\<close>










section \<open>A thread that sleeps through the broadcast\<close>

definition missed :: "nat \<Rightarrow> ('f, 'd) ep_sys \<Rightarrow> bool" where
  "missed w s \<longleftrightarrow> w < length (ep_pcs s) \<and> ep_pcs s ! w = R_wait \<and> ep_signals s = 0 \<and> (\<exists>i\<le>w. ep_destroy s = D_join i)"

fun ep_quiet :: "('f, 'd) ep_label \<Rightarrow> bool" where
  "ep_quiet (Ep_add mem f d) = False"
| "ep_quiet (Ep_spurious w) = False"
| "ep_quiet _ = True"

lemma missed_pool: "ep_inv s \<Longrightarrow> missed w s \<Longrightarrow> pool s \<noteq> None \<and> ep_destroy s \<noteq> D_idle"
  by (auto simp: missed_def ep_inv_def split: option.splits)

lemma missed_step:
  assumes "ep_inv s \<and> missed w s" "ep_quiet l" "ep_step l s = Ret t"
  shows "ep_inv t \<and> missed w t"
proof
  show "ep_inv t" using ep.inv_step assms by blast
  show "missed w t"
  proof (cases l)
    case (Ep_routine v)
    with assms(3) have v: "v < length (ep_pcs s)" "threadRoutine v (ep_pcs s ! v) s = Ret t" by (auto split: if_splits)
    from assms(1) v(2) have "v \<noteq> w" by (auto simp: missed_def)
    from v(2,1) conjunct1 [OF assms(1)] show ?thesis
      by (cases rule: threadRoutine_cases) (use assms(1) \<open>v \<noteq> w\<close> in \<open>simp_all add: missed_def ep_taken_def\<close>)
  next
    case (Ep_returns v)
    from assms(3) [unfolded Ep_returns] conjunct1 [OF assms(1)] show ?thesis
    proof (cases rule: process_returns_cases)
      case (1 p a)
      then have "v \<noteq> w" using assms(1) by (auto simp: missed_def)
      then show ?thesis using assms(1) by (simp add: missed_def 1(6))
    qed
  next
    case (Ep_signal ch)
    then show ?thesis using assms(1,3) by (simp add: missed_def add_signal_def)
  next
    case Ep_destroy
    from assms(3) [unfolded Ep_destroy] conjunct1 [OF assms(1)] show ?thesis
    proof (cases rule: destroy_cases)
      case (join p i)
      then have "i \<noteq> w" using assms(1) by (auto simp: missed_def)
      then show ?thesis using assms(1) join(2) by (auto simp: missed_def join(5))
    qed (use assms(1) in \<open>auto simp: missed_def\<close>)
  qed (use assms(2) in simp_all)
qed

section \<open>Properties\<close>

text \<open>
  C9. Progress of the pool: in a state in which some thread is neither gone nor was never started, before
  or during a shutdown, the threads and the pending signals take at most \<open>ep_work s\<close> steps whatever the
  schedule, some schedule brings them to rest, and at rest every worker that was added is completed. So
  no wake-up of \<open>poolAddWorker\<close> is lost although it signals after it has given the mutex back.
\<close>

theorem ep_completes:
  assumes "reachable ep_step ep_init s" "pool s \<noteq> None" "pc \<in> set (ep_pcs s)" "pc \<noteq> R_exited" "pc \<noteq> R_absent"
  shows "(\<exists>ks t. list_all ep_own ks \<and> run ep_step ks s = Ret t \<and> quiescent ep_step ep_own t) \<and>
    (\<forall>ks t. list_all ep_own ks \<longrightarrow> run ep_step ks s = Ret t \<longrightarrow> length ks \<le> ep_work s \<and>
       (quiescent ep_step ep_own t \<longrightarrow> ep_finished t = mset (ep_submitted t)))"
proof (intro conjI allI impI)
  have inv: "ep_inv s" using assms(1) by (rule ep.inv_reachable)
  have alive: "ep_alive s" using assms(2-5) by (auto simp: ep_alive_def)
  show "\<exists>ks t. list_all ep_own ks \<and> run ep_step ks s = Ret t \<and> quiescent ep_step ep_own t"
    using inv by (rule epd.drains)
  fix ks t
  assume own: "list_all ep_own ks" "run ep_step ks s = Ret t"
  show "length ks \<le> ep_work s" using epd.own_run_bounded [OF inv own] by linarith
  assume q: "quiescent ep_step ep_own t"
  have t: "ep_inv t \<and> ep_alive t"
    by (rule run_keeps [where P = "\<lambda>s. ep_inv s \<and> ep_alive s", OF own(2,1)]) (use inv alive ep.inv_step ep_alive_step in blast)+
  then have "queue t = []" "sum_list (map rpc_owns (ep_pcs t)) = {#}" using ep_quiescent q by blast+
  moreover have "ep_discarded t = []" using t by (auto simp: ep_inv_def ep_alive_def)
  moreover have "pool_promise Fifo (ep_view t)"
    using run_reachable [OF own(2) assms(1)] by (rule epv.reachable_promise)
  ultimately have "finished (ep_view t) = mset (submitted (ep_view t))"
    by (intro promise_all_finished) (simp_all add: ep_view_def)
  then show "ep_finished t = mset (ep_submitted t)" by (simp add: ep_view_def)
qed

text \<open>Two threads; three workers are added while both sleep or wake up.\<close>

definition ep_demo :: "(nat, nat) ep_sys" where
  "ep_demo = new_pool (\<lambda>_. 0) 2"

definition ep_demo_calls :: "(nat, nat) ep_label list" where
  "ep_demo_calls = [Ep_routine 0, Ep_routine 0, Ep_add (Some 10) 5 50, Ep_signal (Some 0), Ep_add (Some 11) 6 60,
     Ep_add (Some 12) 7 70, Ep_routine 0]"

definition ep_demo_loaded :: "(nat, nat) ep_sys" where
  "ep_demo_loaded = (case run ep_step ep_demo_calls ep_demo of Ret s \<Rightarrow> s)"

lemma ep_demo_init: "poolInit True True (\<lambda>_. 0) 2 = Ret ep_demo"
  by (simp add: poolInit_def ep_demo_def)

lemma ep_demo_reachable: "run ep_step ls ep_demo = Ret s \<Longrightarrow> reachable ep_step ep_init s"
  using run_reachable ep_demo_init reach_init ep_init_def by metis

lemmas ep_run_defs = ep_demo_def new_pool_def deref_pool_def set_pool_def ep_goto_def routine_locked_def poolAddWorker_def
  link_worker_def last_member.simps c_assert_def c_add_def c_sub_def c_int_def in_int_def INT_MIN_def INT_MAX_def add_signal_def
  cond_signal_ok_def cond_signal_def cond_broadcast_def upt_rec nth_Cons' free_queue.simps process_returns_def worker_task_def

lemma ep_demo_loaded_run:
  "run ep_step ep_demo_calls ep_demo = Ret ep_demo_loaded" "ep_submitted ep_demo_loaded = [(5, 50), (6, 60), (7, 70)]"
  "ep_begun ep_demo_loaded = [(5, 50)]" "ep_pcs ep_demo_loaded = [R_got 10, R_lock]" "pool ep_demo_loaded \<noteq> None"
  by (simp_all add: ep_demo_loaded_def ep_demo_calls_def ep_run_defs)

theorem ep_completes_witness:
  "\<exists>ks t. list_all ep_own ks \<and> run ep_step ks ep_demo_loaded = Ret t \<and> quiescent ep_step ep_own t \<and>
     ep_finished t = mset (ep_submitted t)"
  using ep_completes [OF ep_demo_reachable [OF ep_demo_loaded_run(1)] ep_demo_loaded_run(5), of R_lock] ep_demo_loaded_run(4)
  by fastforce

text \<open>
  C19. The pool implements the abstract queue of tasks: in every reachable state tasks are conserved, they
  are taken in the order they were added, and every step is a step of the abstract pool.
\<close>

theorem ep_promise:
  assumes "reachable ep_step ep_init s"
  shows "pool_promise Fifo (ep_view s) \<and> (\<forall>l t. ep_step l s = Ret t \<longrightarrow> pool_step Fifo (ep_view s) (ep_view t))"
  using epv.reachable_promise [OF assms] epv.view_step [OF ep.inv_reachable [OF assms]] by blast

theorem ep_promise_witness:
  "pool_promise Fifo (ep_view ep_demo_loaded) \<and> submitted (ep_view ep_demo_loaded) = [(5, 50), (6, 60), (7, 70)] \<and>
   begun (ep_view ep_demo_loaded) = [(5, 50)]"
  using ep_promise [OF ep_demo_reachable [OF ep_demo_loaded_run(1)]] by (simp add: ep_view_def ep_demo_loaded_run)

text \<open>
  C30. Lost wake-up of \<open>poolDestroy\<close>: there is an execution of a pool with \<open>THREAD_NUM\<close> threads after which
  \<open>poolDestroy\<close> has begun but never returns. A thread has found the queue empty and \<open>shutdown\<close> unset; the
  flag is set and the broadcast sent before the thread waits. From there on, unless a worker is added
  or the system wakes the thread without a reason, whatever the threads do the pool is never released.
\<close>

theorem ep_destroy_lost:
  "\<exists>(s0 :: ('f, 'd) ep_sys) ls s. poolInit True True (\<lambda>_. 0) THREAD_NUM = Ret s0 \<and> run ep_step ls s0 = Ret s \<and>
     (\<forall>ks t. list_all ep_quiet ks \<longrightarrow> run ep_step ks s = Ret t \<longrightarrow> pool t \<noteq> None \<and> ep_destroy t \<noteq> D_idle)"
proof -
  let ?start = "new_pool (\<lambda>_. 0) THREAD_NUM :: ('f, 'd) ep_sys"
  let ?ls = "[Ep_routine 0, Ep_destroy, Ep_destroy, Ep_routine 0] :: ('f, 'd) ep_label list"
  let ?s = "case run ep_step ?ls ?start of Ret s \<Rightarrow> s"
  have init: "poolInit True True (\<lambda>_. 0) THREAD_NUM = Ret ?start" by (simp add: poolInit_def)
  have run: "run ep_step ?ls ?start = Ret ?s" by (simp add: ep_run_defs THREAD_NUM_def)
  have "missed 0 ?s" by (simp add: missed_def ep_run_defs THREAD_NUM_def)
  moreover have "ep_init ?start" using init unfolding ep_init_def by blast
  then have "ep_inv ?s" by (rule ep.inv_run [OF ep.inv_init run])
  ultimately have s: "ep_inv ?s \<and> missed 0 ?s" by blast
  have "pool t \<noteq> None \<and> ep_destroy t \<noteq> D_idle" if "list_all ep_quiet ks" "run ep_step ks ?s = Ret t" for ks t
  proof -
    have "ep_inv t \<and> missed 0 t"
      by (rule run_keeps [where P = "\<lambda>s. ep_inv s \<and> missed 0 s", OF that(2,1) s]) (rule missed_step)
    then show ?thesis using missed_pool by blast
  qed
  with init run show ?thesis by blast
qed

theorem ep_destroy_lost_witness:
  "\<exists>(s0 :: (nat, nat) ep_sys) ls s. poolInit True True (\<lambda>_. 0) THREAD_NUM = Ret s0 \<and> run ep_step ls s0 = Ret s \<and>
     pool s \<noteq> None \<and> ep_destroy s \<noteq> D_idle"
proof -
  from ep_destroy_lost obtain s0 :: "(nat, nat) ep_sys" and ls s where
    l: "poolInit True True (\<lambda>_. 0) THREAD_NUM = Ret s0" "run ep_step ls s0 = Ret s"
      "\<forall>ks t. list_all ep_quiet ks \<longrightarrow> run ep_step ks s = Ret t \<longrightarrow> pool t \<noteq> None \<and> ep_destroy t \<noteq> D_idle" by blast
  from l(3) [rule_format, of "[]" s] have "pool s \<noteq> None \<and> ep_destroy s \<noteq> D_idle" by simp
  with l(1,2) show ?thesis by blast
qed



text \<open>
  When \<open>poolDestroy\<close> has returned, every thread has ended, every worker block is freed, and the tasks
  that were not completed are exactly those it found in the queue.
\<close>

theorem ep_destroyed:
  assumes "reachable ep_step ep_init s" "pool s = None"
  shows "ep_workers s = Map.empty \<and> (\<forall>pc\<in>set (ep_pcs s). pc = R_exited) \<and>
    mset (ep_submitted s) = ep_finished s + mset (ep_discarded s)"
proof -
  have inv: "ep_inv s" using assms(1) by (rule ep.inv_reachable)
  then have gone: "ep_workers s = Map.empty" "\<forall>pc\<in>set (ep_pcs s). pc = R_exited" using assms(2) by (auto simp: ep_inv_def)
  then have "sum_list (map rpc_owns (ep_pcs s)) = {#}" by (intro sum_list_map_zero) auto
  moreover have "queue s = []" using assms(2) by (simp add: queue_def)
  ultimately show ?thesis using gone epv.reachable_promise [OF assms(1)]
    by (simp add: pool_promise_def conserved_def ep_view_def)
qed

definition ep_demo_end :: "(nat, nat) ep_sys" where
  "ep_demo_end = (case run ep_step ([Ep_add (Some 10) 5 50, Ep_signal None] @ replicate 2 Ep_destroy @
     [Ep_routine 0, Ep_routine 0, Ep_returns 0, Ep_routine 0, Ep_routine 1] @ replicate 4 Ep_destroy) ep_demo of Ret s \<Rightarrow> s)"

theorem ep_destroyed_witness:
  "ep_workers ep_demo_end = Map.empty \<and> mset (ep_submitted ep_demo_end) = ep_finished ep_demo_end + mset (ep_discarded ep_demo_end) \<and>
   ep_finished ep_demo_end = {#(5, 50)#}"
proof -
  have run: "run ep_step ([Ep_add (Some 10) 5 50, Ep_signal None] @ replicate 2 Ep_destroy @
      [Ep_routine 0, Ep_routine 0, Ep_returns 0, Ep_routine 0, Ep_routine 1] @ replicate 4 Ep_destroy) ep_demo = Ret ep_demo_end"
    and e: "pool ep_demo_end = None" "ep_finished ep_demo_end = {#(5, 50)#}"
    by (simp_all add: ep_demo_end_def ep_run_defs queue_def pthread_mutex_destroy_def pthread_cond_destroy_def numeral_eq_Suc)
  from ep_destroyed [OF ep_demo_reachable [OF run] e(1)] e(2) show ?thesis by blast
qed

end
