(* ===== verification/Epoll_Kernel.thy ===== *)
theory Epoll_Kernel
  imports Sockets
begin

text \<open>
  What the epoll servers of the repository see of the kernel: the open descriptors of \<open>Sockets\<close>, the interest
  set of the one epoll instance, the connections that wait to be accepted, and for every connection the
  bytes received and not yet read and whether the peer has closed it.

  The choices of the kernel are arguments: which number a new descriptor gets, whether a call fails, how many
  of the available bytes one \<open>read\<close> returns. A loop that calls the kernel repeatedly takes the choices as a
  function of what is still left (connections waiting, bytes unread), which gives every call of the loop
  a choice of its own since something is used up in between.
\<close>

definition EAGAIN :: int where "EAGAIN = 11"
definition EBADF :: int where "EBADF = 9"

definition EPOLLIN :: "32 word" where "EPOLLIN = 1"
definition EPOLLOUT :: "32 word" where "EPOLLOUT = 4"
definition EPOLLERR :: "32 word" where "EPOLLERR = 8"
definition EPOLLHUP :: "32 word" where "EPOLLHUP = 16"

datatype peer = Live | Closed | Failed int

record conn =
  unread :: string
  peer :: peer

record kernel =
  k_os :: os
  interest :: "int set"
  backlog :: nat
  conns :: "int \<Rightarrow> conn"

definition k_close :: "int \<Rightarrow> kernel \<Rightarrow> kernel" where
  "k_close fd k = k\<lparr>k_os := sys_close fd (k_os k), interest := interest k - {fd}\<rparr>"

text \<open>Closing a descriptor also takes it out of the interest set.\<close>

definition epoll_ctl_add :: "int \<Rightarrow> int \<Rightarrow> kernel \<Rightarrow> int \<times> kernel" where
  "epoll_ctl_add rc fd k =
     (if rc < 0 \<or> fd \<notin> dom (fds (k_os k)) \<or> fd \<in> interest k then (- 1, k)
      else (0, k\<lparr>interest := insert fd (interest k)\<rparr>))"

definition epoll_ctl_del :: "int \<Rightarrow> kernel \<Rightarrow> int \<times> kernel" where
  "epoll_ctl_del fd k =
     (if fd \<notin> interest k then (- 1, k) else (0, k\<lparr>interest := interest k - {fd}\<rparr>))"

definition nonblocking :: "int \<Rightarrow> kernel \<Rightarrow> bool" where
  "nonblocking fd k \<longleftrightarrow> (case fds (k_os k) fd of None \<Rightarrow> False | Some fl \<Rightarrow> fl AND O_NONBLOCK = O_NONBLOCK)"

text \<open>
  \<open>accept\<close> on a listening descriptor: no connection waits (an error, or the call blocks), the kernel
  refuses (for lack of descriptors, say; \<open>r\<close> is negative), or a connection gets the unused number \<open>r\<close>. A
  number in use is never returned, hence \<open>Blocked\<close> for an \<open>r\<close> that is.
\<close>

definition k_accept :: "int \<Rightarrow> int \<Rightarrow> kernel \<Rightarrow> (int \<times> kernel) outcome" where
  "k_accept sfd r k =
     (if sfd \<notin> dom (fds (k_os k)) then Ret (- 1, k)
      else if backlog k = 0 then (if nonblocking sfd k then Ret (- 1, k) else Blocked)
      else if r < 0 then Ret (- 1, k)
      else if r \<in> dom (fds (k_os k)) then Blocked
      else Ret (r, k\<lparr>k_os := sys_open r (k_os k), backlog := backlog k - 1,
                   conns := (conns k)(r := \<lparr>unread = [], peer = Live\<rparr>)\<rparr>))"

datatype read_result = Data string | End_of_file | Read_error int

text \<open>\<open>read\<close> and \<open>recv\<close> into a buffer of \<open>cap\<close> bytes return at least one of the available bytes.\<close>

definition read_size :: "nat \<Rightarrow> nat \<Rightarrow> nat \<Rightarrow> nat" where
  "read_size cap sz n = max 1 (min sz (min cap n))"

definition k_read :: "nat \<Rightarrow> nat \<Rightarrow> int \<Rightarrow> kernel \<Rightarrow> (read_result \<times> kernel) outcome" where
  "k_read cap sz fd k =
     (let c = conns k fd in
      if fd \<notin> dom (fds (k_os k)) then Ret (Read_error EBADF, k)
      else if unread c \<noteq> [] then
        let n = read_size cap sz (length (unread c)) in
        Ret (Data (take n (unread c)), k\<lparr>conns := (conns k)(fd := c\<lparr>unread := drop n (unread c)\<rparr>)\<rparr>)
      else (case peer c of
              Closed \<Rightarrow> Ret (End_of_file, k)
            | Failed e \<Rightarrow> Ret (Read_error e, k)
            | Live \<Rightarrow> if nonblocking fd k then Ret (Read_error EAGAIN, k) else Blocked))"

section \<open>Lemmas\<close>

text \<open>
  \<open>monitored base k\<close>: besides the descriptors \<open>base\<close>, which are not monitored, exactly those in the interest
  set are open, and no close has hit a number that was not open.
\<close>

definition monitored :: "int set \<Rightarrow> kernel \<Rightarrow> bool" where
  "monitored base k \<longleftrightarrow> dom (fds (k_os k)) = base \<union> interest k \<and> base \<inter> interest k = {} \<and> stray_closes (k_os k) = 0"

lemma k_close_monitored: "monitored base k \<Longrightarrow> fd \<in> interest k \<Longrightarrow> monitored base (k_close fd k)"
  by (auto simp: monitored_def k_close_def sys_close_def)

lemma k_close_nonblocking: "nonblocking f (k_close fd k) \<longleftrightarrow> nonblocking f k \<and> (f \<noteq> fd \<or> fd \<notin> dom (fds (k_os k)))"
  by (auto simp: nonblocking_def k_close_def sys_close_def split: option.splits)

lemma k_close_simps [simp]: "conns (k_close fd k) = conns k" "backlog (k_close fd k) = backlog k" "interest (k_close fd k) = interest k - {fd}"
  by (simp_all add: k_close_def)

lemma read_size_bounds:
  assumes "0 < n"
  shows "0 < read_size cap sz n" "0 < cap \<Longrightarrow> read_size cap sz n \<le> cap" "read_size cap sz n \<le> n"
  using assms by (auto simp: read_size_def)

lemma k_read_Data:
  assumes "fd \<in> dom (fds (k_os k))" "unread (conns k fd) \<noteq> []"
  shows "k_read cap sz fd k =
    (let n = read_size cap sz (length (unread (conns k fd))) in
     Ret (Data (take n (unread (conns k fd))), k\<lparr>conns := (conns k)(fd := (conns k fd)\<lparr>unread := drop n (unread (conns k fd))\<rparr>)\<rparr>))"
  using assms by (simp add: k_read_def Let_def)

lemma k_read_less:
  assumes "k_read cap sz fd k = Ret (Data d, k')"
  shows "length (unread (conns k' fd)) < length (unread (conns k fd))"
  using assms read_size_bounds(1) [of "length (unread (conns k fd))" cap sz]
  by (auto simp: k_read_def Let_def split: if_splits peer.splits)

lemma k_read_same:
  assumes "k_read cap sz fd k = Ret (r, k')"
  shows "k_os k' = k_os k" "interest k' = interest k" "backlog k' = backlog k"
  using assms by (auto simp: k_read_def Let_def split: if_splits peer.splits)

lemma k_accept_less:
  assumes "k_accept sfd r k = Ret (fd, k')" "fd \<noteq> - 1"
  shows "backlog k' < backlog k" "0 \<le> fd" "fd \<notin> dom (fds (k_os k))"
    "k' = k\<lparr>k_os := sys_open fd (k_os k), backlog := backlog k - 1, conns := (conns k)(fd := \<lparr>unread = [], peer = Live\<rparr>)\<rparr>"
  using assms by (auto simp: k_accept_def split: if_splits)

lemma k_accept_fails: "k_accept sfd r k = Ret (- 1, k') \<Longrightarrow> k' = k"
  by (auto simp: k_accept_def split: if_splits)

end
