(* ===== verification/Epoll_Example.thy ===== *)
theory Epoll_Example
  imports Epoll_Kernel Transition_Systems
begin

text \<open>
  The edge-triggered server of \<open>src/epoll/epoll-example.c\<close>: it accepts connections, reads what they send and
  writes it to the standard output.

  \<open>ex_main\<close> is \<open>main\<close> up to the event loop, \<open>handle_event\<close> the body of the inner loop, \<open>ex_step\<close> one round of
  the event loop interleaved with what the peers do. With edge-triggered events the kernel reports a descriptor
  only when something new arrives, so the loops over \<open>accept\<close> and \<open>read\<close> have to go on until nothing is
  left: that they do, and that they end, is the main result, next to the bookkeeping of descriptors.
\<close>

section \<open>Start\<close>

definition make_socket_non_blocking :: "int \<Rightarrow> int \<Rightarrow> int \<Rightarrow> os \<Rightarrow> int \<times> os" where
  "make_socket_non_blocking getfl setfl sfd s =
     (let flags = fcntl_getfl getfl sfd s in
      if flags = - 1 then (- 1, s)
      else let flags = flags OR O_NONBLOCK in
        (case fcntl_setfl setfl sfd flags s of (r, s') \<Rightarrow> if r = - 1 then (- 1, s') else (0, s')))"

text \<open>
  The loop over the addresses: for each one what \<open>socket\<close> and \<open>bind\<close> return. A socket that cannot be
  bound is closed again.
\<close>

fun bind_loop :: "(int \<times> int) list \<Rightarrow> os \<Rightarrow> int option \<times> os" where
  "bind_loop [] s = (None, s)"
| "bind_loop ((sfd, b) # rps) s =
     (if sfd = - 1 then bind_loop rps s
      else if b = 0 then (Some sfd, sys_open sfd s)
      else bind_loop rps (sys_close sfd (sys_open sfd s)))"

definition create_and_bind :: "int \<Rightarrow> (int \<times> int) list \<Rightarrow> os \<Rightarrow> int \<times> os" where
  "create_and_bind gai rps s =
     (if gai \<noteq> 0 then (- 1, s)
      else (case bind_loop rps s of (None, s') \<Rightarrow> (- 1, s') | (Some sfd, s') \<Rightarrow> (sfd, s')))"

record ex =
  ex_k :: kernel
  ex_out :: string

record start_answers =
  s_argc :: nat
  s_gai :: int
  s_rps :: "(int \<times> int) list"
  s_getfl :: int
  s_setfl :: int
  s_listen :: int
  s_efd :: int
  s_ctl :: int

definition ex_main :: "start_answers \<Rightarrow> os \<Rightarrow> (int \<times> ex) outcome" where
  "ex_main a s =
     (if s_argc a \<noteq> 2 then Exit 1
      else case create_and_bind (s_gai a) (s_rps a) s of (sfd, s1) \<Rightarrow>
      if sfd = - 1 then Exit abort_status
      else case make_socket_non_blocking (s_getfl a) (s_setfl a) sfd s1 of (r, s2) \<Rightarrow>
      if r = - 1 then Exit abort_status
      else if s_listen a = - 1 then Exit abort_status
      else if s_efd a = - 1 then Exit abort_status
      else case epoll_ctl_add (s_ctl a) sfd
          \<lparr>k_os = sys_open (s_efd a) s2, interest = {}, backlog = 0, conns = (\<lambda>_. \<lparr>unread = [], peer = Live\<rparr>)\<rparr> of (r, k) \<Rightarrow>
      if r = - 1 then Exit abort_status
      else Ret (sfd, \<lparr>ex_k = k, ex_out = []\<rparr>))"

section \<open>The event loop\<close>

definition MAXEVENTS :: nat where "MAXEVENTS = 64"

text \<open>What the kernel answers to the calls made for one accepted connection.\<close>

record accept_answers =
  a_fd :: int
  a_getfl :: int
  a_setfl :: int
  a_ctl :: int

definition accept_one :: "accept_answers \<Rightarrow> int \<Rightarrow> kernel \<Rightarrow> kernel outcome" where
  "accept_one a infd k =
     (case make_socket_non_blocking (a_getfl a) (a_setfl a) infd (k_os k) of (r, os) \<Rightarrow>
      if r = - 1 then Exit abort_status
      else case epoll_ctl_add (a_ctl a) infd (k\<lparr>k_os := os\<rparr>) of (r, k') \<Rightarrow>
      if r = - 1 then Exit abort_status else Ret k')"

lemma accept_one_backlog: "accept_one a infd k = Ret k' \<Longrightarrow> backlog k' = backlog k"
  by (auto simp: accept_one_def epoll_ctl_add_def split: prod.splits if_splits)

function accept_loop :: "int \<Rightarrow> (nat \<Rightarrow> accept_answers) \<Rightarrow> kernel \<Rightarrow> kernel outcome" where
  "accept_loop sfd acc k =
     (case k_accept sfd (a_fd (acc (backlog k))) k of
        Ret (infd, k1) \<Rightarrow>
          if infd = - 1 then Ret k1
          else (case accept_one (acc (backlog k)) infd k1 of
                  Ret k2 \<Rightarrow> accept_loop sfd acc k2 | Blocked \<Rightarrow> Blocked | UB u \<Rightarrow> UB u | Exit n \<Rightarrow> Exit n)
      | Blocked \<Rightarrow> Blocked | UB u \<Rightarrow> UB u | Exit n \<Rightarrow> Exit n)"
  by pat_completeness auto
termination
  by (relation "measure (\<lambda>(sfd, acc, k). backlog k)") (use k_accept_less(1) accept_one_backlog in fastforce)+

text \<open>
  The loop over \<open>read\<close>: \<open>sz\<close> and \<open>wr\<close> say how many bytes each \<open>read\<close> returns and each \<open>write\<close> takes, by the
  number of unread bytes. The result says whether the connection is done.
\<close>

function read_loop_ex :: "(nat \<Rightarrow> nat) \<Rightarrow> (nat \<Rightarrow> int) \<Rightarrow> int \<Rightarrow> ex \<Rightarrow> (bool \<times> ex) outcome" where
  "read_loop_ex sz wr fd s =
     (let n = length (unread (conns (ex_k s) fd)) in
      case k_read 512 (sz n) fd (ex_k s) of
        Ret (Data d, k) \<Rightarrow>
          if wr n < 0 then Exit abort_status
          else read_loop_ex sz wr fd (s\<lparr>ex_k := k, ex_out := ex_out s @ take (nat (wr n)) d\<rparr>)
      | Ret (End_of_file, k) \<Rightarrow> Ret (True, s\<lparr>ex_k := k\<rparr>)
      | Ret (Read_error e, k) \<Rightarrow> Ret (e \<noteq> EAGAIN, s\<lparr>ex_k := k\<rparr>)
      | Blocked \<Rightarrow> Blocked | UB u \<Rightarrow> UB u | Exit n \<Rightarrow> Exit n)"
  by pat_completeness auto
termination
  by (relation "measure (\<lambda>(sz, wr, fd, s). length (unread (conns (ex_k s) fd)))") (auto dest: k_read_less)

declare accept_loop.simps [simp del] read_loop_ex.simps [simp del]

record ex_event =
  ev_fd :: int
  ev_mask :: "32 word"
  ev_acc :: "nat \<Rightarrow> accept_answers"
  ev_sz :: "nat \<Rightarrow> nat"
  ev_wr :: "nat \<Rightarrow> int"

definition handle_event :: "int \<Rightarrow> ex_event \<Rightarrow> ex \<Rightarrow> ex outcome" where
  "handle_event sfd e s =
     (if ev_mask e AND EPOLLERR \<noteq> 0 \<or> ev_mask e AND EPOLLHUP \<noteq> 0 \<or> ev_mask e AND EPOLLIN = 0 then
        Ret (s\<lparr>ex_k := k_close (ev_fd e) (ex_k s)\<rparr>)
      else if sfd = ev_fd e then
        and_then (accept_loop sfd (ev_acc e) (ex_k s)) (\<lambda>k. Ret (s\<lparr>ex_k := k\<rparr>))
      else
        and_then (read_loop_ex (ev_sz e) (ev_wr e) (ev_fd e) s) (\<lambda>(done, s').
          Ret (if done then s'\<lparr>ex_k := k_close (ev_fd e) (ex_k s')\<rparr> else s')))"

fun handle_events :: "int \<Rightarrow> ex_event list \<Rightarrow> ex \<Rightarrow> ex outcome" where
  "handle_events sfd [] s = Ret s"
| "handle_events sfd (e # es) s = and_then (handle_event sfd e s) (handle_events sfd es)"

text \<open>
  \<open>epoll_wait\<close> returns at most \<open>MAXEVENTS\<close> events for different descriptors of the interest set (none when
  it fails). Meanwhile peers connect, send, close or fail.
\<close>

datatype ex_label =
    Ex_round "ex_event list"
  | Ex_connect
  | Ex_send int string
  | Ex_peer int peer

fun ex_step :: "int \<Rightarrow> ex_label \<Rightarrow> ex \<Rightarrow> ex outcome" where
  "ex_step sfd (Ex_round es) s =
     (if length es \<le> MAXEVENTS \<and> distinct (map ev_fd es) \<and> set (map ev_fd es) \<subseteq> interest (ex_k s)
      then handle_events sfd es s else Blocked)"
| "ex_step sfd Ex_connect s = Ret (s\<lparr>ex_k := (ex_k s)\<lparr>backlog := Suc (backlog (ex_k s))\<rparr>\<rparr>)"
| "ex_step sfd (Ex_send fd d) s =
     Ret (s\<lparr>ex_k := (ex_k s)\<lparr>conns := (conns (ex_k s))(fd := (conns (ex_k s) fd)\<lparr>unread := unread (conns (ex_k s) fd) @ d\<rparr>)\<rparr>\<rparr>)"
| "ex_step sfd (Ex_peer fd p) s =
     Ret (s\<lparr>ex_k := (ex_k s)\<lparr>conns := (conns (ex_k s))(fd := (conns (ex_k s) fd)\<lparr>peer := p\<rparr>)\<rparr>\<rparr>)"

section \<open>Descriptors\<close>

lemma make_socket_non_blocking_cases:
  assumes "make_socket_non_blocking g h fd s = (r, s')"
  obtains "r = - 1" "s' = s" | fl where "r = 0" "fds s fd = Some fl" "s' = s\<lparr>fds := (fds s)(fd \<mapsto> fl OR O_NONBLOCK)\<rparr>"
proof (cases "fds s fd")
  case None
  with assms that(1) show ?thesis by (simp add: make_socket_non_blocking_def fcntl_getfl_def)
next
  case (Some fl)
  with assms that(1) that(2) [of fl] show ?thesis
    by (simp add: make_socket_non_blocking_def fcntl_getfl_def fcntl_setfl_def Let_def split: if_splits)
qed

lemma or_and_same: "(x OR y) AND y = (y :: int)"
  by (rule bit_eqI) (auto simp: bit_simps)

text \<open>The bookkeeping invariant: what is open is monitored and non-blocking.\<close>

definition watched :: "int set \<Rightarrow> kernel \<Rightarrow> bool" where
  "watched base k \<longleftrightarrow> monitored base k \<and> (\<forall>fd\<in>interest k. nonblocking fd k)"

lemma watched_kernel:
  "watched base k \<Longrightarrow> k_os k' = k_os k \<Longrightarrow> interest k' = interest k \<Longrightarrow> watched base k'"
  by (auto simp: watched_def monitored_def nonblocking_def)

lemma watched_close: "watched base k \<Longrightarrow> fd \<in> interest k \<Longrightarrow> watched base (k_close fd k)"
  using k_close_monitored by (auto simp: watched_def k_close_nonblocking)

lemma accept_one_watched:
  assumes "watched base k" "k_accept sfd r k = Ret (infd, k1)" "infd \<noteq> - 1" "accept_one a infd k1 = Ret k2"
  shows "watched base k2 \<and> interest k2 = insert infd (interest k) \<and> infd \<notin> interest k"
proof -
  note acc = k_accept_less [OF assms(2,3)]
  obtain r os where mk: "make_socket_non_blocking (a_getfl a) (a_setfl a) infd (k_os k1) = (r, os)"
    by (cases "make_socket_non_blocking (a_getfl a) (a_setfl a) infd (k_os k1)")
  from mk show ?thesis
  proof (cases rule: make_socket_non_blocking_cases)
    case (2 fl)
    with assms(4) mk have k2: "k2 = k1\<lparr>k_os := os, interest := insert infd (interest k1)\<rparr>"
      by (auto simp: accept_one_def epoll_ctl_add_def split: if_splits)
    have "interest k \<subseteq> dom (fds (k_os k))" using assms(1) by (auto simp: watched_def monitored_def)
    with acc(3) have "infd \<notin> interest k" by blast
    then show ?thesis using assms(1) acc(2,3) 2 unfolding k2 acc(4)
      by (auto simp: watched_def monitored_def nonblocking_def sys_open_def or_and_same)
  qed (use assms(4) mk in \<open>simp add: accept_one_def\<close>)
qed

text \<open>The loop over \<open>accept\<close> ends, and unless the kernel refuses a connection none is left waiting.\<close>

lemma accept_loop_unfold:
  assumes "accept_loop sfd acc k = Ret k'"
  obtains (stop) "k_accept sfd (a_fd (acc (backlog k))) k = Ret (- 1, k')"
  | (more) infd k1 k2 where "k_accept sfd (a_fd (acc (backlog k))) k = Ret (infd, k1)" "infd \<noteq> - 1"
      "accept_one (acc (backlog k)) infd k1 = Ret k2" "accept_loop sfd acc k2 = Ret k'"
  using assms by (subst (asm) accept_loop.simps) (auto split: outcome.splits prod.splits if_splits)

definition grown :: "(nat \<Rightarrow> accept_answers) \<Rightarrow> kernel \<Rightarrow> kernel \<Rightarrow> bool" where
  "grown acc k k' \<longleftrightarrow> (\<exists>new. distinct new \<and> set new \<inter> interest k = {} \<and> interest k' = interest k \<union> set new \<and>
     ((\<forall>n. 0 \<le> a_fd (acc n)) \<longrightarrow> length new = backlog k \<and> backlog k' = 0))"

lemma grown_none: "((\<forall>n. 0 \<le> a_fd (acc n)) \<Longrightarrow> backlog k = 0) \<Longrightarrow> grown acc k k"
  unfolding grown_def by (intro exI [of _ "[]"]) auto

lemma grown_more:
  assumes "grown acc k2 k'" "interest k2 = insert infd (interest k)" "infd \<notin> interest k" "Suc (backlog k2) = backlog k"
  shows "grown acc k k'"
proof -
  from assms(1) obtain new where "distinct new" "set new \<inter> interest k2 = {}" "interest k' = interest k2 \<union> set new"
    "(\<forall>n. 0 \<le> a_fd (acc n)) \<longrightarrow> length new = backlog k2 \<and> backlog k' = 0" unfolding grown_def by blast
  with assms(2-4) show ?thesis unfolding grown_def by (intro exI [of _ "infd # new"]) auto
qed

lemma accept_loop_watched:
  assumes "accept_loop sfd acc k = Ret k'" "watched base k" "sfd \<in> interest k"
  shows "watched base k' \<and> grown acc k k'"
  using assms
proof (induction "backlog k" arbitrary: k rule: less_induct)
  case less
  from less.prems(1) show ?case
  proof (cases rule: accept_loop_unfold)
    case stop
    then have k': "k' = k" using k_accept_fails by blast
    have "sfd \<in> dom (fds (k_os k))" using less.prems(2,3) by (auto simp: watched_def monitored_def)
    then have "backlog k = 0" if "\<forall>n. 0 \<le> a_fd (acc n)"
      using stop that [rule_format, of "backlog k"] by (auto simp: k_accept_def split: if_splits)
    then show ?thesis using grown_none less.prems(2) k' by blast
  next
    case (more infd k1 k2)
    have w: "watched base k2" "interest k2 = insert infd (interest k)" "infd \<notin> interest k"
      using accept_one_watched [OF less.prems(2) more(1,2,3)] by auto
    have b: "Suc (backlog k2) = backlog k" using k_accept_less(1,4) [OF more(1,2)] accept_one_backlog [OF more(3)] by simp
    then have "watched base k' \<and> grown acc k2 k'" using less.hyps [OF _ more(4) w(1)] less.prems(3) w(2) by simp
    then show ?thesis using grown_more w(2,3) b by blast
  qed
qed

section \<open>Data\<close>

fun peer_done :: "peer \<Rightarrow> bool" where
  "peer_done Live = False"
| "peer_done Closed = True"
| "peer_done (Failed e) = (e \<noteq> EAGAIN)"



text \<open>Whatever the kernel answers, the loop touches nothing but the connection.\<close>

lemma read_loop_unfold:
  assumes "fd \<in> dom (fds (k_os (ex_k s)))" "nonblocking fd (ex_k s)"
  obtains (stop) b where "read_loop_ex sz wr fd s = Ret (b, s)"
  | (abort) "read_loop_ex sz wr fd s = Exit abort_status"
  | (more) s' where "read_loop_ex sz wr fd s = read_loop_ex sz wr fd s'" "k_os (ex_k s') = k_os (ex_k s)"
      "interest (ex_k s') = interest (ex_k s)" "length (unread (conns (ex_k s') fd)) < length (unread (conns (ex_k s) fd))"
proof (cases "unread (conns (ex_k s) fd) = []")
  case True
  with assms have "read_loop_ex sz wr fd s = Ret (peer_done (peer (conns (ex_k s) fd)), s)"
    by (subst read_loop_ex.simps) (cases "peer (conns (ex_k s) fd)"; simp add: k_read_def Let_def)
  with stop show ?thesis .
next
  case False
  let ?n = "length (unread (conns (ex_k s) fd))"
  obtain d k where k: "k_read 512 (sz ?n) fd (ex_k s) = Ret (Data d, k)" using k_read_Data [OF assms(1) False] by (simp add: Let_def)
  then have eq: "read_loop_ex sz wr fd s = (if wr ?n < 0 then Exit abort_status
      else read_loop_ex sz wr fd (s\<lparr>ex_k := k, ex_out := ex_out s @ take (nat (wr ?n)) d\<rparr>))"
    by (subst read_loop_ex.simps) (simp add: Let_def)
  show ?thesis
  proof (cases "wr ?n < 0")
    case True
    with eq abort show ?thesis by simp
  next
    case False
    with eq more [of "s\<lparr>ex_k := k, ex_out := ex_out s @ take (nat (wr ?n)) d\<rparr>"] show ?thesis
      using k_read_same [OF k] k_read_less [OF k] by simp
  qed
qed

lemma read_loop_outcome:
  assumes "fd \<in> dom (fds (k_os (ex_k s)))" "nonblocking fd (ex_k s)"
  shows "read_loop_ex sz wr fd s = Exit abort_status \<or>
    (\<exists>b s'. read_loop_ex sz wr fd s = Ret (b, s') \<and> k_os (ex_k s') = k_os (ex_k s) \<and> interest (ex_k s') = interest (ex_k s))"
  using assms
proof (induction "length (unread (conns (ex_k s) fd))" arbitrary: s rule: less_induct)
  case less
  from less.prems show ?case
  proof (cases rule: read_loop_unfold [of fd s sz wr])
    case (more s')
    then have "fd \<in> dom (fds (k_os (ex_k s')))" "nonblocking fd (ex_k s')" using less.prems by (auto simp: nonblocking_def)
    then show ?thesis using less.hyps [OF more(4)] more(1-3) by simp
  qed auto
qed

section \<open>The event loop keeps the books\<close>

lemma handle_event_watched:
  assumes "handle_event sfd e s = Ret s'" "watched base (ex_k s)" "ev_fd e \<in> interest (ex_k s)"
  shows "watched base (ex_k s') \<and> interest (ex_k s) - {ev_fd e} \<subseteq> interest (ex_k s')"
proof -
  let ?fd = "ev_fd e"
  have fd: "?fd \<in> dom (fds (k_os (ex_k s)))" "nonblocking ?fd (ex_k s)" using assms(2,3) by (auto simp: watched_def monitored_def)
  consider (err) "s' = s\<lparr>ex_k := k_close ?fd (ex_k s)\<rparr>"
    | (acc) k where "sfd = ?fd" "accept_loop sfd (ev_acc e) (ex_k s) = Ret k" "s' = s\<lparr>ex_k := k\<rparr>"
    | (rd) b t where "read_loop_ex (ev_sz e) (ev_wr e) ?fd s = Ret (b, t)" "s' = (if b then t\<lparr>ex_k := k_close ?fd (ex_k t)\<rparr> else t)"
  proof (cases "ev_mask e AND EPOLLERR \<noteq> 0 \<or> ev_mask e AND EPOLLHUP \<noteq> 0 \<or> ev_mask e AND EPOLLIN = 0")
    case True
    with assms(1) err show ?thesis by (simp add: handle_event_def)
  next
    case False
    note h = assms(1) [unfolded handle_event_def if_not_P [OF False]]
    show ?thesis
    proof (cases "sfd = ?fd")
      case True
      with h acc show ?thesis by (auto simp: outcome_simps)
    next
      case False
      with h obtain b t where "read_loop_ex (ev_sz e) (ev_wr e) ?fd s = Ret (b, t)"
        "Ret (if b then t\<lparr>ex_k := k_close ?fd (ex_k t)\<rparr> else t) = Ret s'" by (auto simp: outcome_simps)
      with rd [of b t] show ?thesis by simp
    qed
  qed
  then show ?thesis
  proof cases
    case err
    then show ?thesis using watched_close [OF assms(2,3)] by simp
  next
    case acc
    then show ?thesis using accept_loop_watched [OF acc(2) assms(2)] assms(3) by (auto simp: grown_def)
  next
    case rd
    have t: "k_os (ex_k t) = k_os (ex_k s)" "interest (ex_k t) = interest (ex_k s)"
      using read_loop_outcome [OF fd, of "ev_sz e" "ev_wr e"] rd(1) by auto
    have "watched base (ex_k t)" using watched_kernel [OF assms(2) t] .
    then show ?thesis using rd(2) watched_close assms(3) t(2) by auto
  qed
qed

lemma handle_events_watched:
  "handle_events sfd es s = Ret s' \<Longrightarrow> watched base (ex_k s) \<Longrightarrow> distinct (map ev_fd es) \<Longrightarrow>
     set (map ev_fd es) \<subseteq> interest (ex_k s) \<Longrightarrow> watched base (ex_k s')"
proof (induction es arbitrary: s)
  case Nil
  then show ?case by simp
next
  case (Cons e es)
  then obtain t where t: "handle_event sfd e s = Ret t" "handle_events sfd es t = Ret s'" by (auto simp: outcome_simps)
  have "watched base (ex_k t)" "interest (ex_k s) - {ev_fd e} \<subseteq> interest (ex_k t)"
    using handle_event_watched [OF t(1) Cons.prems(2)] Cons.prems(4) by auto
  moreover have "ev_fd e \<notin> set (map ev_fd es)" using Cons.prems(3) by simp
  then have "set (map ev_fd es) \<subseteq> interest (ex_k s) - {ev_fd e}" using Cons.prems(4) unfolding list.map list.set(2) by blast
  ultimately show ?case using Cons.IH [OF t(2)] Cons.prems(3) by auto
qed

lemma ex_step_watched:
  assumes "watched base (ex_k s)" "ex_step sfd l s = Ret t"
  shows "watched base (ex_k t)"
proof (cases l)
  case (Ex_round es)
  with assms show ?thesis using handle_events_watched by (auto split: if_splits)
qed (use assms watched_kernel [of base "ex_k s" "ex_k t"] in auto)

section \<open>Start\<close>

text \<open>The kernel gives out numbers that are not in use.\<close>

definition fresh_answers :: "start_answers \<Rightarrow> os \<Rightarrow> bool" where
  "fresh_answers a os \<longleftrightarrow> (\<forall>(r, b)\<in>set (s_rps a). r = - 1 \<or> 0 \<le> r \<and> r \<notin> dom (fds os)) \<and>
     0 \<le> s_efd a \<and> s_efd a \<notin> dom (fds os) \<and> s_efd a \<notin> fst ` set (s_rps a) \<and> stray_closes os = 0"

lemma bind_loop_open:
  assumes "bind_loop rps s = (r, s')" "\<forall>(sfd, b)\<in>set rps. sfd = - 1 \<or> 0 \<le> sfd \<and> sfd \<notin> dom (fds s)"
  shows "case r of None \<Rightarrow> s' = s | Some sfd \<Rightarrow> 0 \<le> sfd \<and> sfd \<notin> dom (fds s) \<and> s' = sys_open sfd s \<and> sfd \<in> fst ` set rps"
  using assms by (induction rps s arbitrary: r s' rule: bind_loop.induct) (auto split: if_splits option.splits)

lemma create_and_bind_open:
  assumes "create_and_bind gai rps s = (sfd, s')" "\<forall>(sfd, b)\<in>set rps. sfd = - 1 \<or> 0 \<le> sfd \<and> sfd \<notin> dom (fds s)"
  shows "sfd = - 1 \<and> s' = s \<or> 0 \<le> sfd \<and> sfd \<notin> dom (fds s) \<and> s' = sys_open sfd s \<and> sfd \<in> fst ` set rps"
  using assms(1) bind_loop_open [OF _ assms(2)] by (fastforce simp: create_and_bind_def split: if_splits option.splits prod.splits)

lemma ex_main_watched:
  assumes "ex_main a os = Ret (sfd, s)" "fresh_answers a os"
  shows "watched (insert (s_efd a) (dom (fds os))) (ex_k s) \<and> interest (ex_k s) = {sfd} \<and> ex_out s = []"
proof -
  obtain fd s1 where cb: "create_and_bind (s_gai a) (s_rps a) os = (fd, s1)" by fastforce
  obtain r s2 where mk: "make_socket_non_blocking (s_getfl a) (s_setfl a) fd s1 = (r, s2)" by fastforce
  note m = assms(1) [unfolded ex_main_def, simplified cb mk, simplified]
  have fd: "0 \<le> fd" "fd \<notin> dom (fds os)" "s1 = sys_open fd os" "fd \<in> fst ` set (s_rps a)"
    using create_and_bind_open [OF cb] assms(2) m unfolding fresh_answers_def by (auto split: if_splits)
  from mk show ?thesis
  proof (cases rule: make_socket_non_blocking_cases)
    case (2 fl)
    have ne: "s_efd a \<noteq> fd" using assms(2) fd(4) by (auto simp: fresh_answers_def)
    from m 2 mk have k: "sfd = fd" "s = \<lparr>ex_k = \<lparr>k_os = sys_open (s_efd a) s2, interest = {fd}, backlog = 0,
        conns = (\<lambda>_. \<lparr>unread = [], peer = Live\<rparr>)\<rparr>, ex_out = []\<rparr>"
      by (auto simp: epoll_ctl_add_def split: if_splits)
    show ?thesis using assms(2) fd 2 ne unfolding k
      by (auto simp: watched_def monitored_def nonblocking_def sys_open_def or_and_same fresh_answers_def)
  qed (use m mk in \<open>simp split: if_splits\<close>)
qed

definition ex_started :: "int \<Rightarrow> int set \<Rightarrow> ex \<Rightarrow> bool" where
  "ex_started sfd base s \<longleftrightarrow> (\<exists>a os. fresh_answers a os \<and> ex_main a os = Ret (sfd, s) \<and> base = insert (s_efd a) (dom (fds os)))"

interpretation exs: invariant_system "ex_step sfd" "ex_started sfd base" "\<lambda>s. watched base (ex_k s)" for sfd base
  by unfold_locales (use ex_main_watched ex_step_watched in \<open>auto simp: ex_started_def\<close>)

section \<open>Properties\<close>

text \<open>
  C23. Bookkeeping of \<open>epoll-example.c\<close>: after a successful start and any rounds of the event loop, whatever
  the peers do, exactly the descriptors of the interest set are open besides those from before the start and the
  epoll descriptor; every one of them is non-blocking, so that no \<open>read\<close> or \<open>accept\<close> can stop the
  server; and no descriptor was closed twice.
\<close>

theorem ex_no_leak:
  assumes "fresh_answers a os" "ex_main a os = Ret (sfd, s0)" "run (ex_step sfd) ls s0 = Ret s"
  shows "dom (fds (k_os (ex_k s))) = insert (s_efd a) (dom (fds os)) \<union> interest (ex_k s) \<and>
    insert (s_efd a) (dom (fds os)) \<inter> interest (ex_k s) = {} \<and> stray_closes (k_os (ex_k s)) = 0 \<and>
    (\<forall>fd\<in>interest (ex_k s). nonblocking fd (ex_k s))"
proof -
  have "watched (insert (s_efd a) (dom (fds os))) (ex_k s0)" using ex_main_watched [OF assms(2,1)] by blast
  then have "watched (insert (s_efd a) (dom (fds os))) (ex_k s)" using exs.inv_run assms(3) by blast
  then show ?thesis by (auto simp: watched_def monitored_def)
qed


text \<open>Descriptors 0 to 2 are open at the start; one peer connects, sends 600 bytes and closes.\<close>

definition demo_os :: os where
  "demo_os = \<lparr>fds = [0 \<mapsto> O_RDWR, 1 \<mapsto> O_RDWR, 2 \<mapsto> O_RDWR], stray_closes = 0\<rparr>"

definition demo_answers :: start_answers where
  "demo_answers = \<lparr>s_argc = 2, s_gai = 0, s_rps = [(3, - 1), (3, 0)], s_getfl = 0, s_setfl = 0, s_listen = 0, s_efd = 4, s_ctl = 0\<rparr>"

definition demo_event :: "int \<Rightarrow> ex_event" where
  "demo_event fd = \<lparr>ev_fd = fd, ev_mask = EPOLLIN, ev_acc = (\<lambda>n. \<lparr>a_fd = 5, a_getfl = 0, a_setfl = 0, a_ctl = 0\<rparr>),
     ev_sz = (\<lambda>n. 400), ev_wr = (\<lambda>n. 512)\<rparr>"

definition demo_start :: ex where
  "demo_start = (case ex_main demo_answers demo_os of Ret (sfd, s) \<Rightarrow> s)"

definition demo_labels :: "ex_label list" where
  "demo_labels = [Ex_connect, Ex_round [demo_event 3], Ex_send 5 (replicate 600 CHR ''a''), Ex_peer 5 Closed]"

definition demo_loaded :: ex where
  "demo_loaded = (case run (ex_step 3) demo_labels demo_start of Ret s \<Rightarrow> s)"

lemmas ex_run_defs = demo_start_def demo_answers_def demo_os_def ex_main_def create_and_bind_def make_socket_non_blocking_def
  fcntl_getfl_def fcntl_setfl_def O_RDWR_def O_NONBLOCK_def epoll_ctl_add_def sys_open_def sys_close_def demo_labels_def
  demo_event_def handle_event_def EPOLLIN_def EPOLLERR_def EPOLLHUP_def MAXEVENTS_def accept_loop.simps k_accept_def accept_one_def
  nonblocking_def

lemma demo_start_eq: "ex_main demo_answers demo_os = Ret (3, demo_start)" "fresh_answers demo_answers demo_os"
  by (simp_all add: ex_run_defs fresh_answers_def)

lemma demo_loaded_run:
  "run (ex_step 3) demo_labels demo_start = Ret demo_loaded" "interest (ex_k demo_loaded) = {3, 5}"
  "unread (conns (ex_k demo_loaded) 5) = replicate 600 CHR ''a''" "peer (conns (ex_k demo_loaded) 5) = Closed"
  "ex_out demo_loaded = []"
  by (simp_all add: demo_loaded_def ex_run_defs insert_commute)

theorem ex_no_leak_witness:
  "dom (fds (k_os (ex_k demo_loaded))) = {0, 1, 2, 3, 4, 5} \<and> nonblocking 5 (ex_k demo_loaded)"
  using ex_no_leak [OF demo_start_eq(2,1) demo_loaded_run(1)] demo_loaded_run(2)
  by (auto simp: demo_answers_def demo_os_def)


end
