(* ===== verification/Epoll_Echo.thy ===== *)
theory Epoll_Echo
  imports Epoll_Kernel Transition_Systems
begin

text \<open>
  The echo server of \<open>src/epoll/server.c\<close>: one thread, edge-triggered, one \<open>accept\<close> or one \<open>read\<close> per event.

  \<open>srv_start\<close> is \<open>main\<close> up to the event loop, \<open>srv_event\<close> the body of the inner loop. The counter \<open>cur_fds\<close>
  bounds the number of events asked for, so it has to be the number of monitored descriptors and stay within
  the array of \<open>MAXEPOLL\<close> events: that is shown. What the code leaves undone, since it asks for edge-triggered events
  but does not read and accept until nothing is left, is stated as well.
\<close>

definition MAXEPOLL :: int where "MAXEPOLL = 10000"
definition MAXLINE :: nat where "MAXLINE = 1024"
definition EXIT_FAILURE :: int where "EXIT_FAILURE = 1"

record srv =
  srv_k :: kernel
  cur_fds :: int
  sent :: "int \<Rightarrow> string"

text \<open>The flags are computed from the descriptor flags (\<open>F_GETFD\<close>), not from the status flags, and replace them.\<close>

definition setnonblocking :: "int \<Rightarrow> int \<Rightarrow> int \<Rightarrow> os \<Rightarrow> int \<times> os" where
  "setnonblocking getfd setfl fd s =
     (case fcntl_setfl setfl fd (getfd OR O_NONBLOCK) s of (r, s') \<Rightarrow> if r = - 1 then (- 1, s') else (0, s'))"

record srv_answers =
  q_setrlimit :: int
  q_socket :: int
  q_getfd :: int
  q_setfl :: int
  q_bind :: int
  q_listen :: int
  q_epoll :: int
  q_ctl :: int

definition srv_start :: "srv_answers \<Rightarrow> os \<Rightarrow> (int \<times> srv) outcome" where
  "srv_start a s =
     (if q_setrlimit a = - 1 then Exit EXIT_FAILURE
      else if q_socket a = - 1 then Exit EXIT_FAILURE
      else case setnonblocking (q_getfd a) (q_setfl a) (q_socket a) (sys_open (q_socket a) s) of (r, s1) \<Rightarrow>
      if r = - 1 then Exit EXIT_FAILURE
      else if q_bind a = - 1 then Exit EXIT_FAILURE
      else if q_listen a = - 1 then Exit EXIT_FAILURE
      else case epoll_ctl_add (if q_epoll a < 0 then - 1 else q_ctl a) (q_socket a)
          \<lparr>k_os = sys_open (q_epoll a) s1, interest = {}, backlog = 0, conns = (\<lambda>_. \<lparr>unread = [], peer = Live\<rparr>)\<rparr> of (r, k) \<Rightarrow>
      if r < 0 then Exit EXIT_FAILURE
      else Ret (q_socket a, \<lparr>srv_k = k, cur_fds = 1, sent = (\<lambda>_. [])\<rparr>))"

text \<open>One event: the number \<open>accept\<close> would return, the answer to \<open>epoll_ctl\<close>, the bytes \<open>read\<close> returns and \<open>write\<close> takes.\<close>

record srv_ev =
  e_fd :: int
  e_acc :: int
  e_ctl :: int
  e_sz :: nat
  e_wr :: int

definition srv_accept :: "int \<Rightarrow> srv_ev \<Rightarrow> srv \<Rightarrow> srv outcome" where
  "srv_accept listen_fd e s =
     and_then (k_accept listen_fd (e_acc e) (srv_k s)) (\<lambda>(conn_fd, k).
       if conn_fd = - 1 then Exit EXIT_FAILURE
       else case epoll_ctl_add (e_ctl e) conn_fd k of (r, k') \<Rightarrow>
       if r < 0 then Exit EXIT_FAILURE
       else and_then (c_add (cur_fds s) 1) (\<lambda>n. Ret (s\<lparr>srv_k := k', cur_fds := n\<rparr>)))"

definition srv_drop :: "int \<Rightarrow> srv \<Rightarrow> srv outcome" where
  "srv_drop fd s =
     and_then (c_sub (cur_fds s) 1) (\<lambda>n.
       Ret (s\<lparr>srv_k := snd (epoll_ctl_del fd (k_close fd (srv_k s))), cur_fds := n\<rparr>))"

definition srv_event :: "int \<Rightarrow> srv_ev \<Rightarrow> srv \<Rightarrow> srv outcome" where
  "srv_event listen_fd e s =
     (if e_fd e = listen_fd \<and> cur_fds s < MAXEPOLL then srv_accept listen_fd e s
      else and_then (k_read MAXLINE (e_sz e) (e_fd e) (srv_k s)) (\<lambda>(r, k).
        case r of
          Data d \<Rightarrow> Ret (s\<lparr>srv_k := k, sent := (sent s)(e_fd e := sent s (e_fd e) @ take (nat (e_wr e)) d)\<rparr>)
        | _ \<Rightarrow> srv_drop (e_fd e) (s\<lparr>srv_k := k\<rparr>)))"

fun srv_events :: "int \<Rightarrow> srv_ev list \<Rightarrow> srv \<Rightarrow> srv outcome" where
  "srv_events listen_fd [] s = Ret s"
| "srv_events listen_fd (e # es) s = and_then (srv_event listen_fd e s) (srv_events listen_fd es)"

text \<open>
  A round: \<open>epoll_wait\<close> fails, or returns at most \<open>cur_fds\<close> events (the size it is given) for different
  descriptors of the interest set. Meanwhile peers connect, send, close or fail.
\<close>

datatype srv_label =
    Srv_fails
  | Srv_round "srv_ev list"
  | Srv_connect
  | Srv_send int string
  | Srv_peer int peer

fun srv_step :: "int \<Rightarrow> srv_label \<Rightarrow> srv \<Rightarrow> srv outcome" where
  "srv_step listen_fd Srv_fails s = Exit EXIT_FAILURE"
| "srv_step listen_fd (Srv_round es) s =
     (if int (length es) \<le> cur_fds s \<and> distinct (map e_fd es) \<and> set (map e_fd es) \<subseteq> interest (srv_k s)
      then srv_events listen_fd es s else Blocked)"
| "srv_step listen_fd Srv_connect s = Ret (s\<lparr>srv_k := (srv_k s)\<lparr>backlog := Suc (backlog (srv_k s))\<rparr>\<rparr>)"
| "srv_step listen_fd (Srv_send fd d) s =
     Ret (s\<lparr>srv_k := (srv_k s)\<lparr>conns := (conns (srv_k s))(fd := (conns (srv_k s) fd)\<lparr>unread := unread (conns (srv_k s) fd) @ d\<rparr>)\<rparr>\<rparr>)"
| "srv_step listen_fd (Srv_peer fd p) s =
     Ret (s\<lparr>srv_k := (srv_k s)\<lparr>conns := (conns (srv_k s))(fd := (conns (srv_k s) fd)\<lparr>peer := p\<rparr>)\<rparr>\<rparr>)"

section \<open>Invariant\<close>

definition counted :: "int set \<Rightarrow> srv \<Rightarrow> bool" where
  "counted base s \<longleftrightarrow> monitored base (srv_k s) \<and> finite (interest (srv_k s)) \<and>
     cur_fds s = int (card (interest (srv_k s))) \<and> cur_fds s \<le> MAXEPOLL"

lemma counted_kernel:
  assumes "counted base s" "k_os (srv_k t) = k_os (srv_k s)" "interest (srv_k t) = interest (srv_k s)" "cur_fds t = cur_fds s"
  shows "counted base t"
  using assms by (auto simp: counted_def monitored_def)

lemma epoll_ctl_del_closed: "snd (epoll_ctl_del fd (k_close fd k)) = k_close fd k"
  by (simp add: epoll_ctl_del_def)

lemma srv_drop_eq:
  assumes "counted base s" "fd \<in> interest (srv_k s)"
  shows "srv_drop fd s = Ret (s\<lparr>srv_k := k_close fd (srv_k s), cur_fds := cur_fds s - 1\<rparr>)"
proof -
  have "in_int (cur_fds s - 1)" using assms(1) by (simp add: counted_def in_int_def INT_MIN_def INT_MAX_def MAXEPOLL_def)
  then show ?thesis by (simp add: srv_drop_def c_sub_def epoll_ctl_del_closed)
qed

lemma counted_close:
  assumes "counted base s" "fd \<in> interest (srv_k s)"
  shows "counted base (s\<lparr>srv_k := k_close fd (srv_k s), cur_fds := cur_fds s - 1\<rparr>)"
proof -
  have "int (card (interest (srv_k s) - {fd})) = cur_fds s - 1"
    using assms card_Suc_Diff1 [of "interest (srv_k s)" fd] by (simp add: counted_def)
  then show ?thesis using assms k_close_monitored by (auto simp: counted_def)
qed

lemma srv_accept_cases:
  assumes "srv_accept lfd e s = Ret t" "counted base s"
  obtains fd where "fd \<notin> dom (fds (k_os (srv_k s)))" "0 \<le> fd" "0 < backlog (srv_k s)"
    "t = s\<lparr>srv_k := (srv_k s)\<lparr>k_os := sys_open fd (k_os (srv_k s)), backlog := backlog (srv_k s) - 1,
       conns := (conns (srv_k s))(fd := \<lparr>unread = [], peer = Live\<rparr>), interest := insert fd (interest (srv_k s))\<rparr>, cur_fds := cur_fds s + 1\<rparr>"
proof -
  from assms(1) obtain fd k where a: "k_accept lfd (e_acc e) (srv_k s) = Ret (fd, k)" "fd \<noteq> - 1"
    by (auto simp: srv_accept_def outcome_simps split: if_splits)
  note l = k_accept_less [OF a]
  with assms(1) a have "t = s\<lparr>srv_k := k\<lparr>interest := insert fd (interest k)\<rparr>, cur_fds := cur_fds s + 1\<rparr>"
    by (auto simp: srv_accept_def epoll_ctl_add_def c_add_def outcome_simps split: if_splits)
  with that [of fd] l show ?thesis by simp
qed

lemma srv_event_cases:
  assumes "srv_event lfd e s = Ret t" "counted base s" "e_fd e \<in> interest (srv_k s)"
  obtains (accepts) "e_fd e = lfd" "cur_fds s < MAXEPOLL" "srv_accept lfd e s = Ret t"
  | (echoes) d k where "k_read MAXLINE (e_sz e) (e_fd e) (srv_k s) = Ret (Data d, k)"
      "t = s\<lparr>srv_k := k, sent := (sent s)(e_fd e := sent s (e_fd e) @ take (nat (e_wr e)) d)\<rparr>"
  | (drops) k where "k_os k = k_os (srv_k s)" "interest k = interest (srv_k s)"
      "t = s\<lparr>srv_k := k_close (e_fd e) k, cur_fds := cur_fds s - 1\<rparr>"
proof (cases "e_fd e = lfd \<and> cur_fds s < MAXEPOLL")
  case True
  with assms(1) accepts show ?thesis by (simp add: srv_event_def)
next
  case False
  with assms(1) obtain r k where r: "k_read MAXLINE (e_sz e) (e_fd e) (srv_k s) = Ret (r, k)"
    and t: "(case r of Data d \<Rightarrow> Ret (s\<lparr>srv_k := k, sent := (sent s)(e_fd e := sent s (e_fd e) @ take (nat (e_wr e)) d)\<rparr>)
        | _ \<Rightarrow> srv_drop (e_fd e) (s\<lparr>srv_k := k\<rparr>)) = Ret t"
    by (auto simp: srv_event_def outcome_simps)
  note same = k_read_same(1,2) [OF r]
  have "counted base (s\<lparr>srv_k := k\<rparr>)" using counted_kernel [OF assms(2)] same by simp
  from srv_drop_eq [OF this, of "e_fd e"] same assms(3)
  have "srv_drop (e_fd e) (s\<lparr>srv_k := k\<rparr>) = Ret (s\<lparr>srv_k := k_close (e_fd e) k, cur_fds := cur_fds s - 1\<rparr>)" by simp
  with r t echoes drops same show ?thesis by (cases r) auto
qed

lemma srv_event_counted:
  assumes "srv_event lfd e s = Ret t" "counted base s" "e_fd e \<in> interest (srv_k s)"
  shows "counted base t \<and> interest (srv_k s) - {e_fd e} \<subseteq> interest (srv_k t)"
  using assms
proof (cases rule: srv_event_cases)
  case accepts
  from accepts(3) assms(2) show ?thesis
  proof (cases rule: srv_accept_cases)
    case (1 fd)
    have "fd \<notin> interest (srv_k s)" using assms(2) 1(1) by (auto simp: counted_def monitored_def)
    then show ?thesis using assms(2) 1(1,2) accepts(2) unfolding 1(4)
      by (auto simp: counted_def monitored_def sys_open_def)
  qed
next
  case (echoes d k)
  then show ?thesis using counted_kernel [OF assms(2), of t] k_read_same [OF echoes(1)] by simp
next
  case (drops k)
  have "counted base (s\<lparr>srv_k := k\<rparr>)" using counted_kernel [OF assms(2)] drops by simp
  from counted_close [OF this, of "e_fd e"] show ?thesis using drops assms(3) by simp
qed

lemma srv_events_counted:
  "srv_events lfd es s = Ret t \<Longrightarrow> counted base s \<Longrightarrow> distinct (map e_fd es) \<Longrightarrow> set (map e_fd es) \<subseteq> interest (srv_k s) \<Longrightarrow> counted base t"
proof (induction es arbitrary: s)
  case Nil
  then show ?case by simp
next
  case (Cons e es)
  then obtain u where u: "srv_event lfd e s = Ret u" "srv_events lfd es u = Ret t" by (auto simp: outcome_simps)
  have "counted base u" "interest (srv_k s) - {e_fd e} \<subseteq> interest (srv_k u)"
    using srv_event_counted [OF u(1) Cons.prems(2)] Cons.prems(4) by auto
  moreover have "e_fd e \<notin> set (map e_fd es)" using Cons.prems(3) by simp
  then have "set (map e_fd es) \<subseteq> interest (srv_k s) - {e_fd e}" using Cons.prems(4) unfolding list.map list.set(2) by blast
  ultimately show ?case using Cons.IH [OF u(2)] Cons.prems(3) by auto
qed

lemma srv_step_counted:
  assumes "counted base s" "srv_step lfd l s = Ret t"
  shows "counted base t"
proof (cases l)
  case (Srv_round es)
  with assms show ?thesis using srv_events_counted by (auto split: if_splits)
qed (use assms counted_kernel [OF assms(1), of t] in auto)

definition fresh_start :: "srv_answers \<Rightarrow> os \<Rightarrow> bool" where
  "fresh_start a s \<longleftrightarrow> (q_socket a = - 1 \<or> 0 \<le> q_socket a \<and> q_socket a \<notin> dom (fds s)) \<and>
     (q_epoll a = - 1 \<or> 0 \<le> q_epoll a \<and> q_epoll a \<notin> dom (fds s) \<and> q_epoll a \<noteq> q_socket a) \<and> stray_closes s = 0"

lemma srv_start_counted:
  assumes "srv_start a os = Ret (lfd, s)" "fresh_start a os"
  shows "counted (insert (q_epoll a) (dom (fds os))) s \<and> interest (srv_k s) = {lfd}"
  using assms unfolding counted_def monitored_def
  by (auto simp: srv_start_def setnonblocking_def fcntl_setfl_def epoll_ctl_add_def sys_open_def fresh_start_def MAXEPOLL_def
      split: if_splits option.splits)

definition srv_started :: "int \<Rightarrow> int set \<Rightarrow> srv \<Rightarrow> bool" where
  "srv_started lfd base s \<longleftrightarrow> (\<exists>a os. fresh_start a os \<and> srv_start a os = Ret (lfd, s) \<and> base = insert (q_epoll a) (dom (fds os)))"

interpretation srvi: invariant_system "srv_step lfd" "srv_started lfd base" "counted base" for lfd base
  by unfold_locales (use srv_start_counted srv_step_counted in \<open>auto simp: srv_started_def\<close>)

text \<open>Nothing in a round is undefined; in particular the counter does not overflow.\<close>

lemma k_calls_defined: "k_accept lfd r k \<noteq> UB u" "k_read cap sz fd k \<noteq> UB u"
  by (auto simp: k_accept_def k_read_def Let_def split: peer.splits)

lemma srv_event_defined:
  assumes "counted base s" "e_fd e \<in> interest (srv_k s)"
  shows "srv_event lfd e s \<noteq> UB u"
proof (cases "e_fd e = lfd \<and> cur_fds s < MAXEPOLL")
  case True
  then have "in_int (cur_fds s + 1)" using assms(1) by (simp add: counted_def in_int_def INT_MIN_def INT_MAX_def MAXEPOLL_def)
  then show ?thesis using True k_calls_defined(1)
    by (auto simp: srv_event_def srv_accept_def c_add_def outcome_simps split: if_splits prod.splits)
next
  case False
  show ?thesis
  proof
    assume ub: "srv_event lfd e s = UB u"
    with False k_calls_defined(2) obtain r k where r: "k_read MAXLINE (e_sz e) (e_fd e) (srv_k s) = Ret (r, k)"
      by (auto simp: srv_event_def outcome_simps)
    with ub False have d: "srv_drop (e_fd e) (s\<lparr>srv_k := k\<rparr>) = UB u" by (cases r) (auto simp: srv_event_def)
    note same = k_read_same(1,2) [OF r]
    have "counted base (s\<lparr>srv_k := k\<rparr>)" using counted_kernel [OF assms(1)] same by simp
    from srv_drop_eq [OF this, of "e_fd e"] same assms(2) d show False by simp
  qed
qed

lemma srv_events_defined:
  "counted base s \<Longrightarrow> distinct (map e_fd es) \<Longrightarrow> set (map e_fd es) \<subseteq> interest (srv_k s) \<Longrightarrow> srv_events lfd es s \<noteq> UB u"
proof (induction es arbitrary: s)
  case Nil
  then show ?case by simp
next
  case (Cons e es)
  have e: "e_fd e \<in> interest (srv_k s)" using Cons.prems(3) by simp
  have "srv_events lfd es t \<noteq> UB u" if t: "srv_event lfd e s = Ret t" for t
  proof -
    have "e_fd e \<notin> set (map e_fd es)" using Cons.prems(2) by simp
    then have "set (map e_fd es) \<subseteq> interest (srv_k s) - {e_fd e}" using Cons.prems(3) unfolding list.map list.set(2) by blast
    then show ?thesis using srv_event_counted [OF t Cons.prems(1) e] Cons.prems(2) by (intro Cons.IH) auto
  qed
  then show ?case using srv_event_defined [OF Cons.prems(1) e] by (auto simp: outcome_simps)
qed

interpretation srvs: safe_system "srv_step lfd" "srv_started lfd base" "counted base" "\<lambda>_. True" for lfd base
proof (unfold_locales, goal_cases)
  case (1 s l u)
  then show ?case using srv_events_defined [OF 1(1)] by (cases l) auto
qed

section \<open>Properties\<close>

text \<open>
  C35. Bounds of the echo server: after a successful start and any rounds, \<open>cur_fds\<close> is the number of
  monitored descriptors and at most \<open>MAXEPOLL\<close>, so the events asked for fit into the array; besides the descriptors
  from before the start and the epoll descriptor exactly the monitored ones are open, none was closed
  twice, and no further round has undefined behaviour.
\<close>

theorem srv_counter:
  assumes "fresh_start a os" "srv_start a os = Ret (lfd, s0)" "run (srv_step lfd) ls s0 = Ret s"
  shows "cur_fds s = int (card (interest (srv_k s))) \<and> cur_fds s \<le> MAXEPOLL \<and>
    dom (fds (k_os (srv_k s))) = insert (q_epoll a) (dom (fds os)) \<union> interest (srv_k s) \<and>
    stray_closes (k_os (srv_k s)) = 0 \<and> srv_step lfd l s \<noteq> UB u"
proof -
  have "counted (insert (q_epoll a) (dom (fds os))) s0" using srv_start_counted [OF assms(2,1)] by blast
  then have c: "counted (insert (q_epoll a) (dom (fds os))) s" using srvi.inv_run assms(3) by blast
  then have "srv_step lfd l s \<noteq> UB u" using srvs.own_safe by blast
  with c show ?thesis by (auto simp: counted_def monitored_def)
qed

text \<open>
  What an event leaves behind: the server takes one connection per event of the listening socket and
  at most \<open>MAXLINE\<close> bytes per event of a connection, and closes the listening socket when \<open>MAXEPOLL\<close> descriptors are
  monitored. When two connections wait, or more than \<open>MAXLINE\<close> bytes have arrived, something is left
  for which an edge-triggered descriptor reports no further event.
\<close>

theorem srv_edge_lost:
  assumes "counted base s" "srv_event lfd e s = Ret t" "e_fd e \<in> interest (srv_k s)"
  shows "(e_fd e = lfd \<and> cur_fds s < MAXEPOLL \<longrightarrow> Suc (backlog (srv_k t)) = backlog (srv_k s)) \<and>
    (e_fd e \<noteq> lfd \<and> unread (conns (srv_k s) (e_fd e)) \<noteq> [] \<longrightarrow>
       length (unread (conns (srv_k s) (e_fd e))) \<le> length (unread (conns (srv_k t) (e_fd e))) + MAXLINE) \<and>
    (e_fd e = lfd \<and> cur_fds s = MAXEPOLL \<and> unread (conns (srv_k s) lfd) = [] \<longrightarrow> lfd \<notin> dom (fds (k_os (srv_k t))))"
proof (intro conjI impI)
  assume h: "e_fd e = lfd \<and> cur_fds s < MAXEPOLL"
  then have "srv_accept lfd e s = Ret t" using assms(2) by (simp add: srv_event_def)
  then show "Suc (backlog (srv_k t)) = backlog (srv_k s)"
    using assms(1) by (cases rule: srv_accept_cases) simp
next
  let ?c = "conns (srv_k s) (e_fd e)"
  assume h: "e_fd e \<noteq> lfd \<and> unread ?c \<noteq> []"
  have fd: "e_fd e \<in> dom (fds (k_os (srv_k s)))" using assms(1,3) by (auto simp: counted_def monitored_def)
  let ?n = "read_size MAXLINE (e_sz e) (length (unread ?c))"
  have "conns (srv_k t) (e_fd e) = ?c\<lparr>unread := drop ?n (unread ?c)\<rparr>"
    using assms(2) h k_read_Data [OF fd, of MAXLINE "e_sz e"] by (auto simp: srv_event_def Let_def)
  moreover have "?n \<le> MAXLINE" using h read_size_bounds(2) [of "length (unread ?c)" MAXLINE "e_sz e"] by (simp add: MAXLINE_def)
  ultimately show "length (unread ?c) \<le> length (unread (conns (srv_k t) (e_fd e))) + MAXLINE" by simp
next
  assume h: "e_fd e = lfd \<and> cur_fds s = MAXEPOLL \<and> unread (conns (srv_k s) lfd) = []"
  have fd: "lfd \<in> dom (fds (k_os (srv_k s)))" using assms(1,3) h by (auto simp: counted_def monitored_def)
  from assms(2,1,3) show "lfd \<notin> dom (fds (k_os (srv_k t)))"
  proof (cases rule: srv_event_cases)
    case (echoes d k)
    then show ?thesis using h fd by (auto simp: k_read_def Let_def split: peer.splits if_splits)
  next
    case (drops k)
    then show ?thesis using h fd by (simp add: k_close_def sys_close_def dom_def)
  qed (use h in simp)
qed

text \<open>Two peers connect at once; one event accepts one of them.\<close>

definition srv_demo_os :: os where
  "srv_demo_os = \<lparr>fds = [0 \<mapsto> O_RDWR, 1 \<mapsto> O_RDWR, 2 \<mapsto> O_RDWR], stray_closes = 0\<rparr>"

definition srv_demo_answers :: srv_answers where
  "srv_demo_answers = \<lparr>q_setrlimit = 0, q_socket = 3, q_getfd = 0, q_setfl = 0, q_bind = 0, q_listen = 0, q_epoll = 4, q_ctl = 0\<rparr>"

definition srv_demo_start :: srv where
  "srv_demo_start = (case srv_start srv_demo_answers srv_demo_os of Ret (lfd, s) \<Rightarrow> s)"

definition srv_demo_event :: srv_ev where
  "srv_demo_event = \<lparr>e_fd = 3, e_acc = 5, e_ctl = 0, e_sz = 0, e_wr = 0\<rparr>"

definition srv_demo_waiting :: srv where
  "srv_demo_waiting = srv_demo_start\<lparr>srv_k := (srv_k srv_demo_start)\<lparr>backlog := 2\<rparr>\<rparr>"

definition srv_demo_served :: srv where
  "srv_demo_served = (case srv_event 3 srv_demo_event srv_demo_waiting of Ret s \<Rightarrow> s)"

lemmas srv_run_defs = srv_demo_start_def srv_demo_answers_def srv_demo_os_def srv_demo_event_def srv_demo_waiting_def srv_demo_served_def
  srv_start_def setnonblocking_def fcntl_setfl_def O_RDWR_def O_NONBLOCK_def epoll_ctl_add_def sys_open_def srv_event_def srv_accept_def
  MAXEPOLL_def k_accept_def c_add_def c_int_def in_int_def INT_MIN_def INT_MAX_def

lemma srv_demo_runs:
  "srv_start srv_demo_answers srv_demo_os = Ret (3, srv_demo_start)" "fresh_start srv_demo_answers srv_demo_os"
  "run (srv_step 3) [Srv_connect, Srv_connect] srv_demo_start = Ret srv_demo_waiting"
  "srv_event 3 srv_demo_event srv_demo_waiting = Ret srv_demo_served"
  "interest (srv_k srv_demo_waiting) = {3}" "cur_fds srv_demo_waiting = 1" "backlog (srv_k srv_demo_waiting) = 2"
  by (simp_all add: srv_run_defs fresh_start_def)

theorem srv_counter_witness:
  "cur_fds srv_demo_waiting = int (card (interest (srv_k srv_demo_waiting))) \<and>
   dom (fds (k_os (srv_k srv_demo_waiting))) = {0, 1, 2, 3, 4}"
  using srv_counter [OF srv_demo_runs(2,1,3)] srv_demo_runs(5) by (auto simp: srv_demo_answers_def srv_demo_os_def)

theorem srv_edge_lost_witness: "backlog (srv_k srv_demo_served) = 1"
proof -
  have "counted (insert (q_epoll srv_demo_answers) (dom (fds srv_demo_os))) srv_demo_waiting"
    using srvi.inv_run srv_demo_runs(3) srv_start_counted [OF srv_demo_runs(1,2)] by blast
  from srv_edge_lost [OF this srv_demo_runs(4)] show ?thesis
    using srv_demo_runs(5-7) by (simp add: srv_demo_event_def MAXEPOLL_def)
qed

end
