(* ===== verification/Worker_Rounds.thy ===== *)
theory Worker_Rounds
  imports Transition_Systems Pthread "HOL-Library.Word"
begin

text \<open>
  The batch program of \<open>src/WorkerThreads.c\<close>: in every round the main thread starts all workers with a
  broadcast and then receives one completion from each of them.

  Two mutexes and two condition variables are used without a predicate loop around the waits. The program
  counters name the points where another thread can interfere; a worker that finds the main thread not
  waiting tries again, which is the label \<open>Wt_spin\<close>. \<open>wt_received\<close> logs the batches the main thread has read.
\<close>

section \<open>Data\<close>

definition NUMBER_OF_WORKER_THREADS :: nat where "NUMBER_OF_WORKER_THREADS = 30"
definition NUMBER_OF_WORKING_ROUNDS :: nat where "NUMBER_OF_WORKING_ROUNDS = 4"
definition BOGUS :: "32 word" where "BOGUS = 99"

datatype worker_pc =
    V_start
  | V_wait
  | V_woken
  | V_work
  | V_try
  | V_have
  | V_set
  | V_both
  | V_gowait
  | V_exited

text \<open>The numbers are the rounds finished and the completions received in the current one.\<close>

datatype main_pc =
    G_round nat
  | G_lockC nat
  | G_loop nat nat
  | G_wait nat nat
  | G_woken nat nat
  | G_join nat
  | G_done

record wt =
  StartWorkMutex :: mutex
  CompleteMutex :: mutex
  WorkOn :: bool
  Round :: "32 word"
  MainThreadWaiting :: bool
  TheCompletedBatch :: "32 word"
  wt_pcs :: "worker_pc list"
  wt_main :: main_pc
  wt_received :: "32 word list"

definition wt_goto :: "nat \<Rightarrow> worker_pc \<Rightarrow> wt \<Rightarrow> wt" where
  "wt_goto w pc s = s\<lparr>wt_pcs := (wt_pcs s)[w := pc]\<rparr>"

section \<open>A worker\<close>

text \<open>A signal on \<open>CompleteCondition\<close> wakes the main thread if it waits and is lost otherwise.\<close>

fun signal_main :: "main_pc \<Rightarrow> main_pc" where
  "signal_main (G_wait x y) = G_woken x y"
| "signal_main g = g"

fun WorkerThread :: "nat \<Rightarrow> worker_pc \<Rightarrow> wt \<Rightarrow> wt outcome" where
  "WorkerThread w V_start s =
     and_then (pthread_mutex_lock (Worker w) 0 (StartWorkMutex s)) (\<lambda>(_, m).
     and_then (pthread_mutex_unlock (Worker w) 0 m) (\<lambda>(_, m').
     Ret (wt_goto w V_wait (s\<lparr>StartWorkMutex := m'\<rparr>))))"
| "WorkerThread w V_woken s =
     and_then (pthread_mutex_lock (Worker w) 0 (StartWorkMutex s)) (\<lambda>(_, m).
     if WorkOn s then
       and_then (pthread_mutex_unlock (Worker w) 0 m) (\<lambda>(_, m'). Ret (wt_goto w V_work (s\<lparr>StartWorkMutex := m'\<rparr>)))
     else
       and_then (pthread_mutex_unlock (Worker w) 0 m) (\<lambda>(_, m'). Ret (wt_goto w V_exited (s\<lparr>StartWorkMutex := m'\<rparr>))))"
| "WorkerThread w V_work s = Ret (wt_goto w V_try s)"
| "WorkerThread w V_try s =
     and_then (pthread_mutex_lock (Worker w) 0 (CompleteMutex s)) (\<lambda>(_, m).
     if MainThreadWaiting s then Ret (wt_goto w V_have (s\<lparr>CompleteMutex := m, MainThreadWaiting := False\<rparr>))
     else Blocked)"
| "WorkerThread w V_have s = Ret (wt_goto w V_set (s\<lparr>TheCompletedBatch := word_of_nat w\<rparr>))"
| "WorkerThread w V_set s =
     and_then (pthread_mutex_lock (Worker w) 0 (StartWorkMutex s)) (\<lambda>(_, m).
     Ret (wt_goto w V_both (s\<lparr>StartWorkMutex := m\<rparr>)))"
| "WorkerThread w V_both s =
     and_then (pthread_mutex_unlock (Worker w) 0 (CompleteMutex s)) (\<lambda>(_, m).
     Ret (wt_goto w V_gowait (s\<lparr>CompleteMutex := m, wt_main := signal_main (wt_main s)\<rparr>)))"
| "WorkerThread w V_gowait s =
     and_then (pthread_mutex_unlock (Worker w) 0 (StartWorkMutex s)) (\<lambda>(_, m).
     Ret (wt_goto w V_wait (s\<lparr>StartWorkMutex := m\<rparr>)))"
| "WorkerThread w V_wait s = Blocked"
| "WorkerThread w V_exited s = Blocked"

text \<open>The other branch of the inner loop: the main thread does not wait, the mutex is given back.\<close>

definition worker_spin :: "nat \<Rightarrow> wt \<Rightarrow> wt outcome" where
  "worker_spin w s =
     (if w < length (wt_pcs s) \<and> wt_pcs s ! w = V_try \<and> \<not> MainThreadWaiting s then
        and_then (pthread_mutex_lock (Worker w) 0 (CompleteMutex s)) (\<lambda>(_, m).
        and_then (pthread_mutex_unlock (Worker w) 0 m) (\<lambda>(_, m'). Ret (s\<lparr>CompleteMutex := m'\<rparr>)))
      else Blocked)"

section \<open>The main thread\<close>

text \<open>\<open>rounds\<close> is \<open>NUMBER_OF_WORKING_ROUNDS\<close> in the program.\<close>

fun wt_main_step :: "nat \<Rightarrow> main_pc \<Rightarrow> wt \<Rightarrow> wt outcome" where
  "wt_main_step rounds (G_round x) s =
     and_then (pthread_mutex_lock (Client 0) 0 (StartWorkMutex s)) (\<lambda>(_, m).
     if x < rounds then Ret (s\<lparr>StartWorkMutex := m, WorkOn := True, Round := Round s + 1, wt_main := G_lockC x\<rparr>)
     else and_then (pthread_mutex_unlock (Client 0) 0 m) (\<lambda>(_, m').
       Ret (s\<lparr>StartWorkMutex := m', WorkOn := False, wt_pcs := cond_broadcast V_wait V_woken (wt_pcs s), wt_main := G_join 0\<rparr>)))"
| "wt_main_step rounds (G_lockC x) s =
     and_then (pthread_mutex_lock (Client 0) 0 (CompleteMutex s)) (\<lambda>(_, c).
     and_then (pthread_mutex_unlock (Client 0) 0 (StartWorkMutex s)) (\<lambda>(_, m).
     Ret (s\<lparr>CompleteMutex := c, StartWorkMutex := m, wt_pcs := cond_broadcast V_wait V_woken (wt_pcs s), wt_main := G_loop x 0\<rparr>)))"
| "wt_main_step rounds (G_loop x y) s =
     and_then (pthread_mutex_unlock (Client 0) 0 (CompleteMutex s)) (\<lambda>(_, c).
     if y < length (wt_pcs s) then Ret (s\<lparr>CompleteMutex := c, MainThreadWaiting := True, wt_main := G_wait x y\<rparr>)
     else Ret (s\<lparr>CompleteMutex := c, wt_main := G_round (Suc x)\<rparr>))"
| "wt_main_step rounds (G_wait x y) s = Blocked"
| "wt_main_step rounds (G_woken x y) s =
     and_then (pthread_mutex_lock (Client 0) 0 (CompleteMutex s)) (\<lambda>(_, c).
     Ret (s\<lparr>CompleteMutex := c, wt_received := wt_received s @ [TheCompletedBatch s], wt_main := G_loop x (Suc y)\<rparr>))"
| "wt_main_step rounds (G_join i) s =
     (if i < length (wt_pcs s) then
        (if wt_pcs s ! i = V_exited then Ret (s\<lparr>wt_main := G_join (Suc i)\<rparr>) else Blocked)
      else
        and_then (pthread_mutex_destroy (CompleteMutex s)) (\<lambda>(_, c).
        and_then (pthread_cond_destroy True) (\<lambda>_.
        and_then (pthread_mutex_destroy (StartWorkMutex s)) (\<lambda>(_, m).
        and_then (pthread_cond_destroy True) (\<lambda>_.
        Ret (s\<lparr>CompleteMutex := c, StartWorkMutex := m, wt_main := G_done\<rparr>))))))"
| "wt_main_step rounds G_done s = Blocked"

section \<open>The whole program\<close>

datatype wt_label = Wt_worker nat | Wt_spin nat | Wt_main | Wt_spurious nat | Wt_spurious_main

fun wt_step :: "nat \<Rightarrow> wt_label \<Rightarrow> wt \<Rightarrow> wt outcome" where
  "wt_step rounds (Wt_worker w) s = (if w < length (wt_pcs s) then WorkerThread w (wt_pcs s ! w) s else Blocked)"
| "wt_step rounds (Wt_spin w) s = worker_spin w s"
| "wt_step rounds Wt_main s = wt_main_step rounds (wt_main s) s"
| "wt_step rounds (Wt_spurious w) s =
     (if w < length (wt_pcs s) \<and> wt_pcs s ! w = V_wait then Ret (wt_goto w V_woken s) else Blocked)"
| "wt_step rounds Wt_spurious_main s =
     (case wt_main s of G_wait x y \<Rightarrow> Ret (s\<lparr>wt_main := G_woken x y\<rparr>) | _ \<Rightarrow> Blocked)"

text \<open>
  The state when \<open>main\<close> has created \<open>n\<close> workers and sleeps for a second, and the state it hopes for after
  that second: all workers wait for the first broadcast.
\<close>

definition wt_start :: "nat \<Rightarrow> wt" where
  "wt_start n = \<lparr>StartWorkMutex = M_free, CompleteMutex = M_free, WorkOn = False, Round = 0, MainThreadWaiting = False,
     TheCompletedBatch = BOGUS, wt_pcs = replicate n V_start, wt_main = G_round 0, wt_received = []\<rparr>"

definition wt_ready :: "nat \<Rightarrow> wt" where
  "wt_ready n = (wt_start n)\<lparr>wt_pcs := replicate n V_wait\<rparr>"

text \<open>The labels of executions without spurious wake-ups, and those that make progress.\<close>

fun wt_regular :: "wt_label \<Rightarrow> bool" where
  "wt_regular (Wt_spurious w) = False"
| "wt_regular Wt_spurious_main = False"
| "wt_regular _ = True"

fun wt_own :: "wt_label \<Rightarrow> bool" where
  "wt_own (Wt_worker w) = True"
| "wt_own Wt_main = True"
| "wt_own _ = False"

definition wt_regular_step :: "nat \<Rightarrow> wt_label \<Rightarrow> wt \<Rightarrow> wt outcome" where
  "wt_regular_step rounds l s = (if wt_regular l then wt_step rounds l s else Blocked)"

end
