(* ===== verification/Worker_Rounds_Theorems.thy ===== *)
theory Worker_Rounds_Theorems
  imports Worker_Rounds
begin

text \<open>
  What the protocol of \<open>src/WorkerThreads.c\<close> guarantees. From the state in which all workers wait, and
  without spurious wake-ups, every round collects one completion of each worker and the program ends. The
  proof is an invariant that says, for each program counter of the main thread, where the workers are, and
  a measure that every step except the spinning of a worker decreases.
\<close>

section \<open>The invariant\<close>

fun holds_start :: "worker_pc \<Rightarrow> bool" where
  "holds_start V_both = True"
| "holds_start V_gowait = True"
| "holds_start _ = False"

text \<open>The workers that have claimed the main thread and not yet signalled it.\<close>

fun completing :: "worker_pc \<Rightarrow> bool" where
  "completing V_have = True"
| "completing V_set = True"
| "completing V_both = True"
| "completing _ = False"

text \<open>The workers that have signalled their completion and wait for the next round.\<close>

fun finished_pc :: "worker_pc \<Rightarrow> bool" where
  "finished_pc V_wait = True"
| "finished_pc V_gowait = True"
| "finished_pc _ = False"

fun running_pc :: "worker_pc \<Rightarrow> bool" where
  "running_pc V_start = False"
| "running_pc V_exited = False"
| "running_pc _ = True"

definition wt_finished :: "worker_pc list \<Rightarrow> nat set" where
  "wt_finished pcs = {w. w < length pcs \<and> finished_pc (pcs ! w)}"

definition batches :: "nat set \<Rightarrow> 32 word multiset" where
  "batches ws = image_mset word_of_nat (mset_set ws)"

text \<open>The completions received in round \<open>k\<close>, and that the first \<open>x\<close> rounds are complete.\<close>

definition round_log :: "nat \<Rightarrow> nat \<Rightarrow> 32 word list \<Rightarrow> 32 word list" where
  "round_log n k rs = take n (drop (k * n) rs)"

definition rounds_ok :: "nat \<Rightarrow> nat \<Rightarrow> 32 word list \<Rightarrow> bool" where
  "rounds_ok n x rs \<longleftrightarrow> x * n \<le> length rs \<and> (\<forall>k<x. mset (round_log n k rs) = batches {..<n})"

definition log_ok :: "nat \<Rightarrow> nat \<Rightarrow> worker_pc list \<Rightarrow> 32 word list \<Rightarrow> bool" where
  "log_ok x y pcs rs \<longleftrightarrow> rounds_ok (length pcs) x rs \<and> length rs = x * length pcs + y \<and>
     mset (drop (x * length pcs) rs) = batches (wt_finished pcs)"

definition workers_all :: "(worker_pc \<Rightarrow> bool) \<Rightarrow> worker_pc list \<Rightarrow> bool" where
  "workers_all P pcs \<longleftrightarrow> (\<forall>w<length pcs. P (pcs ! w))"

fun main_start :: "main_pc \<Rightarrow> bool" where
  "main_start (G_lockC x) = True"
| "main_start _ = False"

fun main_complete :: "main_pc \<Rightarrow> bool" where
  "main_complete (G_loop x y) = True"
| "main_complete _ = False"

definition wt_locks :: "wt \<Rightarrow> bool" where
  "wt_locks s \<longleftrightarrow>
     lock_ok holds_start (wt_pcs s) (StartWorkMutex s) \<and> lock_ok completing (wt_pcs s) (CompleteMutex s) \<and>
     (\<forall>c. StartWorkMutex s = M_held (Client c) \<longleftrightarrow> c = 0 \<and> main_start (wt_main s)) \<and>
     (\<forall>c. CompleteMutex s = M_held (Client c) \<longleftrightarrow> c = 0 \<and> main_complete (wt_main s))"

fun wt_phase :: "nat \<Rightarrow> main_pc \<Rightarrow> wt \<Rightarrow> bool" where
  "wt_phase rounds (G_round x) s =
     (x \<le> rounds \<and> \<not> MainThreadWaiting s \<and> workers_all finished_pc (wt_pcs s) \<and>
      rounds_ok (length (wt_pcs s)) x (wt_received s) \<and> length (wt_received s) = x * length (wt_pcs s) \<and> wt_locks s)"
| "wt_phase rounds (G_lockC x) s =
     (x < rounds \<and> \<not> MainThreadWaiting s \<and> WorkOn s \<and> workers_all (\<lambda>pc. pc = V_wait) (wt_pcs s) \<and>
      rounds_ok (length (wt_pcs s)) x (wt_received s) \<and> length (wt_received s) = x * length (wt_pcs s) \<and> wt_locks s)"
| "wt_phase rounds (G_loop x y) s =
     (x < rounds \<and> \<not> MainThreadWaiting s \<and> WorkOn s \<and>
      workers_all (\<lambda>pc. running_pc pc \<and> \<not> completing pc) (wt_pcs s) \<and> log_ok x y (wt_pcs s) (wt_received s) \<and> wt_locks s)"
| "wt_phase rounds (G_wait x y) s =
     (x < rounds \<and> y < length (wt_pcs s) \<and> WorkOn s \<and> workers_all running_pc (wt_pcs s) \<and>
      (MainThreadWaiting s \<longleftrightarrow> workers_all (\<lambda>pc. \<not> completing pc) (wt_pcs s)) \<and>
      (\<forall>w<length (wt_pcs s). wt_pcs s ! w = V_set \<or> wt_pcs s ! w = V_both \<longrightarrow> TheCompletedBatch s = word_of_nat w) \<and>
      log_ok x y (wt_pcs s) (wt_received s) \<and> wt_locks s)"
| "wt_phase rounds (G_woken x y) s =
     (x < rounds \<and> y < length (wt_pcs s) \<and> \<not> MainThreadWaiting s \<and> WorkOn s \<and>
      workers_all (\<lambda>pc. running_pc pc \<and> \<not> completing pc) (wt_pcs s) \<and>
      log_ok x (Suc y) (wt_pcs s) (wt_received s @ [TheCompletedBatch s]) \<and> wt_locks s)"
| "wt_phase rounds (G_join i) s =
     (i \<le> length (wt_pcs s) \<and> \<not> WorkOn s \<and> workers_all (\<lambda>pc. pc = V_woken \<or> pc = V_exited) (wt_pcs s) \<and>
      (\<forall>w<i. wt_pcs s ! w = V_exited) \<and>
      rounds_ok (length (wt_pcs s)) rounds (wt_received s) \<and> length (wt_received s) = rounds * length (wt_pcs s) \<and> wt_locks s)"
| "wt_phase rounds G_done s =
     (workers_all (\<lambda>pc. pc = V_exited) (wt_pcs s) \<and>
      rounds_ok (length (wt_pcs s)) rounds (wt_received s) \<and> length (wt_received s) = rounds * length (wt_pcs s) \<and>
      StartWorkMutex s = M_destroyed \<and> CompleteMutex s = M_destroyed)"

definition wt_inv :: "nat \<Rightarrow> nat \<Rightarrow> wt \<Rightarrow> bool" where
  "wt_inv rounds n s \<longleftrightarrow> length (wt_pcs s) = n \<and> wt_phase rounds (wt_main s) s"

section \<open>Lemmas on the log and the workers\<close>

lemma finite_finished [simp]: "finite (wt_finished pcs)"
  by (simp add: wt_finished_def)

lemma workers_all_update: "workers_all P pcs \<Longrightarrow> P pc \<Longrightarrow> workers_all P (pcs[w := pc])"
  unfolding workers_all_def by (metis length_list_update nth_list_update_eq nth_list_update_neq)

lemma workers_allD: "workers_all P pcs \<Longrightarrow> w < length pcs \<Longrightarrow> P (pcs ! w)"
  by (simp add: workers_all_def)

lemma workers_all_broadcast:
  "workers_all P pcs \<Longrightarrow> (\<And>pc. P pc \<Longrightarrow> Q (if pc = z then r else pc)) \<Longrightarrow> workers_all Q (cond_broadcast z r pcs)"
  by (simp add: workers_all_def nth_cond_broadcast)

lemma finished_update:
  "w < length pcs \<Longrightarrow> wt_finished (pcs[w := pc]) = (if finished_pc pc then insert w (wt_finished pcs) else wt_finished pcs - {w})"
  by (auto simp: wt_finished_def nth_list_update)

lemma finished_same: "w < length pcs \<Longrightarrow> finished_pc pc = finished_pc (pcs ! w) \<Longrightarrow> wt_finished (pcs[w := pc]) = wt_finished pcs"
  by (auto simp: wt_finished_def nth_list_update)

lemma size_batches [simp]: "finite ws \<Longrightarrow> size (batches ws) = card ws"
  by (simp add: batches_def)

lemma rounds_ok_append: "rounds_ok n x rs \<Longrightarrow> rounds_ok n x (rs @ [b])"
proof -
  have "round_log n k (rs @ [b]) = round_log n k rs" if "k < x" "x * n \<le> length rs" for k
  proof -
    have "Suc k * n \<le> length rs" using that by (meson Suc_leI le_trans mult_le_mono1)
    then show ?thesis by (simp add: round_log_def)
  qed
  then show "rounds_ok n x rs \<Longrightarrow> rounds_ok n x (rs @ [b])" by (simp add: rounds_ok_def)
qed

lemma log_ok_card: "log_ok x y pcs rs \<Longrightarrow> card (wt_finished pcs) = y"
  unfolding log_ok_def by (metis add_diff_cancel_left' finite_finished length_drop size_batches size_mset)

lemma log_ok_finished:
  assumes "log_ok x y pcs rs" "length pcs \<le> y"
  shows "workers_all finished_pc pcs" "y = length pcs" "rounds_ok (length pcs) (Suc x) rs"
proof -
  have sub: "wt_finished pcs \<subseteq> {..<length pcs}" by (auto simp: wt_finished_def)
  have "card (wt_finished pcs) = y" using assms(1) by (rule log_ok_card)
  with assms(2) sub have all: "wt_finished pcs = {..<length pcs}"
    by (metis card_lessThan card_subset_eq card_mono finite_lessThan le_antisym)
  then show "workers_all finished_pc pcs" by (auto simp: workers_all_def wt_finished_def)
  show "y = length pcs" using all \<open>card (wt_finished pcs) = y\<close> by simp
  then have "round_log (length pcs) x rs = drop (x * length pcs) rs" "Suc x * length pcs \<le> length rs"
    using assms(1) by (simp_all add: log_ok_def round_log_def)
  moreover have "rounds_ok (length pcs) x rs" "mset (drop (x * length pcs) rs) = batches {..<length pcs}"
    using assms(1) all by (simp_all add: log_ok_def)
  ultimately show "rounds_ok (length pcs) (Suc x) rs" by (simp add: rounds_ok_def less_Suc_eq all_conj_distrib)
qed

lemma log_ok_unfinished:
  assumes "log_ok x y pcs rs" "y < length pcs"
  obtains w where "w < length pcs" "\<not> finished_pc (pcs ! w)"
proof -
  have "card (wt_finished pcs) < length pcs" using log_ok_card [OF assms(1)] assms(2) by simp
  then have "wt_finished pcs \<noteq> {..<length pcs}" by (metis card_lessThan less_irrefl)
  then obtain w where "w < length pcs" "w \<notin> wt_finished pcs" by (auto simp: wt_finished_def)
  with that [of w] show ?thesis by (simp add: wt_finished_def)
qed

lemma log_ok_same:
  "log_ok x y pcs rs \<Longrightarrow> w < length pcs \<Longrightarrow> finished_pc pc = finished_pc (pcs ! w) \<Longrightarrow> log_ok x y (pcs[w := pc]) rs"
  by (simp add: log_ok_def finished_same)

text \<open>A signal of worker \<open>w\<close>: the batch in flight completes the log.\<close>

lemma log_ok_signal:
  assumes "log_ok x y pcs rs" "w < length pcs" "\<not> finished_pc (pcs ! w)" "finished_pc pc"
  shows "log_ok x (Suc y) (pcs[w := pc]) (rs @ [word_of_nat w])"
proof -
  have "w \<notin> wt_finished pcs" using assms(3) by (simp add: wt_finished_def)
  then have "batches (wt_finished (pcs[w := pc])) = add_mset (word_of_nat w) (batches (wt_finished pcs))"
    using assms by (simp add: finished_update batches_def)
  with assms(1) show ?thesis by (auto simp: log_ok_def rounds_ok_append)
qed

text \<open>A broadcast starts an empty round.\<close>

lemma log_ok_start:
  assumes "rounds_ok (length pcs) x rs" "length rs = x * length pcs" "workers_all (\<lambda>pc. pc = V_wait) pcs"
  shows "log_ok x 0 (cond_broadcast V_wait V_woken pcs) rs"
proof -
  have "wt_finished (cond_broadcast V_wait V_woken pcs) = {}"
    using assms(3) by (auto simp: wt_finished_def workers_all_def nth_cond_broadcast)
  with assms show ?thesis by (simp add: log_ok_def batches_def)
qed

lemma finished_released:
  assumes "workers_all finished_pc pcs" "lock_ok holds_start pcs M_free"
  shows "workers_all (\<lambda>pc. pc = V_wait) pcs"
  unfolding workers_all_def
proof (intro allI impI)
  fix w assume "w < length pcs"
  with assms have "finished_pc (pcs ! w)" "\<not> holds_start (pcs ! w)" by (auto simp: workers_all_def lock_ok_def)
  then show "pcs ! w = V_wait" by (cases "pcs ! w") auto
qed

section \<open>The steps of a worker keep the invariant\<close>

lemmas wt_mutex = pthread_mutex_lock_Ret0 pthread_mutex_unlock_Ret0 wt_goto_def

lemma main_signal [simp]:
  "main_start (signal_main g) = main_start g" "main_complete (signal_main g) = main_complete g"
  by (cases g; simp)+

lemma wt_locks_worker:
  assumes "wt_locks s" "w < length (wt_pcs s)" "WorkerThread w (wt_pcs s ! w) s = Ret t"
  shows "wt_locks t"
proof -
  have S: "lock_ok holds_start (wt_pcs s) (StartWorkMutex s)" and C: "lock_ok completing (wt_pcs s) (CompleteMutex s)"
    using assms(1) by (auto simp: wt_locks_def)
  have "lock_ok holds_start (wt_pcs t) (StartWorkMutex t)"
    using assms(2,3) S
    by (cases "wt_pcs s ! w")
      (auto simp: wt_mutex outcome_simps lock_ok_stay lock_ok_acquire lock_ok_release split: if_splits)
  moreover have "lock_ok completing (wt_pcs t) (CompleteMutex t)"
    using assms(2,3) C
    by (cases "wt_pcs s ! w")
      (auto simp: wt_mutex outcome_simps lock_ok_stay lock_ok_acquire lock_ok_release split: if_splits)
  moreover have "main_start (wt_main t) = main_start (wt_main s)" "main_complete (wt_main t) = main_complete (wt_main s)"
    "(StartWorkMutex t = M_held (Client c)) = (StartWorkMutex s = M_held (Client c))"
    "(CompleteMutex t = M_held (Client c)) = (CompleteMutex s = M_held (Client c))" for c
    using assms(2,3) by (cases "wt_pcs s ! w"; auto simp: wt_mutex outcome_simps split: if_splits)+
  ultimately show ?thesis using assms(1) by (simp add: wt_locks_def)
qed

text \<open>Worker steps when the main thread is not waiting for a completion.\<close>

lemma wt_phase_round:
  assumes "wt_main s = G_round x" "wt_phase rounds (wt_main s) s" "w < length (wt_pcs s)" "WorkerThread w (wt_pcs s ! w) s = Ret t"
  shows "wt_phase rounds (wt_main t) t"
proof -
  have "finished_pc (wt_pcs s ! w)" "wt_locks t"
    using assms by (auto intro: workers_allD wt_locks_worker)
  with assms show ?thesis
    by (cases "wt_pcs s ! w") (auto simp: wt_mutex outcome_simps intro!: workers_all_update)
qed

lemma wt_phase_lockC:
  assumes "wt_main s = G_lockC x" "wt_phase rounds (wt_main s) s" "w < length (wt_pcs s)"
  shows "WorkerThread w (wt_pcs s ! w) s \<noteq> Ret t"
  using assms workers_allD [of "\<lambda>pc. pc = V_wait" "wt_pcs s" w] by simp

lemma wt_phase_loop:
  assumes "wt_main s = G_loop x y" "wt_phase rounds (wt_main s) s" "w < length (wt_pcs s)" "WorkerThread w (wt_pcs s ! w) s = Ret t"
  shows "wt_phase rounds (wt_main t) t"
proof -
  have pc: "running_pc (wt_pcs s ! w) \<and> \<not> completing (wt_pcs s ! w)" and l: "wt_locks t"
    using assms workers_allD [of "\<lambda>pc. running_pc pc \<and> \<not> completing pc" "wt_pcs s" w] wt_locks_worker [OF _ assms(3,4)] by simp_all
  show ?thesis
    using assms pc l
    by (cases "wt_pcs s ! w") (auto simp: wt_mutex outcome_simps intro!: workers_all_update log_ok_same)
qed

lemma wt_phase_woken:
  assumes "wt_main s = G_woken x y" "wt_phase rounds (wt_main s) s" "w < length (wt_pcs s)" "WorkerThread w (wt_pcs s ! w) s = Ret t"
  shows "wt_phase rounds (wt_main t) t"
proof -
  have pc: "running_pc (wt_pcs s ! w) \<and> \<not> completing (wt_pcs s ! w)" and l: "wt_locks t"
    using assms workers_allD [of "\<lambda>pc. running_pc pc \<and> \<not> completing pc" "wt_pcs s" w] wt_locks_worker [OF _ assms(3,4)] by simp_all
  show ?thesis
    using assms pc l
    by (cases "wt_pcs s ! w") (auto simp: wt_mutex outcome_simps intro!: workers_all_update log_ok_same)
qed

lemma wt_phase_join:
  assumes "wt_main s = G_join i" "wt_phase rounds (wt_main s) s" "w < length (wt_pcs s)" "WorkerThread w (wt_pcs s ! w) s = Ret t"
  shows "wt_phase rounds (wt_main t) t"
proof -
  have pc: "wt_pcs s ! w = V_woken \<or> wt_pcs s ! w = V_exited" and l: "wt_locks t"
    using assms workers_allD [of "\<lambda>pc. pc = V_woken \<or> pc = V_exited" "wt_pcs s" w] wt_locks_worker [OF _ assms(3,4)] by simp_all
  then show ?thesis
    using assms l by (auto simp: wt_mutex outcome_simps nth_list_update intro!: workers_all_update)
qed

text \<open>Worker steps while the main thread waits: here a completion is claimed, announced and signalled.\<close>

lemma workers_all_same:
  "w < length pcs \<Longrightarrow> P pc = P (pcs ! w) \<Longrightarrow> workers_all P (pcs[w := pc]) = workers_all P pcs"
  unfolding workers_all_def by (metis length_list_update nth_list_update_eq nth_list_update_neq)

lemma workers_all_not: "w < length pcs \<Longrightarrow> \<not> P pc \<Longrightarrow> \<not> workers_all P (pcs[w := pc])"
  unfolding workers_all_def by (metis length_list_update nth_list_update_eq)

lemma completing_unique:
  assumes "lock_ok completing pcs m" "w < length pcs" "completing (pcs ! w)" "v < length pcs" "completing (pcs ! v)"
  shows "v = w"
  using lock_ok_holder [OF assms(1,2,3)] lock_ok_holder [OF assms(1,4,5)] by simp

definition batch_set :: "worker_pc list \<Rightarrow> 32 word \<Rightarrow> bool" where
  "batch_set pcs b \<longleftrightarrow> (\<forall>w<length pcs. pcs ! w = V_set \<or> pcs ! w = V_both \<longrightarrow> b = word_of_nat w)"

lemma batch_set_update:
  "batch_set pcs b \<Longrightarrow> pc = V_set \<or> pc = V_both \<Longrightarrow> b = word_of_nat w \<Longrightarrow> batch_set (pcs[w := pc]) b"
  "batch_set pcs b \<Longrightarrow> pc \<noteq> V_set \<Longrightarrow> pc \<noteq> V_both \<Longrightarrow> batch_set (pcs[w := pc]) b"
  unfolding batch_set_def by (metis length_list_update nth_list_update_eq nth_list_update_neq)+

lemma batch_set_new:
  assumes "lock_ok completing pcs m" "w < length pcs" "completing (pcs ! w)"
  shows "batch_set (pcs[w := V_set]) (word_of_nat w)"
  unfolding batch_set_def
proof (intro allI impI)
  fix v assume v: "v < length (pcs[w := V_set])" "pcs[w := V_set] ! v = V_set \<or> pcs[w := V_set] ! v = V_both"
  show "word_of_nat w = (word_of_nat v :: 32 word)"
  proof (cases "v = w")
    case False
    with v have "completing (pcs ! v)" by (auto simp: nth_list_update)
    with completing_unique [OF assms, of v] v(1) show ?thesis by simp
  qed simp
qed

lemma completed_rest:
  assumes "lock_ok completing pcs m" "w < length pcs" "completing (pcs ! w)" "workers_all running_pc pcs" "\<not> completing pc" "running_pc pc"
  shows "workers_all (\<lambda>pc. running_pc pc \<and> \<not> completing pc) (pcs[w := pc])"
  unfolding workers_all_def
proof (intro allI impI)
  fix v assume v: "v < length (pcs[w := pc])"
  show "running_pc (pcs[w := pc] ! v) \<and> \<not> completing (pcs[w := pc] ! v)"
  proof (cases "v = w")
    case True
    with assms show ?thesis by simp
  next
    case False
    then have "\<not> completing (pcs ! v)" using completing_unique [OF assms(1-3), of v] v by auto
    with False v assms(4) show ?thesis by (simp add: workers_all_def)
  qed
qed

lemma wt_phase_wait:
  assumes "wt_main s = G_wait x y" "wt_phase rounds (wt_main s) s" "w < length (wt_pcs s)" "WorkerThread w (wt_pcs s ! w) s = Ret t"
  shows "wt_phase rounds (wt_main t) t"
proof -
  have p: "x < rounds" "y < length (wt_pcs s)" "WorkOn s" "workers_all running_pc (wt_pcs s)"
    "MainThreadWaiting s \<longleftrightarrow> workers_all (\<lambda>pc. \<not> completing pc) (wt_pcs s)"
    "batch_set (wt_pcs s) (TheCompletedBatch s)" "log_ok x y (wt_pcs s) (wt_received s)" "wt_locks s"
    using assms(1,2) by (auto simp: batch_set_def)
  have C: "lock_ok completing (wt_pcs s) (CompleteMutex s)" using p(8) by (simp add: wt_locks_def)
  have l: "wt_locks t" using p(8) assms(3,4) by (rule wt_locks_worker)
  have pc: "running_pc (wt_pcs s ! w)" using p(4) assms(3) by (rule workers_allD)
  show ?thesis
  proof (cases "wt_pcs s ! w = V_both")
    case True
    then have "TheCompletedBatch s = word_of_nat w" "\<not> MainThreadWaiting s"
      using p(5,6) assms(3) by (auto simp: batch_set_def workers_all_def)
    moreover have "workers_all (\<lambda>pc. running_pc pc \<and> \<not> completing pc) ((wt_pcs s)[w := V_gowait])"
      "log_ok x (Suc y) ((wt_pcs s)[w := V_gowait]) (wt_received s @ [word_of_nat w])"
      using completed_rest [OF C assms(3) _ p(4), of V_gowait] log_ok_signal [OF p(7) assms(3), of V_gowait] True by simp_all
    moreover have "t = s\<lparr>CompleteMutex := M_free, wt_main := G_woken x y, wt_pcs := (wt_pcs s)[w := V_gowait]\<rparr>"
      using True assms(1,4) by (auto simp: wt_mutex outcome_simps)
    ultimately show ?thesis using p(1-3) l by simp
  next
    case False
    have "wt_main t = G_wait x y" "length (wt_pcs t) = length (wt_pcs s)" "WorkOn t" "wt_received t = wt_received s"
      "workers_all running_pc (wt_pcs t)" "log_ok x y (wt_pcs t) (wt_received s)"
      using False assms(1,3,4) p(3,4,7) pc
      by (cases "wt_pcs s ! w"; auto simp: wt_mutex outcome_simps log_ok_same workers_all_update split: if_splits)+
    moreover have "MainThreadWaiting t \<longleftrightarrow> workers_all (\<lambda>pc. \<not> completing pc) (wt_pcs t)"
      using False assms(3,4) p(3,5) pc
      by (cases "wt_pcs s ! w") (auto simp: wt_mutex outcome_simps workers_all_same workers_all_not split: if_splits)
    moreover have "batch_set (wt_pcs t) (TheCompletedBatch t)"
    proof (cases "wt_pcs s ! w = V_set")
      case True
      then have "TheCompletedBatch s = word_of_nat w" using p(6) assms(3) by (simp add: batch_set_def)
      then show ?thesis using True assms(3,4) p(6) by (auto simp: wt_mutex outcome_simps batch_set_update)
    next
      case other: False
      show ?thesis
        using False other assms(3,4) p(3,6) pc batch_set_new [OF C assms(3)]
        by (cases "wt_pcs s ! w") (auto simp: wt_mutex outcome_simps batch_set_update(2) split: if_splits)
    qed
    ultimately show ?thesis using p(1,2) l by (simp add: batch_set_def)
  qed
qed

section \<open>The steps of the main thread keep the invariant\<close>

lemma wt_locks_start:
  "wt_locks s \<Longrightarrow> StartWorkMutex s = M_free \<Longrightarrow> lock_ok holds_start (wt_pcs s) (M_held (Client 0))"
  using lock_ok_client [of holds_start "wt_pcs s" 0] by (simp add: wt_locks_def)

lemma start_free:
  assumes "wt_locks s" "\<not> main_start (wt_main s)" "\<And>w. w < length (wt_pcs s) \<Longrightarrow> \<not> holds_start (wt_pcs s ! w)"
  shows "StartWorkMutex s = M_free"
proof -
  have "lock_ok holds_start (wt_pcs s) (StartWorkMutex s)" using assms(1) by (simp add: wt_locks_def)
  then show ?thesis by (rule lock_ok_cases) (use assms in \<open>auto simp: wt_locks_def\<close>)
qed

lemma complete_free:
  assumes "wt_locks s" "\<not> main_complete (wt_main s)" "\<And>w. w < length (wt_pcs s) \<Longrightarrow> \<not> completing (wt_pcs s ! w)"
  shows "CompleteMutex s = M_free"
proof -
  have "lock_ok completing (wt_pcs s) (CompleteMutex s)" using assms(1) by (simp add: wt_locks_def)
  then show ?thesis by (rule lock_ok_cases) (use assms in \<open>auto simp: wt_locks_def\<close>)
qed

lemma main_round:
  assumes "wt_main s = G_round x" "wt_phase rounds (wt_main s) s" "wt_main_step rounds (wt_main s) s = Ret t"
  shows "wt_phase rounds (wt_main t) t"
proof -
  have m: "StartWorkMutex s = M_free" using assms(1,3) by (auto simp: wt_mutex outcome_simps split: if_splits)
  have p: "x \<le> rounds" "\<not> MainThreadWaiting s" "workers_all finished_pc (wt_pcs s)" "wt_locks s"
    using assms(1,2) by auto
  have w: "workers_all (\<lambda>pc. pc = V_wait) (wt_pcs s)"
    using finished_released [OF p(3)] p(4) m by (simp add: wt_locks_def)
  have b: "workers_all (\<lambda>pc. pc = V_woken \<or> pc = V_exited) (cond_broadcast V_wait V_woken (wt_pcs s))"
    by (rule workers_all_broadcast [OF w]) simp
  have L: "lock_ok holds_start (cond_broadcast V_wait V_woken (wt_pcs s)) M_free"
    "lock_ok completing (cond_broadcast V_wait V_woken (wt_pcs s)) (CompleteMutex s)"
    using p(4) m by (simp_all add: wt_locks_def lock_ok_broadcast)
  show ?thesis
    using assms p w b L m wt_locks_start [OF p(4) m]
    by (cases "x < rounds") (auto simp: wt_mutex outcome_simps wt_locks_def)
qed

lemma main_lockC:
  assumes "wt_main s = G_lockC x" "wt_phase rounds (wt_main s) s" "wt_main_step rounds (wt_main s) s = Ret t"
  shows "wt_phase rounds (wt_main t) t"
proof -
  have p: "workers_all (\<lambda>pc. pc = V_wait) (wt_pcs s)" "wt_locks s"
    "rounds_ok (length (wt_pcs s)) x (wt_received s)" "length (wt_received s) = x * length (wt_pcs s)"
    using assms(1,2) by auto
  have m: "CompleteMutex s = M_free" "StartWorkMutex s = M_held (Client 0)"
    using assms(1,3) by (auto simp: wt_mutex outcome_simps)
  have "lock_ok holds_start (wt_pcs s) M_free" "lock_ok completing (wt_pcs s) (M_held (Client 0))"
    using p(2) m lock_ok_client [of holds_start "wt_pcs s" 0] lock_ok_client [of completing "wt_pcs s" 0]
    by (simp_all add: wt_locks_def)
  then have L: "lock_ok holds_start (cond_broadcast V_wait V_woken (wt_pcs s)) M_free"
    "lock_ok completing (cond_broadcast V_wait V_woken (wt_pcs s)) (M_held (Client 0))"
    by (simp_all add: lock_ok_broadcast)
  have b: "workers_all (\<lambda>pc. running_pc pc \<and> \<not> completing pc) (cond_broadcast V_wait V_woken (wt_pcs s))"
    by (rule workers_all_broadcast [OF p(1)]) simp
  have "log_ok x 0 (cond_broadcast V_wait V_woken (wt_pcs s)) (wt_received s)"
    using p(3,4,1) by (rule log_ok_start)
  then show ?thesis using assms L b m by (auto simp: wt_mutex outcome_simps wt_locks_def)
qed

lemma main_loop:
  assumes "wt_main s = G_loop x y" "wt_phase rounds (wt_main s) s" "wt_main_step rounds (wt_main s) s = Ret t"
  shows "wt_phase rounds (wt_main t) t"
proof -
  have p: "workers_all (\<lambda>pc. running_pc pc \<and> \<not> completing pc) (wt_pcs s)" "log_ok x y (wt_pcs s) (wt_received s)" "wt_locks s"
    "x < rounds" "WorkOn s" "\<not> MainThreadWaiting s"
    using assms(1,2) by auto
  have m: "CompleteMutex s = M_held (Client 0)" using assms(1,3) by (auto simp: wt_mutex outcome_simps)
  have L: "lock_ok completing (wt_pcs s) M_free"
    using p(3) m lock_ok_client [of completing "wt_pcs s" 0] by (simp add: wt_locks_def)
  show ?thesis
  proof (cases "y < length (wt_pcs s)")
    case True
    then have "t = s\<lparr>CompleteMutex := M_free, MainThreadWaiting := True, wt_main := G_wait x y\<rparr>"
      using assms(1,3) m by (simp add: wt_mutex outcome_simps)
    moreover have "workers_all running_pc (wt_pcs s)" "workers_all (\<lambda>pc. \<not> completing pc) (wt_pcs s)"
      using p(1) by (auto simp: workers_all_def)
    moreover have "wt_pcs s ! w \<noteq> V_set" "wt_pcs s ! w \<noteq> V_both" if "w < length (wt_pcs s)" for w
      using p(1) that by (auto simp: workers_all_def)
    ultimately show ?thesis using p L True assms(1) by (auto simp: wt_locks_def)
  next
    case False
    then have t: "t = s\<lparr>CompleteMutex := M_free, wt_main := G_round (Suc x)\<rparr>"
      using assms(1,3) m by (simp add: wt_mutex outcome_simps)
    have "workers_all finished_pc (wt_pcs s)" "y = length (wt_pcs s)" "rounds_ok (length (wt_pcs s)) (Suc x) (wt_received s)"
      using log_ok_finished [OF p(2)] False by auto
    moreover have "length (wt_received s) = Suc x * length (wt_pcs s)"
      using p(2) \<open>y = length (wt_pcs s)\<close> by (simp add: log_ok_def)
    ultimately show ?thesis using p L t assms(1) by (auto simp: wt_locks_def)
  qed
qed

lemma main_woken:
  assumes "wt_main s = G_woken x y" "wt_phase rounds (wt_main s) s" "wt_main_step rounds (wt_main s) s = Ret t"
  shows "wt_phase rounds (wt_main t) t"
proof -
  have "CompleteMutex s = M_free" "t = s\<lparr>CompleteMutex := M_held (Client 0), wt_received := wt_received s @ [TheCompletedBatch s], wt_main := G_loop x (Suc y)\<rparr>"
    using assms(1,3) by (auto simp: wt_mutex outcome_simps)
  then show ?thesis
    using assms(1,2) lock_ok_client [of completing "wt_pcs s" 0] by (auto simp: wt_locks_def)
qed

lemma main_join:
  assumes "wt_main s = G_join i" "wt_phase rounds (wt_main s) s" "wt_main_step rounds (wt_main s) s = Ret t"
  shows "wt_phase rounds (wt_main t) t"
proof (cases "i < length (wt_pcs s)")
  case True
  then have "wt_pcs s ! i = V_exited" "t = s\<lparr>wt_main := G_join (Suc i)\<rparr>" using assms(1,3) by (auto split: if_splits)
  with assms(1,2) True show ?thesis by (auto simp: wt_locks_def less_Suc_eq)
next
  case False
  have p: "i \<le> length (wt_pcs s)" "\<forall>w<i. wt_pcs s ! w = V_exited" "wt_locks s" using assms(1,2) by auto
  then have e: "workers_all (\<lambda>pc. pc = V_exited) (wt_pcs s)" using False by (simp add: workers_all_def)
  have "StartWorkMutex s = M_free"
    by (rule start_free [OF p(3)]) (use e assms(1) in \<open>auto simp: workers_all_def\<close>)
  moreover have "CompleteMutex s = M_free"
    by (rule complete_free [OF p(3)]) (use e assms(1) in \<open>auto simp: workers_all_def\<close>)
  ultimately show ?thesis
    using assms False e by (auto simp: pthread_mutex_destroy_def pthread_cond_destroy_def)
qed

section \<open>The whole program\<close>

lemma worker_spin_same: "worker_spin w s = Ret t \<Longrightarrow> t = s"
  by (auto simp: worker_spin_def wt_mutex outcome_simps split: if_splits)

lemma WorkerThread_length: "WorkerThread w pc s = Ret t \<Longrightarrow> length (wt_pcs t) = length (wt_pcs s)"
  by (cases pc) (auto simp: wt_mutex outcome_simps split: if_splits)

lemma wt_main_step_length: "wt_main_step rounds g s = Ret t \<Longrightarrow> length (wt_pcs t) = length (wt_pcs s)"
  by (cases g) (auto simp: outcome_simps split: if_splits)

lemma wt_inv_worker:
  assumes "wt_inv rounds n s" "w < length (wt_pcs s)" "WorkerThread w (wt_pcs s ! w) s = Ret t"
  shows "wt_inv rounds n t"
proof -
  have p: "wt_phase rounds (wt_main s) s" "length (wt_pcs s) = n" using assms(1) by (simp_all add: wt_inv_def)
  have "wt_phase rounds (wt_main t) t"
  proof (cases "wt_main s")
    case (G_round x)
    then show ?thesis using p(1) assms(2,3) by (rule wt_phase_round)
  next
    case (G_lockC x)
    then show ?thesis using wt_phase_lockC [OF G_lockC p(1) assms(2)] assms(3) by blast
  next
    case (G_loop x y)
    then show ?thesis using p(1) assms(2,3) by (rule wt_phase_loop)
  next
    case (G_wait x y)
    then show ?thesis using p(1) assms(2,3) by (rule wt_phase_wait)
  next
    case (G_woken x y)
    then show ?thesis using p(1) assms(2,3) by (rule wt_phase_woken)
  next
    case (G_join i)
    then show ?thesis using p(1) assms(2,3) by (rule wt_phase_join)
  next
    case G_done
    then have "wt_pcs s ! w = V_exited" using p(1) assms(2) by (simp add: workers_all_def)
    then show ?thesis using assms(3) by simp
  qed
  with p(2) WorkerThread_length [OF assms(3)] show ?thesis by (simp add: wt_inv_def)
qed

lemma wt_inv_main:
  assumes "wt_inv rounds n s" "wt_main_step rounds (wt_main s) s = Ret t"
  shows "wt_inv rounds n t"
proof -
  have p: "wt_phase rounds (wt_main s) s" "length (wt_pcs s) = n" using assms(1) by (simp_all add: wt_inv_def)
  have "wt_phase rounds (wt_main t) t"
    using assms(2) main_round [OF _ p(1)] main_lockC [OF _ p(1)] main_loop [OF _ p(1)] main_woken [OF _ p(1)] main_join [OF _ p(1)]
    by (cases "wt_main s") (simp_all del: wt_phase.simps)
  with p(2) wt_main_step_length [OF assms(2)] show ?thesis by (simp add: wt_inv_def)
qed

interpretation wti: invariant_system "wt_regular_step rounds" "\<lambda>s. s = wt_ready n" "wt_inv rounds n" for rounds n
proof (unfold_locales, goal_cases)
  case (1 s)
  then show ?case
    by (auto simp: wt_inv_def wt_ready_def wt_start_def workers_all_def rounds_ok_def wt_locks_def lock_ok_def)
next
  case (2 s l t)
  then show ?case
    by (cases l) (auto simp: wt_regular_step_def dest: worker_spin_same intro: wt_inv_worker wt_inv_main split: if_splits)
qed

fun worker_rank :: "worker_pc \<Rightarrow> nat" where
  "worker_rank V_woken = 7"
| "worker_rank V_work = 6"
| "worker_rank V_try = 5"
| "worker_rank V_have = 4"
| "worker_rank V_set = 3"
| "worker_rank V_both = 2"
| "worker_rank V_gowait = 1"
| "worker_rank V_start = 1"
| "worker_rank V_wait = 0"
| "worker_rank V_exited = 0"

fun main_rank :: "nat \<Rightarrow> nat \<Rightarrow> main_pc \<Rightarrow> nat" where
  "main_rank rounds n (G_round x) = (rounds - x) * (10 * n + 4) + (8 * n + 3)"
| "main_rank rounds n (G_lockC x) = (rounds - x) * (10 * n + 4) + (8 * n + 2)"
| "main_rank rounds n (G_loop x y) = (rounds - Suc x) * (10 * n + 4) + (8 * n + 3) + 3 * (n - y) + 1"
| "main_rank rounds n (G_wait x y) = (rounds - Suc x) * (10 * n + 4) + (8 * n + 3) + 3 * (n - y)"
| "main_rank rounds n (G_woken x y) = (rounds - Suc x) * (10 * n + 4) + (8 * n + 3) + 3 * (n - y) - 1"
| "main_rank rounds n (G_join i) = (n - i) + 1"
| "main_rank rounds n G_done = 0"

definition wt_work :: "nat \<Rightarrow> wt \<Rightarrow> nat" where
  "wt_work rounds s = sum_list (map worker_rank (wt_pcs s)) + main_rank rounds (length (wt_pcs s)) (wt_main s)"

lemma main_rank_signal: "main_rank rounds n (signal_main g) \<le> main_rank rounds n g"
  by (cases g) auto

lemma wt_work_worker:
  assumes "w < length (wt_pcs s)" "WorkerThread w (wt_pcs s ! w) s = Ret t"
  shows "wt_work rounds t < wt_work rounds s"
proof -
  obtain pc where pc: "wt_pcs t = (wt_pcs s)[w := pc]" "worker_rank pc < worker_rank (wt_pcs s ! w)"
    "wt_main t = wt_main s \<or> wt_main t = signal_main (wt_main s)"
    using assms(2) by (cases "wt_pcs s ! w") (auto simp: wt_mutex outcome_simps split: if_splits)
  then have "main_rank rounds n (wt_main t) \<le> main_rank rounds n (wt_main s)" for n
    using main_rank_signal [of rounds n] by auto
  with sum_list_update_less [OF assms(1), of worker_rank pc] pc(1,2) show ?thesis
    by (simp add: wt_work_def add_less_le_mono)
qed

lemma broadcast_rank: "sum_list (map worker_rank (cond_broadcast V_wait V_woken pcs)) \<le> sum_list (map worker_rank pcs) + 7 * length pcs"
  by (induction pcs) (auto simp: cond_broadcast_def)

lemma rounds_rank: "x < rounds \<Longrightarrow> (rounds - x) * k = (rounds - Suc x) * k + (k::nat)"
  by (metis Suc_diff_Suc add.commute mult_Suc)

lemma wt_work_main:
  assumes "wt_inv rounds n s" "wt_main_step rounds (wt_main s) s = Ret t"
  shows "wt_work rounds t < wt_work rounds s"
proof -
  have p: "wt_phase rounds (wt_main s) s" using assms(1) by (simp add: wt_inv_def)
  note b = broadcast_rank [of "wt_pcs s"]
  show ?thesis
  proof (cases "wt_main s")
    case (G_round x)
    then show ?thesis using assms(2) p b by (auto simp: wt_work_def wt_mutex outcome_simps split: if_splits)
  next
    case (G_lockC x)
    then show ?thesis using assms(2) p b by (auto simp: wt_work_def wt_mutex outcome_simps rounds_rank)
  next
    case (G_join i)
    then show ?thesis using assms(2) by (auto simp: wt_work_def outcome_simps split: if_splits)
  qed (use assms(2) p in \<open>auto simp: wt_work_def wt_mutex outcome_simps split: if_splits\<close>)
qed

interpretation wtd: draining_system "wt_regular_step rounds" "\<lambda>s. s = wt_ready n" "wt_inv rounds n" wt_own "wt_work rounds" for rounds n
proof (unfold_locales, goal_cases)
  case (1 s l t)
  then show ?case
    by (cases l) (auto simp: wt_regular_step_def intro: wt_work_worker wt_work_main split: if_splits)
qed

section \<open>Progress\<close>

fun returns :: "'a outcome \<Rightarrow> bool" where
  "returns (Ret x) = True"
| "returns _ = False"

lemma returnsD: "returns m \<Longrightarrow> \<exists>t. m = Ret t"
  by (cases m) auto

lemma wt_quiescent_worker:
  assumes "quiescent (wt_regular_step rounds) wt_own s" "w < length (wt_pcs s)"
  shows "\<not> returns (WorkerThread w (wt_pcs s ! w) s)"
  using assms(1) [unfolded quiescent_def, rule_format, of "Wt_worker w"] assms(2)
  by (auto simp: wt_regular_step_def dest!: returnsD)

lemma wt_quiescent_main:
  assumes "quiescent (wt_regular_step rounds) wt_own s"
  shows "\<not> returns (wt_main_step rounds (wt_main s) s)"
  using assms [unfolded quiescent_def, rule_format, of Wt_main]
  by (auto simp: wt_regular_step_def dest!: returnsD)

lemma wt_quiescent_locked:
  assumes "quiescent (wt_regular_step rounds) wt_own s" "wt_locks s" "w < length (wt_pcs s)"
  shows "\<not> holds_start (wt_pcs s ! w)"
proof
  assume h: "holds_start (wt_pcs s ! w)"
  with assms(2,3) have "StartWorkMutex s = M_held (Worker w)" by (auto simp: wt_locks_def dest: lock_ok_holder)
  moreover have "CompleteMutex s = M_held (Worker w)" if "completing (wt_pcs s ! w)"
    using assms(2,3) that by (auto simp: wt_locks_def dest: lock_ok_holder)
  ultimately have "returns (WorkerThread w (wt_pcs s ! w) s)" using h by (cases "wt_pcs s ! w") simp_all
  with wt_quiescent_worker [OF assms(1,3)] show False by blast
qed

lemma wt_quiescent_claimed:
  assumes "quiescent (wt_regular_step rounds) wt_own s" "wt_locks s" "\<not> main_start (wt_main s)" "w < length (wt_pcs s)"
  shows "\<not> completing (wt_pcs s ! w)" "wt_pcs s ! w \<noteq> V_woken" "wt_pcs s ! w \<noteq> V_work"
proof -
  have m: "StartWorkMutex s = M_free" using assms(2,3) by (rule start_free) (rule wt_quiescent_locked [OF assms(1,2)])
  note q = wt_quiescent_worker [OF assms(1,4)]
  show "wt_pcs s ! w \<noteq> V_woken" "wt_pcs s ! w \<noteq> V_work" using q m by (auto split: if_splits)
  show "\<not> completing (wt_pcs s ! w)"
    using q m wt_quiescent_locked [OF assms(1,2,4)] by (cases "wt_pcs s ! w") auto
qed

text \<open>The program stops only where it ends.\<close>

lemma wt_quiescent_done:
  assumes "wt_inv rounds n s" "quiescent (wt_regular_step rounds) wt_own s"
  shows "wt_main s = G_done"
proof (cases "wt_main s")
  case (G_round x)
  then have "wt_locks s" using assms(1) by (simp add: wt_inv_def)
  then have "StartWorkMutex s = M_free"
    by (rule start_free) (use G_round wt_quiescent_locked [OF assms(2)] \<open>wt_locks s\<close> in auto)
  with wt_quiescent_main [OF assms(2)] G_round show ?thesis by (auto split: if_splits)
next
  case (G_lockC x)
  then have p: "wt_locks s" "workers_all (\<lambda>pc. pc = V_wait) (wt_pcs s)" using assms(1) by (simp_all add: wt_inv_def)
  have "CompleteMutex s = M_free" using p(1) by (rule complete_free) (use G_lockC p(2) in \<open>auto simp: workers_all_def\<close>)
  moreover have "StartWorkMutex s = M_held (Client 0)" using p(1) G_lockC by (simp add: wt_locks_def)
  ultimately show ?thesis using wt_quiescent_main [OF assms(2)] G_lockC by auto
next
  case (G_loop x y)
  then have "CompleteMutex s = M_held (Client 0)" using assms(1) by (simp add: wt_inv_def wt_locks_def)
  with wt_quiescent_main [OF assms(2)] G_loop show ?thesis by (auto split: if_splits)
next
  case (G_wait x y)
  then have p: "wt_locks s" "workers_all running_pc (wt_pcs s)" "log_ok x y (wt_pcs s) (wt_received s)" "y < length (wt_pcs s)"
    "MainThreadWaiting s \<longleftrightarrow> workers_all (\<lambda>pc. \<not> completing pc) (wt_pcs s)"
    using assms(1) by (simp_all add: wt_inv_def)
  have c: "\<not> completing (wt_pcs s ! w)" if "w < length (wt_pcs s)" for w
    using wt_quiescent_claimed(1) [OF assms(2) p(1) _ that] G_wait by simp
  have m: "CompleteMutex s = M_free" using p(1) _ c by (rule complete_free) (simp add: G_wait)
  obtain w where w: "w < length (wt_pcs s)" "\<not> finished_pc (wt_pcs s ! w)" using p(3,4) by (rule log_ok_unfinished)
  then have "wt_pcs s ! w = V_try"
    using c [OF w(1)] wt_quiescent_claimed(2,3) [OF assms(2) p(1) _ w(1)] workers_allD [OF p(2) w(1)] G_wait
    by (cases "wt_pcs s ! w") auto
  moreover have "MainThreadWaiting s" using p(5) c by (simp add: workers_all_def)
  ultimately show ?thesis using wt_quiescent_worker [OF assms(2) w(1)] m by simp
next
  case (G_woken x y)
  then have p: "wt_locks s" "workers_all (\<lambda>pc. running_pc pc \<and> \<not> completing pc) (wt_pcs s)" using assms(1) by (simp_all add: wt_inv_def)
  have "CompleteMutex s = M_free" using p(1) by (rule complete_free) (use G_woken p(2) in \<open>auto simp: workers_all_def\<close>)
  with wt_quiescent_main [OF assms(2)] G_woken show ?thesis by auto
next
  case (G_join i)
  then have p: "wt_locks s" "workers_all (\<lambda>pc. pc = V_woken \<or> pc = V_exited) (wt_pcs s)" using assms(1) by (simp_all add: wt_inv_def)
  have e: "wt_pcs s ! w = V_exited" if "w < length (wt_pcs s)" for w
    using wt_quiescent_claimed(2) [OF assms(2) p(1) _ that] p(2) that G_join by (auto simp: workers_all_def)
  have "StartWorkMutex s = M_free" using p(1) by (rule start_free) (simp_all add: e G_join)
  moreover have "CompleteMutex s = M_free" using p(1) by (rule complete_free) (simp_all add: e G_join)
  ultimately show ?thesis
    using wt_quiescent_main [OF assms(2)] G_join e [of i] by (auto simp: pthread_mutex_destroy_def pthread_cond_destroy_def split: if_splits)
qed simp

section \<open>Undefined behaviour\<close>

lemma WorkerThread_no_ub:
  assumes "wt_locks s" "w < length (wt_pcs s)"
  shows "WorkerThread w (wt_pcs s ! w) s \<noteq> UB u"
proof -
  have ok: "StartWorkMutex s \<noteq> M_uninit" "StartWorkMutex s \<noteq> M_destroyed" "CompleteMutex s \<noteq> M_uninit" "CompleteMutex s \<noteq> M_destroyed"
    using assms(1) by (auto simp: wt_locks_def lock_ok_def)
  have h: "holds_start (wt_pcs s ! w) \<Longrightarrow> StartWorkMutex s = M_held (Worker w)"
    "completing (wt_pcs s ! w) \<Longrightarrow> CompleteMutex s = M_held (Worker w)"
    using assms by (auto simp: wt_locks_def dest: lock_ok_holder)
  show ?thesis
    using ok h by (cases "wt_pcs s ! w") (auto simp: outcome_simps pthread_mutex_lock_def pthread_mutex_unlock_def split: if_splits)
qed

lemma spin_no_ub: "lock_ok completing (wt_pcs s) (CompleteMutex s) \<Longrightarrow> worker_spin w s \<noteq> UB u"
  by (cases "CompleteMutex s") (simp_all add: worker_spin_def lock_ok_def)

lemma main_no_ub:
  assumes "wt_phase rounds (wt_main s) s"
  shows "wt_main_step rounds (wt_main s) s \<noteq> UB u"
proof (cases "wt_main s = G_done")
  case False
  then have l: "wt_locks s" using assms by (cases "wt_main s") auto
  then have ok: "StartWorkMutex s \<noteq> M_uninit" "StartWorkMutex s \<noteq> M_destroyed" "CompleteMutex s \<noteq> M_uninit" "CompleteMutex s \<noteq> M_destroyed"
    by (auto simp: wt_locks_def lock_ok_def)
  have h: "main_start (wt_main s) \<Longrightarrow> StartWorkMutex s = M_held (Client 0)"
    "main_complete (wt_main s) \<Longrightarrow> CompleteMutex s = M_held (Client 0)"
    using l by (auto simp: wt_locks_def)
  show ?thesis
    using ok h by (cases "wt_main s")
      (auto simp: outcome_simps pthread_mutex_lock_def pthread_mutex_unlock_def pthread_mutex_destroy_def pthread_cond_destroy_def
        split: if_splits mutex.splits)
qed simp

interpretation wts: safe_system "wt_regular_step rounds" "\<lambda>s. s = wt_ready n" "wt_inv rounds n" "\<lambda>_. True" for rounds n
proof (unfold_locales, goal_cases)
  case (1 s l u)
  have p: "wt_phase rounds (wt_main s) s" using 1(1) by (simp add: wt_inv_def)
  have l: "wt_locks s" if "w < length (wt_pcs s)" "wt_pcs s ! w \<noteq> V_exited" for w
    using p that by (cases "wt_main s") (auto simp: workers_all_def)
  show ?case
  proof (cases l)
    case (Wt_worker w)
    show ?thesis
    proof (cases "w < length (wt_pcs s) \<and> wt_pcs s ! w \<noteq> V_exited")
      case True
      then have "wt_locks s" using l by blast
      then have "WorkerThread w (wt_pcs s ! w) s \<noteq> UB u" using True by (intro WorkerThread_no_ub) auto
      with Wt_worker show ?thesis by (simp add: wt_regular_step_def)
    next
      case False
      with Wt_worker show ?thesis by (auto simp: wt_regular_step_def)
    qed
  next
    case (Wt_spin w)
    show ?thesis
    proof (cases "w < length (wt_pcs s) \<and> wt_pcs s ! w = V_try")
      case True
      then have "lock_ok completing (wt_pcs s) (CompleteMutex s)" using l [of w] by (simp add: wt_locks_def)
      then show ?thesis using Wt_spin spin_no_ub by (simp add: wt_regular_step_def)
    next
      case False
      with Wt_spin show ?thesis by (auto simp: wt_regular_step_def worker_spin_def)
    qed
  next
    case Wt_main
    then show ?thesis using main_no_ub [OF p] by (simp add: wt_regular_step_def)
  qed (simp_all add: wt_regular_step_def)
qed

section \<open>Theorems\<close>

text \<open>Spinning leaves the state as it is, so it may be dropped from an execution.\<close>

lemma run_without_spin:
  assumes "run (wt_regular_step rounds) ls s = Ret t"
  shows "run (wt_regular_step rounds) (filter wt_own ls) s = Ret t"
  using assms
proof (induction ls arbitrary: s)
  case Nil
  then show ?case by simp
next
  case (Cons l ls)
  then obtain u where u: "wt_regular_step rounds l s = Ret u" "run (wt_regular_step rounds) ls u = Ret t"
    by (auto simp: outcome_simps)
  have "u = s" if "\<not> wt_own l" using u(1) that by (cases l) (auto simp: wt_regular_step_def dest: worker_spin_same)
  with u Cons.IH [of u] show ?case by auto
qed

lemma wt_work_ready: "wt_work rounds (wt_ready n) = rounds * (10 * n + 4) + 8 * n + 3"
  by (simp add: wt_work_def wt_ready_def wt_start_def)

text \<open>
  C10. Every execution of the batch program from the state in which all workers wait, without spurious
  wake-ups, takes a bounded number of steps other than spinning, has no undefined behaviour, and can only
  stop at the end of \<open>main\<close>; there the main thread has received, in each round, exactly one completion
  of every worker.
\<close>

theorem wt_completes:
  assumes "run (wt_regular_step rounds) ls (wt_ready n) = Ret s"
  shows "length (filter wt_own ls) \<le> rounds * (10 * n + 4) + 8 * n + 3 \<and>
    (\<forall>ks u. run (wt_regular_step rounds) ks s \<noteq> UB u) \<and>
    (\<exists>ks t. run (wt_regular_step rounds) ks s = Ret t \<and> wt_main t = G_done) \<and>
    (quiescent (wt_regular_step rounds) wt_own s \<longrightarrow>
       wt_main s = G_done \<and> length (wt_received s) = rounds * n \<and>
       (\<forall>k<rounds. mset (take n (drop (k * n) (wt_received s))) = image_mset word_of_nat (mset_set {..<n})))"
proof -
  have "wt_inv rounds n (wt_ready n)" by (rule wti.inv_init) simp
  then have i: "wt_inv rounds n s" using assms by (rule wti.inv_run)
  have "length (filter wt_own ls) + wt_work rounds s \<le> wt_work rounds (wt_ready n)"
    using \<open>wt_inv rounds n (wt_ready n)\<close> _ run_without_spin [OF assms] by (rule wtd.own_run_bounded) (simp add: list_all_iff)
  then have "length (filter wt_own ls) \<le> rounds * (10 * n + 4) + 8 * n + 3" by (simp add: wt_work_ready)
  moreover have "run (wt_regular_step rounds) ks s \<noteq> UB u" for ks u
    by (rule wts.own_run_safe [OF i]) (simp add: list_all_iff)
  moreover obtain ks t where t: "run (wt_regular_step rounds) ks s = Ret t" "quiescent (wt_regular_step rounds) wt_own t"
    using wtd.drains [OF i] by blast
  then have "wt_main t = G_done" using wti.inv_run [OF i] wt_quiescent_done by blast
  moreover have "wt_main s = G_done \<and> length (wt_received s) = rounds * n \<and> rounds_ok n rounds (wt_received s)"
    if "quiescent (wt_regular_step rounds) wt_own s"
    using wt_quiescent_done [OF i that] i by (auto simp: wt_inv_def)
  ultimately show ?thesis using t(1) unfolding rounds_ok_def round_log_def batches_def by blast
qed

definition wt_sample :: "wt_label list" where
  "wt_sample = [Wt_main, Wt_main, Wt_worker 0, Wt_worker 0, Wt_main, Wt_worker 0, Wt_worker 0, Wt_worker 0, Wt_worker 0,
     Wt_worker 0, Wt_main, Wt_main, Wt_main, Wt_worker 0, Wt_main, Wt_main]"

text \<open>One worker and one round, to the end; and the program's own numbers.\<close>

theorem wt_completes_witness:
  "\<exists>s. run (wt_regular_step 1) wt_sample (wt_ready 1) = Ret s \<and> wt_main s = G_done \<and> wt_received s = [0]
     \<and> length (filter wt_own wt_sample) \<le> 25
     \<and> (\<exists>ks t. run (wt_regular_step NUMBER_OF_WORKING_ROUNDS) ks (wt_ready NUMBER_OF_WORKER_THREADS) = Ret t \<and> wt_main t = G_done)"
proof -
  have "run (wt_regular_step NUMBER_OF_WORKING_ROUNDS) [] (wt_ready NUMBER_OF_WORKER_THREADS) = Ret (wt_ready NUMBER_OF_WORKER_THREADS)"
    by simp
  from wt_completes [OF this] have "\<exists>ks t. run (wt_regular_step NUMBER_OF_WORKING_ROUNDS) ks (wt_ready NUMBER_OF_WORKER_THREADS) = Ret t \<and> wt_main t = G_done"
    by blast
  moreover have "\<exists>s. run (wt_regular_step 1) wt_sample (wt_ready 1) = Ret s \<and> wt_main s = G_done \<and> wt_received s = [0]"
    by (simp add: wt_sample_def wt_ready_def wt_start_def wt_regular_step_def wt_goto_def cond_broadcast_def
        pthread_mutex_destroy_def pthread_cond_destroy_def)
  ultimately show ?thesis by (auto simp: wt_sample_def)
qed

text \<open>The state \<open>main\<close> waits a second for is reached when every worker has made its first step.\<close>

lemma wt_ready_reached: "run (wt_regular_step rounds) (map Wt_worker [0..<n]) (wt_start n) = Ret (wt_ready n)"
proof -
  have "run (wt_regular_step rounds) (map Wt_worker [0..<k]) (wt_start n)
      = Ret ((wt_start n)\<lparr>wt_pcs := replicate k V_wait @ replicate (n - k) V_start\<rparr>)" if "k \<le> n" for k
    using that
  proof (induction k)
    case 0
    show ?case by (simp add: wt_start_def)
  next
    case (Suc k)
    obtain m where m: "n - k = Suc m" using Suc.prems by (metis Suc_diff_Suc Suc_le_lessD)
    then have "n - Suc k = m" by simp
    with Suc m show ?case
      by (simp add: run_append wt_regular_step_def wt_start_def wt_goto_def nth_append list_update_append replicate_app_Cons_same)
  qed
  from this [of n] show ?thesis by (simp add: wt_ready_def)
qed

subsection \<open>A worker that is late for the first broadcast\<close>

fun active_pc :: "worker_pc \<Rightarrow> nat" where
  "active_pc V_woken = 1"
| "active_pc V_work = 1"
| "active_pc V_try = 1"
| "active_pc V_have = 1"
| "active_pc V_set = 1"
| "active_pc V_both = 1"
| "active_pc _ = 0"

fun main_collected :: "main_pc \<Rightarrow> nat option" where
  "main_collected (G_loop x y) = Some y"
| "main_collected (G_wait x y) = Some y"
| "main_collected (G_woken x y) = Some (Suc y)"
| "main_collected _ = None"

text \<open>The completions collected and those still to come do not add up to the number of workers.\<close>

definition wt_short :: "wt \<Rightarrow> bool" where
  "wt_short s \<longleftrightarrow> (\<exists>y. main_collected (wt_main s) = Some y \<and> y + sum_list (map active_pc (wt_pcs s)) < length (wt_pcs s))"

lemma active_le: "sum_list (map active_pc pcs) \<le> length pcs"
proof (induction pcs)
  case (Cons pc pcs)
  moreover have "active_pc pc \<le> 1" by (cases pc) auto
  ultimately show ?case by simp
qed simp

lemma active_less: "w < length pcs \<Longrightarrow> active_pc (pcs ! w) = 0 \<Longrightarrow> sum_list (map active_pc pcs) < length pcs"
  using sum_list_update_add [of w pcs active_pc V_woken] active_le [of "pcs[w := V_woken]"] by simp

lemma signal_collected:
  "main_collected g = Some y \<Longrightarrow> \<exists>z\<le>Suc y. main_collected (signal_main g) = Some z"
  by (cases g) auto

lemma wt_short_worker:
  assumes "wt_short s" "w < length (wt_pcs s)" "WorkerThread w (wt_pcs s ! w) s = Ret t"
  shows "wt_short t"
proof -
  obtain y where y: "main_collected (wt_main s) = Some y" "y + sum_list (map active_pc (wt_pcs s)) < length (wt_pcs s)"
    using assms(1) by (auto simp: wt_short_def)
  note u = sum_list_update_add [OF assms(2), of active_pc]
  show ?thesis
  proof (cases "wt_pcs s ! w = V_both")
    case True
    then have t: "wt_main t = signal_main (wt_main s)" "wt_pcs t = (wt_pcs s)[w := V_gowait]"
      using assms(3) by (auto simp: wt_mutex outcome_simps)
    obtain z where "z \<le> Suc y" "main_collected (wt_main t) = Some z" using signal_collected [OF y(1)] t(1) by auto
    with y(2) t(2) u [of V_gowait] True show ?thesis by (auto simp: wt_short_def)
  next
    case False
    then obtain pc where "wt_main t = wt_main s" "wt_pcs t = (wt_pcs s)[w := pc]" "active_pc pc \<le> active_pc (wt_pcs s ! w)"
      using assms(3) by (cases "wt_pcs s ! w") (auto simp: wt_mutex outcome_simps split: if_splits)
    with y u [of pc] show ?thesis by (auto simp: wt_short_def)
  qed
qed

lemma wt_short_main:
  assumes "wt_short s" "wt_main_step rounds (wt_main s) s = Ret t"
  shows "wt_short t"
  using assms by (cases "wt_main s") (auto simp: wt_short_def outcome_simps split: if_splits)

interpretation wtl: invariant_system "wt_regular_step rounds" wt_short wt_short for rounds
proof (unfold_locales, goal_cases)
  case (2 s l t)
  then show ?case
    by (cases l) (auto simp: wt_regular_step_def dest: worker_spin_same intro: wt_short_worker wt_short_main split: if_splits)
qed

text \<open>
  The second that \<open>main\<close> sleeps is not a synchronisation: when the main thread makes its first broadcast
  while some worker has not reached its wait, that worker misses the round, the main thread waits for a
  completion nobody sends, and without spurious wake-ups no continuation reaches the end of \<open>main\<close>.
\<close>

theorem wt_lost_start:
  assumes "wt_main s = G_loop x 0" "w < length (wt_pcs s)" "wt_pcs s ! w = V_start \<or> wt_pcs s ! w = V_wait"
    and "run (wt_regular_step rounds) ks s = Ret t"
  shows "wt_main t \<noteq> G_done"
proof -
  have "sum_list (map active_pc (wt_pcs s)) < length (wt_pcs s)"
    using assms(2) by (rule active_less) (use assms(3) in auto)
  then have "wt_short s" using assms(1) by (simp add: wt_short_def)
  then have "wt_short t" using assms(4) by (rule wtl.inv_run)
  then show ?thesis by (auto simp: wt_short_def)
qed

theorem wt_lost_start_witness:
  "\<exists>s. run (wt_regular_step NUMBER_OF_WORKING_ROUNDS) [Wt_main, Wt_main] (wt_start 2) = Ret s \<and> wt_main s = G_loop 0 0 \<and>
     wt_pcs s ! 1 = V_start \<and>
     (\<nexists>ks t. run (wt_regular_step NUMBER_OF_WORKING_ROUNDS) ks s = Ret t \<and> wt_main t = G_done)"
proof -
  obtain s where s: "run (wt_regular_step NUMBER_OF_WORKING_ROUNDS) [Wt_main, Wt_main] (wt_start 2) = Ret s" "wt_main s = G_loop 0 0"
    "wt_pcs s = [V_start, V_start]"
    by (simp add: wt_start_def wt_regular_step_def cond_broadcast_def NUMBER_OF_WORKING_ROUNDS_def numeral_2_eq_2)
  from wt_lost_start [OF s(2), of 1] s(3) have "wt_main t \<noteq> G_done" if "run (wt_regular_step NUMBER_OF_WORKING_ROUNDS) ks s = Ret t" for ks t
    using that by simp
  with s show ?thesis by auto
qed

text \<open>
  A spurious wake-up of the main thread is taken for a completion: the round ends while the worker still
  works, and the batch received is the value the variable was declared with.
\<close>

theorem wt_spurious:
  "\<exists>s. run (wt_step 2) [Wt_main, Wt_main, Wt_worker 0, Wt_main, Wt_spurious_main, Wt_main, Wt_main] (wt_ready 1) = Ret s \<and>
     wt_main s = G_round 1 \<and> wt_received s = [BOGUS] \<and> wt_pcs s = [V_work]"
  by (simp add: wt_ready_def wt_start_def wt_goto_def cond_broadcast_def)

end
