(* ===== verification/Epoll_Http.thy ===== *)
theory Epoll_Http
  imports Epoll_Kernel Transition_Systems
begin

text \<open>
  The epoll server of \<open>src/epoll/epoll_threadpool.c\<close>: a thread that waits for events, accepts connections and
  answers every request with a fixed text, next to a function \<open>handle_message\<close> with a map of receive buffers
  and a thread that looks once for connections that have timed out.

  \<open>http_step\<close> is one round of \<open>epoll_loop\<close>, interleaved with what the peers do; the array \<open>events\<close> keeps the
  entries of earlier rounds, which matters since the code receives from \<open>events[n]\<close> and not from
  \<open>events[i]\<close>. The loop over \<open>accept\<close> ends only on \<open>EAGAIN\<close>, so it is a partial function: \<open>None\<close> says that
  it never returns.
\<close>

section \<open>Data\<close>

definition MAXRECVBUF :: nat where "MAXRECVBUF = 4096"
definition MAXBUF :: nat where "MAXBUF = MAXRECVBUF + 10"

definition ENOTSOCK :: int where "ENOTSOCK = 88"
definition ENOTCONN :: int where "ENOTCONN = 107"

definition EVENTS_SIZE :: nat where "EVENTS_SIZE = 1024"
definition EVENTS_ASKED :: nat where "EVENTS_ASKED = 4096"

text \<open>The text both \<open>sprintf\<close> calls build.\<close>

definition crlf :: string where "crlf = [CHR 0x0D, CHR 0x0A]"

definition http_reply :: string where
  "http_reply = ''HTTP/1.0 200 OK'' @ crlf @ ''Content-type: text/plain'' @ crlf @ crlf @ ''Hello world!'' @ [CHR 0x0A]"

record http =
  h_k :: kernel
  h_base :: "int set"
  listenfd :: int
  events :: "(int \<times> 32 word) list"
  count111 :: int
  oldtime :: int
  replies :: "int \<Rightarrow> string"

definition fd_Setnonblocking :: "int \<Rightarrow> int \<Rightarrow> int \<Rightarrow> os \<Rightarrow> int \<times> os" where
  "fd_Setnonblocking getfl setfl fd s =
     (let op = fcntl_getfl getfl fd s in (op, snd (fcntl_setfl setfl fd (op OR O_NONBLOCK) s)))"

section \<open>Start\<close>

text \<open>
  The answers of \<open>pthread_create\<close>, one per call. The result counts the threads that run \<open>epoll_loop\<close> and
  says whether \<open>check_connect_timeout\<close> was started.
\<close>

fun create_epoll_threads :: "int list \<Rightarrow> nat \<Rightarrow> nat \<Rightarrow> (nat \<times> bool)" where
  "create_epoll_threads rcs 0 k = (k, True)"
| "create_epoll_threads [] (Suc m) k = (k, False)"
| "create_epoll_threads (rc # rcs) (Suc m) k = (if rc \<noteq> 0 then (k, False) else create_epoll_threads rcs m (Suc k))"

definition init_thread_pool :: "int list \<Rightarrow> int \<Rightarrow> nat \<Rightarrow> int \<times> nat \<times> bool" where
  "init_thread_pool rcs rc threadNum =
     (case create_epoll_threads rcs threadNum 0 of
        (k, False) \<Rightarrow> (- 1, k, False)
      | (k, True) \<Rightarrow> (0, k, rc = 0))"

record http_answers =
  p_socket :: int
  p_getfl :: int
  p_setfl :: int
  p_epoll :: int
  p_ctl :: int

text \<open>\<open>main\<close> after \<open>init_thread_pool\<close>: no result is tested.\<close>

definition http_start :: "http_answers \<Rightarrow> os \<Rightarrow> http" where
  "http_start a s =
     (let s1 = sys_open (p_socket a) s;
          s2 = snd (fd_Setnonblocking (p_getfl a) (p_setfl a) (p_socket a) s1);
          s3 = sys_open (p_epoll a) s2;
          k = snd (epoll_ctl_add (if p_epoll a < 0 then - 1 else p_ctl a) (p_socket a)
                \<lparr>k_os = s3, interest = {}, backlog = 0, conns = (\<lambda>_. \<lparr>unread = [], peer = Live\<rparr>)\<rparr>)
      in \<lparr>h_k = k, h_base = dom (fds s3), listenfd = p_socket a, events = replicate EVENTS_SIZE (0, 0),
          count111 = 0, oldtime = 0, replies = (\<lambda>_. [])\<rparr>)"

definition on_sigint :: "int \<Rightarrow> http outcome" where
  "on_sigint signal = Exit 0"

section \<open>The event loop\<close>

text \<open>
  What the kernel answers in one turn of the loop over \<open>accept\<close>. \<open>errno\<close> is \<open>EAGAIN\<close> when no connection
  waits; in the other cases it is \<open>aa_errno\<close> (also for the result 0, where it is left over from before).
\<close>

record http_accept =
  aa_fd :: int
  aa_errno :: int
  aa_getfl :: int
  aa_setfl :: int
  aa_ctl :: int

definition accept_errno :: "http_accept \<Rightarrow> int \<Rightarrow> kernel \<Rightarrow> int" where
  "accept_errno a sfd k =
     (if sfd \<notin> dom (fds (k_os k)) then EBADF else if backlog k = 0 then EAGAIN else aa_errno a)"

definition add_connection :: "http_accept \<Rightarrow> int \<Rightarrow> kernel \<Rightarrow> kernel" where
  "add_connection a fd k =
     snd (epoll_ctl_add (aa_ctl a) fd (k\<lparr>k_os := snd (fd_Setnonblocking (aa_getfl a) (aa_setfl a) fd (k_os k))\<rparr>))"

partial_function (option) http_accept_loop :: "(nat \<Rightarrow> http_accept) \<Rightarrow> int \<Rightarrow> nat \<Rightarrow> kernel \<Rightarrow> kernel outcome option" where
  "http_accept_loop acc sfd j k =
     (case k_accept sfd (aa_fd (acc j)) k of
        Ret (fd, k') \<Rightarrow>
          if fd > 0 then http_accept_loop acc sfd (Suc j) (add_connection (acc j) fd k')
          else if (if fd = - 1 then accept_errno (acc j) sfd k else aa_errno (acc j)) = EAGAIN then Some (Ret k')
          else http_accept_loop acc sfd (Suc j) k'
      | Blocked \<Rightarrow> Some Blocked
      | UB u \<Rightarrow> Some (UB u)
      | Exit n \<Rightarrow> Some (Exit n))"

text \<open>
  \<open>recv\<close> on a descriptor that is not a connection fails; the descriptors opened before the loop are not.
\<close>

definition http_recv :: "nat \<Rightarrow> int \<Rightarrow> http \<Rightarrow> (read_result \<times> kernel) outcome" where
  "http_recv sz fd s =
     (if fd \<in> h_base s \<and> fd \<in> dom (fds (k_os (h_k s))) then
        Ret (Read_error (if fd = listenfd s then ENOTCONN else ENOTSOCK), h_k s)
      else k_read 1024 sz fd (h_k s))"

lemma http_recv_less:
  "http_recv sz fd s = Ret (Data d, k) \<Longrightarrow> length (unread (conns k fd)) < length (unread (conns (h_k s) fd))"
  by (auto simp: http_recv_def dest: k_read_less split: if_splits)

text \<open>The loop over \<open>recv\<close>: \<open>rfd\<close> is \<open>events[n].data.fd\<close>, \<open>fd\<close> is \<open>events[i].data.fd\<close>; the result is \<open>ret\<close>.\<close>

function recv_loop :: "(nat \<Rightarrow> nat) \<Rightarrow> int \<Rightarrow> int \<Rightarrow> http \<Rightarrow> (int \<times> http) outcome" where
  "recv_loop sz rfd fd s =
     (case http_recv (sz (length (unread (conns (h_k s) rfd)))) rfd s of
        Ret (Read_error e, k) \<Rightarrow>
          if e = EAGAIN then Ret (- 1, s\<lparr>h_k := k\<rparr>)
          else Ret (- 1, s\<lparr>h_k := k_close fd (snd (epoll_ctl_del fd k))\<rparr>)
      | Ret (End_of_file, k) \<Rightarrow> Ret (0, s\<lparr>h_k := k\<rparr>)
      | Ret (Data d, k) \<Rightarrow>
          if length d = 1024 then recv_loop sz rfd fd (s\<lparr>h_k := k\<rparr>) else Ret (int (length d), s\<lparr>h_k := k\<rparr>)
      | Blocked \<Rightarrow> Blocked | UB u \<Rightarrow> UB u | Exit n \<Rightarrow> Exit n)"
  by pat_completeness auto
termination
  by (relation "measure (\<lambda>(sz, rfd, fd, s). length (unread (conns (h_k s) rfd)))") (auto dest: http_recv_less)

declare recv_loop.simps [simp del]

definition http_send :: "int \<Rightarrow> nat \<Rightarrow> http \<Rightarrow> http" where
  "http_send fd taken s =
     (if fd \<in> dom (fds (k_os (h_k s))) then s\<lparr>replies := (replies s)(fd := replies s fd @ take taken http_reply)\<rparr> else s)"

definition count_request :: "int \<Rightarrow> http \<Rightarrow> http outcome" where
  "count_request now s =
     and_then (c_add (count111 s) 1) (\<lambda>c.
       Ret (if now \<noteq> oldtime s then s\<lparr>oldtime := now, count111 := 0\<rparr> else s\<lparr>count111 := c\<rparr>))"

record http_choice =
  hc_acc :: "nat \<Rightarrow> http_accept"
  hc_sz :: "nat \<Rightarrow> nat"
  hc_taken :: nat
  hc_now :: int

definition event_get :: "nat \<Rightarrow> http \<Rightarrow> (int \<times> 32 word) outcome" where
  "event_get i s = (if i < length (events s) then Ret (events s ! i) else UB Out_of_bounds)"

definition serve_request :: "http_choice \<Rightarrow> nat \<Rightarrow> int \<Rightarrow> http \<Rightarrow> http outcome" where
  "serve_request c n fd s =
     and_then (event_get n s) (\<lambda>(rfd, _).
     and_then (recv_loop (hc_sz c) rfd fd s) (\<lambda>(ret, s1).
     and_then (if ret > 0 then and_then (count_request (hc_now c) s1) (\<lambda>s2. Ret (http_send fd (hc_taken c) s2)) else Ret s1) (\<lambda>s3.
     Ret (s3\<lparr>h_k := k_close fd (snd (epoll_ctl_del fd (h_k s3)))\<rparr>))))"

definition http_event :: "http_choice \<Rightarrow> nat \<Rightarrow> nat \<Rightarrow> http \<Rightarrow> http outcome option" where
  "http_event c n i s =
     (case event_get i s of
        Ret (fd, evs) \<Rightarrow>
          if fd = listenfd s then
            map_option (\<lambda>r. and_then r (\<lambda>k. Ret (s\<lparr>h_k := k\<rparr>))) (http_accept_loop (hc_acc c) (listenfd s) 0 (h_k s))
          else if evs AND EPOLLIN \<noteq> 0 then Some (serve_request c n fd s)
          else if evs AND EPOLLOUT \<noteq> 0 then
            Some (Ret (let s1 = http_send fd (hc_taken c) s in s1\<lparr>h_k := k_close fd (h_k s1)\<rparr>))
          else Some (Ret (s\<lparr>h_k := k_close fd (h_k s)\<rparr>))
      | Blocked \<Rightarrow> Some Blocked | UB u \<Rightarrow> Some (UB u) | Exit e \<Rightarrow> Some (Exit e))"

fun http_events :: "http_choice list \<Rightarrow> nat \<Rightarrow> nat \<Rightarrow> http \<Rightarrow> http outcome option" where
  "http_events [] n i s = Some (Ret s)"
| "http_events (c # cs) n i s =
     (case http_event c n i s of
        None \<Rightarrow> None
      | Some (Ret s') \<Rightarrow> http_events cs n (Suc i) s'
      | Some r \<Rightarrow> Some r)"

text \<open>
  \<open>epoll_wait\<close> writes the entries to the front of \<open>events\<close>; it may return \<open>EVENTS_ASKED\<close> entries, more
  than the array has. It reports what was asked for (\<open>EPOLLIN\<close>) and errors, for different monitored descriptors.
\<close>

definition epoll_wait_ok :: "(int \<times> 32 word) list \<Rightarrow> http \<Rightarrow> bool" where
  "epoll_wait_ok es s \<longleftrightarrow> length es \<le> EVENTS_ASKED \<and> distinct (map fst es) \<and> set (map fst es) \<subseteq> interest (h_k s) \<and>
     list_all (\<lambda>(_, evs). evs AND EPOLLOUT = 0) es"

definition epoll_loop :: "((int \<times> 32 word) \<times> http_choice) list \<Rightarrow> http \<Rightarrow> http outcome option" where
  "epoll_loop ecs s =
     (let n = length ecs in
      if n > length (events s) then Some (UB Out_of_bounds)
      else http_events (map snd ecs) n 0 (s\<lparr>events := map fst ecs @ drop n (events s)\<rparr>))"

datatype http_label =
    Http_round "((int \<times> 32 word) \<times> http_choice) list"
  | Http_connect
  | Http_send int string
  | Http_peer int peer

text \<open>A round that never ends does not lead to a further state: it is \<open>Blocked\<close> here.\<close>

fun http_step :: "http_label \<Rightarrow> http \<Rightarrow> http outcome" where
  "http_step (Http_round ecs) s =
     (if epoll_wait_ok (map fst ecs) s then (case epoll_loop ecs s of None \<Rightarrow> Blocked | Some r \<Rightarrow> r) else Blocked)"
| "http_step Http_connect s = Ret (s\<lparr>h_k := (h_k s)\<lparr>backlog := Suc (backlog (h_k s))\<rparr>\<rparr>)"
| "http_step (Http_send fd d) s =
     Ret (s\<lparr>h_k := (h_k s)\<lparr>conns := (conns (h_k s))(fd := (conns (h_k s) fd)\<lparr>unread := unread (conns (h_k s) fd) @ d\<rparr>)\<rparr>\<rparr>)"
| "http_step (Http_peer fd p) s =
     Ret (s\<lparr>h_k := (h_k s)\<lparr>conns := (conns (h_k s))(fd := (conns (h_k s) fd)\<lparr>peer := p\<rparr>)\<rparr>\<rparr>)"

end
