(* ===== verification/Epoll_Http_Theorems.thy ===== *)
theory Epoll_Http_Theorems
  imports Epoll_Http
begin

text \<open>
  What a round of \<open>epoll_loop\<close> of \<open>src/epoll/epoll_threadpool.c\<close> does: which descriptors it closes, when it
  leaves the array \<open>events\<close>, when the loop over \<open>accept\<close> ends, and what receiving from \<open>events[n]\<close> instead of
  \<open>events[i]\<close> means for the clients.
\<close>

section \<open>One event\<close>

text \<open>Which parts of the state the work on the connection \<open>fd\<close> leaves alone, and that the connection is closed.\<close>

definition http_frame :: "http \<Rightarrow> http \<Rightarrow> bool" where
  "http_frame s t \<longleftrightarrow> events t = events s \<and> h_base t = h_base s \<and> listenfd t = listenfd s"

definition open_fds :: "http \<Rightarrow> int set" where
  "open_fds s = dom (fds (k_os (h_k s)))"

definition closed_conn :: "int \<Rightarrow> http \<Rightarrow> http \<Rightarrow> bool" where
  "closed_conn fd s t \<longleftrightarrow> open_fds t = open_fds s - {fd} \<and> interest (h_k t) = interest (h_k s) - {fd} \<and> backlog (h_k t) = backlog (h_k s)"

lemma http_frame_refl [simp]: "http_frame s s"
  by (simp add: http_frame_def)

lemma http_frame_trans: "http_frame s t \<Longrightarrow> http_frame t u \<Longrightarrow> http_frame s u"
  by (simp add: http_frame_def)

lemma http_frame_kernel [simp]: "http_frame s (s\<lparr>h_k := k\<rparr>)"
  by (simp add: http_frame_def)

lemma epoll_ctl_del_simps [simp]:
  "k_os (snd (epoll_ctl_del fd k)) = k_os k" "interest (snd (epoll_ctl_del fd k)) = interest k - {fd}"
  "backlog (snd (epoll_ctl_del fd k)) = backlog k" "conns (snd (epoll_ctl_del fd k)) = conns k"
  by (auto simp: epoll_ctl_del_def)

lemma k_close_fds [simp]: "dom (fds (k_os (k_close fd k))) = dom (fds (k_os k)) - {fd}"
  by (auto simp: k_close_def sys_close_def)

lemma http_recv_same: "http_recv sz fd s = Ret (r, k) \<Longrightarrow> k_os k = k_os (h_k s) \<and> interest k = interest (h_k s) \<and> backlog k = backlog (h_k s)"
  by (auto simp: http_recv_def dest: k_read_same split: if_splits)

lemma recv_loop_effect:
  "recv_loop sz rfd fd s = Ret (ret, t) \<Longrightarrow>
     http_frame s t \<and> replies t = replies s \<and> count111 t = count111 s \<and> backlog (h_k t) = backlog (h_k s) \<and>
     open_fds s - {fd} \<subseteq> open_fds t \<and> open_fds t \<subseteq> open_fds s \<and>
     interest (h_k s) - {fd} \<subseteq> interest (h_k t) \<and> interest (h_k t) \<subseteq> interest (h_k s)"
proof (induction sz rfd fd s rule: recv_loop.induct)
  case (1 sz rfd fd s)
  note unfold = 1(2) [unfolded recv_loop.simps [of sz rfd fd s]]
  obtain r k where r: "http_recv (sz (length (unread (conns (h_k s) rfd)))) rfd s = Ret (r, k)"
    using unfold by (cases "http_recv (sz (length (unread (conns (h_k s) rfd)))) rfd s") auto
  note k = http_recv_same [OF r]
  show ?case
  proof (cases r)
    case (Data d)
    show ?thesis
    proof (cases "length d = 1024")
      case True
      with unfold r Data have "recv_loop sz rfd fd (s\<lparr>h_k := k\<rparr>) = Ret (ret, t)" by simp
      from 1(1) [OF r [unfolded Data] refl refl True this] show ?thesis using k by (simp add: http_frame_def open_fds_def)
    next
      case False
      with unfold r Data have "t = s\<lparr>h_k := k\<rparr>" by simp
      with k show ?thesis by (simp add: http_frame_def open_fds_def)
    qed
  next
    case End_of_file
    with unfold r have "t = s\<lparr>h_k := k\<rparr>" by simp
    with k show ?thesis by (simp add: http_frame_def open_fds_def)
  next
    case (Read_error e)
    with unfold r have "t = s\<lparr>h_k := k\<rparr> \<or> t = s\<lparr>h_k := k_close fd (snd (epoll_ctl_del fd k))\<rparr>" by (simp split: if_splits)
    then show ?thesis by (elim disjE) (simp_all add: k http_frame_def open_fds_def)
  qed
qed

lemma http_send_simps [simp]:
  "h_k (http_send fd n s) = h_k s" "http_frame s (http_send fd n s)" "open_fds (http_send fd n s) = open_fds s" "count111 (http_send fd n s) = count111 s"
  by (auto simp: http_send_def http_frame_def open_fds_def)

lemma count_request_same: "count_request now s = Ret t \<Longrightarrow> h_k t = h_k s \<and> http_frame s t \<and> replies t = replies s"
  by (auto simp: count_request_def http_frame_def outcome_simps split: if_splits)

lemma serve_request_effect:
  assumes "serve_request c n fd s = Ret t"
  shows "http_frame s t \<and> closed_conn fd s t"
proof -
  obtain rfd e ret s1 s3 where s1: "recv_loop (hc_sz c) rfd fd s = Ret (ret, s1)"
    and s3: "(if ret > 0 then and_then (count_request (hc_now c) s1) (\<lambda>s2. Ret (http_send fd (hc_taken c) s2)) else Ret s1) = Ret s3"
    and t: "t = s3\<lparr>h_k := k_close fd (snd (epoll_ctl_del fd (h_k s3)))\<rparr>"
    using assms unfolding serve_request_def and_then_Ret_iff split_paired_Ex prod.case outcome.inject by blast
  from s3 have "h_k s3 = h_k s1 \<and> http_frame s1 s3"
    by (auto simp: outcome_simps http_frame_def dest!: count_request_same split: if_splits)
      (use http_send_simps(2) in \<open>auto simp: http_frame_def\<close>)
  with recv_loop_effect [OF s1] t show ?thesis
    by (auto simp: http_frame_def closed_conn_def open_fds_def)
qed

section \<open>The loop over accept\<close>

lemma fd_Setnonblocking_dom: "dom (fds (snd (fd_Setnonblocking g h fd s))) = dom (fds s)"
  by (auto simp: fd_Setnonblocking_def fcntl_setfl_def Let_def split: option.splits)

lemma fd_Setnonblocking_other: "f \<noteq> fd \<Longrightarrow> fds (snd (fd_Setnonblocking g h fd s)) f = fds s f"
  by (auto simp: fd_Setnonblocking_def fcntl_setfl_def Let_def split: option.splits)

lemma add_connection_simps:
  "dom (fds (k_os (add_connection a fd k))) = dom (fds (k_os k))" "backlog (add_connection a fd k) = backlog k"
  "f \<noteq> fd \<Longrightarrow> fds (k_os (add_connection a fd k)) f = fds (k_os k) f"
  "interest k \<subseteq> interest (add_connection a fd k)" "interest (add_connection a fd k) \<subseteq> insert fd (interest k)"
  "0 \<le> aa_ctl a \<Longrightarrow> fd \<in> dom (fds (k_os k)) \<Longrightarrow> interest (add_connection a fd k) = insert fd (interest k)"
  by (auto simp: add_connection_def epoll_ctl_add_def fd_Setnonblocking_dom fd_Setnonblocking_other)

text \<open>The loop ends when every waiting connection can be accepted.\<close>

lemma http_accept_loop_ends:
  assumes "sfd \<in> dom (fds (k_os k))" "nonblocking sfd k" "interest k \<subseteq> dom (fds (k_os k))"
    and "\<And>i. j \<le> i \<Longrightarrow> 0 < aa_fd (acc i) \<and> aa_fd (acc i) \<notin> dom (fds (k_os k)) \<and> 0 \<le> aa_ctl (acc i)"
    and "inj (aa_fd \<circ> acc)"
  shows "\<exists>k'. http_accept_loop acc sfd j k = Some (Ret k') \<and> backlog k' = 0 \<and>
     interest k' = interest k \<union> (aa_fd \<circ> acc) ` {j..<j + backlog k}"
  using assms(1-4)
proof (induction "backlog k" arbitrary: j k)
  case 0
  have "k_accept sfd (aa_fd (acc j)) k = Ret (- 1, k)" using 0 by (simp add: k_accept_def)
  then have "http_accept_loop acc sfd j k = Some (Ret k)"
    using 0 by (subst http_accept_loop.simps) (auto simp: accept_errno_def)
  with 0(1) show ?case by simp
next
  case (Suc b)
  let ?fd = "aa_fd (acc j)"
  have fd: "0 < ?fd" "?fd \<notin> dom (fds (k_os k))" "0 \<le> aa_ctl (acc j)" using Suc.prems(4) [of j] by auto
  define k' where "k' = k\<lparr>k_os := sys_open ?fd (k_os k), backlog := backlog k - 1, conns := (conns k)(?fd := \<lparr>unread = [], peer = Live\<rparr>)\<rparr>"
  have "k_accept sfd ?fd k = Ret (?fd, k')" using Suc(2) Suc.prems(1) fd by (simp add: k_accept_def k'_def)
  then have loop: "http_accept_loop acc sfd j k = http_accept_loop acc sfd (Suc j) (add_connection (acc j) ?fd k')"
    using fd(1) by (subst http_accept_loop.simps) simp
  have d: "dom (fds (k_os k')) = insert ?fd (dom (fds (k_os k)))" using fd(1) by (simp add: k'_def sys_open_def)
  have ne: "sfd \<noteq> ?fd" using Suc.prems(1) fd(2) by auto
  let ?k = "add_connection (acc j) ?fd k'"
  have "fds (k_os ?k) sfd = fds (k_os k) sfd" using ne fd(1) by (simp add: add_connection_simps(3) k'_def sys_open_def)
  then have nb: "nonblocking sfd ?k" using Suc.prems(2) by (simp add: nonblocking_def)
  have i: "interest ?k = insert ?fd (interest k)" using fd(3) d by (simp add: add_connection_simps(6)) (simp add: k'_def)
  have "\<exists>k''. http_accept_loop acc sfd (Suc j) ?k = Some (Ret k'') \<and> backlog k'' = 0 \<and>
     interest k'' = interest ?k \<union> (aa_fd \<circ> acc) ` {Suc j..<Suc j + backlog ?k}"
  proof (rule Suc.hyps(1))
    show "b = backlog ?k" using Suc(2) by (simp add: add_connection_simps k'_def)
    show "sfd \<in> dom (fds (k_os ?k))" using Suc.prems(1) d by (simp add: add_connection_simps)
    show "nonblocking sfd ?k" by (rule nb)
    show "interest ?k \<subseteq> dom (fds (k_os ?k))" using i Suc.prems(3) d by (auto simp: add_connection_simps(1))
    fix l assume "Suc j \<le> l"
    then have "?fd \<noteq> aa_fd (acc l)" using injD [OF assms(5), of j l] by auto
    with \<open>Suc j \<le> l\<close> show "0 < aa_fd (acc l) \<and> aa_fd (acc l) \<notin> dom (fds (k_os ?k)) \<and> 0 \<le> aa_ctl (acc l)"
      using Suc.prems(4) [of l] d by (auto simp: add_connection_simps(1))
  qed
  moreover have "backlog ?k = b" using Suc(2) by (simp add: add_connection_simps k'_def)
  moreover have "{j..<j + backlog k} = insert j {Suc j..<Suc j + b}" using Suc(2) by auto
  ultimately show ?case using loop i by auto
qed

text \<open>It never ends when a connection waits and the kernel has no descriptor for it.\<close>

lemma http_accept_loop_spins:
  assumes "sfd \<in> dom (fds (k_os k))" "0 < backlog k" "\<And>i. aa_fd (acc i) < 0 \<and> aa_errno (acc i) \<noteq> EAGAIN"
  shows "http_accept_loop acc sfd j k = None"
proof -
  have a: "k_accept sfd (aa_fd (acc i)) k = Ret (- 1, k)" "accept_errno (acc i) sfd k \<noteq> EAGAIN" for i
    using assms by (auto simp: k_accept_def accept_errno_def)
  have "\<not> (acc = acc \<and> sfd = sfd \<and> k = k)" if "http_accept_loop acc sfd j k = Some r" for r
    using _ that
  proof (rule http_accept_loop.raw_induct [where P = "\<lambda>acc' sfd' j k' r. \<not> (acc' = acc \<and> sfd' = sfd \<and> k' = k)"])
    fix loop :: "(nat \<Rightarrow> http_accept) \<Rightarrow> int \<Rightarrow> nat \<Rightarrow> kernel \<Rightarrow> kernel outcome option" and acc' sfd' i k' r
    assume IH: "\<And>acc' sfd' j k' r. loop acc' sfd' j k' = Some r \<Longrightarrow> \<not> (acc' = acc \<and> sfd' = sfd \<and> k' = k)"
      and body: "(case k_accept sfd' (aa_fd (acc' i)) k' of
        Ret (fd, k'') \<Rightarrow>
          if fd > 0 then loop acc' sfd' (Suc i) (add_connection (acc' i) fd k'')
          else if (if fd = - 1 then accept_errno (acc' i) sfd' k' else aa_errno (acc' i)) = EAGAIN then Some (Ret k'')
          else loop acc' sfd' (Suc i) k''
      | Blocked \<Rightarrow> Some Blocked | UB u \<Rightarrow> Some (UB u) | Exit n \<Rightarrow> Some (Exit n)) = Some r"
    show "\<not> (acc' = acc \<and> sfd' = sfd \<and> k' = k)"
      using IH [of acc sfd "Suc i" k r] body a [of i] by (auto split: if_splits)
  qed
  then show ?thesis by (cases "http_accept_loop acc sfd j k") auto
qed

text \<open>Whatever the kernel answers, the loop only opens new descriptors and monitors some of them.\<close>

definition more_fds :: "kernel \<Rightarrow> kernel \<Rightarrow> bool" where
  "more_fds k k' \<longleftrightarrow> dom (fds (k_os k)) \<subseteq> dom (fds (k_os k')) \<and> interest k \<subseteq> interest k' \<and>
     interest k' \<inter> dom (fds (k_os k)) \<subseteq> interest k"

lemma more_fds_trans: "more_fds k k' \<Longrightarrow> more_fds k' k'' \<Longrightarrow> more_fds k k''"
  unfolding more_fds_def by blast

lemma accepted_more_fds:
  assumes "k_accept sfd r k = Ret (fd, k')" "0 < fd"
  shows "more_fds k (add_connection a fd k')"
proof -
  note l = k_accept_less [OF assms(1)]
  have "dom (fds (k_os k')) = insert fd (dom (fds (k_os k)))" "interest k' = interest k" "fd \<notin> dom (fds (k_os k))"
    using l assms(2) by (simp_all add: sys_open_def)
  then show ?thesis
    using add_connection_simps(1) [of a fd k'] add_connection_simps(4) [of k' a fd] add_connection_simps(5) [of a fd k']
    unfolding more_fds_def by auto
qed

lemma k_accept_zero_more_fds: "k_accept sfd r k = Ret (fd, k') \<Longrightarrow> more_fds k k'"
  by (auto simp: k_accept_def more_fds_def sys_open_def split: if_splits)

lemma http_accept_loop_cases:
  assumes "http_accept_loop acc sfd j k = Some r"
  shows "r = Blocked \<or> (\<exists>k'. r = Ret k' \<and> more_fds k k')"
  using _ assms
proof (rule http_accept_loop.raw_induct [where P = "\<lambda>acc sfd j k r. r = Blocked \<or> (\<exists>k'. r = Ret k' \<and> more_fds k k')"])
  fix loop :: "(nat \<Rightarrow> http_accept) \<Rightarrow> int \<Rightarrow> nat \<Rightarrow> kernel \<Rightarrow> kernel outcome option" and acc sfd j k r
  assume IH: "\<And>acc sfd j k r. loop acc sfd j k = Some r \<Longrightarrow> r = Blocked \<or> (\<exists>k'. r = Ret k' \<and> more_fds k k')"
    and body: "(case k_accept sfd (aa_fd (acc j)) k of
      Ret (fd, k'') \<Rightarrow>
        if fd > 0 then loop acc sfd (Suc j) (add_connection (acc j) fd k'')
        else if (if fd = - 1 then accept_errno (acc j) sfd k else aa_errno (acc j)) = EAGAIN then Some (Ret k'')
        else loop acc sfd (Suc j) k''
    | Blocked \<Rightarrow> Some Blocked | UB u \<Rightarrow> Some (UB u) | Exit n \<Rightarrow> Some (Exit n)) = Some r"
  show "r = Blocked \<or> (\<exists>k'. r = Ret k' \<and> more_fds k k')"
  proof (cases "k_accept sfd (aa_fd (acc j)) k")
    case (Ret p)
    obtain fd k1 where p: "p = (fd, k1)" by (cases p)
    note more = k_accept_zero_more_fds [OF Ret [unfolded p]]
    show ?thesis
    proof (cases "0 < fd")
      case True
      with body Ret p have "loop acc sfd (Suc j) (add_connection (acc j) fd k1) = Some r" by simp
      from IH [OF this] accepted_more_fds [OF Ret [unfolded p] True] show ?thesis by (blast intro: more_fds_trans)
    next
      case False
      with body Ret p have "r = Ret k1 \<or> loop acc sfd (Suc j) k1 = Some r" by (auto split: if_splits)
      with IH [of acc sfd "Suc j" k1 r] more show ?thesis by (blast intro: more_fds_trans)
    qed
  next
    case (UB u)
    then show ?thesis by (simp add: k_accept_def split: if_splits)
  next
    case (Exit n)
    then show ?thesis by (simp add: k_accept_def split: if_splits)
  qed (use body in simp)
qed

section \<open>A round\<close>

text \<open>
  \<open>unwritten_from m s\<close>: the entries of \<open>events\<close> from \<open>m\<close> on were never written, so they hold the descriptor 0, which
  is open, not monitored and not a connection; and nothing was sent to anybody.
\<close>

definition silent :: "http \<Rightarrow> bool" where
  "silent s \<longleftrightarrow> length (events s) = EVENTS_SIZE \<and> 0 \<in> h_base s \<and> 0 \<in> open_fds s \<and> 0 \<notin> interest (h_k s) \<and> replies s = (\<lambda>_. [])"

definition unwritten_from :: "nat \<Rightarrow> http \<Rightarrow> bool" where
  "unwritten_from m s \<longleftrightarrow> silent s \<and> drop m (events s) = replicate (EVENTS_SIZE - m) (0, 0)"

lemma recv_zero:
  assumes "silent s"
  shows "recv_loop sz 0 fd s = Ret (- 1, s\<lparr>h_k := k_close fd (snd (epoll_ctl_del fd (h_k s)))\<rparr>)"
  using assms by (subst recv_loop.simps) (simp add: http_recv_def silent_def open_fds_def EAGAIN_def ENOTSOCK_def ENOTCONN_def)

text \<open>A request is not answered while \<open>events[n]\<close> was never written; the connection is closed twice.\<close>

lemma serve_request_silent:
  assumes "silent s" "event_get n s = Ret (0, m)"
  shows "serve_request c n fd s = Ret (s\<lparr>h_k := k_close fd (k_close fd (snd (epoll_ctl_del fd (h_k s))))\<rparr>)"
  using assms by (simp add: serve_request_def recv_zero) (simp add: epoll_ctl_del_def)

definition event_plain :: "nat \<Rightarrow> http \<Rightarrow> bool" where
  "event_plain i s \<longleftrightarrow> fst (events s ! i) \<noteq> 0 \<and> snd (events s ! i) AND EPOLLOUT = 0"

lemma silent_close: "silent s \<Longrightarrow> fd \<noteq> 0 \<Longrightarrow> silent (s\<lparr>h_k := k_close fd (h_k s)\<rparr>)"
  by (auto simp: silent_def open_fds_def)

lemma event_silent:
  assumes "http_event c n i s = Some (Ret t)" "silent s" "event_plain i s" "n < EVENTS_SIZE \<Longrightarrow> events s ! n = (0, 0)"
  shows "silent t \<and> http_frame s t"
proof -
  obtain fd m where g: "event_get i s = Ret (fd, m)" "i < length (events s)" "events s ! i = (fd, m)"
    using assms(1) by (cases "events s ! i") (auto simp: http_event_def event_get_def split: if_splits)
  have fd: "fd \<noteq> 0" "m AND EPOLLOUT = 0" using assms(3) g(3) by (simp_all add: event_plain_def)
  consider (listen) "fd = listenfd s" | (request) "fd \<noteq> listenfd s" "m AND EPOLLIN \<noteq> 0" | (other) "fd \<noteq> listenfd s" "m AND EPOLLIN = 0" by blast
  then show ?thesis
  proof cases
    case listen
    then obtain k where k: "http_accept_loop (hc_acc c) (listenfd s) 0 (h_k s) = Some (Ret k)" "t = s\<lparr>h_k := k\<rparr>"
      using assms(1) g(1) by (auto simp: http_event_def outcome_simps)
    from http_accept_loop_cases [OF k(1)] have "more_fds (h_k s) k" by simp
    with k(2) assms(2) show ?thesis by (auto simp: silent_def open_fds_def more_fds_def)
  next
    case request
    then have sr: "serve_request c n fd s = Ret t" using assms(1) g(1) by (simp add: http_event_def)
    then have "n < EVENTS_SIZE" using assms(2) by (auto simp: serve_request_def event_get_def silent_def split: if_splits)
    with assms(2,4) have "event_get n s = Ret (0, 0)" by (simp add: event_get_def silent_def)
    from serve_request_silent [OF assms(2) this] sr
    have "t = s\<lparr>h_k := k_close fd (k_close fd (snd (epoll_ctl_del fd (h_k s))))\<rparr>" by simp
    then show ?thesis using assms(2) fd(1) by (auto simp: silent_def open_fds_def)
  next
    case other
    then have "t = s\<lparr>h_k := k_close fd (h_k s)\<rparr>" using assms(1) g(1) fd(2) by (simp add: http_event_def)
    then show ?thesis using silent_close [OF assms(2) fd(1)] by simp
  qed
qed

lemma events_silent:
  assumes "http_events cs n i s = Some (Ret t)" "silent s" "\<And>j. i \<le> j \<Longrightarrow> j < i + length cs \<Longrightarrow> event_plain j s"
    "n < EVENTS_SIZE \<Longrightarrow> events s ! n = (0, 0)"
  shows "silent t \<and> http_frame s t"
  using assms
proof (induction cs arbitrary: i s)
  case Nil
  then show ?case by simp
next
  case (Cons c cs)
  from Cons.prems(1) obtain u where u: "http_event c n i s = Some (Ret u)" "http_events cs n (Suc i) u = Some (Ret t)"
    by (auto split: option.splits outcome.splits)
  have "silent u" and f: "http_frame s u"
    using event_silent [OF u(1) Cons.prems(2) _ Cons.prems(4)] Cons.prems(3) [of i] by auto
  moreover have "event_plain j u" if "Suc i \<le> j" "j < Suc i + length cs" for j
    using Cons.prems(3) [of j] that f by (simp add: event_plain_def http_frame_def)
  ultimately have "silent t \<and> http_frame u t"
    using Cons.IH [OF u(2)] Cons.prems(4) by (simp add: http_frame_def)
  with f show ?case by (blast intro: http_frame_trans)
qed

lemma epoll_loop_quiet:
  assumes "epoll_loop ecs s = Some (Ret t)" "epoll_wait_ok (map fst ecs) s" "unwritten_from m s" "m \<le> length ecs"
  shows "unwritten_from (length ecs) t"
proof -
  let ?n = "length ecs"
  let ?s = "s\<lparr>events := map fst ecs @ drop ?n (events s)\<rparr>"
  have n: "?n \<le> EVENTS_SIZE" and h: "http_events (map snd ecs) ?n 0 ?s = Some (Ret t)"
    using assms(1,3) by (auto simp: epoll_loop_def Let_def unwritten_from_def silent_def split: if_splits)
  have d: "drop ?n (events s) = replicate (EVENTS_SIZE - ?n) (0, 0)"
  proof -
    have "drop ?n (events s) = drop (?n - m) (drop m (events s))" using assms(4) by simp
    also have "\<dots> = replicate (EVENTS_SIZE - ?n) (0, 0)" using assms(3,4) by (simp add: unwritten_from_def)
    finally show ?thesis .
  qed
  have "silent ?s" using assms(3) n by (simp add: unwritten_from_def silent_def open_fds_def)
  moreover have "event_plain j ?s" if "j < ?n" for j
  proof -
    have "fst (ecs ! j) \<in> set (map fst ecs)" using that by simp
    then have "fst (fst (ecs ! j)) \<in> interest (h_k s)" "snd (fst (ecs ! j)) AND EPOLLOUT = 0"
      using assms(2) by (force simp: epoll_wait_ok_def list_all_iff)+
    moreover have "0 \<notin> interest (h_k s)" using assms(3) by (simp add: unwritten_from_def silent_def)
    ultimately show ?thesis using that by (auto simp: event_plain_def nth_append)
  qed
  moreover have "events ?s ! ?n = (0, 0)" if "?n < EVENTS_SIZE" using that d by (simp add: nth_append)
  ultimately have "silent t \<and> http_frame ?s t" using events_silent [OF h] by simp
  then show ?thesis using d by (simp add: unwritten_from_def http_frame_def)
qed

section \<open>Executions\<close>

fun round_sizes :: "http_label list \<Rightarrow> nat list" where
  "round_sizes [] = []"
| "round_sizes (Http_round ecs # ls) = length ecs # round_sizes ls"
| "round_sizes (_ # ls) = round_sizes ls"

lemma quiet_peers: "http_step l s = Ret t \<Longrightarrow> unwritten_from m s \<Longrightarrow> (\<And>ecs. l \<noteq> Http_round ecs) \<Longrightarrow> unwritten_from m t"
  by (cases l) (auto simp: unwritten_from_def silent_def open_fds_def)

lemma quiet_run:
  "run http_step ls s = Ret t \<Longrightarrow> unwritten_from m s \<Longrightarrow> sorted (m # round_sizes ls) \<Longrightarrow> \<exists>m. unwritten_from m t"
proof (induction ls arbitrary: m s)
  case Nil
  then show ?case by auto
next
  case (Cons l ls)
  then obtain u where u: "http_step l s = Ret u" "run http_step ls u = Ret t" by (auto simp: outcome_simps)
  show ?case
  proof (cases l)
    case (Http_round ecs)
    with u(1) have "epoll_wait_ok (map fst ecs) s" "epoll_loop ecs s = Some (Ret u)" by (auto split: if_splits option.splits)
    with Cons.prems(2,3) Http_round have "unwritten_from (length ecs) u" by (intro epoll_loop_quiet [of ecs s u m]) auto
    then show ?thesis using Cons.IH [OF u(2)] Cons.prems(3) Http_round by simp
  qed (use Cons.IH [OF u(2)] Cons.prems quiet_peers [OF u(1)] in auto)
qed

lemma http_start_quiet:
  assumes "0 \<in> dom (fds os)" "p_socket a \<noteq> 0"
  shows "unwritten_from 0 (http_start a os)"
proof -
  let ?s = "http_start a os"
  have "0 \<in> dom (fds (k_os (h_k ?s)))"
    using assms(1) by (auto simp: http_start_def Let_def epoll_ctl_add_def sys_open_def fd_Setnonblocking_def fcntl_setfl_def split: option.splits)
  moreover have "dom (fds (k_os (h_k ?s))) = h_base ?s" by (simp add: http_start_def Let_def epoll_ctl_add_def)
  moreover have "interest (h_k ?s) \<subseteq> {p_socket a}" by (auto simp: http_start_def Let_def epoll_ctl_add_def)
  moreover have "events ?s = replicate EVENTS_SIZE (0, 0)" "replies ?s = (\<lambda>_. [])" by (simp_all add: http_start_def Let_def)
  ultimately show ?thesis using assms(2) by (auto simp: unwritten_from_def silent_def open_fds_def)
qed

text \<open>
  C21. The server receives from \<open>events[n]\<close> instead of \<open>events[i]\<close>. As long as no round returns fewer
  events than an earlier one, that entry was never written, \<open>recv\<close> is called on the standard input and fails, and
  no client is ever sent a single byte, whatever the clients send.
\<close>

theorem http_never_answers:
  assumes "0 \<in> dom (fds os)" "p_socket a \<noteq> 0" "run http_step ls (http_start a os) = Ret s" "sorted (round_sizes ls)"
  shows "replies s fd = []"
proof -
  have "\<exists>m. unwritten_from m s" using assms(3) http_start_quiet [OF assms(1,2)] by (rule quiet_run) (use assms(4) in simp)
  then show ?thesis by (auto simp: unwritten_from_def silent_def)
qed

text \<open>
  The loop over \<open>accept\<close>: when the kernel has a descriptor for every waiting connection the loop ends, all of them are
  accepted and monitored and none waits any more; when a connection waits and the kernel refuses each call with
  an error other than \<open>EAGAIN\<close> (no descriptors are left, say) it never returns.
\<close>

theorem http_accept_all:
  assumes "sfd \<in> dom (fds (k_os k))" "nonblocking sfd k" "interest k \<subseteq> dom (fds (k_os k))"
  shows "(inj (aa_fd \<circ> acc) \<and> (\<forall>i. 0 < aa_fd (acc i) \<and> aa_fd (acc i) \<notin> dom (fds (k_os k)) \<and> 0 \<le> aa_ctl (acc i)) \<longrightarrow>
       (\<exists>k'. http_accept_loop acc sfd 0 k = Some (Ret k') \<and> backlog k' = 0 \<and>
          interest k' = interest k \<union> (aa_fd \<circ> acc) ` {..<backlog k})) \<and>
    (0 < backlog k \<and> (\<forall>i. aa_fd (acc i) < 0 \<and> aa_errno (acc i) \<noteq> EAGAIN) \<longrightarrow> http_accept_loop acc sfd 0 k = None)"
  using http_accept_loop_ends [OF assms, of 0 acc] http_accept_loop_spins [OF assms(1), of acc 0]
  by (simp add: lessThan_atLeast0)

section \<open>Bounds of the array\<close>

lemma recv_loop_defined: "recv_loop sz rfd fd s \<noteq> UB u"
proof (induction sz rfd fd s rule: recv_loop.induct)
  case (1 sz rfd fd s)
  let ?r = "http_recv (sz (length (unread (conns (h_k s) rfd)))) rfd s"
  have nub: "?r \<noteq> UB u" by (auto simp: http_recv_def k_read_def Let_def split: peer.splits)
  show ?case
  proof (cases ?r)
    case (Ret p)
    obtain r k where p: "p = (r, k)" by (cases p)
    show ?thesis
    proof (cases r)
      case (Data d)
      show ?thesis
      proof (cases "length d = 1024")
        case True
        have "recv_loop sz rfd fd (s\<lparr>h_k := k\<rparr>) \<noteq> UB u"
          using 1 [OF Ret p [symmetric] Data True] .
        with Ret p Data True show ?thesis by (subst recv_loop.simps) simp
      next
        case False
        with Ret p Data show ?thesis by (subst recv_loop.simps) simp
      qed
    qed (use Ret p in \<open>subst recv_loop.simps, simp\<close>)+
  qed (use nub in \<open>subst recv_loop.simps, simp\<close>)+
qed

lemma count_request_ok:
  assumes "0 \<le> count111 s" "count111 s < INT_MAX"
  shows "\<exists>t. count_request now s = Ret t \<and> 0 \<le> count111 t \<and> count111 t \<le> count111 s + 1"
  using assms by (simp add: count_request_def c_add_def in_int_def INT_MIN_def INT_MAX_def)

lemma event_defined:
  assumes "http_event c n i s = Some r" "n < length (events s)" "i < length (events s)" "0 \<le> count111 s" "count111 s < INT_MAX"
  shows "(\<forall>u. r \<noteq> UB u) \<and> (\<forall>t. r = Ret t \<longrightarrow> http_frame s t \<and> 0 \<le> count111 t \<and> count111 t \<le> count111 s + 1)"
proof -
  obtain fd m where g: "events s ! i = (fd, m)" by (cases "events s ! i")
  consider (listen) "fd = listenfd s" | (request) "fd \<noteq> listenfd s" "m AND EPOLLIN \<noteq> 0" | (other) "fd \<noteq> listenfd s" "m AND EPOLLIN = 0" by blast
  then show ?thesis
  proof cases
    case listen
    then obtain q where q: "http_accept_loop (hc_acc c) (listenfd s) 0 (h_k s) = Some q" "r = and_then q (\<lambda>k. Ret (s\<lparr>h_k := k\<rparr>))"
      using assms(1,3) g by (auto simp: http_event_def event_get_def)
    from http_accept_loop_cases [OF q(1)] q(2) assms(4) show ?thesis by (auto simp: http_frame_def)
  next
    case request
    then have sr: "r = serve_request c n fd s" using assms(1,3) g by (simp add: http_event_def event_get_def)
    obtain rfd e where e: "event_get n s = Ret (rfd, e)" using assms(2) by (cases "events s ! n") (simp add: event_get_def)
    show ?thesis
    proof (cases "recv_loop (hc_sz c) rfd fd s")
      case (Ret p)
      obtain ret s1 where p: "p = (ret, s1)" by (cases p)
      note eff = recv_loop_effect [OF Ret [unfolded p]]
      obtain s2 where s2: "count_request (hc_now c) s1 = Ret s2" "0 \<le> count111 s2" "count111 s2 \<le> count111 s1 + 1"
        using count_request_ok [of s1 "hc_now c"] eff assms(4,5) by auto
      have f: "http_frame s1 s2" using count_request_same [OF s2(1)] by simp
      have "http_frame s2 (http_send fd (hc_taken c) s2)" by simp
      then show ?thesis using eff s2 f sr Ret p e assms(4)
        by (cases "0 < ret") (auto simp: serve_request_def http_frame_def)
    qed (use sr e recv_loop_defined in \<open>auto simp: serve_request_def\<close>)
  next
    case other
    moreover have "http_frame s (http_send fd (hc_taken c) s)" by simp
    moreover obtain s' where "r = Ret (s'\<lparr>h_k := k_close fd (h_k s')\<rparr>)" "s' = s \<or> s' = http_send fd (hc_taken c) s"
      using other assms(1,3) g that [of s] that [of "http_send fd (hc_taken c) s"]
      by (cases "m AND EPOLLOUT = 0") (simp_all add: http_event_def event_get_def Let_def)
    ultimately show ?thesis using assms(4) by (auto simp: http_frame_def)
  qed
qed

lemma events_defined:
  assumes "http_events cs n i s = Some r" "n < length (events s)" "i + length cs \<le> length (events s)"
    "0 \<le> count111 s" "count111 s + int (length cs) \<le> INT_MAX"
  shows "r \<noteq> UB u"
  using assms
proof (induction cs arbitrary: i s)
  case Nil
  then show ?case by auto
next
  case (Cons c cs)
  then obtain q where q: "http_event c n i s = Some q" by (cases "http_event c n i s") auto
  have i: "i < length (events s)" and "count111 s < INT_MAX" using Cons.prems(3,5) by auto
  note d = event_defined [OF q Cons.prems(2) i Cons.prems(4) \<open>count111 s < INT_MAX\<close>]
  show ?case
  proof (cases q)
    case (Ret t)
    with d have t: "http_frame s t" "0 \<le> count111 t" "count111 t \<le> count111 s + 1" by auto
    have "http_events cs n (Suc i) t = Some r" using Cons.prems(1) q Ret by simp
    then show ?thesis by (rule Cons.IH) (use t Cons.prems in \<open>auto simp: http_frame_def\<close>)
  qed (use d q Cons.prems(1) in auto)
qed

text \<open>
  Bounds of \<open>events\<close>: the array has \<open>EVENTS_SIZE\<close> entries, \<open>epoll_wait\<close> is allowed to write
  \<open>EVENTS_ASKED\<close>. A round with more events than entries overruns the array; a round that fills it and starts
  with a request reads behind its end; a round with fewer events has no undefined behaviour, unless the
  number of requests counted in one second exceeds the range of \<open>int\<close>.
\<close>

theorem http_bounds:
  assumes "length (events s) = EVENTS_SIZE"
  shows "(EVENTS_SIZE < length ecs \<longrightarrow> epoll_loop ecs s = Some (UB Out_of_bounds)) \<and>
    (length ecs = EVENTS_SIZE \<and> fst (fst (ecs ! 0)) \<noteq> listenfd s \<and> snd (fst (ecs ! 0)) AND EPOLLIN \<noteq> 0 \<longrightarrow>
       epoll_loop ecs s = Some (UB Out_of_bounds)) \<and>
    (length ecs < EVENTS_SIZE \<and> 0 \<le> count111 s \<and> count111 s + int (length ecs) \<le> INT_MAX \<longrightarrow>
       (\<forall>u. epoll_loop ecs s \<noteq> Some (UB u)))"
proof (intro conjI impI allI)
  assume "EVENTS_SIZE < length ecs"
  then show "epoll_loop ecs s = Some (UB Out_of_bounds)" using assms by (simp add: epoll_loop_def)
next
  assume h: "length ecs = EVENTS_SIZE \<and> fst (fst (ecs ! 0)) \<noteq> listenfd s \<and> snd (fst (ecs ! 0)) AND EPOLLIN \<noteq> 0"
  then obtain e c ecs' where e: "ecs = (e, c) # ecs'" by (cases ecs) (auto simp: EVENTS_SIZE_def)
  with h have "http_event c EVENTS_SIZE 0 (s\<lparr>events := map fst ecs\<rparr>) = Some (UB Out_of_bounds)"
    by (cases e) (simp add: http_event_def event_get_def serve_request_def)
  with h e assms show "epoll_loop ecs s = Some (UB Out_of_bounds)" by (simp add: epoll_loop_def Let_def)
next
  fix u
  assume h: "length ecs < EVENTS_SIZE \<and> 0 \<le> count111 s \<and> count111 s + int (length ecs) \<le> INT_MAX"
  then show "epoll_loop ecs s \<noteq> Some (UB u)"
    using events_defined [of "map snd ecs" "length ecs" 0 "s\<lparr>events := map fst ecs @ drop (length ecs) (events s)\<rparr>" "UB u" u] assms
    by (auto simp: epoll_loop_def Let_def)
qed

section \<open>What is closed\<close>

lemma event_closes:
  assumes "http_event c n i s = Some (Ret t)" "i < length (events s)" "fst (events s ! i) \<noteq> listenfd s"
  shows "http_frame s t \<and> closed_conn (fst (events s ! i)) s t"
proof -
  obtain fd m where g: "events s ! i = (fd, m)" by (cases "events s ! i")
  show ?thesis
  proof (cases "m AND EPOLLIN = 0")
    case True
    have "t = s\<lparr>h_k := k_close fd (h_k s)\<rparr> \<or> t = (http_send fd (hc_taken c) s)\<lparr>h_k := k_close fd (h_k s)\<rparr>"
      using True assms g by (cases "m AND EPOLLOUT = 0") (auto simp: http_event_def event_get_def Let_def)
    moreover have "http_frame s (http_send fd (hc_taken c) s)" by simp
    ultimately show ?thesis using g by (elim disjE) (simp_all add: http_frame_def closed_conn_def open_fds_def)
  next
    case False
    with assms g show ?thesis by (auto simp: http_event_def event_get_def dest: serve_request_effect)
  qed
qed

lemma events_close:
  assumes "http_events cs n i s = Some (Ret t)" "i + length cs \<le> length (events s)"
    "\<And>j. i \<le> j \<Longrightarrow> j < i + length cs \<Longrightarrow> fst (events s ! j) \<noteq> listenfd s"
  shows "open_fds t = open_fds s - (\<lambda>j. fst (events s ! j)) ` {i..<i + length cs} \<and>
    interest (h_k t) = interest (h_k s) - (\<lambda>j. fst (events s ! j)) ` {i..<i + length cs} \<and> backlog (h_k t) = backlog (h_k s)"
  using assms
proof (induction cs arbitrary: i s)
  case Nil
  then show ?case by simp
next
  case (Cons c cs)
  from Cons.prems(1) obtain u where u: "http_event c n i s = Some (Ret u)" "http_events cs n (Suc i) u = Some (Ret t)"
    by (auto split: option.splits outcome.splits)
  have e: "http_frame s u" "closed_conn (fst (events s ! i)) s u"
    using event_closes [OF u(1)] Cons.prems(2,3) by auto
  let ?rest = "(\<lambda>j. fst (events s ! j)) ` {Suc i..<Suc i + length cs}"
  have ev: "events u = events s" using e(1) by (simp add: http_frame_def)
  have "open_fds t = open_fds u - (\<lambda>j. fst (events u ! j)) ` {Suc i..<Suc i + length cs} \<and>
    interest (h_k t) = interest (h_k u) - (\<lambda>j. fst (events u ! j)) ` {Suc i..<Suc i + length cs} \<and> backlog (h_k t) = backlog (h_k u)"
    by (rule Cons.IH [OF u(2)]) (use Cons.prems e(1) in \<open>auto simp: http_frame_def\<close>)
  then have t: "open_fds t = open_fds s - {fst (events s ! i)} - ?rest" "interest (h_k t) = interest (h_k s) - {fst (events s ! i)} - ?rest"
    "backlog (h_k t) = backlog (h_k s)"
    using e(2) unfolding closed_conn_def ev by simp_all
  have "{i..<i + length (c # cs)} = insert i {Suc i..<Suc i + length cs}" by auto
  then have i: "(\<lambda>j. fst (events s ! j)) ` {i..<i + length (c # cs)} = insert (fst (events s ! i)) ?rest" by (simp only: image_insert)
  show ?case unfolding i using t by (intro conjI) (auto simp only: Diff_iff insert_iff)
qed

text \<open>
  One request per connection: a round with events of connections only closes exactly these connections
  and takes them out of the interest set; the others stay open.
\<close>

theorem http_closes:
  assumes "epoll_loop ecs s = Some (Ret t)" "listenfd s \<notin> fst ` fst ` set ecs"
  shows "open_fds t = open_fds s - fst ` fst ` set ecs \<and> interest (h_k t) = interest (h_k s) - fst ` fst ` set ecs \<and>
    backlog (h_k t) = backlog (h_k s)"
proof -
  let ?s = "s\<lparr>events := map fst ecs @ drop (length ecs) (events s)\<rparr>"
  have h: "http_events (map snd ecs) (length ecs) 0 ?s = Some (Ret t)" "length ecs \<le> length (events s)"
    using assms(1) by (auto simp: epoll_loop_def Let_def split: if_splits)
  have j: "events ?s ! j = fst (ecs ! j)" if "j < length ecs" for j using that by (simp add: nth_append)
  then have "(\<lambda>j. fst (events ?s ! j)) ` {0..<length ecs} = (\<lambda>j. fst (fst (ecs ! j))) ` {0..<length ecs}"
    by (intro image_cong) auto
  also have "\<dots> = (fst \<circ> fst) ` (!) ecs ` {0..<length ecs}" by (simp add: image_comp comp_def)
  also have "\<dots> = fst ` fst ` set ecs" by (simp add: nth_image image_comp)
  finally have im: "(\<lambda>j. fst (events ?s ! j)) ` {0..<length ecs} = fst ` fst ` set ecs" .
  have "fst (events ?s ! j) \<noteq> listenfd ?s" if "j < length ecs" for j
  proof -
    have "fst (fst (ecs ! j)) \<in> fst ` fst ` set ecs" using that by simp
    with assms(2) have "fst (fst (ecs ! j)) \<noteq> listenfd s" by metis
    with j [OF that] show ?thesis by simp
  qed
  from events_close [OF h(1) _ this] h(2) im show ?thesis by (simp add: open_fds_def)
qed

section \<open>Example executions\<close>

definition hdemo_os :: os where
  "hdemo_os = \<lparr>fds = [0 \<mapsto> O_RDWR, 1 \<mapsto> O_RDWR, 2 \<mapsto> O_RDWR], stray_closes = 0\<rparr>"

definition hdemo_answers :: http_answers where
  "hdemo_answers = \<lparr>p_socket = 3, p_getfl = 0, p_setfl = 0, p_epoll = 4, p_ctl = 0\<rparr>"

definition hdemo_acc :: "nat \<Rightarrow> http_accept" where
  "hdemo_acc i = \<lparr>aa_fd = 5 + int i, aa_errno = 0, aa_getfl = 0, aa_setfl = 0, aa_ctl = 0\<rparr>"

definition hdemo_choice :: http_choice where
  "hdemo_choice = \<lparr>hc_acc = hdemo_acc, hc_sz = (\<lambda>n. n), hc_taken = length http_reply, hc_now = 1\<rparr>"

definition hdemo_in :: "int \<Rightarrow> (int \<times> 32 word) \<times> http_choice" where
  "hdemo_in fd = ((fd, EPOLLIN), hdemo_choice)"

text \<open>One client connects and sends a request; the connection is closed without an answer.\<close>

definition hdemo_single :: "http_label list" where
  "hdemo_single = [Http_connect, Http_round [hdemo_in 3], Http_send 5 ''x'', Http_round [hdemo_in 5]]"

text \<open>
  Two clients are served together (and not answered); then two others get the same descriptors, both send a
  request, and the event of the first one is reported first.
\<close>

definition hdemo_double :: "http_label list" where
  "hdemo_double = [Http_connect, Http_connect, Http_round [hdemo_in 3], Http_round [hdemo_in 5, hdemo_in 6],
     Http_connect, Http_connect, Http_round [hdemo_in 3], Http_send 5 ''x'', Http_send 6 ''y'', Http_round [hdemo_in 5]]"

lemmas hdemo_defs = hdemo_os_def hdemo_answers_def hdemo_acc_def hdemo_choice_def hdemo_in_def http_start_def Let_def
  fd_Setnonblocking_def fcntl_getfl_def fcntl_setfl_def sys_open_def sys_close_def epoll_ctl_add_def epoll_ctl_del_def k_close_def
  O_RDWR_def O_NONBLOCK_def EPOLLIN_def EPOLLOUT_def EPOLLERR_def EPOLLHUP_def EVENTS_SIZE_def EVENTS_ASKED_def
  epoll_wait_ok_def epoll_loop_def http_event_def event_get_def serve_request_def http_recv_def k_read_def read_size_def
  count_request_def http_send_def c_add_def c_int_def k_accept_def accept_errno_def add_connection_def nonblocking_def
  EAGAIN_def EBADF_def ENOTSOCK_def ENOTCONN_def http_accept_loop.simps recv_loop.simps nth_append

lemma hdemo_single_runs: "\<exists>s. run http_step hdemo_single (http_start hdemo_answers hdemo_os) = Ret s \<and> 5 \<notin> open_fds s \<and> stray_closes (k_os (h_k s)) = 1"
  by (simp add: hdemo_single_def hdemo_defs open_fds_def)

text \<open>
  There is an execution in which the request of one client is read in place of another's: the answer for
  the event of descriptor 5 is sent because bytes of descriptor 6 arrived, the bytes of 5 are not read, and those of 6 are gone.
\<close>

theorem http_wrong_client:
  "\<exists>s. run http_step hdemo_double (http_start hdemo_answers hdemo_os) = Ret s \<and>
     replies s 5 = http_reply \<and> unread (conns (h_k s) 5) = ''x'' \<and> 5 \<notin> open_fds s \<and>
     replies s 6 = [] \<and> unread (conns (h_k s) 6) = [] \<and> 6 \<in> open_fds s"
  by (simp add: hdemo_double_def hdemo_defs open_fds_def in_int_def INT_MIN_def INT_MAX_def)

theorem http_never_answers_witness:
  "\<exists>s. run http_step hdemo_single (http_start hdemo_answers hdemo_os) = Ret s \<and> replies s 5 = []"
proof -
  obtain s where s: "run http_step hdemo_single (http_start hdemo_answers hdemo_os) = Ret s" using hdemo_single_runs by blast
  have "replies s 5 = []"
    by (rule http_never_answers [OF _ _ s]) (simp_all add: hdemo_os_def hdemo_answers_def hdemo_single_def)
  with s show ?thesis by blast
qed

definition hdemo_kernel :: kernel where
  "hdemo_kernel = (h_k (http_start hdemo_answers hdemo_os))\<lparr>backlog := 2\<rparr>"

lemma hdemo_kernel_facts: "dom (fds (k_os hdemo_kernel)) = {0, 1, 2, 3, 4}" "nonblocking 3 hdemo_kernel" "interest hdemo_kernel = {3}" "backlog hdemo_kernel = 2"
  by (auto simp: hdemo_kernel_def hdemo_defs split: if_splits)

definition hdemo_refused :: "nat \<Rightarrow> http_accept" where
  "hdemo_refused i = \<lparr>aa_fd = - 1, aa_errno = 24, aa_getfl = 0, aa_setfl = 0, aa_ctl = 0\<rparr>"

theorem http_accept_all_witness:
  "(\<exists>k. http_accept_loop hdemo_acc 3 0 hdemo_kernel = Some (Ret k) \<and> backlog k = 0 \<and> {3, 5, 6} \<subseteq> interest k) \<and>
   http_accept_loop hdemo_refused 3 0 hdemo_kernel = None"
proof -
  note k = hdemo_kernel_facts
  have a: "3 \<in> dom (fds (k_os hdemo_kernel))" "interest hdemo_kernel \<subseteq> dom (fds (k_os hdemo_kernel))" by (simp_all add: k)
  have "inj (aa_fd \<circ> hdemo_acc)" by (simp add: inj_def hdemo_acc_def)
  moreover have "\<forall>i. 0 < aa_fd (hdemo_acc i) \<and> aa_fd (hdemo_acc i) \<notin> dom (fds (k_os hdemo_kernel)) \<and> 0 \<le> aa_ctl (hdemo_acc i)"
    by (simp add: k hdemo_acc_def)
  ultimately obtain k' where "http_accept_loop hdemo_acc 3 0 hdemo_kernel = Some (Ret k')" "backlog k' = 0"
    "interest k' = interest hdemo_kernel \<union> (aa_fd \<circ> hdemo_acc) ` {..<backlog hdemo_kernel}"
    using http_accept_all [OF a(1) k(2) a(2), of hdemo_acc] by auto
  moreover have "(aa_fd \<circ> hdemo_acc) ` {..<2} = {5, 6}" by (auto simp: hdemo_acc_def lessThan_Suc numeral_2_eq_2)
  moreover have "http_accept_loop hdemo_refused 3 0 hdemo_kernel = None"
    using http_accept_all [OF a(1) k(2) a(2), of hdemo_refused] by (simp add: k hdemo_refused_def EAGAIN_def)
  ultimately show ?thesis using k by auto
qed

theorem http_bounds_witness:
  "epoll_loop (replicate 1025 (hdemo_in 5)) (http_start hdemo_answers hdemo_os) = Some (UB Out_of_bounds) \<and>
   epoll_loop (replicate 1024 (hdemo_in 5)) (http_start hdemo_answers hdemo_os) = Some (UB Out_of_bounds) \<and>
   (\<forall>u. epoll_loop [hdemo_in 5] (http_start hdemo_answers hdemo_os) \<noteq> Some (UB u))"
proof -
  let ?s = "http_start hdemo_answers hdemo_os"
  have s: "length (events ?s) = EVENTS_SIZE" "listenfd ?s = 3" "count111 ?s = 0" by (simp_all add: http_start_def Let_def hdemo_answers_def)
  have "epoll_loop (replicate 1025 (hdemo_in 5)) ?s = Some (UB Out_of_bounds)"
    using http_bounds [OF s(1), of "replicate 1025 (hdemo_in 5)"] by (simp add: EVENTS_SIZE_def)
  moreover have "epoll_loop (replicate 1024 (hdemo_in 5)) ?s = Some (UB Out_of_bounds)"
    using http_bounds [OF s(1), of "replicate 1024 (hdemo_in 5)"] s(2) by (simp add: EVENTS_SIZE_def hdemo_in_def EPOLLIN_def)
  moreover have "\<forall>u. epoll_loop [hdemo_in 5] ?s \<noteq> Some (UB u)"
    using http_bounds [OF s(1), of "[hdemo_in 5]"] s(3) by (simp add: EVENTS_SIZE_def INT_MAX_def)
  ultimately show ?thesis by blast
qed

theorem http_closes_witness:
  "\<exists>s t. run http_step [Http_connect, Http_round [hdemo_in 3], Http_send 5 ''x''] (http_start hdemo_answers hdemo_os) = Ret s \<and>
     epoll_loop [hdemo_in 5] s = Some (Ret t) \<and> 5 \<in> open_fds s \<and> open_fds t = open_fds s - {5}"
proof -
  have "\<exists>s t. run http_step [Http_connect, Http_round [hdemo_in 3], Http_send 5 ''x''] (http_start hdemo_answers hdemo_os) = Ret s \<and>
     epoll_loop [hdemo_in 5] s = Some (Ret t) \<and> 5 \<in> open_fds s \<and> listenfd s = 3"
    by (simp add: hdemo_defs open_fds_def)
  then obtain s t where s: "run http_step [Http_connect, Http_round [hdemo_in 3], Http_send 5 ''x''] (http_start hdemo_answers hdemo_os) = Ret s"
    "epoll_loop [hdemo_in 5] s = Some (Ret t)" "5 \<in> open_fds s" "listenfd s = 3" by blast
  from http_closes [OF s(2)] s(4) have "open_fds t = open_fds s - {5}" by (simp add: hdemo_in_def)
  with s show ?thesis by blast
qed

end
