(* ===== verification/Http_Messages.thy ===== *)
theory Http_Messages
  imports Epoll_Http
begin

text \<open>
  \<open>handle_message\<close> and \<open>check_connect_timeout\<close> of \<open>src/epoll/epoll_threadpool.c\<close>, with the map \<open>sock_map\<close> from
  descriptors to receive buffers of \<open>RECVBUF_SIZE\<close> bytes.

  A buffer is a block of the heap with the string it holds. \<open>sock_map\<close> is an association list in the order the
  iterator goes through it, which the code does not fix; the results hold for every order.
\<close>

section \<open>Strings in buffers\<close>

definition RECVBUF_SIZE :: nat where "RECVBUF_SIZE = 1000"
definition SENDBUF_SIZE :: nat where "SENDBUF_SIZE = 1000"

definition c_strcat :: "nat \<Rightarrow> string \<Rightarrow> string \<Rightarrow> string outcome" where
  "c_strcat cap dst src = (if length dst + length src < cap then Ret (dst @ src) else UB Out_of_bounds)"

text \<open>The first \<open>n\<close> bytes of \<open>bufSend\<close>, the reply followed by zeros.\<close>

definition send_prefix :: "nat \<Rightarrow> string outcome" where
  "send_prefix n =
     (if n \<le> SENDBUF_SIZE then Ret (take n (http_reply @ replicate (SENDBUF_SIZE - length http_reply) NUL)) else UB Out_of_bounds)"

section \<open>handle\_message\<close>

record sockStruct =
  sock_time :: int
  recvBuf :: nat

record messages =
  m_k :: kernel
  sock_map :: "(int \<times> sockStruct) list"
  m_heap :: "nat \<rightharpoonup> string"
  m_sent :: "int \<Rightarrow> string"

definition m_free :: "nat \<Rightarrow> messages \<Rightarrow> messages outcome" where
  "m_free b s = (case m_heap s b of None \<Rightarrow> UB Dangling | Some _ \<Rightarrow> Ret (s\<lparr>m_heap := (m_heap s)(b := None)\<rparr>))"

definition map_erase :: "int \<Rightarrow> messages \<Rightarrow> messages" where
  "map_erase fd s = s\<lparr>sock_map := filter (\<lambda>(f, _). f \<noteq> fd) (sock_map s)\<rparr>"

text \<open>\<open>malloc\<close> returns an unused block, or null (\<open>None\<close>), which \<open>memset\<close> then writes to.\<close>

definition store_message :: "int \<Rightarrow> nat option \<Rightarrow> int \<Rightarrow> string \<Rightarrow> messages \<Rightarrow> messages outcome" where
  "store_message now block new_fd buf s =
     (case map_of (sock_map s) new_fd of
        None \<Rightarrow>
          (case block of
             None \<Rightarrow> UB Null_deref
           | Some b \<Rightarrow> if b \<in> dom (m_heap s) then Blocked
               else and_then (c_strcat RECVBUF_SIZE [] buf) (\<lambda>str.
                 Ret (s\<lparr>m_heap := (m_heap s)(b \<mapsto> str),
                        sock_map := (new_fd, \<lparr>sock_time = now, recvBuf = b\<rparr>) # sock_map s\<rparr>)))
      | Some st \<Rightarrow>
          (case m_heap s (recvBuf st) of
             None \<Rightarrow> UB Dangling
           | Some old \<Rightarrow> and_then (c_strcat RECVBUF_SIZE old buf) (\<lambda>str.
               Ret (s\<lparr>m_heap := (m_heap s)(recvBuf st \<mapsto> str),
                      sock_map := map (\<lambda>(f, t). if f = new_fd then (f, t\<lparr>sock_time := now\<rparr>) else (f, t)) (sock_map s)\<rparr>))))"

definition release_message :: "int \<Rightarrow> messages \<Rightarrow> messages outcome" where
  "release_message new_fd s =
     (case map_of (sock_map s) new_fd of
        None \<Rightarrow> UB Dangling
      | Some st \<Rightarrow> and_then (m_free (recvBuf st) s) (\<lambda>s1.
          Ret ((map_erase new_fd s1)\<lparr>m_k := k_close new_fd (m_k s1)\<rparr>)))"

definition handle_message :: "int \<Rightarrow> nat option \<Rightarrow> nat \<Rightarrow> int \<Rightarrow> messages \<Rightarrow> (int \<times> messages) outcome" where
  "handle_message now block sz new_fd s =
     and_then (k_read MAXBUF sz new_fd (m_k s)) (\<lambda>(r, k).
     let buf = c_text (case r of Data d \<Rightarrow> d | _ \<Rightarrow> []) in
     and_then (send_prefix (length buf)) (\<lambda>out.
     let s1 = s\<lparr>m_k := k, m_sent := (m_sent s)(new_fd := m_sent s new_fd @ out)\<rparr> in
     case r of
       Data d \<Rightarrow>
         and_then (store_message now block new_fd buf s1) (\<lambda>s2.
         and_then (release_message new_fd s2) (\<lambda>s3. Ret (int (length d), s3)))
     | _ \<Rightarrow> Ret (- 1, s1)))"

section \<open>check\_connect\_timeout\<close>

text \<open>The iterator is used after its element was erased.\<close>

fun timeout_loop :: "(int \<Rightarrow> int) \<Rightarrow> (int \<times> sockStruct) list \<Rightarrow> messages \<Rightarrow> messages outcome" where
  "timeout_loop now [] s = Ret s"
| "timeout_loop now ((fd, st) # rest) s =
     (if now fd - sock_time st > 120
      then and_then (m_free (recvBuf st) s) (\<lambda>s1. let s2 = map_erase fd s1 in UB Dangling)
      else timeout_loop now rest s)"

definition check_connect_timeout :: "(int \<Rightarrow> int) \<Rightarrow> messages \<Rightarrow> messages outcome" where
  "check_connect_timeout now s = timeout_loop now (sock_map s) s"

datatype m_label =
    M_handle int "nat option" nat int
  | M_timeout "int \<Rightarrow> int"
  | M_send int string
  | M_peer int peer

fun m_step :: "m_label \<Rightarrow> messages \<Rightarrow> messages outcome" where
  "m_step (M_handle now block sz fd) s = and_then (handle_message now block sz fd s) (\<lambda>(_, s'). Ret s')"
| "m_step (M_timeout now) s = check_connect_timeout now s"
| "m_step (M_send fd d) s =
     Ret (s\<lparr>m_k := (m_k s)\<lparr>conns := (conns (m_k s))(fd := (conns (m_k s) fd)\<lparr>unread := unread (conns (m_k s) fd) @ d\<rparr>)\<rparr>\<rparr>)"
| "m_step (M_peer fd p) s =
     Ret (s\<lparr>m_k := (m_k s)\<lparr>conns := (conns (m_k s))(fd := (conns (m_k s) fd)\<lparr>peer := p\<rparr>)\<rparr>\<rparr>)"

definition m_start :: "kernel \<Rightarrow> messages" where
  "m_start k = \<lparr>m_k = k, sock_map = [], m_heap = Map.empty, m_sent = (\<lambda>_. [])\<rparr>"

section \<open>Lemmas\<close>

lemma http_reply_length [simp]: "length http_reply = 58"
  by (simp add: http_reply_def crlf_def)

text \<open>Between calls the map is empty and no buffer is allocated.\<close>

definition m_clean :: "messages \<Rightarrow> bool" where
  "m_clean s \<longleftrightarrow> sock_map s = [] \<and> m_heap s = Map.empty"

lemma store_release:
  assumes "m_clean s" "length buf < RECVBUF_SIZE"
  shows "and_then (store_message now (Some b) fd buf s) (release_message fd) = Ret (s\<lparr>m_k := k_close fd (m_k s)\<rparr>)"
  using assms by (simp add: m_clean_def store_message_def release_message_def c_strcat_def m_free_def map_erase_def)

lemma store_release_UB:
  assumes "m_clean s" "RECVBUF_SIZE \<le> length buf"
  shows "store_message now (Some b) fd buf s = UB Out_of_bounds"
  using assms by (simp add: m_clean_def store_message_def c_strcat_def)

lemma handle_message_clean:
  assumes "m_clean s" "handle_message now block sz fd s = Ret (r, t)"
  shows "m_clean t"
proof -
  obtain q k where q: "k_read MAXBUF sz fd (m_k s) = Ret (q, k)"
    using assms(2) by (auto simp: handle_message_def outcome_simps)
  let ?buf = "c_text (case q of Data d \<Rightarrow> d | _ \<Rightarrow> [])"
  obtain out where out: "send_prefix (length ?buf) = Ret out"
    using assms(2) q by (auto simp: handle_message_def outcome_simps Let_def)
  let ?s = "s\<lparr>m_k := k, m_sent := (m_sent s)(fd := m_sent s fd @ out)\<rparr>"
  have c: "m_clean ?s" using assms(1) by (simp add: m_clean_def)
  show ?thesis
  proof (cases q)
    case (Data d)
    with assms(2) q out obtain s2 where s2: "store_message now block fd ?buf ?s = Ret s2" "release_message fd s2 = Ret t"
      by (auto simp: handle_message_def outcome_simps Let_def)
    obtain b where b: "block = Some b" using s2(1) c by (cases block) (auto simp: store_message_def m_clean_def)
    have "length ?buf < RECVBUF_SIZE" using s2(1) store_release_UB [OF c] b by (metis not_less outcome.distinct(3))
    from store_release [OF c this, of now b fd] s2 b have "t = ?s\<lparr>m_k := k_close fd (m_k ?s)\<rparr>" by simp
    then show ?thesis using c by (simp add: m_clean_def)
  qed (use assms(2) q out c in \<open>auto simp: handle_message_def\<close>)
qed

lemma timeout_clean: "m_clean s \<Longrightarrow> check_connect_timeout now s = Ret s"
  by (simp add: check_connect_timeout_def m_clean_def)

interpretation mi: invariant_system m_step "\<lambda>s. \<exists>k. s = m_start k" m_clean
proof (unfold_locales, goal_cases)
  case (1 s)
  then show ?case by (auto simp: m_start_def m_clean_def)
next
  case (2 s l t)
  then show ?case
  proof (cases l)
    case (M_handle now block sz fd)
    with 2 show ?thesis by (auto simp: outcome_simps intro: handle_message_clean)
  next
    case (M_timeout now)
    with 2 timeout_clean [OF 2(1)] show ?thesis by simp
  qed (auto simp: m_clean_def)
qed

section \<open>Theorems\<close>

text \<open>
  C40. What \<open>handle_message\<close> does with a message, in every state the calls can lead to: it sends the first \<open>n\<close>
  bytes of its reply buffer, where \<open>n\<close> is the length of the \<^emph>\<open>request\<close> up to its first zero byte, frees the
  buffer it has just filled, closes the connection and returns the number of bytes received. A request of \<open>RECVBUF_SIZE\<close> characters or
  more overruns a buffer. The map of buffers is empty between the calls, so the timeout thread finds nothing to do.
\<close>

theorem handle_message_result:
  assumes "run m_step ls (m_start k0) = Ret s" "fd \<in> dom (fds (k_os (m_k s)))" "unread (conns (m_k s) fd) \<noteq> []"
    "d = take (read_size MAXBUF sz (length (unread (conns (m_k s) fd)))) (unread (conns (m_k s) fd))"
  shows "(length (c_text d) < RECVBUF_SIZE \<longrightarrow>
      (\<exists>t. handle_message now (Some b) sz fd s = Ret (int (length d), t) \<and> fd \<notin> dom (fds (k_os (m_k t))) \<and>
         m_sent t = (m_sent s)(fd := m_sent s fd @ take (length (c_text d)) (http_reply @ replicate (SENDBUF_SIZE - 58) NUL)) \<and>
         m_heap t = m_heap s \<and> sock_map t = sock_map s)) \<and>
    (RECVBUF_SIZE \<le> length (c_text d) \<longrightarrow> handle_message now (Some b) sz fd s = UB Out_of_bounds) \<and>
    sock_map s = [] \<and> m_heap s = Map.empty \<and> check_connect_timeout tm s = Ret s"
proof -
  have "m_clean (m_start k0)" by (simp add: m_clean_def m_start_def)
  then have c: "m_clean s" using assms(1) by (rule mi.inv_run)
  let ?n = "length (c_text d)"
  let ?out = "take ?n (http_reply @ replicate (SENDBUF_SIZE - 58) NUL)"
  obtain k where r: "k_read MAXBUF sz fd (m_k s) = Ret (Data d, k)" and os: "k_os k = k_os (m_k s)"
    using k_read_Data [OF assms(2,3), of MAXBUF sz] assms(4) by (auto simp: Let_def)
  let ?s = "s\<lparr>m_k := k, m_sent := (m_sent s)(fd := m_sent s fd @ ?out)\<rparr>"
  have c': "m_clean ?s" using c by (simp add: m_clean_def)
  have h: "handle_message now (Some b) sz fd s =
      and_then (store_message now (Some b) fd (c_text d) ?s) (\<lambda>s2. and_then (release_message fd s2) (\<lambda>s3. Ret (int (length d), s3)))"
    if "?n \<le> SENDBUF_SIZE"
    using that r by (simp add: handle_message_def send_prefix_def Let_def)
  have "handle_message now (Some b) sz fd s = Ret (int (length d), ?s\<lparr>m_k := k_close fd k\<rparr>)" if "?n < RECVBUF_SIZE"
    using store_release [OF c' that, of now b fd] h that
    by (simp add: RECVBUF_SIZE_def SENDBUF_SIZE_def and_then_assoc [symmetric])
  moreover have "handle_message now (Some b) sz fd s = UB Out_of_bounds" if "RECVBUF_SIZE \<le> ?n"
  proof (cases "?n \<le> SENDBUF_SIZE")
    case True
    then show ?thesis using h store_release_UB [OF c' that] by simp
  next
    case False
    then show ?thesis using r by (simp add: handle_message_def send_prefix_def Let_def)
  qed
  moreover have "fd \<notin> dom (fds (k_os (k_close fd k)))" by (simp add: k_close_def sys_close_def domIff)
  ultimately show ?thesis using c timeout_clean [OF c] by (auto simp: m_clean_def)
qed

definition mdemo_kernel :: kernel where
  "mdemo_kernel = \<lparr>k_os = \<lparr>fds = [5 \<mapsto> O_RDWR], stray_closes = 0\<rparr>, interest = {5}, backlog = 0,
     conns = (\<lambda>_. \<lparr>unread = [], peer = Live\<rparr>)\<rparr>"

text \<open>A client that sends four characters is answered with the first four of the reply.\<close>

theorem handle_message_result_witness:
  "\<exists>s t. run m_step [M_send 5 ''GET '', M_timeout (\<lambda>_. 500)] (m_start mdemo_kernel) = Ret s \<and>
     handle_message 7 (Some 0) 10 5 s = Ret (4, t) \<and> m_sent t 5 = ''HTTP'' \<and> check_connect_timeout (\<lambda>_. 500) s = Ret s"
proof -
  define s where "s = (m_start mdemo_kernel)\<lparr>m_k := mdemo_kernel\<lparr>conns := (\<lambda>_. \<lparr>unread = [], peer = Live\<rparr>)(5 := \<lparr>unread = ''GET '', peer = Live\<rparr>)\<rparr>\<rparr>"
  have run: "run m_step [M_send 5 ''GET '', M_timeout (\<lambda>_. 500)] (m_start mdemo_kernel) = Ret s"
    by (simp add: s_def m_start_def mdemo_kernel_def check_connect_timeout_def)
  have fd: "5 \<in> dom (fds (k_os (m_k s)))" "unread (conns (m_k s) 5) = ''GET ''" "m_sent s 5 = []"
    by (simp_all add: s_def mdemo_kernel_def m_start_def)
  have d: "read_size MAXBUF 10 (Suc (Suc (Suc (Suc 0)))) = 4" "c_text ''GET '' = ''GET ''"
    by (simp_all add: read_size_def MAXBUF_def MAXRECVBUF_def c_text_def NUL_def)
  have "take 4 (http_reply @ replicate (SENDBUF_SIZE - 58) NUL) = ''HTTP''" by (simp add: http_reply_def)
  moreover have "unread (conns (m_k s) 5) \<noteq> []" "''GET '' = take (read_size MAXBUF 10 (length (unread (conns (m_k s) 5)))) (unread (conns (m_k s) 5))"
    using fd(2) d(1) by simp_all
  note handle_message_result [OF run fd(1) this, of 7 0 "\<lambda>_. 500"]
  then obtain t where "handle_message 7 (Some 0) 10 5 s = Ret (4, t)" "check_connect_timeout (\<lambda>_. 500) s = Ret s"
    "m_sent t = (m_sent s)(5 := m_sent s 5 @ take 4 (http_reply @ replicate (SENDBUF_SIZE - 58) NUL))"
    unfolding d(2) by (auto simp: RECVBUF_SIZE_def eval_nat_numeral)
  ultimately show ?thesis using run fd(3) by (metis append_Nil fun_upd_same)
qed

text \<open>Were there an expired entry, the timeout thread would read it after erasing it.\<close>

lemma timeout_expired:
  assumes "(fd, st) \<in> set es" "now fd - sock_time st > 120" "\<And>fd st. (fd, st) \<in> set es \<Longrightarrow> recvBuf st \<in> dom (m_heap s)"
  shows "timeout_loop now es s = UB Dangling"
  using assms
proof (induction es)
  case (Cons e es)
  show ?case
  proof (cases e)
    case (Pair f t)
    then have "recvBuf t \<in> dom (m_heap s)" using Cons.prems(3) [of f t] by simp
    then have "timeout_loop now (e # es) s = UB Dangling" if "now f - sock_time t > 120"
      using that Pair by (auto simp: m_free_def)
    moreover have "timeout_loop now (e # es) s = timeout_loop now es s" if "\<not> now f - sock_time t > 120"
      using that Pair by simp
    moreover have "timeout_loop now es s = UB Dangling" if "\<not> now f - sock_time t > 120"
      by (rule Cons.IH) (use Cons.prems that Pair in auto)
    ultimately show ?thesis by (cases "now f - sock_time t > 120") simp_all
  qed
qed simp

end
