(* ===== verification/Thpool_Wait.thy ===== *)
theory Thpool_Wait
  imports Study_Prelude
begin

text \<open>
  \<open>thpool_wait\<close> of \<open>src/threadpool/c-Thread-Pool-master/thpool.c\<close>: three loops that look whether the pool is busy, without
  a pause for a second, then with growing pauses, then with pauses of \<open>max_secs\<close> seconds.

  \<open>busy i\<close> is what the \<open>i\<close>-th look at \<open>len\<close> and \<open>num_threads_working\<close> finds, \<open>elapsed i\<close> the time \<open>difftime\<close> gives
  after it. The loops are partial functions, since a pool that stays busy is waited for without end. The result is the
  number of looks and the list of pauses. What it means for the jobs that a look finds the pool idle is shown
  in \<open>Thpool_Theorems\<close>.
\<close>

definition MAX_NANOSEC :: int where "MAX_NANOSEC = 999999999"
definition max_secs :: int where "max_secs = 20"

record timespec =
  tv_sec :: int
  tv_nsec :: int

text \<open>
  \<open>CEIL(n * multiplier)\<close> for the multiplier 1.01. For \<open>0 \<le> n < 10 ^ 9\<close> the product in double arithmetic is an integer
  exactly when \<open>101 * n\<close> is a multiple of 100 and has the right integer part otherwise, so that the macro
  computes the ceiling of \<open>101 * n / 100\<close>.
\<close>

definition CEIL_multiplied :: "int \<Rightarrow> int" where
  "CEIL_multiplied n = (101 * n + 99) div 100"

text \<open>The interval after a pause of length \<open>t\<close>; \<open>None\<close> is the \<open>break\<close>.\<close>

definition next_interval :: "timespec \<Rightarrow> timespec option" where
  "next_interval t =
     (if tv_sec t < max_secs then
        let new_nano = CEIL_multiplied (tv_nsec t) in
        Some \<lparr>tv_sec = (if new_nano > MAX_NANOSEC then tv_sec t + 1 else tv_sec t), tv_nsec = new_nano mod MAX_NANOSEC\<rparr>
      else None)"

definition init_interval :: timespec where
  "init_interval = \<lparr>tv_sec = 0, tv_nsec = 1\<rparr>"

partial_function (option) wait_continuous :: "(nat \<Rightarrow> bool) \<Rightarrow> (nat \<Rightarrow> int) \<Rightarrow> nat \<Rightarrow> int \<Rightarrow> nat option" where
  "wait_continuous busy elapsed i tpassed =
     (if tpassed < 1 then (if busy i then wait_continuous busy elapsed (Suc i) (elapsed i) else Some (Suc i)) else Some i)"

partial_function (option) wait_polling :: "(nat \<Rightarrow> bool) \<Rightarrow> nat \<Rightarrow> timespec \<Rightarrow> timespec list \<Rightarrow> (nat \<times> timespec list) option" where
  "wait_polling busy i t pauses =
     (if busy i then
        (case next_interval t of
           Some t' \<Rightarrow> wait_polling busy (Suc i) t' (pauses @ [t])
         | None \<Rightarrow> Some (Suc i, pauses @ [t]))
      else Some (Suc i, pauses))"

partial_function (option) wait_max :: "(nat \<Rightarrow> bool) \<Rightarrow> nat \<Rightarrow> timespec list \<Rightarrow> (nat \<times> timespec list) option" where
  "wait_max busy i pauses =
     (if busy i then wait_max busy (Suc i) (pauses @ [\<lparr>tv_sec = max_secs, tv_nsec = 0\<rparr>]) else Some (Suc i, pauses))"

definition thpool_wait :: "(nat \<Rightarrow> bool) \<Rightarrow> (nat \<Rightarrow> int) \<Rightarrow> (nat \<times> timespec list) option" where
  "thpool_wait busy elapsed =
     Option.bind (wait_continuous busy elapsed 0 0) (\<lambda>i.
     Option.bind (wait_polling busy i init_interval []) (\<lambda>(j, pauses).
     wait_max busy j pauses))"

section \<open>The pauses\<close>

text \<open>What \<open>nanosleep\<close> accepts, and pauses no longer than a second more than \<open>max_secs\<close>.\<close>

definition interval_ok :: "timespec \<Rightarrow> bool" where
  "interval_ok t \<longleftrightarrow> 0 \<le> tv_nsec t \<and> tv_nsec t < 1000000000 \<and> 0 \<le> tv_sec t \<and> tv_sec t \<le> max_secs"

lemma next_interval_ok: "interval_ok t \<Longrightarrow> next_interval t = Some t' \<Longrightarrow> interval_ok t'"
proof -
  have "0 \<le> n mod MAX_NANOSEC" "n mod MAX_NANOSEC < 1000000000" for n
    using pos_mod_bound [of MAX_NANOSEC n] pos_mod_sign [of MAX_NANOSEC n] by (simp_all add: MAX_NANOSEC_def)
  then show "interval_ok t \<Longrightarrow> next_interval t = Some t' \<Longrightarrow> interval_ok t'"
    by (auto simp: interval_ok_def next_interval_def Let_def split: if_splits)
qed

lemma init_interval_ok: "interval_ok init_interval"
  by (simp add: interval_ok_def init_interval_def max_secs_def)

text \<open>The pause in nanoseconds grows by at most ten milliseconds (and two nanoseconds) each time.\<close>

definition nanoseconds :: "timespec \<Rightarrow> int" where
  "nanoseconds t = tv_sec t * 1000000000 + tv_nsec t"

lemma next_interval_growth:
  assumes "interval_ok t" "next_interval t = Some t'"
  shows "nanoseconds t' \<le> nanoseconds t + 10000002"
proof -
  define m where "m = CEIL_multiplied (tv_nsec t)"
  have n: "0 \<le> tv_nsec t" "tv_nsec t < 1000000000" using assms(1) by (simp_all add: interval_ok_def)
  then have m: "0 \<le> m" "m \<le> tv_nsec t + 10000001" by (simp_all add: m_def CEIL_multiplied_def)
  have t': "t' = \<lparr>tv_sec = (if m > MAX_NANOSEC then tv_sec t + 1 else tv_sec t), tv_nsec = m mod MAX_NANOSEC\<rparr>"
    using assms(2) by (simp add: next_interval_def Let_def m_def split: if_splits)
  show ?thesis
  proof (cases "m > MAX_NANOSEC")
    case True
    then have "m mod MAX_NANOSEC = (m - MAX_NANOSEC) mod MAX_NANOSEC" by (simp add: minus_mod_self2)
    also have "\<dots> = m - MAX_NANOSEC" using True m n(2) by (intro mod_pos_pos_trivial) (simp_all add: MAX_NANOSEC_def)
    finally show ?thesis using True t' m(2) by (simp add: nanoseconds_def MAX_NANOSEC_def)
  next
    case False
    have "m mod MAX_NANOSEC \<le> m" using m(1) by (simp add: zmod_le_nonneg_dividend)
    with False t' m(2) show ?thesis by (simp add: nanoseconds_def)
  qed
qed

section \<open>The loops end when the pool is idle\<close>

lemma wait_continuous_ends:
  assumes "\<And>j. N \<le> j \<Longrightarrow> \<not> busy j"
  shows "\<exists>m. wait_continuous busy elapsed i tp = Some m \<and> m \<le> Suc (max i N)"
proof (induction "N - i" arbitrary: i tp rule: less_induct)
  case less
  show ?case
  proof (cases "tp < 1 \<and> busy i")
    case True
    then have "i < N" using assms [of i] by (metis not_less)
    then have d: "N - Suc i < N - i" by simp
    from less [OF d, of "elapsed i"] obtain m where "wait_continuous busy elapsed (Suc i) (elapsed i) = Some m" "m \<le> Suc (max (Suc i) N)"
      by blast
    with True \<open>i < N\<close> show ?thesis by (subst wait_continuous.simps) auto
  next
    case False
    then show ?thesis by (subst wait_continuous.simps) auto
  qed
qed

lemma wait_polling_ends:
  assumes "\<And>j. N \<le> j \<Longrightarrow> \<not> busy j" "interval_ok t" "list_all interval_ok pauses"
  shows "\<exists>m ps. wait_polling busy i t pauses = Some (m, ps) \<and> m \<le> Suc (max i N) \<and> list_all interval_ok ps"
  using assms(2,3)
proof (induction "N - i" arbitrary: i t pauses rule: less_induct)
  case less
  show ?case
  proof (cases "busy i")
    case True
    then have i: "i < N" using assms(1) [of i] by (metis not_less)
    then have d: "N - Suc i < N - i" by simp
    show ?thesis
    proof (cases "next_interval t")
      case None
      with True less.prems i show ?thesis by (subst wait_polling.simps) auto
    next
      case (Some t')
      have "interval_ok t'" using less.prems(1) Some by (rule next_interval_ok)
      then obtain m ps where "wait_polling busy (Suc i) t' (pauses @ [t]) = Some (m, ps)" "m \<le> Suc (max (Suc i) N)" "list_all interval_ok ps"
        using less.hyps [OF d, of t' "pauses @ [t]"] less.prems by auto
      with True Some i show ?thesis by (subst wait_polling.simps) auto
    qed
  next
    case False
    with less.prems show ?thesis by (subst wait_polling.simps) auto
  qed
qed

lemma wait_max_ends:
  assumes "\<And>j. N \<le> j \<Longrightarrow> \<not> busy j" "list_all interval_ok pauses"
  shows "\<exists>m ps. wait_max busy i pauses = Some (m, ps) \<and> m \<le> Suc (max i N) \<and> list_all interval_ok ps \<and> i < m \<and> \<not> busy (m - 1)"
  using assms(2)
proof (induction "N - i" arbitrary: i pauses rule: less_induct)
  case less
  show ?case
  proof (cases "busy i")
    case True
    then have i: "i < N" using assms(1) [of i] by (metis not_less)
    then have d: "N - Suc i < N - i" by simp
    have "interval_ok \<lparr>tv_sec = max_secs, tv_nsec = 0\<rparr>" by (simp add: interval_ok_def max_secs_def)
    then obtain m ps where "wait_max busy (Suc i) (pauses @ [\<lparr>tv_sec = max_secs, tv_nsec = 0\<rparr>]) = Some (m, ps)"
      "m \<le> Suc (max (Suc i) N)" "list_all interval_ok ps" "Suc i < m" "\<not> busy (m - 1)"
      using less.hyps [OF d, of "pauses @ [\<lparr>tv_sec = max_secs, tv_nsec = 0\<rparr>]"] less.prems by auto
    with True i show ?thesis by (subst wait_max.simps) auto
  next
    case False
    with less.prems show ?thesis by (subst wait_max.simps) auto
  qed
qed

text \<open>Whatever the pool does, the last look before \<open>thpool_wait\<close> returns found it idle.\<close>

lemma wait_max_idle:
  assumes "wait_max busy i pauses = Some (m, ps)"
  shows "0 < m \<and> \<not> busy (m - 1)"
proof -
  have "\<not> busy (fst r - 1) \<and> 0 < fst r" if "wait_max busy i pauses = Some r" for r
    using _ that
  proof (rule wait_max.raw_induct [where P = "\<lambda>busy i pauses r. \<not> busy (fst r - 1) \<and> 0 < fst r"])
    fix loop :: "(nat \<Rightarrow> bool) \<Rightarrow> nat \<Rightarrow> timespec list \<Rightarrow> (nat \<times> timespec list) option" and busy i pauses r
    assume IH: "\<And>busy i pauses r. loop busy i pauses = Some r \<Longrightarrow> \<not> busy (fst r - 1) \<and> 0 < fst r"
      and body: "(if busy i then loop busy (Suc i) (pauses @ [\<lparr>tv_sec = max_secs, tv_nsec = 0\<rparr>]) else Some (Suc i, pauses)) = Some r"
    show "\<not> busy (fst r - 1) \<and> 0 < fst r"
      using IH [of busy "Suc i" "pauses @ [\<lparr>tv_sec = max_secs, tv_nsec = 0\<rparr>]" r] body by (auto split: if_splits)
  qed
  with assms show ?thesis by auto
qed

lemma thpool_wait_ends:
  assumes "\<And>j. N \<le> j \<Longrightarrow> \<not> busy j"
  shows "\<exists>m ps. thpool_wait busy elapsed = Some (m, ps) \<and> m \<le> N + 3 \<and> list_all interval_ok ps"
proof -
  obtain i where i: "wait_continuous busy elapsed 0 0 = Some i" "i \<le> Suc N"
    using wait_continuous_ends [where N = N and busy = busy and elapsed = elapsed and i = 0 and tp = 0, OF assms] by auto
  obtain j ps where j: "wait_polling busy i init_interval [] = Some (j, ps)" "j \<le> Suc (max i N)" "list_all interval_ok ps"
    using wait_polling_ends [where N = N and busy = busy and i = i and pauses = "[]", OF assms init_interval_ok] by auto
  obtain m ps' where m: "wait_max busy j ps = Some (m, ps')" "m \<le> Suc (max j N)" "list_all interval_ok ps'"
    using wait_max_ends [where N = N and busy = busy and i = j, OF assms j(3)] by auto
  have "thpool_wait busy elapsed = Some (m, ps')" "m \<le> N + 3" using i j m by (auto simp: thpool_wait_def)
  with m(3) show ?thesis by blast
qed

lemma thpool_wait_idle:
  assumes "thpool_wait busy elapsed = Some (m, ps)"
  shows "0 < m \<and> \<not> busy (m - 1)"
proof -
  from assms obtain j qs where "wait_max busy j qs = Some (m, ps)" by (auto simp: thpool_wait_def Option.bind_eq_Some_conv)
  then show ?thesis by (rule wait_max_idle)
qed

text \<open>
  \<open>thpool_wait\<close> returns, at the latest three looks after the pool has become idle for good, all pauses on
  the way are valid arguments of \<open>nanosleep\<close> and at most \<open>max_secs\<close> seconds and a fraction long; and whenever it returns, the last
  look has found the pool idle, also when the pool was busy again in between.
\<close>

theorem thpool_wait_returns:
  "((\<forall>j\<ge>N. \<not> busy j) \<longrightarrow>
     (\<exists>m ps. thpool_wait busy elapsed = Some (m, ps) \<and> m \<le> N + 3 \<and>
        (\<forall>t\<in>set ps. 0 \<le> tv_nsec t \<and> tv_nsec t < 1000000000 \<and> 0 \<le> tv_sec t \<and> tv_sec t \<le> max_secs))) \<and>
   (\<forall>m ps. thpool_wait busy elapsed = Some (m, ps) \<longrightarrow> 0 < m \<and> \<not> busy (m - 1))"
  using thpool_wait_ends [of N busy elapsed] thpool_wait_idle [of busy elapsed] by (simp add: list_all_iff interval_ok_def)

text \<open>A pool that is busy at the first five looks, with a clock that does not move.\<close>

theorem thpool_wait_returns_witness:
  "\<exists>m ps. thpool_wait (\<lambda>i. i < 5) (\<lambda>_. 0) = Some (m, ps) \<and> m \<le> 8"
  using thpool_wait_returns [of 5 "\<lambda>i. i < 5" "\<lambda>_. 0"] by fastforce

end
