(* ===== verification/Thpool_Waiting.thy ===== *)
theory Thpool_Waiting
  imports Thpool_Theorems Thpool_Wait
begin

text \<open>
  \<open>thpool_wait\<close> (\<open>Thpool_Wait\<close>) on the threads of the pool (\<open>Thpool_Threads\<close>) of \<open>src/threadpool/c-Thread-Pool-master/thpool.c\<close>.

  An execution of the threads is an infinite sequence of states in which every two neighbours are equal or joined by a step of a thread. It is fair
  when it does not stand still for ever while some thread could move. The caller reads \<open>len\<close> at the times \<open>r i\<close> and
  \<open>num_threads_working\<close> at the times \<open>r' i\<close>, in any rhythm; the pauses only make the times grow faster.
\<close>

section \<open>Executions\<close>

definition threads_run :: "(nat \<Rightarrow> ('f, 'a) th_sys) \<Rightarrow> bool" where
  "threads_run \<sigma> \<longleftrightarrow> (\<forall>n. \<sigma> (Suc n) = \<sigma> n \<or> (\<exists>l. th_own l \<and> th_step l (\<sigma> n) = Ret (\<sigma> (Suc n))))"

definition fair_run :: "(nat \<Rightarrow> ('f, 'a) th_sys) \<Rightarrow> bool" where
  "fair_run \<sigma> \<longleftrightarrow> threads_run \<sigma> \<and> (\<forall>n. \<not> quiescent th_step th_own (\<sigma> n) \<longrightarrow> (\<exists>m\<ge>n. \<sigma> (Suc m) \<noteq> \<sigma> m))"

definition look_times :: "(nat \<Rightarrow> nat) \<Rightarrow> (nat \<Rightarrow> nat) \<Rightarrow> bool" where
  "look_times r r' \<longleftrightarrow> (\<forall>i. r i \<le> r' i \<and> r' i < r (Suc i))"

text \<open>The condition of the loops: \<open>len || num_threads_working\<close>.\<close>

definition look_busy :: "(nat \<Rightarrow> ('f, 'a) th_sys) \<Rightarrow> (nat \<Rightarrow> nat) \<Rightarrow> (nat \<Rightarrow> nat) \<Rightarrow> nat \<Rightarrow> bool" where
  "look_busy \<sigma> r r' i \<longleftrightarrow> jq_len (th_queue (\<sigma> (r i))) \<noteq> 0 \<or> th_working (\<sigma> (r' i)) \<noteq> 0"

lemma threads_run_between:
  assumes "threads_run \<sigma>" "n \<le> m"
  obtains ks where "list_all th_own ks" "run th_step ks (\<sigma> n) = Ret (\<sigma> m)"
proof -
  have "\<exists>ks. list_all th_own ks \<and> run th_step ks (\<sigma> n) = Ret (\<sigma> m)"
    using assms(2)
  proof (induction rule: dec_induct)
    case base
    have "list_all th_own [] \<and> run th_step [] (\<sigma> n) = Ret (\<sigma> n)" by simp
    then show ?case by blast
  next
    case (step m)
    then obtain ks where ks: "list_all th_own ks" "run th_step ks (\<sigma> n) = Ret (\<sigma> m)" by blast
    from assms(1) consider "\<sigma> (Suc m) = \<sigma> m" | l where "th_own l" "th_step l (\<sigma> m) = Ret (\<sigma> (Suc m))"
      unfolding threads_run_def by blast
    then show ?case
    proof cases
      case 1
      with ks show ?thesis by auto
    next
      case (2 l)
      with ks have "list_all th_own (ks @ [l]) \<and> run th_step (ks @ [l]) (\<sigma> n) = Ret (\<sigma> (Suc m))"
        by (simp add: run_append del: th_step.simps)
      then show ?thesis by blast
    qed
  qed
  with that show thesis by blast
qed

lemma threads_run_inv: "threads_run \<sigma> \<Longrightarrow> th_inv (\<sigma> 0) \<Longrightarrow> th_inv (\<sigma> n)"
  using threads_run_between [of \<sigma> 0 n] th.inv_run by (metis le0)

lemma threads_run_stays:
  assumes "threads_run \<sigma>" "quiescent th_step th_own (\<sigma> n)" "n \<le> m"
  shows "\<sigma> m = \<sigma> n"
  using assms(3)
proof (induction rule: dec_induct)
  case (step m)
  then show ?case using assms(1,2) unfolding threads_run_def quiescent_def by metis
qed simp

text \<open>A fair execution comes to rest, since the threads have a bounded number of steps.\<close>

lemma fair_run_rests:
  assumes "fair_run \<sigma>" "th_inv (\<sigma> 0)"
  obtains N where "quiescent th_step th_own (\<sigma> N)"
proof -
  have run: "threads_run \<sigma>" using assms(1) by (simp add: fair_run_def)
  have "\<exists>N. quiescent th_step th_own (\<sigma> N)" for n :: nat
  proof (induction "th_work (\<sigma> n)" arbitrary: n rule: less_induct)
    case less
    show ?case
    proof (cases "quiescent th_step th_own (\<sigma> n)")
      case False
      with assms(1) obtain m where m: "n \<le> m" "\<sigma> (Suc m) \<noteq> \<sigma> m" unfolding fair_run_def by blast
      with run obtain l where l: "th_own l" "th_step l (\<sigma> m) = Ret (\<sigma> (Suc m))" unfolding threads_run_def by blast
      obtain ks where ks: "list_all th_own ks" "run th_step ks (\<sigma> n) = Ret (\<sigma> m)" using threads_run_between [OF run m(1)] .
      have "th_work (\<sigma> (Suc m)) < th_work (\<sigma> m)" using thd.work_decreases [OF threads_run_inv [OF run assms(2)] l] .
      also have "\<dots> \<le> th_work (\<sigma> n)" using thd.own_run_bounded [OF threads_run_inv [OF run assms(2)] ks] by simp
      finally show ?thesis by (rule less)
    qed blast
  qed
  with that show thesis by blast
qed

section \<open>Waiting\<close>

lemma look_times_ge: "look_times r r' \<Longrightarrow> i \<le> r i"
proof (induction i)
  case (Suc i)
  then have "r i \<le> r' i" "r' i < r (Suc i)" unfolding look_times_def by blast+
  with Suc show ?case by linarith
qed simp

lemma thpool_wait_all:
  assumes "th_init s0" "run th_step ls s0 = Ret (\<sigma> 0)" "\<not> list_ex kills ls" "th_pcs (\<sigma> 0) \<noteq> []"
    and "\<And>w. w < length (th_pcs (\<sigma> 0)) \<Longrightarrow> \<not> th_held (\<sigma> 0) ! w" "\<And>c. jq_rwmutex (th_queue (\<sigma> 0)) \<noteq> M_held (Client c)"
    and "fair_run \<sigma>" "look_times r r'"
  shows "\<exists>m ps. thpool_wait (look_busy \<sigma> r r') elapsed = Some (m, ps) \<and> 0 < m \<and> list_all interval_ok ps \<and>
    th_finished (\<sigma> (r' (m - 1))) = mset (th_submitted (\<sigma> 0))"
proof -
  have run: "threads_run \<sigma>" using assms(7) by (simp add: fair_run_def)
  have reach: "reachable th_step th_init (\<sigma> 0)" using run_reachable [OF assms(2)] reach_init [of th_init s0 th_step] assms(1) by blast
  then have "th_inv (\<sigma> 0)" by (rule th.inv_reachable)
  with run have inv: "th_inv (\<sigma> n)" for n by (rule threads_run_inv)
  have serv: "serving (\<sigma> 0)" using serving_run [OF th_init_inv serving_init assms(2,3)] assms(1) by blast
  have state: "reachable th_step th_init (\<sigma> n)" "serving (\<sigma> n)" "same_calls (\<sigma> 0) (\<sigma> n)" for n
  proof -
    obtain ks where ks: "list_all th_own ks" "run th_step ks (\<sigma> 0) = Ret (\<sigma> n)" using threads_run_between [OF run le0] .
    show "reachable th_step th_init (\<sigma> n)" using run_reachable [OF ks(2) reach] .
    show "serving (\<sigma> n)" using serving_run [OF inv serv ks(2) own_not_kills [OF ks(1)]] .
    show "same_calls (\<sigma> 0) (\<sigma> n)" using own_frame [OF inv ks] .
  qed
  obtain N where N: "quiescent th_step th_own (\<sigma> N)" using fair_run_rests [OF assms(7) inv] .
  obtain ks where ks: "list_all th_own ks" "run th_step ks (\<sigma> 0) = Ret (\<sigma> N)" using threads_run_between [OF run le0] .
  have rest: "jq_len (th_queue (\<sigma> N)) = 0" "th_working (\<sigma> N) = 0" using thpool_rest [OF assms(1-6) ks N] by blast+
  have idle: "\<not> look_busy \<sigma> r r' j" if "N \<le> j" for j
  proof -
    have "r j \<le> r' j" using assms(8) by (simp add: look_times_def)
    then have "N \<le> r j" "N \<le> r' j" using look_times_ge [OF assms(8), of j] that by linarith+
    then have "\<sigma> (r j) = \<sigma> N" "\<sigma> (r' j) = \<sigma> N" by (auto intro: threads_run_stays [OF run N])
    then show ?thesis using rest by (simp add: look_busy_def)
  qed
  obtain m ps where m: "thpool_wait (look_busy \<sigma> r r') elapsed = Some (m, ps)" "list_all interval_ok ps"
    using thpool_wait_ends [of N "look_busy \<sigma> r r'" elapsed] idle by blast
  then have last: "0 < m" "jq_len (th_queue (\<sigma> (r (m - 1)))) = 0" "th_working (\<sigma> (r' (m - 1))) = 0"
    using thpool_wait_idle [OF m(1)] by (auto simp: look_busy_def)
  let ?s = "\<sigma> (r (m - 1))" and ?t = "\<sigma> (r' (m - 1))"
  have "r (m - 1) \<le> r' (m - 1)" using assms(8) by (simp add: look_times_def)
  then obtain ks' where ks': "run th_step ks' ?s = Ret ?t" using threads_run_between [OF run] by metis
  have "mset (th_submitted ?s) \<subseteq># th_finished ?t"
    using idle_looks [OF state(1) _ _ last(2) ks' _ last(3)] state(2) by (simp add: serving_def)
  moreover have "th_finished ?t \<subseteq># mset (th_submitted ?t)"
    using thv.reachable_promise [OF state(1) [of "r' (m - 1)"]]
    by (auto simp: pool_promise_def conserved_def th_view_def)
  ultimately have "th_finished ?t = mset (th_submitted (\<sigma> 0))"
    using state(3) [of "r (m - 1)"] state(3) [of "r' (m - 1)"] by (simp add: same_calls_def subset_mset.antisym)
  with m last(1) show ?thesis by blast
qed

text \<open>
  C5. \<open>thpool_wait\<close> waits for all jobs: when it is called on a pool with at least one thread, none of them on hold, no \<open>thpool_add_work\<close> being under way
  and no pool of the process having been destroyed, then in every fair execution of the threads, whatever the times at which
  it looks and whatever the clock says, it returns, its pauses are valid arguments of \<open>nanosleep\<close>, and at its last look exactly the jobs submitted
  before the call are completed.
\<close>

theorem thpool_wait_completes:
  assumes "th_init s0" "run th_step ls s0 = Ret (\<sigma> 0)" "\<not> list_ex kills ls" "th_pcs (\<sigma> 0) \<noteq> []"
    and "\<And>w. w < length (th_pcs (\<sigma> 0)) \<Longrightarrow> \<not> th_held (\<sigma> 0) ! w" "\<And>c. jq_rwmutex (th_queue (\<sigma> 0)) \<noteq> M_held (Client c)"
    and "fair_run \<sigma>" "look_times r r'"
  shows "\<exists>m ps. thpool_wait (look_busy \<sigma> r r') elapsed = Some (m, ps) \<and> 0 < m \<and> list_all interval_ok ps \<and>
    th_finished (\<sigma> (r' (m - 1))) = mset (th_submitted (\<sigma> 0))"
  by (rule thpool_wait_all [OF assms])

section \<open>Example\<close>

text \<open>A finite schedule that ends at rest, continued by standing still, is a fair execution.\<close>

definition schedule :: "('f, 'a) th_label list \<Rightarrow> ('f, 'a) th_sys \<Rightarrow> nat \<Rightarrow> ('f, 'a) th_sys" where
  "schedule ks s n = (case run th_step (take n ks) s of Ret u \<Rightarrow> u | _ \<Rightarrow> s)"

lemma run_take:
  assumes "run step ks s = Ret t"
  shows "\<exists>u. run step (take n ks) s = Ret u"
proof -
  have "and_then (run step (take n ks) s) (run step (drop n ks)) = Ret t"
    using assms run_append [of step "take n ks" "drop n ks" s] by simp
  then show ?thesis by (auto simp: outcome_simps)
qed

lemma schedule_fair:
  assumes "list_all th_own ks" "run th_step ks s = Ret t" "quiescent th_step th_own t" "th_inv s"
  shows "fair_run (schedule ks s)" "schedule ks s 0 = s"
proof -
  let ?\<sigma> = "schedule ks s"
  have at: "run th_step (take n ks) s = Ret (?\<sigma> n)" for n using run_take [OF assms(2), of n] by (auto simp: schedule_def)
  have step: "th_own (ks ! n) \<and> th_step (ks ! n) (?\<sigma> n) = Ret (?\<sigma> (Suc n))" if "n < length ks" for n
    using at [of n] at [of "Suc n"] that assms(1)
    by (simp add: take_Suc_conv_app_nth run_append list_all_length outcome_simps del: th_step.simps)
  have stop: "?\<sigma> n = t" if "length ks \<le> n" for n using at [of n] that assms(2) by simp
  have "th_inv (?\<sigma> n)" for n using th.inv_run [OF assms(4) at] .
  then have moves: "?\<sigma> (Suc n) \<noteq> ?\<sigma> n" if "n < length ks" for n using thd.work_decreases step [OF that] by fastforce
  have "threads_run ?\<sigma>" unfolding threads_run_def
  proof
    fix n
    show "?\<sigma> (Suc n) = ?\<sigma> n \<or> (\<exists>l. th_own l \<and> th_step l (?\<sigma> n) = Ret (?\<sigma> (Suc n)))"
      using step [of n] stop [of n] stop [of "Suc n"] by (cases "n < length ks") auto
  qed
  moreover have "\<exists>m\<ge>n. ?\<sigma> (Suc m) \<noteq> ?\<sigma> m" if "\<not> quiescent th_step th_own (?\<sigma> n)" for n
    using that stop [of n] assms(3) moves [of n] by (metis linorder_not_le order_refl)
  ultimately show "fair_run ?\<sigma>" by (simp add: fair_run_def)
  show "?\<sigma> 0 = s" by (simp add: schedule_def)
qed

theorem thpool_wait_completes_witness:
  "\<exists>\<sigma> m ps. fair_run \<sigma> \<and> \<sigma> 0 = th_demo_loaded \<and>
     thpool_wait (look_busy \<sigma> (\<lambda>i. 2 * i) (\<lambda>i. 2 * i + 1)) (\<lambda>_. 0) = Some (m, ps) \<and>
     th_finished (\<sigma> (2 * (m - 1) + 1)) = {#(7, 1), (8, 2)#}"
proof -
  have "th_inv th_demo_loaded" using th.inv_run [OF th_init_inv [OF th_demo_init] th_demo_loaded_run(1)] .
  moreover from this obtain ks t where "list_all th_own ks" "run th_step ks th_demo_loaded = Ret t" "quiescent th_step th_own t"
    using thd.drains by blast
  ultimately obtain \<sigma> where \<sigma>: "fair_run \<sigma>" "\<sigma> 0 = th_demo_loaded" using schedule_fair by metis
  have kills: "\<not> list_ex kills th_demo_calls" by (simp add: th_demo_calls_def th_demo_up_def)
  have run: "run th_step th_demo_calls th_demo = Ret (\<sigma> 0)" using th_demo_loaded_run(1) \<sigma>(2) by simp
  have held: "\<not> th_held (\<sigma> 0) ! w" if "w < length (th_pcs (\<sigma> 0))" for w
    using that by (auto simp: \<sigma>(2) th_demo_loaded_run less_Suc_eq)
  have pcs: "th_pcs (\<sigma> 0) \<noteq> []" "jq_rwmutex (th_queue (\<sigma> 0)) \<noteq> M_held (Client c)" for c by (simp_all add: \<sigma>(2) th_demo_loaded_run)
  have "look_times (\<lambda>i. 2 * i) (\<lambda>i. 2 * i + 1)" by (simp add: look_times_def)
  from thpool_wait_completes [OF th_demo_init run kills pcs(1) held pcs(2) \<sigma>(1) this] \<sigma> show ?thesis
    by (fastforce simp: th_demo_loaded_run(5))
qed

end
