(* ===== verification/Thpool_Tests.thy ===== *)
theory Thpool_Tests
  imports Thpool_Waiting
begin

text \<open>
  The test \<open>src/threadpool/c-Thread-Pool-master/tests/src/conc_increment.c\<close> as a client of the thread pool \<open>thpool.c\<close>: \<open>main\<close> adds
  \<open>num_jobs\<close> jobs that each increment \<open>sum\<close> under a mutex, waits with \<open>thpool_wait\<close> and prints \<open>sum\<close>. \<open>main\<close> runs interleaved with the
  threads of \<open>Thpool_Threads\<close>; from the call of \<open>thpool_wait\<close> on only the threads change the pool, and \<open>thpool_wait\<close> is
  applied to their execution as in \<open>Thpool_Waiting\<close>.
\<close>

section \<open>The test program\<close>

text \<open>The critical section of \<open>increment\<close>.\<close>

definition increment :: "int \<Rightarrow> int outcome" where
  "increment n = c_add n 1"

datatype ci_pc = C_init | C_add nat | C_post nat | C_wait

record ci_sys =
  ci_pool :: "(nat, nat) th_sys"
  ci_sum :: int
  ci_pc :: ci_pc

fun runs_job :: "tpc \<Rightarrow> bool" where
  "runs_job (T_job a) = True"
| "runs_job _ = False"

definition ci_thread :: "nat \<Rightarrow> nat option \<Rightarrow> ci_sys \<Rightarrow> ci_sys outcome" where
  "ci_thread w ch s =
     and_then (th_step (Th_work w ch) (ci_pool s)) (\<lambda>p.
       if runs_job (th_pcs (ci_pool s) ! w) then and_then (increment (ci_sum s)) (\<lambda>n. Ret (s\<lparr>ci_pool := p, ci_sum := n\<rparr>))
       else Ret (s\<lparr>ci_pool := p\<rparr>))"

text \<open>
  \<open>main\<close>: \<open>thpool_init\<close> returns, the loop over \<open>thpool_add_work\<close> (the job and its argument, a null pointer, are written
  as 0; \<open>b\<close> is the block the job gets), then \<open>thpool_wait\<close>.
\<close>

fun ci_main :: "int \<Rightarrow> addr \<Rightarrow> nat option \<Rightarrow> ci_pc \<Rightarrow> ci_sys \<Rightarrow> ci_sys outcome" where
  "ci_main num_jobs b ch C_init s = and_then (th_step Th_ready (ci_pool s)) (\<lambda>p. Ret (s\<lparr>ci_pool := p, ci_pc := C_add 0\<rparr>))"
| "ci_main num_jobs b ch (C_add n) s =
     (if int n < num_jobs then and_then (th_step (Th_add 0 b 0 0) (ci_pool s)) (\<lambda>p. Ret (s\<lparr>ci_pool := p, ci_pc := C_post n\<rparr>))
      else Ret (s\<lparr>ci_pc := C_wait\<rparr>))"
| "ci_main num_jobs b ch (C_post n) s =
     and_then (th_step (Th_add_post 0 ch) (ci_pool s)) (\<lambda>p. Ret (s\<lparr>ci_pool := p, ci_pc := C_add (Suc n)\<rparr>))"
| "ci_main num_jobs b ch C_wait s = Blocked"

datatype ci_label = CI_thread nat "nat option" | CI_main addr "nat option"

fun ci_step :: "int \<Rightarrow> ci_label \<Rightarrow> ci_sys \<Rightarrow> ci_sys outcome" where
  "ci_step num_jobs (CI_thread w ch) s = ci_thread w ch s"
| "ci_step num_jobs (CI_main b ch) s = ci_main num_jobs b ch (ci_pc s) s"

definition ci_start :: "nat \<Rightarrow> (nat, nat) init_env \<Rightarrow> int \<Rightarrow> ci_sys outcome" where
  "ci_start argc env num_threads =
     (if argc \<noteq> 3 then Exit 1
      else and_then (thpool_init (Client 0) env num_threads) (\<lambda>p. Ret \<lparr>ci_pool = p, ci_sum = 0, ci_pc = C_init\<rparr>))"

text \<open>The executions after the call of \<open>thpool_wait\<close>.\<close>

definition ci_waiting :: "(nat \<Rightarrow> ci_sys) \<Rightarrow> bool" where
  "ci_waiting \<sigma> \<longleftrightarrow> ci_pc (\<sigma> 0) = C_wait \<and>
     (\<forall>n. \<sigma> (Suc n) = \<sigma> n \<or> (\<exists>w ch. ci_thread w ch (\<sigma> n) = Ret (\<sigma> (Suc n)))) \<and>
     (\<forall>n. \<not> quiescent th_step th_own (ci_pool (\<sigma> n)) \<longrightarrow> (\<exists>m\<ge>n. \<sigma> (Suc m) \<noteq> \<sigma> m))"

section \<open>Invariant\<close>

fun ci_added :: "int \<Rightarrow> ci_pc \<Rightarrow> nat" where
  "ci_added num_jobs C_init = 0"
| "ci_added num_jobs (C_add n) = n"
| "ci_added num_jobs (C_post n) = Suc n"
| "ci_added num_jobs C_wait = nat num_jobs"

definition ci_inv :: "int \<Rightarrow> (nat, nat) th_sys \<Rightarrow> ci_sys \<Rightarrow> bool" where
  "ci_inv num_jobs s0 s \<longleftrightarrow>
     (\<exists>ls. run th_step ls s0 = Ret (ci_pool s) \<and> \<not> list_ex kills ls) \<and> th_inv (ci_pool s) \<and>
     length (th_pcs (ci_pool s)) = length (th_pcs s0) \<and> list_all Not (th_held (ci_pool s)) \<and>
     ci_sum s = int (size (th_finished (ci_pool s))) \<and>
     length (th_submitted (ci_pool s)) = ci_added num_jobs (ci_pc s) \<and> ci_added num_jobs (ci_pc s) \<le> nat num_jobs \<and>
     ((\<forall>n. ci_pc s \<noteq> C_post n) \<longrightarrow> (\<forall>c. jq_rwmutex (th_queue (ci_pool s)) \<noteq> M_held (Client c)))"

lemma work_finished:
  assumes "th_step (Th_work w ch) s = Ret t" "th_inv s"
  shows "size (th_finished t) = size (th_finished s) + (if runs_job (th_pcs s ! w) then 1 else 0)"
proof -
  from assms(1) have w: "w < length (th_pcs s)" "\<not> th_freed s" and step: "thread_do w ch (th_pcs s ! w) s = Ret t"
    by (auto split: if_splits)
  note inv = assms(2) [unfolded th_inv_running [OF w(2)]]
  have q: "jq_ok (th_queue s)" using inv by auto
  have np: "th_pcs s ! w \<noteq> T_post None" using inv w(1) nth_mem by metis
  from step q np show ?thesis by (cases rule: thread_do_cases) simp_all
qed

lemma run_snoc:
  "run step ls s0 = Ret s \<Longrightarrow> step l s = Ret t \<Longrightarrow> \<not> list_ex P ls \<Longrightarrow> \<not> P l \<Longrightarrow>
     \<exists>ls. run step ls s0 = Ret t \<and> \<not> list_ex P ls"
  by (rule exI [of _ "ls @ [l]"]) (simp add: run_append)

lemma ci_thread_inv:
  assumes "ci_inv num_jobs s0 s" "ci_thread w ch s = Ret t"
  shows "ci_inv num_jobs s0 t \<and> ci_pc t = ci_pc s \<and> th_step (Th_work w ch) (ci_pool s) = Ret (ci_pool t)"
proof -
  from assms(2) obtain p where p: "th_step (Th_work w ch) (ci_pool s) = Ret p" "ci_pool t = p" "ci_pc t = ci_pc s"
    "ci_sum t = ci_sum s + (if runs_job (th_pcs (ci_pool s) ! w) then 1 else 0)"
    by (cases "runs_job (th_pcs (ci_pool s) ! w)")
      (auto simp: ci_thread_def increment_def c_add_def outcome_simps simp del: th_step.simps)
  have inv: "th_inv (ci_pool s)" using assms(1) by (simp add: ci_inv_def)
  obtain ls where ls: "run th_step ls s0 = Ret (ci_pool s)" "\<not> list_ex kills ls" using assms(1) by (auto simp: ci_inv_def)
  have "\<exists>ls. run th_step ls s0 = Ret p \<and> \<not> list_ex kills ls" using run_snoc [OF ls(1) p(1) ls(2)] by simp
  moreover have "th_inv p" using inv p(1) by (rule th_inv_step)
  moreover have "th_own (Th_work w ch)" by simp
  note frame = own_frame_step [OF this p(1) inv]
  have "(\<forall>c. jq_rwmutex (th_queue (ci_pool s)) \<noteq> M_held (Client c)) \<longrightarrow> (\<forall>c. jq_rwmutex (th_queue p) \<noteq> M_held (Client c))"
    using frame(7) by blast
  ultimately have "ci_inv num_jobs s0 t"
    using assms(1) frame(1-3) work_finished [OF p(1) inv] unfolding ci_inv_def p(2-4) by simp
  with p show ?thesis by auto
qed

lemma ci_main_inv:
  assumes "ci_inv num_jobs s0 s" "ci_main num_jobs b ch (ci_pc s) s = Ret t"
  shows "ci_inv num_jobs s0 t"
proof -
  have inv: "th_inv (ci_pool s)" using assms(1) by (simp add: ci_inv_def)
  obtain ls where ls: "run th_step ls s0 = Ret (ci_pool s)" "\<not> list_ex kills ls" using assms(1) by (auto simp: ci_inv_def)
  have keep: "(\<exists>ls. run th_step ls s0 = Ret p \<and> \<not> list_ex kills ls) \<and> th_inv p"
    if "th_step l (ci_pool s) = Ret p" "\<not> kills l" for l p
    using run_snoc [OF ls(1) that(1) ls(2) that(2)] th_inv_step [OF inv that(1)] by simp
  show ?thesis
  proof (cases "ci_pc s")
    case C_init
    with assms(2) obtain p where p: "th_step Th_ready (ci_pool s) = Ret p" "t = s\<lparr>ci_pool := p, ci_pc := C_add 0\<rparr>"
      by (auto simp: outcome_simps simp del: th_step.simps)
    then have "p = (ci_pool s)\<lparr>th_ready := True\<rparr>" by (auto simp: init_returns_def split: if_splits)
    then show ?thesis using keep [OF p(1)] assms(1) C_init p(2) by (simp add: ci_inv_def)
  next
    case (C_add n)
    show ?thesis
    proof (cases "int n < num_jobs")
      case True
      with C_add assms(2) obtain p where p: "th_step (Th_add 0 b 0 0) (ci_pool s) = Ret p" "t = s\<lparr>ci_pool := p, ci_pc := C_post n\<rparr>"
        by (auto simp: outcome_simps simp del: th_step.simps)
      then obtain q where q: "p = (ci_pool s)\<lparr>th_queue := q, th_submitted := th_submitted (ci_pool s) @ [(0, 0)]\<rparr>"
        by (auto simp: with_pool_def add_link_def outcome_simps split: if_splits)
      show ?thesis using keep [OF p(1)] assms(1) C_add True p(2) unfolding q by (auto simp: ci_inv_def)
    next
      case False
      with C_add assms(2) have "t = s\<lparr>ci_pc := C_wait\<rparr>" by simp
      moreover have "nat num_jobs = n" using False C_add assms(1) by (auto simp: ci_inv_def)
      ultimately show ?thesis using assms(1) C_add by (auto simp: ci_inv_def)
    qed
  next
    case (C_post n)
    with assms(2) obtain p where p: "th_step (Th_add_post 0 ch) (ci_pool s) = Ret p" "t = s\<lparr>ci_pool := p, ci_pc := C_add (Suc n)\<rparr>"
      by (auto simp: outcome_simps simp del: th_step.simps)
    then obtain q where "p = (ci_pool s)\<lparr>th_queue := q, th_pcs := cond_signal T_sem ch (th_pcs (ci_pool s))\<rparr>" "jq_rwmutex q = M_free"
      by (auto simp: with_pool_def add_post_def outcome_simps pthread_mutex_unlock_Ret0 split: if_splits)
    moreover have "length (cond_signal T_sem ch (th_pcs (ci_pool s))) = length (th_pcs (ci_pool s))"
      by (simp add: cond_signal_def split: option.splits)
    ultimately show ?thesis using keep [OF p(1)] assms(1) C_post p(2) by (simp add: ci_inv_def)
  next
    case C_wait
    with assms(2) show ?thesis by simp
  qed
qed

interpretation cii: invariant_system "ci_step num_jobs" "\<lambda>s. ci_inv num_jobs s0 s" "ci_inv num_jobs s0" for num_jobs s0
proof unfold_locales
  fix s l t
  assume "ci_inv num_jobs s0 s" "ci_step num_jobs l s = Ret t"
  then show "ci_inv num_jobs s0 t" by (cases l) (auto dest: ci_thread_inv ci_main_inv)
qed

lemma ci_start_inv:
  assumes "ci_start argc env num_threads = Ret s" "in_int num_threads" "malloc_jobqueue env = Some q" "jq_jobs q = Map.empty"
  shows "th_init (ci_pool s)" "ci_inv num_jobs (ci_pool s) s"
proof -
  from assms(1) have s: "thpool_init (Client 0) env num_threads = Ret (ci_pool s)" "ci_sum s = 0" "ci_pc s = C_init"
    by (auto simp: ci_start_def outcome_simps split: if_splits)
  show init: "th_init (ci_pool s)" unfolding th_init_def using s(1) assms(2-4) by blast
  obtain n q where n: "ci_pool s = th_start n (empty_queue q)" using th_init_start [OF init] by blast
  have "run th_step [] (ci_pool s) = Ret (ci_pool s) \<and> \<not> list_ex kills []" by simp
  then show "ci_inv num_jobs (ci_pool s) s"
    using th_init_inv [OF init] s n unfolding ci_inv_def by (auto simp: th_start_def empty_queue_def list_all_iff intro!: exI [of _ "[]"])
qed

section \<open>Theorem\<close>

lemma ci_waiting_inv:
  assumes "ci_waiting \<sigma>" "ci_inv num_jobs s0 (\<sigma> 0)"
  shows "ci_inv num_jobs s0 (\<sigma> n) \<and> ci_pc (\<sigma> n) = C_wait"
proof (induction n)
  case 0
  show ?case using assms by (simp add: ci_waiting_def)
next
  case (Suc n)
  from assms(1) consider "\<sigma> (Suc n) = \<sigma> n" | w ch where "ci_thread w ch (\<sigma> n) = Ret (\<sigma> (Suc n))"
    unfolding ci_waiting_def by blast
  then show ?case
  proof cases
    case 1
    with Suc show ?thesis by simp
  next
    case (2 w ch)
    with Suc ci_thread_inv [of num_jobs s0 "\<sigma> n" w ch "\<sigma> (Suc n)"] show ?thesis by simp
  qed
qed

text \<open>The pool of the test runs fairly.\<close>

lemma ci_waiting_fair:
  assumes "ci_waiting \<sigma>" "ci_inv num_jobs s0 (\<sigma> 0)"
  shows "fair_run (\<lambda>n. ci_pool (\<sigma> n))"
proof -
  have step: "\<sigma> (Suc n) = \<sigma> n \<or>
    (\<exists>w ch. th_step (Th_work w ch) (ci_pool (\<sigma> n)) = Ret (ci_pool (\<sigma> (Suc n))) \<and> th_inv (ci_pool (\<sigma> n)))" for n
  proof -
    have inv: "ci_inv num_jobs s0 (\<sigma> n)" using ci_waiting_inv [OF assms] by blast
    from assms(1) consider "\<sigma> (Suc n) = \<sigma> n" | w ch where "ci_thread w ch (\<sigma> n) = Ret (\<sigma> (Suc n))"
      unfolding ci_waiting_def by blast
    then show ?thesis
    proof cases
      case (2 w ch)
      have "th_inv (ci_pool (\<sigma> n))" using inv by (simp add: ci_inv_def)
      with ci_thread_inv [OF inv 2] show ?thesis by blast
    qed simp
  qed
  have "\<exists>m\<ge>n. ci_pool (\<sigma> (Suc m)) \<noteq> ci_pool (\<sigma> m)" if go: "\<not> quiescent th_step th_own (ci_pool (\<sigma> n))" for n
  proof -
    obtain m where m: "m \<ge> n" "\<sigma> (Suc m) \<noteq> \<sigma> m" using assms(1) go unfolding ci_waiting_def by blast
    with step obtain w ch where "th_step (Th_work w ch) (ci_pool (\<sigma> m)) = Ret (ci_pool (\<sigma> (Suc m)))" "th_inv (ci_pool (\<sigma> m))" by blast
    then have "th_work (ci_pool (\<sigma> (Suc m))) < th_work (ci_pool (\<sigma> m))" using thd.work_decreases [of _ "Th_work w ch"] by simp
    with m(1) show ?thesis by auto
  qed
  moreover have "threads_run (\<lambda>n. ci_pool (\<sigma> n))" unfolding threads_run_def
  proof
    fix n
    show "ci_pool (\<sigma> (Suc n)) = ci_pool (\<sigma> n) \<or> (\<exists>l. th_own l \<and> th_step l (ci_pool (\<sigma> n)) = Ret (ci_pool (\<sigma> (Suc n))))"
      using step [of n] th_own.simps(1) by metis
  qed
  ultimately show ?thesis by (simp add: fair_run_def)
qed

lemma ci_thread_sum: "ci_thread w ch s = Ret t \<Longrightarrow> ci_sum s \<le> ci_sum t"
  by (cases "runs_job (th_pcs (ci_pool s) ! w)")
    (auto simp: ci_thread_def increment_def c_add_def outcome_simps simp del: th_step.simps)

lemma ci_sum_mono:
  assumes "ci_waiting \<sigma>" "n \<le> m"
  shows "ci_sum (\<sigma> n) \<le> ci_sum (\<sigma> m)"
  using assms(2)
proof (induction rule: dec_induct)
  case (step m)
  from assms(1) consider "\<sigma> (Suc m) = \<sigma> m" | w ch where "ci_thread w ch (\<sigma> m) = Ret (\<sigma> (Suc m))"
    unfolding ci_waiting_def by blast
  then have "ci_sum (\<sigma> m) \<le> ci_sum (\<sigma> (Suc m))"
    by cases (auto dest: ci_thread_sum)
  with step.IH show ?case by linarith
qed simp

lemma finished_bound:
  assumes "reachable th_step th_init s"
  shows "size (th_finished s) \<le> length (th_submitted s)"
proof -
  have "th_finished s \<subseteq># mset (th_submitted s)"
    using thv.reachable_promise [OF assms] by (auto simp: pool_promise_def conserved_def th_view_def)
  then show ?thesis using size_mset_mono by fastforce
qed

lemma ci_sum_bound:
  assumes "ci_inv num_jobs s0 s" "th_init s0" "ci_pc s = C_wait"
  shows "ci_sum s \<le> int (nat num_jobs)"
proof -
  obtain ls where "run th_step ls s0 = Ret (ci_pool s)" using assms(1) by (auto simp: ci_inv_def)
  then have "reachable th_step th_init (ci_pool s)" using run_reachable reach_init assms(2) by metis
  then have "size (th_finished (ci_pool s)) \<le> length (th_submitted (ci_pool s))" by (rule finished_bound)
  then show ?thesis using assms(1,3) unfolding ci_inv_def by (metis ci_added.simps(4) of_nat_le_iff)
qed

text \<open>
  C18. The test passes: with at least one thread, in every fair execution \<open>thpool_wait\<close> returns, and from its last look on \<open>sum\<close> has the
  value \<open>num_jobs\<close> that the test script expects to be printed (0 if \<open>num_jobs\<close> is negative).
\<close>

theorem conc_increment_prints:
  assumes "ci_start argc env num_threads = Ret s" "in_int num_threads" "0 < num_threads"
    and "malloc_jobqueue env = Some q" "jq_jobs q = Map.empty"
    and "run (ci_step num_jobs) ls s = Ret (\<sigma> 0)" "ci_waiting \<sigma>" "look_times r r'"
  shows "\<exists>m ps. thpool_wait (look_busy (\<lambda>n. ci_pool (\<sigma> n)) r r') elapsed = Some (m, ps) \<and> 0 < m \<and>
    (\<forall>n\<ge>r' (m - 1). ci_sum (\<sigma> n) = max 0 num_jobs)"
proof -
  have init: "th_init (ci_pool s)" "ci_inv num_jobs (ci_pool s) s" using ci_start_inv [OF assms(1,2,4,5)] by blast+
  have inv0: "ci_inv num_jobs (ci_pool s) (\<sigma> 0)" using init(2) assms(6) by (rule cii.inv_run)
  have inv: "ci_inv num_jobs (ci_pool s) (\<sigma> n)" "ci_pc (\<sigma> n) = C_wait" for n using ci_waiting_inv [OF assms(7) inv0] by blast+
  obtain ks where ks: "run th_step ks (ci_pool s) = Ret (ci_pool (\<sigma> 0))" "\<not> list_ex kills ks" using inv0 by (auto simp: ci_inv_def)
  have "thpool_init (Client 0) env num_threads = Ret (ci_pool s)"
    using assms(1) by (auto simp: ci_start_def outcome_simps split: if_splits)
  then have "ci_pool s = th_start (nat num_threads) (empty_queue q)" using assms(2,4,5) by (intro thpool_init_result)
  then have pcs: "th_pcs (ci_pool (\<sigma> 0)) \<noteq> []" using inv0 assms(3) by (auto simp: ci_inv_def th_start_def)
  have "length (th_held (ci_pool (\<sigma> 0))) = length (th_pcs (ci_pool (\<sigma> 0)))"
    using inv0 by (auto simp: ci_inv_def th_inv_def shape_ok_def)
  then have held: "\<not> th_held (ci_pool (\<sigma> 0)) ! w" if "w < length (th_pcs (ci_pool (\<sigma> 0)))" for w
    using inv0 that by (auto simp: ci_inv_def list_all_length)
  have rw: "jq_rwmutex (th_queue (ci_pool (\<sigma> 0))) \<noteq> M_held (Client c)" for c using inv0 inv(2) [of 0] by (simp add: ci_inv_def)
  obtain m ps where m: "thpool_wait (look_busy (\<lambda>n. ci_pool (\<sigma> n)) r r') elapsed = Some (m, ps)" "0 < m"
    "th_finished (ci_pool (\<sigma> (r' (m - 1)))) = mset (th_submitted (ci_pool (\<sigma> 0)))"
    using thpool_wait_all [OF init(1) ks pcs held rw ci_waiting_fair [OF assms(7) inv0] assms(8)] by blast
  have "ci_sum (\<sigma> (r' (m - 1))) = int (nat num_jobs)"
    using inv(1) [of "r' (m - 1)"] inv0 inv(2) [of 0] m(3) by (simp add: ci_inv_def)
  then have "ci_sum (\<sigma> n) = int (nat num_jobs)" if "r' (m - 1) \<le> n" for n
    using ci_sum_mono [OF assms(7) that] ci_sum_bound [OF inv(1) init(1) inv(2), of n] by linarith
  with m(1,2) show ?thesis by (auto simp: int_nat_eq max_def)
qed

section \<open>Example\<close>

text \<open>Two threads and one job.\<close>

definition ci_demo_start :: ci_sys where
  "ci_demo_start = \<lparr>ci_pool = th_demo, ci_sum = 0, ci_pc = C_init\<rparr>"

definition ci_demo_labels :: "ci_label list" where
  "ci_demo_labels = [CI_thread 0 None, CI_thread 1 None, CI_main 0 None, CI_main 10 None, CI_main 0 None, CI_main 0 None]"

definition ci_demo_wait :: ci_sys where
  "ci_demo_wait = (case run (ci_step 1) ci_demo_labels ci_demo_start of Ret s \<Rightarrow> s)"

lemma ci_demo_run:
  "ci_start 3 th_demo_env 2 = Ret ci_demo_start" "run (ci_step 1) ci_demo_labels ci_demo_start = Ret ci_demo_wait"
  "ci_pc ci_demo_wait = C_wait" "ci_sum ci_demo_wait = 0"
  by (simp_all add: ci_start_def th_demo_thpool_init ci_demo_start_def)
    (simp_all add: ci_demo_wait_def ci_demo_labels_def ci_demo_start_def ci_thread_def th_run_defs)

text \<open>A fair execution of the pool gives one of the test.\<close>

lemma ci_lift:
  assumes "fair_run \<rho>" "th_inv (\<rho> 0)" "\<And>n. in_int (int (size (th_finished (\<rho> n))))"
  shows "ci_waiting (\<lambda>n. \<lparr>ci_pool = \<rho> n, ci_sum = int (size (th_finished (\<rho> n))), ci_pc = C_wait\<rparr>)"
proof -
  have run: "threads_run \<rho>" using assms(1) by (simp add: fair_run_def)
  let ?\<sigma> = "\<lambda>n. \<lparr>ci_pool = \<rho> n, ci_sum = int (size (th_finished (\<rho> n))), ci_pc = C_wait\<rparr>"
  have "?\<sigma> (Suc n) = ?\<sigma> n \<or> (\<exists>w ch. ci_thread w ch (?\<sigma> n) = Ret (?\<sigma> (Suc n)))" for n
  proof -
    from run consider "\<rho> (Suc n) = \<rho> n" | l where "th_own l" "th_step l (\<rho> n) = Ret (\<rho> (Suc n))" unfolding threads_run_def by blast
    then show ?thesis
    proof cases
      case (2 l)
      then obtain w ch where l: "l = Th_work w ch" by (cases l) auto
      note fin = work_finished [OF 2(2) [unfolded l] threads_run_inv [OF run assms(2)]]
      have "ci_thread w ch (?\<sigma> n) = Ret (?\<sigma> (Suc n))"
        using 2(2) l fin assms(3) [of "Suc n"]
        by (cases "runs_job (th_pcs (\<rho> n) ! w)") (simp_all add: ci_thread_def increment_def c_add_def add.commute del: th_step.simps)
      then show ?thesis by blast
    qed simp
  qed
  moreover have "\<exists>m\<ge>n. ?\<sigma> (Suc m) \<noteq> ?\<sigma> m" if go: "\<not> quiescent th_step th_own (\<rho> n)" for n
    using assms(1) go unfolding fair_run_def by fastforce
  ultimately show ?thesis by (simp add: ci_waiting_def)
qed

theorem conc_increment_prints_witness:
  "\<exists>\<sigma> m ps. \<sigma> 0 = ci_demo_wait \<and> ci_waiting \<sigma> \<and>
     thpool_wait (look_busy (\<lambda>n. ci_pool (\<sigma> n)) (\<lambda>i. 2 * i) (\<lambda>i. 2 * i + 1)) (\<lambda>_. 0) = Some (m, ps) \<and>
     ci_sum (\<sigma> (2 * (m - 1) + 1)) = 1"
proof -
  have env: "malloc_jobqueue th_demo_env = Some th_junk" "jq_jobs th_junk = Map.empty" by (simp_all add: th_demo_env_def th_junk_def)
  have start: "th_init (ci_pool ci_demo_start)" "ci_inv 1 (ci_pool ci_demo_start) ci_demo_start"
    using ci_start_inv [OF ci_demo_run(1) _ env] by simp_all
  have inv: "ci_inv 1 (ci_pool ci_demo_start) ci_demo_wait" using start(2) ci_demo_run(2) by (rule cii.inv_run)
  then have th: "th_inv (ci_pool ci_demo_wait)" by (simp add: ci_inv_def)
  then obtain ks t where "list_all th_own ks" "run th_step ks (ci_pool ci_demo_wait) = Ret t" "quiescent th_step th_own t"
    using thd.drains by blast
  then obtain \<rho> where \<rho>: "fair_run \<rho>" "\<rho> 0 = ci_pool ci_demo_wait" using schedule_fair th by metis
  let ?\<sigma> = "\<lambda>n. \<lparr>ci_pool = \<rho> n, ci_sum = int (size (th_finished (\<rho> n))), ci_pc = C_wait\<rparr>"
  have "reachable th_step th_init (ci_pool ci_demo_wait)"
    using inv run_reachable reach_init start(1) unfolding ci_inv_def by metis
  then have "size (th_finished (\<rho> n)) \<le> length (th_submitted (\<rho> n)) \<and> same_calls (\<rho> 0) (\<rho> n)" for n
    using threads_run_between [of \<rho> 0 n] \<rho> th finished_bound run_reachable own_frame unfolding fair_run_def by (metis le0)
  moreover have "length (th_submitted (\<rho> 0)) = 1" using inv \<rho>(2) ci_demo_run(3) by (simp add: ci_inv_def)
  ultimately have small: "size (th_finished (\<rho> n)) \<le> 1" for n unfolding same_calls_def by metis
  have "in_int (int (size (th_finished (\<rho> n))))" for n using small [of n] by (simp add: in_int_def INT_MIN_def INT_MAX_def)
  then have w: "ci_waiting ?\<sigma>" using \<rho> th by (intro ci_lift) simp_all
  have "ci_sum ci_demo_wait = int (size (th_finished (ci_pool ci_demo_wait)))" using inv by (simp add: ci_inv_def)
  then have z: "?\<sigma> 0 = ci_demo_wait" using \<rho>(2) ci_demo_run(3) by (cases ci_demo_wait) simp
  have "look_times (\<lambda>i. 2 * i) (\<lambda>i. 2 * i + 1)" by (simp add: look_times_def)
  then have "\<exists>m ps. thpool_wait (look_busy (\<lambda>n. ci_pool (?\<sigma> n)) (\<lambda>i. 2 * i) (\<lambda>i. 2 * i + 1)) (\<lambda>_. 0) = Some (m, ps) \<and> 0 < m \<and>
      (\<forall>n\<ge>2 * (m - 1) + 1. ci_sum (?\<sigma> n) = max 0 1)"
    using ci_demo_run(2) z w by (intro conc_increment_prints [OF ci_demo_run(1) _ _ env, where num_jobs = 1]) simp_all
  then show ?thesis using w z by fastforce
qed

end
