(* ===== verification/Epoll_Chat.thy ===== *)
theory Epoll_Chat
  imports Epoll_Kernel Transition_Systems
begin

text \<open>
  The event handling of the chat server in \<open>src/epoll/server_epoll_pthread_pool.c\<close>: \<open>main\<close> up to the event loop
  (\<open>chat_start\<close>) and the body of the loop over the events (\<open>chat_event\<close>). The header of that loop, and those of the two
  loops of \<open>myprocess\<close>, are cut off in the repository, so the order of the events is left open here and \<open>myprocess\<close>
  is not modelled; the requests given to it are the list \<open>c_tasks\<close>. The pool itself is in \<open>Epoll_Pool\<close>.

  The table \<open>client\<close> is a block of \<open>MAX_EVENT_NUMBER\<close> cells; a field that was never written is \<open>None\<close>.
\<close>

section \<open>Data\<close>

definition BUFFER_SIZE :: nat where "BUFFER_SIZE = 100"
definition MAX_EVENT_NUMBER :: nat where "MAX_EVENT_NUMBER = 1024"

record client_data =
  c_sockfd :: "int option"
  c_mark :: "int option"
  chatRecord :: "string option"

record chat =
  c_k :: kernel
  client :: "client_data list"
  client_count :: int
  user_count :: int
  c_tasks :: "int list"

definition fresh_cell :: client_data where
  "fresh_cell = \<lparr>c_sockfd = None, c_mark = None, chatRecord = None\<rparr>"

definition chat_setnonblocking :: "int \<Rightarrow> int \<Rightarrow> int \<Rightarrow> os \<Rightarrow> int \<times> os" where
  "chat_setnonblocking getfl setfl fd s =
     (let old_option = fcntl_getfl getfl fd s; new_option = old_option OR O_NONBLOCK in
      (old_option, snd (fcntl_setfl setfl fd new_option s)))"

definition addfd :: "int \<Rightarrow> int \<Rightarrow> int \<Rightarrow> int \<Rightarrow> kernel \<Rightarrow> kernel" where
  "addfd ctl getfl setfl fd k =
     (let k1 = snd (epoll_ctl_add ctl fd k) in k1\<lparr>k_os := snd (chat_setnonblocking getfl setfl fd (k_os k1))\<rparr>)"

section \<open>Start\<close>

record chat_answers =
  b_argc :: nat
  b_socket :: int
  b_bind :: int
  b_listen :: int
  b_epoll :: int
  b_ctl :: int
  b_getfl :: int
  b_setfl :: int

text \<open>\<open>assert\<close> ends the process; the block of \<open>malloc\<close> is assumed to be there.\<close>

definition chat_start :: "chat_answers \<Rightarrow> os \<Rightarrow> (int \<times> chat) outcome" where
  "chat_start a s =
     (if b_argc a \<le> 2 then Exit 1
      else if b_socket a < 0 then Exit abort_status
      else if b_bind a = - 1 then Exit abort_status
      else if b_listen a = - 1 then Exit abort_status
      else if b_epoll a = - 1 then Exit abort_status
      else Ret (b_socket a,
        \<lparr>c_k = addfd (b_ctl a) (b_getfl a) (b_setfl a) (b_socket a)
                 \<lparr>k_os = sys_open (b_epoll a) (sys_open (b_socket a) s), interest = {}, backlog = 0,
                  conns = (\<lambda>_. \<lparr>unread = [], peer = Live\<rparr>)\<rparr>,
         client = replicate MAX_EVENT_NUMBER fresh_cell, client_count = 0, user_count = 0, c_tasks = []\<rparr>))"

section \<open>One event\<close>

definition set_cell :: "int \<Rightarrow> (client_data \<Rightarrow> client_data) \<Rightarrow> chat \<Rightarrow> chat outcome" where
  "set_cell i f s =
     (if 0 \<le> i \<and> i < int (length (client s)) then Ret (s\<lparr>client := (client s)[nat i := f (client s ! nat i)]\<rparr>) else UB Out_of_bounds)"

record chat_ev =
  v_fd :: int
  v_mask :: "32 word"
  v_acc :: int
  v_ctl :: int
  v_getfl :: int
  v_setfl :: int
  v_sz :: nat

text \<open>The result of \<open>accept\<close> is not tested.\<close>

definition chat_accept :: "int \<Rightarrow> chat_ev \<Rightarrow> chat \<Rightarrow> chat outcome" where
  "chat_accept listenfd e s =
     and_then (k_accept listenfd (v_acc e) (c_k s)) (\<lambda>(connfd, k).
     and_then (c_add (client_count s) 1) (\<lambda>cc.
     and_then (c_add (user_count s) 1) (\<lambda>uc.
     set_cell cc (\<lambda>_. \<lparr>c_sockfd = Some connfd, c_mark = Some 1, chatRecord = Some []\<rparr>)
       (s\<lparr>c_k := addfd (v_ctl e) (v_getfl e) (v_setfl e) connfd k, client_count := cc, user_count := uc\<rparr>))))"

text \<open>A client that has left or failed: the cell that is marked is the one of the client that came last.\<close>

definition chat_leave :: "int \<Rightarrow> chat \<Rightarrow> chat outcome" where
  "chat_leave fd s =
     and_then (set_cell (client_count s) (\<lambda>c. c\<lparr>c_mark := Some (- 1), chatRecord := Some []\<rparr>) s) (\<lambda>s1.
     and_then (c_sub (user_count s1) 1) (\<lambda>uc. Ret (s1\<lparr>user_count := uc, c_k := k_close fd (c_k s1)\<rparr>)))"

text \<open>\<open>strcpy\<close> to the cells of the client; the bytes received end at the first zero byte.\<close>

fun copy_record :: "int \<Rightarrow> string \<Rightarrow> nat \<Rightarrow> nat \<Rightarrow> chat \<Rightarrow> chat outcome" where
  "copy_record fd buf i 0 s = Ret s"
| "copy_record fd buf i (Suc m) s =
     (if i < length (client s) then
        (case c_sockfd (client s ! i) of
           None \<Rightarrow> UB Indeterminate
         | Some f \<Rightarrow>
             copy_record fd buf (Suc i) m
               (if f = fd then s\<lparr>client := (client s)[i := (client s ! i)\<lparr>chatRecord := Some buf\<rparr>]\<rparr> else s))
      else UB Out_of_bounds)"

text \<open>The flag says that the code leaves the loop over the events.\<close>

definition chat_recv :: "int \<Rightarrow> chat_ev \<Rightarrow> chat \<Rightarrow> (bool \<times> chat) outcome" where
  "chat_recv fd e s =
     and_then (k_read (BUFFER_SIZE - 1) (v_sz e) fd (c_k s)) (\<lambda>(r, k).
     let s1 = s\<lparr>c_k := k\<rparr> in
     case r of
       Read_error err \<Rightarrow>
         if err = EAGAIN then Ret (True, s1) else and_then (chat_leave fd s1) (\<lambda>s2. Ret (True, s2))
     | End_of_file \<Rightarrow> and_then (chat_leave fd s1) (\<lambda>s2. Ret (False, s2))
     | Data d \<Rightarrow>
         and_then (copy_record fd (c_text d) 1 (nat (client_count s1)) s1) (\<lambda>s2.
           Ret (False, s2\<lparr>c_tasks := c_tasks s2 @ [fd]\<rparr>)))"

definition chat_event :: "int \<Rightarrow> chat_ev \<Rightarrow> chat \<Rightarrow> (bool \<times> chat) outcome" where
  "chat_event listenfd e s =
     (if v_fd e = listenfd then and_then (chat_accept listenfd e s) (\<lambda>s'. Ret (False, s'))
      else if v_mask e AND EPOLLIN = EPOLLIN then chat_recv (v_fd e) e s
      else Ret (False, s))"

text \<open>\<open>main\<close> returns when \<open>epoll_wait\<close> fails. An event is one of a monitored descriptor.\<close>

datatype chat_label =
    Chat_fails
  | Chat_event chat_ev
  | Chat_connect
  | Chat_send int string
  | Chat_peer int peer

fun chat_step :: "int \<Rightarrow> chat_label \<Rightarrow> chat \<Rightarrow> chat outcome" where
  "chat_step lfd Chat_fails s = Exit 0"
| "chat_step lfd (Chat_event e) s =
     (if v_fd e \<in> interest (c_k s) then and_then (chat_event lfd e s) (\<lambda>(_, s'). Ret s') else Blocked)"
| "chat_step lfd Chat_connect s = Ret (s\<lparr>c_k := (c_k s)\<lparr>backlog := Suc (backlog (c_k s))\<rparr>\<rparr>)"
| "chat_step lfd (Chat_send fd d) s =
     Ret (s\<lparr>c_k := (c_k s)\<lparr>conns := (conns (c_k s))(fd := (conns (c_k s) fd)\<lparr>unread := unread (conns (c_k s) fd) @ d\<rparr>)\<rparr>\<rparr>)"
| "chat_step lfd (Chat_peer fd p) s =
     Ret (s\<lparr>c_k := (c_k s)\<lparr>conns := (conns (c_k s))(fd := (conns (c_k s) fd)\<lparr>peer := p\<rparr>)\<rparr>\<rparr>)"

section \<open>Invariant\<close>

text \<open>
  Cells 1 to \<open>client_count\<close> have a descriptor; the connections that are monitored are counted by
  \<open>user_count\<close>, which never exceeds the number of connections ever accepted.
\<close>

definition cells_ok :: "chat \<Rightarrow> bool" where
  "cells_ok s \<longleftrightarrow> length (client s) = MAX_EVENT_NUMBER \<and> 0 \<le> client_count s \<and> client_count s < int MAX_EVENT_NUMBER \<and>
     (\<forall>i. 1 \<le> i \<and> i \<le> nat (client_count s) \<longrightarrow> c_sockfd (client s ! i) \<noteq> None)"

definition chat_inv :: "int \<Rightarrow> chat \<Rightarrow> bool" where
  "chat_inv lfd s \<longleftrightarrow> cells_ok s \<and> finite (interest (c_k s)) \<and> int (card (interest (c_k s) - {lfd})) \<le> user_count s \<and>
     user_count s \<le> client_count s"

lemma addfd_interest: "interest (addfd ctl g h fd k) = interest k \<or> interest (addfd ctl g h fd k) = insert fd (interest k)"
  by (simp add: addfd_def Let_def epoll_ctl_add_def)

lemma copy_record_eq:
  assumes "i + m \<le> length (client s)" "\<And>j. i \<le> j \<Longrightarrow> j < i + m \<Longrightarrow> c_sockfd (client s ! j) \<noteq> None"
  shows "\<exists>cs. copy_record fd buf i m s = Ret (s\<lparr>client := cs\<rparr>) \<and> length cs = length (client s) \<and>
    (\<forall>j<length cs. cs ! j = (if i \<le> j \<and> j < i + m \<and> c_sockfd (client s ! j) = Some fd
        then (client s ! j)\<lparr>chatRecord := Some buf\<rparr> else client s ! j))"
  using assms
proof (induction m arbitrary: i s)
  case 0
  show ?case by (rule exI [of _ "client s"]) auto
next
  case (Suc m)
  have i: "i < length (client s)" using Suc.prems(1) by simp
  obtain f where f: "c_sockfd (client s ! i) = Some f" using Suc.prems(2) [of i] by auto
  let ?c = "if f = fd then (client s)[i := (client s ! i)\<lparr>chatRecord := Some buf\<rparr>] else client s"
  let ?s = "if f = fd then s\<lparr>client := ?c\<rparr> else s"
  have s: "client ?s = ?c" "length ?c = length (client s)" by simp_all
  have fd: "c_sockfd (?c ! j) = c_sockfd (client s ! j)" for j using i by (cases "j = i") auto
  obtain cs where cs: "copy_record fd buf (Suc i) m ?s = Ret (?s\<lparr>client := cs\<rparr>)" "length cs = length ?c"
    "\<forall>j<length cs. cs ! j = (if Suc i \<le> j \<and> j < Suc i + m \<and> c_sockfd (?c ! j) = Some fd
        then (?c ! j)\<lparr>chatRecord := Some buf\<rparr> else ?c ! j)"
    using Suc.IH [of "Suc i" ?s] Suc.prems fd unfolding s by auto
  have "copy_record fd buf i (Suc m) s = Ret (s\<lparr>client := cs\<rparr>)" using cs(1) i f by auto
  moreover have "cs ! j = (if i \<le> j \<and> j < i + Suc m \<and> c_sockfd (client s ! j) = Some fd
        then (client s ! j)\<lparr>chatRecord := Some buf\<rparr> else client s ! j)" if "j < length cs" for j
    using cs(3) [rule_format, OF that] fd [of j] f i by (cases "j = i") auto
  ultimately show ?case using cs(2) s(2) by auto
qed

lemma cells_range: "cells_ok s \<Longrightarrow> nat (client_count s) < length (client s)"
  by (simp add: cells_ok_def nat_less_iff)

lemma copy_record_all:
  assumes "cells_ok s"
  shows "\<exists>cs. copy_record fd buf 1 (nat (client_count s)) s = Ret (s\<lparr>client := cs\<rparr>) \<and> length cs = length (client s) \<and>
    (\<forall>j<length cs. cs ! j = (if 1 \<le> j \<and> j \<le> nat (client_count s) \<and> c_sockfd (client s ! j) = Some fd
        then (client s ! j)\<lparr>chatRecord := Some buf\<rparr> else client s ! j))"
proof -
  have "1 + nat (client_count s) \<le> length (client s)" using cells_range [OF assms] by simp
  moreover have "c_sockfd (client s ! j) \<noteq> None" if "1 \<le> j" "j < 1 + nat (client_count s)" for j
    using assms that by (auto simp: cells_ok_def)
  ultimately show ?thesis using copy_record_eq [of 1 "nat (client_count s)" s fd buf] by (simp add: less_Suc_eq_le)
qed

lemma chat_count_in_int:
  assumes "cells_ok s" "user_count s \<le> client_count s" "- 1 \<le> user_count s"
  shows "in_int (client_count s + 1)" "in_int (user_count s + 1)" "in_int (user_count s - 1)"
  using assms by (simp_all add: cells_ok_def in_int_def INT_MIN_def INT_MAX_def MAX_EVENT_NUMBER_def)

text \<open>\<open>accept\<close> as a whole: it fails only when the table is full.\<close>

lemma chat_accept_eq:
  assumes "chat_inv lfd s" "k_accept lfd (v_acc e) (c_k s) = Ret (fd, k)"
  shows "chat_accept lfd e s =
    (if client_count s + 1 < int MAX_EVENT_NUMBER then
       Ret (s\<lparr>c_k := addfd (v_ctl e) (v_getfl e) (v_setfl e) fd k, client_count := client_count s + 1, user_count := user_count s + 1,
         client := (client s)[nat (client_count s + 1) := \<lparr>c_sockfd = Some fd, c_mark = Some 1, chatRecord = Some []\<rparr>]\<rparr>)
     else UB Out_of_bounds)"
proof -
  have "0 \<le> user_count s" "cells_ok s" "user_count s \<le> client_count s" using assms(1) by (auto simp: chat_inv_def)
  then show ?thesis using assms(2) chat_count_in_int [of s]
    by (auto simp: chat_accept_def c_add_def set_cell_def cells_ok_def)
qed

lemma k_accept_interest: "k_accept lfd r k = Ret (fd, k') \<Longrightarrow> interest k' = interest k"
  by (auto simp: k_accept_def split: if_splits)

lemma chat_inv_accept:
  assumes "chat_inv lfd s" "chat_accept lfd e s = Ret t"
  shows "chat_inv lfd t"
proof -
  obtain fd k where k: "k_accept lfd (v_acc e) (c_k s) = Ret (fd, k)"
    using assms(2) by (auto simp: chat_accept_def outcome_simps)
  from assms(2) chat_accept_eq [OF assms(1) k] have c: "client_count s + 1 < int MAX_EVENT_NUMBER"
    and t: "t = s\<lparr>c_k := addfd (v_ctl e) (v_getfl e) (v_setfl e) fd k, client_count := client_count s + 1, user_count := user_count s + 1,
         client := (client s)[nat (client_count s + 1) := \<lparr>c_sockfd = Some fd, c_mark = Some 1, chatRecord = Some []\<rparr>]\<rparr>"
    by (auto split: if_splits)
  have i: "interest (c_k t) = interest (c_k s) \<or> interest (c_k t) = insert fd (interest (c_k s))"
    using addfd_interest [of "v_ctl e" "v_getfl e" "v_setfl e" fd k] k_accept_interest [OF k] t by simp
  have fin: "finite (interest (c_k s))" and le: "int (card (interest (c_k s) - {lfd})) \<le> user_count s"
    using assms(1) by (auto simp: chat_inv_def)
  have "card (insert fd (interest (c_k s)) - {lfd}) \<le> Suc (card (interest (c_k s) - {lfd}))"
    using fin by (cases "fd = lfd") (auto simp: insert_Diff_if card_insert_if)
  then have "int (card (interest (c_k t) - {lfd})) \<le> user_count t" using i le t by auto
  moreover have "cells_ok t" unfolding cells_ok_def
  proof (intro conjI allI impI)
    fix i assume "1 \<le> i \<and> i \<le> nat (client_count t)"
    moreover have "0 \<le> client_count s" using assms(1) by (simp add: chat_inv_def cells_ok_def)
    ultimately have "i = nat (client_count s + 1) \<or> (1 \<le> i \<and> i \<le> nat (client_count s))" using t by auto
    then show "c_sockfd (client t ! i) \<noteq> None"
    proof
      assume "i = nat (client_count s + 1)"
      moreover have "nat (client_count s + 1) < length (client s)"
        using assms(1) c by (simp add: chat_inv_def cells_ok_def nat_less_iff)
      ultimately show ?thesis using t by simp
    next
      assume "1 \<le> i \<and> i \<le> nat (client_count s)"
      moreover from this have "i \<noteq> nat (client_count s + 1)" using \<open>0 \<le> client_count s\<close> by linarith
      ultimately show ?thesis using assms(1) t by (simp add: chat_inv_def cells_ok_def)
    qed
  qed (use assms(1) c t in \<open>auto simp: chat_inv_def cells_ok_def\<close>)
  moreover have "finite (interest (c_k t))" using i fin by auto
  ultimately show ?thesis using assms(1) t by (simp add: chat_inv_def)
qed

lemma chat_leave_eq:
  assumes "chat_inv lfd s" "fd \<in> interest (c_k s)" "fd \<noteq> lfd"
  shows "chat_leave fd s = Ret (s\<lparr>client := (client s)[nat (client_count s) :=
       (client s ! nat (client_count s))\<lparr>c_mark := Some (- 1), chatRecord := Some []\<rparr>], user_count := user_count s - 1, c_k := k_close fd (c_k s)\<rparr>)"
proof -
  have "0 \<le> user_count s" "cells_ok s" "user_count s \<le> client_count s" using assms(1) by (auto simp: chat_inv_def)
  then show ?thesis using chat_count_in_int [of s]
    by (simp add: chat_leave_def set_cell_def cells_ok_def c_sub_def)
qed

lemma chat_inv_leave:
  assumes "chat_inv lfd s" "fd \<in> interest (c_k s)" "fd \<noteq> lfd" "chat_leave fd s = Ret t"
  shows "chat_inv lfd t"
proof -
  have t: "t = s\<lparr>client := (client s)[nat (client_count s) :=
       (client s ! nat (client_count s))\<lparr>c_mark := Some (- 1), chatRecord := Some []\<rparr>], user_count := user_count s - 1, c_k := k_close fd (c_k s)\<rparr>"
    using assms(4) chat_leave_eq [OF assms(1-3)] by simp
  have "interest (c_k t) - {lfd} = interest (c_k s) - {lfd} - {fd}" using t by auto
  then have "int (card (interest (c_k t) - {lfd})) \<le> user_count t"
    using assms(1-3) t card_Suc_Diff1 [of "interest (c_k s) - {lfd}" fd] by (simp add: chat_inv_def)
  moreover have "c_sockfd (client t ! i) = c_sockfd (client s ! i)" for i
    using t cells_range [of s] assms(1) by (auto simp: nth_list_update chat_inv_def)
  ultimately show ?thesis using assms(1) t by (auto simp: chat_inv_def cells_ok_def)
qed

lemma chat_inv_kernel:
  "chat_inv lfd s \<Longrightarrow> interest k = interest (c_k s) \<Longrightarrow> chat_inv lfd (s\<lparr>c_k := k\<rparr>)"
  by (simp add: chat_inv_def cells_ok_def)

lemma chat_inv_copy:
  assumes "chat_inv lfd s" "copy_record fd buf 1 (nat (client_count s)) s = Ret t"
  shows "chat_inv lfd t" "client_count t = client_count s" "c_tasks t = c_tasks s"
proof -
  have c: "cells_ok s" using assms(1) by (simp add: chat_inv_def)
  obtain cs where cs: "t = s\<lparr>client := cs\<rparr>" "length cs = length (client s)"
    "\<forall>j<length cs. cs ! j = (if 1 \<le> j \<and> j \<le> nat (client_count s) \<and> c_sockfd (client s ! j) = Some fd
        then (client s ! j)\<lparr>chatRecord := Some buf\<rparr> else client s ! j)"
    using copy_record_all [OF c, of fd buf] assms(2) by auto
  have "c_sockfd (cs ! j) = c_sockfd (client s ! j)" if "j \<le> nat (client_count s)" for j
    using cs(2) cs(3) [rule_format, of j] cells_range [OF c] that by auto
  then have "cells_ok t" using c cs(1,2) by (auto simp: cells_ok_def)
  then show "chat_inv lfd t" using assms(1) cs(1) by (simp add: chat_inv_def)
  show "client_count t = client_count s" "c_tasks t = c_tasks s" using cs(1) by simp_all
qed

lemma chat_recv_ok:
  assumes "chat_inv lfd s" "fd \<in> interest (c_k s)" "fd \<noteq> lfd"
  shows "(\<forall>u. chat_recv fd e s \<noteq> UB u) \<and>
    (\<forall>b t. chat_recv fd e s = Ret (b, t) \<longrightarrow> chat_inv lfd t \<and> client_count t = client_count s)"
proof (cases "k_read (BUFFER_SIZE - 1) (v_sz e) fd (c_k s)")
  case (Ret p)
  obtain r k where p: "p = (r, k)" by (cases p)
  have i: "interest k = interest (c_k s)" using k_read_same(2) Ret p by blast
  let ?s = "s\<lparr>c_k := k\<rparr>"
  have inv: "chat_inv lfd ?s" using assms(1) i by (rule chat_inv_kernel)
  have fd: "fd \<in> interest (c_k ?s)" using assms(2) i by simp
  obtain t where t: "chat_leave fd ?s = Ret t" using chat_leave_eq [OF inv fd assms(3)] by blast
  have ti: "chat_inv lfd t" using inv fd assms(3) t by (rule chat_inv_leave)
  have tc: "client_count t = client_count s" using chat_leave_eq [OF inv fd assms(3)] t by simp
  show ?thesis
  proof (cases r)
    case (Data d)
    have c: "cells_ok ?s" using inv by (simp add: chat_inv_def)
    obtain u where u: "copy_record fd (c_text d) 1 (nat (client_count ?s)) ?s = Ret u"
      using copy_record_all [OF c, of fd "c_text d"] by blast
    note c = chat_inv_copy [OF inv u]
    have "chat_recv fd e s = Ret (False, u\<lparr>c_tasks := c_tasks u @ [fd]\<rparr>)" using Ret p Data u by (simp add: chat_recv_def)
    moreover have "chat_inv lfd (u\<lparr>c_tasks := c_tasks u @ [fd]\<rparr>)" using c(1) by (simp add: chat_inv_def cells_ok_def)
    ultimately show ?thesis using c(2) by simp
  next
    case End_of_file
    then have "chat_recv fd e s = Ret (False, t)" using Ret p t by (simp add: chat_recv_def)
    then show ?thesis using ti tc by simp
  next
    case (Read_error err)
    show ?thesis
    proof (cases "err = EAGAIN")
      case True
      then have "chat_recv fd e s = Ret (True, ?s)" using Ret p Read_error by (simp add: chat_recv_def)
      then show ?thesis using inv by simp
    next
      case False
      then have "chat_recv fd e s = Ret (True, t)" using Ret p Read_error t by (simp add: chat_recv_def)
      then show ?thesis using ti tc by simp
    qed
  qed
next
  case (UB u)
  then show ?thesis by (auto simp: k_read_def Let_def split: if_splits peer.splits)
qed (simp_all add: chat_recv_def)

text \<open>The number of events of the listening socket among the labels.\<close>

fun accepts :: "int \<Rightarrow> chat_label \<Rightarrow> nat" where
  "accepts lfd (Chat_event e) = (if v_fd e = lfd then 1 else 0)"
| "accepts lfd _ = 0"

lemma chat_step_ok:
  assumes "chat_inv lfd s" "chat_step lfd l s = Ret t"
  shows "chat_inv lfd t \<and> client_count t = client_count s + int (accepts lfd l)"
proof (cases l)
  case (Chat_event e)
  then obtain b where e: "v_fd e \<in> interest (c_k s)" "chat_event lfd e s = Ret (b, t)"
    using assms(2) by (auto simp: outcome_simps split: if_splits)
  show ?thesis
  proof (cases "v_fd e = lfd")
    case True
    then have a: "chat_accept lfd e s = Ret t" using e(2) by (auto simp: chat_event_def outcome_simps)
    then obtain fd k where k: "k_accept lfd (v_acc e) (c_k s) = Ret (fd, k)" by (auto simp: chat_accept_def outcome_simps)
    have "client_count t = client_count s + 1" using chat_accept_eq [OF assms(1) k] a by (auto split: if_splits)
    then show ?thesis using chat_inv_accept [OF assms(1) a] True Chat_event by simp
  next
    case False
    then have "chat_recv (v_fd e) e s = Ret (b, t) \<or> t = s" using e(2) by (auto simp: chat_event_def split: if_splits)
    then show ?thesis using chat_recv_ok [OF assms(1) e(1) False, of e] assms(1) False Chat_event by auto
  qed
qed (use assms chat_inv_kernel [OF assms(1)] in auto)

lemma chat_start_inv:
  assumes "chat_start a os = Ret (lfd, s)"
  shows "chat_inv lfd s \<and> client_count s = 0"
proof -
  have s: "s = \<lparr>c_k = addfd (b_ctl a) (b_getfl a) (b_setfl a) (b_socket a)
                 \<lparr>k_os = sys_open (b_epoll a) (sys_open (b_socket a) os), interest = {}, backlog = 0,
                  conns = (\<lambda>_. \<lparr>unread = [], peer = Live\<rparr>)\<rparr>,
         client = replicate MAX_EVENT_NUMBER fresh_cell, client_count = 0, user_count = 0, c_tasks = []\<rparr>" "lfd = b_socket a"
    using assms by (auto simp: chat_start_def split: if_splits)
  have "interest (c_k s) = {} \<or> interest (c_k s) = {lfd}"
    unfolding s(1) s(2) by (simp add: addfd_def Let_def epoll_ctl_add_def)
  then show ?thesis using s(1) by (auto simp: chat_inv_def cells_ok_def MAX_EVENT_NUMBER_def)
qed

interpretation chi: invariant_system "chat_step lfd" "\<lambda>s. \<exists>a os. chat_start a os = Ret (lfd, s)" "chat_inv lfd" for lfd
  by unfold_locales (use chat_start_inv chat_step_ok in blast)+

lemma chat_run_count:
  "chat_inv lfd s \<Longrightarrow> run (chat_step lfd) ls s = Ret t \<Longrightarrow> client_count t = client_count s + int (sum_list (map (accepts lfd) ls))"
proof (induction ls arbitrary: s)
  case Nil
  then show ?case by simp
next
  case (Cons l ls)
  then obtain u where u: "chat_step lfd l s = Ret u" "run (chat_step lfd) ls u = Ret t" by (auto simp: outcome_simps)
  from chat_step_ok [OF Cons.prems(1) u(1)] Cons.IH [of u] u(2) show ?case by simp
qed

section \<open>Theorems\<close>

text \<open>
  C36. The table of clients: \<open>client_count\<close> is the number of events of the listening socket handled since the start, also
  when the clients have left meanwhile. While it is below \<open>MAX_EVENT_NUMBER - 1\<close> no event has undefined behaviour;
  when it has reached that number, the next connection is written behind the end of the table. The
  monitored connections never outnumber \<open>user_count\<close>.
\<close>

theorem chat_table:
  assumes "chat_start a os = Ret (lfd, s0)" "run (chat_step lfd) ls s0 = Ret s"
  shows "client_count s = int (sum_list (map (accepts lfd) ls)) \<and> client_count s < int MAX_EVENT_NUMBER \<and>
    int (card (interest (c_k s) - {lfd})) \<le> user_count s \<and> user_count s \<le> client_count s \<and>
    (chat_step lfd l s = UB u \<longrightarrow> u = Out_of_bounds \<and> client_count s = int MAX_EVENT_NUMBER - 1 \<and> accepts lfd l = 1) \<and>
    (client_count s = int MAX_EVENT_NUMBER - 1 \<and> v_fd e = lfd \<and> lfd \<in> interest (c_k s) \<and> k_accept lfd (v_acc e) (c_k s) = Ret p \<longrightarrow>
       chat_step lfd (Chat_event e) s = UB Out_of_bounds)"
proof -
  have s0: "chat_inv lfd s0" "client_count s0 = 0" using chat_start_inv [OF assms(1)] by auto
  have i: "chat_inv lfd s" using s0(1) assms(2) by (rule chi.inv_run)
  have "client_count s = int (sum_list (map (accepts lfd) ls))" using chat_run_count [OF s0(1) assms(2)] s0(2) by simp
  moreover have "u = Out_of_bounds \<and> client_count s = int MAX_EVENT_NUMBER - 1 \<and> accepts lfd l = 1" if ub: "chat_step lfd l s = UB u"
  proof (cases l)
    case (Chat_event e)
    then have e: "v_fd e \<in> interest (c_k s)" "chat_event lfd e s = UB u"
      using ub by (auto simp: outcome_simps split: if_splits)
    have fd: "v_fd e = lfd" using e chat_recv_ok [OF i e(1), of e] by (auto simp: chat_event_def split: if_splits)
    then have a: "chat_accept lfd e s = UB u" using e(2) by (auto simp: chat_event_def outcome_simps)
    then obtain f k where k: "k_accept lfd (v_acc e) (c_k s) = Ret (f, k)"
      by (auto simp: chat_accept_def outcome_simps k_accept_def split: if_splits)
    have "0 \<le> client_count s \<and> client_count s < int MAX_EVENT_NUMBER" using i by (simp add: chat_inv_def cells_ok_def)
    then show ?thesis using chat_accept_eq [OF i k] a fd Chat_event by (auto split: if_splits)
  qed (use ub in auto)
  moreover have "chat_step lfd (Chat_event e) s = UB Out_of_bounds"
    if "client_count s = int MAX_EVENT_NUMBER - 1 \<and> v_fd e = lfd \<and> lfd \<in> interest (c_k s) \<and> k_accept lfd (v_acc e) (c_k s) = Ret p"
    using that chat_accept_eq [OF i, of e "fst p" "snd p"] by (simp add: chat_event_def)
  ultimately show ?thesis using i by (auto simp: chat_inv_def cells_ok_def)
qed

text \<open>
  A message of a client: up to \<open>BUFFER_SIZE - 1\<close> bytes are read, the text up to the first zero byte is
  written to every cell of the table that has the client's descriptor, also to those of earlier clients that had
  the same number, all other cells keep their contents, and one task is given to the pool.
\<close>

theorem chat_message:
  assumes "chat_inv lfd s" "fd \<in> interest (c_k s)" "fd \<noteq> lfd" "fd \<in> dom (fds (k_os (c_k s)))" "unread (conns (c_k s) fd) \<noteq> []"
    and "d = take (read_size (BUFFER_SIZE - 1) (v_sz e) (length (unread (conns (c_k s) fd)))) (unread (conns (c_k s) fd))"
  shows "length d < BUFFER_SIZE \<and>
    (\<exists>t. chat_recv fd e s = Ret (False, t) \<and> c_tasks t = c_tasks s @ [fd] \<and> length (client t) = length (client s) \<and>
      (\<forall>j<length (client s). client t ! j =
         (if 1 \<le> j \<and> j \<le> nat (client_count s) \<and> c_sockfd (client s ! j) = Some fd
          then (client s ! j)\<lparr>chatRecord := Some (c_text d)\<rparr> else client s ! j)))"
proof -
  obtain k where r: "k_read (BUFFER_SIZE - 1) (v_sz e) fd (c_k s) = Ret (Data d, k)"
    using k_read_Data [OF assms(4,5), of "BUFFER_SIZE - 1" "v_sz e"] assms(6) by (auto simp: Let_def)
  let ?s = "s\<lparr>c_k := k\<rparr>"
  have inv: "chat_inv lfd ?s" using assms(1) k_read_same(2) [OF r] by (rule chat_inv_kernel)
  then have c: "cells_ok ?s" by (simp add: chat_inv_def)
  obtain cs where cs: "copy_record fd (c_text d) 1 (nat (client_count ?s)) ?s = Ret (?s\<lparr>client := cs\<rparr>)" "length cs = length (client ?s)"
    "\<forall>j<length cs. cs ! j = (if 1 \<le> j \<and> j \<le> nat (client_count ?s) \<and> c_sockfd (client ?s ! j) = Some fd
        then (client ?s ! j)\<lparr>chatRecord := Some (c_text d)\<rparr> else client ?s ! j)"
    using copy_record_all [OF c, of fd "c_text d"] by blast
  have "chat_recv fd e s = Ret (False, ?s\<lparr>client := cs, c_tasks := c_tasks s @ [fd]\<rparr>)"
    using r cs(1) by (simp add: chat_recv_def)
  moreover have "length d < BUFFER_SIZE"
    using assms(6) read_size_bounds(2) [of "length (unread (conns (c_k s) fd))" "BUFFER_SIZE - 1" "v_sz e"] assms(5)
    by (auto simp: BUFFER_SIZE_def min_def)
  ultimately show ?thesis using cs(2,3) by auto
qed

text \<open>
  A client that leaves: the cell that is marked and cleared is that of the client that came last; the
  client's own cell, if it is another one, keeps its mark, its descriptor and its text.
\<close>

theorem chat_leave_wrong:
  assumes "chat_inv lfd s" "fd \<in> interest (c_k s)" "fd \<noteq> lfd" "j \<noteq> nat (client_count s)"
  shows "\<exists>t. chat_leave fd s = Ret t \<and> client t ! j = client s ! j \<and> c_mark (client t ! nat (client_count s)) = Some (- 1)"
  using chat_leave_eq [OF assms(1-3)] assms(4) cells_range [of s] assms(1) by (simp add: chat_inv_def)

section \<open>Example\<close>

definition cdemo_os :: os where
  "cdemo_os = \<lparr>fds = [0 \<mapsto> O_RDWR, 1 \<mapsto> O_RDWR, 2 \<mapsto> O_RDWR], stray_closes = 0\<rparr>"

definition cdemo_answers :: chat_answers where
  "cdemo_answers = \<lparr>b_argc = 3, b_socket = 3, b_bind = 0, b_listen = 0, b_epoll = 4, b_ctl = 0, b_getfl = 0, b_setfl = 0\<rparr>"

definition cdemo_event :: "int \<Rightarrow> chat_ev" where
  "cdemo_event fd = \<lparr>v_fd = fd, v_mask = EPOLLIN, v_acc = 5, v_ctl = 0, v_getfl = 0, v_setfl = 0, v_sz = 10\<rparr>"

definition cdemo_start :: chat where
  "cdemo_start = (case chat_start cdemo_answers cdemo_os of Ret (lfd, s) \<Rightarrow> s)"

definition cdemo_labels :: "chat_label list" where
  "cdemo_labels = [Chat_connect, Chat_event (cdemo_event 3), Chat_send 5 ''hello'']"

lemmas cdemo_defs = cdemo_os_def cdemo_answers_def cdemo_event_def cdemo_start_def cdemo_labels_def chat_start_def addfd_def Let_def
  chat_setnonblocking_def fcntl_getfl_def fcntl_setfl_def sys_open_def epoll_ctl_add_def O_RDWR_def O_NONBLOCK_def
  chat_event_def chat_accept_def set_cell_def c_add_def c_int_def in_int_def INT_MIN_def INT_MAX_def k_accept_def MAX_EVENT_NUMBER_def EPOLLIN_def

lemma cdemo_runs:
  "chat_start cdemo_answers cdemo_os = Ret (3, cdemo_start)"
  "\<exists>s. run (chat_step 3) cdemo_labels cdemo_start = Ret s \<and> 5 \<in> interest (c_k s) \<and> 5 \<in> dom (fds (k_os (c_k s))) \<and>
     unread (conns (c_k s) 5) = ''hello'' \<and> c_sockfd (client s ! 1) = Some 5 \<and> client_count s = 1 \<and> length (client s) = 1024 \<and> c_tasks s = []"
  by (simp_all add: cdemo_defs)

theorem chat_table_witness:
  "\<exists>s. run (chat_step 3) cdemo_labels cdemo_start = Ret s \<and> client_count s = 1 \<and> 1 \<le> user_count s"
proof -
  obtain s where s: "run (chat_step 3) cdemo_labels cdemo_start = Ret s" "client_count s = 1" "5 \<in> interest (c_k s)"
    using cdemo_runs(2) by blast
  from chat_table [OF cdemo_runs(1) s(1), of Chat_fails Out_of_bounds "cdemo_event 3" "(0, c_k s)"]
  have le: "int (card (interest (c_k s) - {3})) \<le> user_count s" by blast
  have "finite (interest (c_k s))" using chi.inv_run [OF _ s(1)] chat_start_inv [OF cdemo_runs(1)] by (auto simp: chat_inv_def)
  then have "0 < card (interest (c_k s) - {3})" using s(3) by (auto simp: card_gt_0_iff)
  with le have "1 \<le> user_count s" by linarith
  with s show ?thesis by blast
qed

theorem chat_message_witness:
  "\<exists>s t. run (chat_step 3) cdemo_labels cdemo_start = Ret s \<and> chat_recv 5 (cdemo_event 5) s = Ret (False, t) \<and>
     c_tasks t = [5] \<and> chatRecord (client t ! 1) = Some ''hello''"
proof -
  obtain s where s: "run (chat_step 3) cdemo_labels cdemo_start = Ret s" "5 \<in> interest (c_k s)" "5 \<in> dom (fds (k_os (c_k s)))"
     "unread (conns (c_k s) 5) = ''hello''" "c_sockfd (client s ! 1) = Some 5" "client_count s = 1" "length (client s) = 1024" "c_tasks s = []"
    using cdemo_runs(2) by blast
  have i: "chat_inv 3 s" using chi.inv_run [OF _ s(1)] chat_start_inv [OF cdemo_runs(1)] by blast
  have d: "''hello'' = take (read_size (BUFFER_SIZE - 1) (v_sz (cdemo_event 5)) (length (unread (conns (c_k s) 5)))) (unread (conns (c_k s) 5))"
    by (simp add: s(4) read_size_def BUFFER_SIZE_def cdemo_event_def)
  have "unread (conns (c_k s) 5) \<noteq> []" using s(4) by simp
  from chat_message [OF i s(2) _ s(3) this d] obtain t where t: "chat_recv 5 (cdemo_event 5) s = Ret (False, t)" "c_tasks t = [5]"
    "\<forall>j<length (client s). client t ! j =
         (if 1 \<le> j \<and> j \<le> nat (client_count s) \<and> c_sockfd (client s ! j) = Some 5
          then (client s ! j)\<lparr>chatRecord := Some (c_text ''hello'')\<rparr> else client s ! j)"
    using s(8) by auto
  have "chatRecord (client t ! 1) = Some ''hello''" using t(3) [rule_format, of 1] s(5-7) by (simp add: c_text_def NUL_def)
  with s(1) t show ?thesis by blast
qed

end
