(* ===== verification/Chat_Server.thy ===== *)
theory Chat_Server
  imports Epoll_Chat Epoll_Pool_Theorems
begin

text \<open>
  The chat server of \<open>src/epoll/server_epoll_pthread_pool.c\<close> as a whole: \<open>main\<close> with its event loop (\<open>Epoll_Chat\<close>), the
  thread pool (\<open>Epoll_Pool\<close>) and the function \<open>myprocess\<close> that the threads execute, interleaved step by step.

  \<open>main\<close> passes the address of the variable \<open>sockfd\<close> of the current iteration to \<open>poolAddWorker\<close>. An object with automatic
  storage lives from the beginning of its iteration to the end, so the pointer is the number of the iteration:
  \<open>v_iter\<close> is the current one and \<open>v_sockfd\<close> the value of its variable while it lives. A thread that follows a
  pointer to an iteration that is over has undefined behaviour.

  The headers of the two loops of \<open>myprocess\<close> are cut off in the repository after the start value. The indices they
  visit are the parameters \<open>js\<close> and \<open>ks\<close> here; what the bodies do is as written. \<open>client_count\<close> is local to \<open>main\<close>, so
  the indices cannot depend on it.
\<close>

section \<open>The function of the threads\<close>

text \<open>Where \<open>myprocess\<close> stands: before its first read, in the first loop, in the second loop, at its end.\<close>

datatype my_pc =
    P_start
  | P_find int "nat list"
  | P_send int string "nat list"
  | P_end

text \<open>The variable \<open>sockfd\<close> of iteration \<open>i\<close>, when the variable of iteration \<open>n\<close> is the one that lives, if any.\<close>

definition read_sockfd :: "nat \<Rightarrow> nat \<Rightarrow> int option \<Rightarrow> int outcome" where
  "read_sockfd i n v = (case v of Some fd \<Rightarrow> if i = n then Ret fd else UB Dangling | None \<Rightarrow> UB Dangling)"

definition cell_fd :: "nat \<Rightarrow> client_data list \<Rightarrow> int outcome" where
  "cell_fd j cs =
     (if j < length cs then (case c_sockfd (cs ! j) of None \<Rightarrow> UB Indeterminate | Some f \<Rightarrow> Ret f) else UB Out_of_bounds)"

text \<open>\<open>strcpy\<close> of the record of a cell to \<open>buf\<close>, an array of \<open>BUFFER_SIZE\<close> bytes.\<close>

definition cell_text :: "nat \<Rightarrow> client_data list \<Rightarrow> string outcome" where
  "cell_text j cs =
     (case chatRecord (cs ! j) of
        None \<Rightarrow> UB Indeterminate
      | Some r \<Rightarrow> if length r < BUFFER_SIZE then Ret r else UB Out_of_bounds)"

text \<open>One step of the loops of \<open>myprocess\<close>, with what it sends. The result of \<open>send\<close> is only printed.\<close>

fun my_step :: "nat list \<Rightarrow> client_data list \<Rightarrow> my_pc \<Rightarrow> (my_pc \<times> (int \<times> string) list) outcome" where
  "my_step ks cs P_start = Blocked"
| "my_step ks cs (P_find fd []) = Ret (P_send fd [] ks, [])"
| "my_step ks cs (P_find fd (j # js)) =
     and_then (cell_fd j cs) (\<lambda>f.
       if fd = f then and_then (cell_text j cs) (\<lambda>r. Ret (P_send fd r ks, [])) else Ret (P_find fd js, []))"
| "my_step ks cs (P_send fd buf []) = Ret (P_end, [])"
| "my_step ks cs (P_send fd buf (j # js)) =
     and_then (cell_fd j cs) (\<lambda>f. Ret (P_send fd buf js, if fd = f then [] else [(f, buf)]))"
| "my_step ks cs P_end = Blocked"

section \<open>The whole program\<close>

datatype chatmain_pc = V_wait | V_add | V_signal | V_end | V_destroy

record chat_srv =
  v_chat :: chat
  v_pool :: "(unit, nat) ep_sys"
  v_pc :: chatmain_pc
  v_iter :: nat
  v_sockfd :: "int option"
  v_my :: "nat \<Rightarrow> my_pc"
  v_sent :: "(int \<times> string) list"
  v_given :: "(nat \<times> int) list"

definition server_start :: "chat \<Rightarrow> (unit, nat) ep_sys \<Rightarrow> chat_srv" where
  "server_start c p = \<lparr>v_chat = c, v_pool = p, v_pc = V_wait, v_iter = 0, v_sockfd = None, v_my = (\<lambda>_. P_start), v_sent = [], v_given = []\<rparr>"

text \<open>\<open>main\<close> up to the event loop: \<open>poolInit\<close> comes last.\<close>

definition chat_main :: "chat_answers \<Rightarrow> bool \<Rightarrow> bool \<Rightarrow> (nat \<Rightarrow> int) \<Rightarrow> os \<Rightarrow> (int \<times> chat_srv) outcome" where
  "chat_main a mem ids rc s =
     and_then (chat_start a s) (\<lambda>(lfd, c). and_then (poolInit mem ids rc THREAD_NUM) (\<lambda>p. Ret (lfd, server_start c p)))"

datatype server_label =
    V_env chat_label
  | V_event chat_ev
  | V_poolAddWorker "addr option"
  | V_poolSignal "nat option"
  | V_endIteration
  | V_fails
  | V_poolDestroy
  | V_thread "(unit, nat) ep_label"
  | V_read nat
  | V_myprocess nat

fun peer_label :: "chat_label \<Rightarrow> bool" where
  "peer_label Chat_connect = True"
| "peer_label (Chat_send fd d) = True"
| "peer_label (Chat_peer fd p) = True"
| "peer_label _ = False"

text \<open>The threads' own steps of the pool; a thread returns from \<open>myprocess\<close> only at its end.\<close>

fun thread_label :: "(nat \<Rightarrow> my_pc) \<Rightarrow> (unit, nat) ep_label \<Rightarrow> bool" where
  "thread_label my (Ep_routine w) = True"
| "thread_label my (Ep_spurious w) = True"
| "thread_label my (Ep_returns w) = (my w = P_end)"
| "thread_label my _ = False"

fun after_label :: "(unit, nat) ep_label \<Rightarrow> (nat \<Rightarrow> my_pc) \<Rightarrow> nat \<Rightarrow> my_pc" where
  "after_label (Ep_returns w) my = my(w := P_start)"
| "after_label _ my = my"

text \<open>The argument of the worker that thread \<open>w\<close> executes.\<close>

definition exec_arg :: "nat \<Rightarrow> (unit, nat) ep_sys \<Rightarrow> nat outcome" where
  "exec_arg w p =
     (if w < length (ep_pcs p) then
        (case ep_pcs p ! w of R_exec a \<Rightarrow> and_then (read_node (ep_workers p) (Some a)) (\<lambda>n. Ret (arg n)) | _ \<Rightarrow> Blocked)
      else Blocked)"

text \<open>
  \<open>main\<close> takes a task over from \<open>chat_event\<close> when that has added one to \<open>c_tasks\<close>; the task is given to the pool in the next
  step, since \<open>poolAddWorker\<close> may have to wait for the mutex.
\<close>

fun server_step :: "int \<Rightarrow> nat list \<Rightarrow> nat list \<Rightarrow> server_label \<Rightarrow> chat_srv \<Rightarrow> chat_srv outcome" where
  "server_step lfd js ks (V_env l) s =
     (if peer_label l then and_then (chat_step lfd l (v_chat s)) (\<lambda>c. Ret (s\<lparr>v_chat := c\<rparr>)) else Blocked)"
| "server_step lfd js ks (V_event e) s =
     (if v_pc s = V_wait then
        and_then (chat_step lfd (Chat_event e) (v_chat s)) (\<lambda>c.
          Ret (s\<lparr>v_chat := c, v_iter := Suc (v_iter s), v_sockfd := Some (v_fd e),
                 v_pc := (if length (c_tasks (v_chat s)) < length (c_tasks c) then V_add else V_end)\<rparr>))
      else Blocked)"
| "server_step lfd js ks (V_poolAddWorker mem) s =
     (case (v_pc s, v_sockfd s) of
        (V_add, Some fd) \<Rightarrow>
          and_then (ep_step (Ep_add mem () (v_iter s)) (v_pool s)) (\<lambda>p.
            Ret (s\<lparr>v_pool := p, v_pc := V_signal, v_given := v_given s @ [(v_iter s, fd)]\<rparr>))
      | _ \<Rightarrow> Blocked)"
| "server_step lfd js ks (V_poolSignal ch) s =
     (if v_pc s = V_signal then and_then (ep_step (Ep_signal ch) (v_pool s)) (\<lambda>p. Ret (s\<lparr>v_pool := p, v_pc := V_end\<rparr>)) else Blocked)"
| "server_step lfd js ks V_endIteration s = (if v_pc s = V_end then Ret (s\<lparr>v_pc := V_wait, v_sockfd := None\<rparr>) else Blocked)"
| "server_step lfd js ks V_fails s = (if v_pc s = V_wait then Ret (s\<lparr>v_pc := V_destroy\<rparr>) else Blocked)"
| "server_step lfd js ks V_poolDestroy s =
     (if v_pc s = V_destroy then
        (if pool (v_pool s) = None then Exit 0 else and_then (ep_step Ep_destroy (v_pool s)) (\<lambda>p. Ret (s\<lparr>v_pool := p\<rparr>)))
      else Blocked)"
| "server_step lfd js ks (V_thread l) s =
     (if thread_label (v_my s) l then
        and_then (ep_step l (v_pool s)) (\<lambda>p. Ret (s\<lparr>v_pool := p, v_my := after_label l (v_my s)\<rparr>))
      else Blocked)"
| "server_step lfd js ks (V_read w) s =
     (if v_my s w = P_start then
        and_then (exec_arg w (v_pool s)) (\<lambda>i.
        and_then (read_sockfd i (v_iter s) (v_sockfd s)) (\<lambda>fd.
          Ret (s\<lparr>v_my := (v_my s)(w := P_find fd js)\<rparr>)))
      else Blocked)"
| "server_step lfd js ks (V_myprocess w) s =
     and_then (my_step ks (client (v_chat s)) (v_my s w)) (\<lambda>(pc, out).
       Ret (s\<lparr>v_my := (v_my s)(w := pc), v_sent := v_sent s @ out\<rparr>))"

section \<open>Invariant\<close>

text \<open>
  The tasks of the pool are the messages received, in that order, each with the number of the iteration that received it; only
  the last one can belong to the iteration that is going on.
\<close>

definition given_ok :: "nat \<Rightarrow> int option \<Rightarrow> (nat \<times> int) list \<Rightarrow> bool" where
  "given_ok n v g \<longleftrightarrow> distinct (map fst g) \<and> (\<forall>(i, fd)\<in>set g. i \<le> n \<and> (i = n \<longrightarrow> v = Some fd \<or> v = None))"

text \<open>A cell that was filled has a record, and the records fit into the buffer of \<open>myprocess\<close>.\<close>

definition records_ok :: "client_data list \<Rightarrow> bool" where
  "records_ok cs \<longleftrightarrow> (\<forall>c\<in>set cs. case chatRecord c of None \<Rightarrow> c_sockfd c = None | Some r \<Rightarrow> length r < BUFFER_SIZE)"

definition srv_inv :: "int \<Rightarrow> chat_srv \<Rightarrow> bool" where
  "srv_inv lfd s \<longleftrightarrow> chat_inv lfd (v_chat s) \<and> records_ok (client (v_chat s)) \<and> reachable ep_step ep_init (v_pool s) \<and>
     ep_submitted (v_pool s) = map (\<lambda>(i, fd). ((), i)) (v_given s) \<and>
     c_tasks (v_chat s) = map snd (v_given s) @ (if v_pc s = V_add then [the (v_sockfd s)] else []) \<and>
     given_ok (v_iter s) (v_sockfd s) (v_given s) \<and>
     (v_sockfd s = None \<longleftrightarrow> v_pc s \<in> {V_wait, V_destroy}) \<and>
     (v_pc s = V_add \<longrightarrow> v_iter s \<notin> fst ` set (v_given s))"

lemma given_ok_next: "given_ok n v g \<Longrightarrow> given_ok (Suc n) w g \<and> Suc n \<notin> fst ` set g"
  by (fastforce simp: given_ok_def)

lemma given_ok_gone: "given_ok n v g \<Longrightarrow> given_ok n None g"
  by (auto simp: given_ok_def)

lemma given_ok_add: "given_ok n (Some fd) g \<Longrightarrow> n \<notin> fst ` set g \<Longrightarrow> given_ok n (Some fd) (g @ [(n, fd)])"
  by (auto simp: given_ok_def)

text \<open>What one event adds to the list of tasks: nothing, or its descriptor.\<close>

lemma copy_record_tasks: "copy_record fd buf i m s = Ret t \<Longrightarrow> c_tasks t = c_tasks s"
  by (induction m arbitrary: i s) (auto split: if_splits option.splits)

lemma set_cell_tasks: "set_cell i f s = Ret t \<Longrightarrow> c_tasks t = c_tasks s"
  by (auto simp: set_cell_def split: if_splits)

lemma chat_leave_tasks: "chat_leave fd s = Ret t \<Longrightarrow> c_tasks t = c_tasks s"
  by (auto simp: chat_leave_def outcome_simps dest: set_cell_tasks)

lemma chat_recv_tasks:
  assumes "chat_recv fd e s = Ret (b, t)"
  shows "c_tasks t = c_tasks s \<or> c_tasks t = c_tasks s @ [fd]"
proof -
  from assms obtain r k where r: "k_read (BUFFER_SIZE - 1) (v_sz e) fd (c_k s) = Ret (r, k)"
    by (auto simp: chat_recv_def outcome_simps)
  show ?thesis
  proof (cases r)
    case (Data d)
    with assms r show ?thesis by (auto simp: chat_recv_def outcome_simps dest!: copy_record_tasks)
  next
    case End_of_file
    with assms r show ?thesis by (auto simp: chat_recv_def outcome_simps dest!: chat_leave_tasks)
  next
    case (Read_error err)
    with assms r show ?thesis by (auto simp: chat_recv_def outcome_simps Let_def dest!: chat_leave_tasks split: if_splits)
  qed
qed

lemma chat_event_tasks:
  "chat_step lfd (Chat_event e) s = Ret t \<Longrightarrow> c_tasks t = c_tasks s \<or> c_tasks t = c_tasks s @ [v_fd e]"
  by (auto simp: chat_event_def chat_accept_def outcome_simps split: if_splits dest!: set_cell_tasks chat_recv_tasks)

lemma peer_label_tasks: "peer_label l \<Longrightarrow> chat_step lfd l s = Ret t \<Longrightarrow> c_tasks t = c_tasks s"
  by (cases l) auto

lemma records_ok_update:
  "records_ok cs \<Longrightarrow> (case chatRecord c of None \<Rightarrow> c_sockfd c = None | Some r \<Rightarrow> length r < BUFFER_SIZE) \<Longrightarrow> records_ok (cs[i := c])"
  using set_update_subset_insert [of cs i c] by (auto simp: records_ok_def)

lemma set_cell_records:
  "set_cell i f s = Ret t \<Longrightarrow> records_ok (client s) \<Longrightarrow> (\<And>c. chatRecord (f c) = Some []) \<Longrightarrow> records_ok (client t)"
  by (auto simp: set_cell_def BUFFER_SIZE_def intro!: records_ok_update split: if_splits)

lemma copy_record_records:
  "copy_record fd buf i m s = Ret t \<Longrightarrow> records_ok (client s) \<Longrightarrow> length buf < BUFFER_SIZE \<Longrightarrow> records_ok (client t)"
proof (induction m arbitrary: i s)
  case (Suc m)
  then obtain f where f: "i < length (client s)" "c_sockfd (client s ! i) = Some f"
    "copy_record fd buf (Suc i) m
       (if f = fd then s\<lparr>client := (client s)[i := (client s ! i)\<lparr>chatRecord := Some buf\<rparr>]\<rparr> else s) = Ret t"
    by (auto split: if_splits option.splits)
  have "records_ok ((client s)[i := (client s ! i)\<lparr>chatRecord := Some buf\<rparr>])"
    using Suc.prems(2,3) by (intro records_ok_update) simp_all
  then show ?case using Suc.IH [OF f(3)] Suc.prems(2,3) by (cases "f = fd") auto
qed simp

lemma chat_leave_records: "chat_leave fd s = Ret t \<Longrightarrow> records_ok (client s) \<Longrightarrow> records_ok (client t)"
  by (auto simp: chat_leave_def outcome_simps dest!: set_cell_records)

lemma k_read_short:
  assumes "k_read (BUFFER_SIZE - 1) n fd k = Ret (Data d, k')"
  shows "length (c_text d) < BUFFER_SIZE"
proof -
  have "length (c_text d) \<le> length d" by (simp add: c_text_def length_takeWhile_le)
  also have "\<dots> \<le> BUFFER_SIZE - 1"
    using assms by (auto simp: k_read_def read_size_def BUFFER_SIZE_def Let_def split: if_splits peer.splits)
  finally show ?thesis by (simp add: BUFFER_SIZE_def)
qed

lemma chat_recv_records:
  assumes "chat_recv fd e s = Ret (b, t)" "records_ok (client s)"
  shows "records_ok (client t)"
proof -
  from assms obtain r k where r: "k_read (BUFFER_SIZE - 1) (v_sz e) fd (c_k s) = Ret (r, k)"
    by (auto simp: chat_recv_def outcome_simps)
  show ?thesis
  proof (cases r)
    case (Data d)
    with assms r k_read_short [of "v_sz e" fd "c_k s" d k] show ?thesis
      by (auto simp: chat_recv_def outcome_simps dest!: copy_record_records)
  next
    case End_of_file
    with assms r show ?thesis by (auto simp: chat_recv_def outcome_simps dest!: chat_leave_records)
  next
    case (Read_error err)
    with assms r show ?thesis by (auto simp: chat_recv_def outcome_simps Let_def dest!: chat_leave_records split: if_splits)
  qed
qed

lemma chat_step_records: "chat_step lfd l s = Ret t \<Longrightarrow> records_ok (client s) \<Longrightarrow> records_ok (client t)"
  by (cases l) (auto simp: chat_event_def chat_accept_def outcome_simps split: if_splits dest!: set_cell_records chat_recv_records)

text \<open>Only \<open>poolAddWorker\<close> changes what was submitted to the pool.\<close>

lemma ep_submitted_step:
  assumes "ep_step l p = Ret q" "ep_inv p"
  shows "ep_submitted q = ep_submitted p @ (case l of Ep_add mem f d \<Rightarrow> [(f, d)] | _ \<Rightarrow> [])"
proof (cases l)
  case (Ep_routine w)
  with assms(1) have w: "threadRoutine w (ep_pcs p ! w) p = Ret q" "w < length (ep_pcs p)" by (auto split: if_splits)
  from w assms(2) show ?thesis by (cases rule: threadRoutine_cases) (simp_all add: Ep_routine ep_taken_def)
next
  case (Ep_returns w)
  from assms(1) [unfolded Ep_returns] assms(2) show ?thesis by (cases rule: process_returns_cases) (simp add: Ep_returns)
next
  case (Ep_spurious w)
  with assms(1) show ?thesis by (auto split: if_splits)
next
  case (Ep_add mem f d)
  from assms(1) [unfolded Ep_add] assms(2) show ?thesis by (cases rule: add_cases) (simp add: Ep_add)
next
  case (Ep_signal ch)
  with assms(1) show ?thesis by (auto simp: add_signal_def deref_pool_def split: if_splits option.splits)
next
  case Ep_destroy
  from assms(1) [unfolded Ep_destroy] assms(2) show ?thesis by (cases rule: destroy_cases) (simp_all add: Ep_destroy)
qed

lemma srv_inv_pool:
  assumes "srv_inv lfd s" "ep_step l (v_pool s) = Ret p" "\<not> (\<exists>mem f d. l = Ep_add mem f d)"
    and "v_pc s = V_signal \<and> pc = V_end \<or> pc = v_pc s"
  shows "srv_inv lfd (s\<lparr>v_pool := p, v_pc := pc, v_my := my\<rparr>)"
proof -
  have r: "reachable ep_step ep_init (v_pool s)" using assms(1) by (simp add: srv_inv_def)
  have "ep_submitted p = ep_submitted (v_pool s)"
    using ep_submitted_step [OF assms(2) ep.inv_reachable [OF r]] assms(3) by (cases l) auto
  then show ?thesis using assms(1,4) reach_step [OF r assms(2)] by (auto simp: srv_inv_def)
qed

lemma srv_inv_event:
  assumes "srv_inv lfd s" "server_step lfd js ks (V_event e) s = Ret t"
  shows "srv_inv lfd t"
proof -
  from assms(2) obtain c where c: "v_pc s = V_wait" "chat_step lfd (Chat_event e) (v_chat s) = Ret c"
    and t: "t = s\<lparr>v_chat := c, v_iter := Suc (v_iter s), v_sockfd := Some (v_fd e),
       v_pc := (if length (c_tasks (v_chat s)) < length (c_tasks c) then V_add else V_end)\<rparr>"
    by (auto simp: outcome_simps simp del: chat_step.simps split: if_splits)
  have inv: "chat_inv lfd c" "records_ok (client c)"
    using chi.inv_step [OF _ c(2)] chat_step_records [OF c(2)] assms(1) by (simp_all add: srv_inv_def)
  have "given_ok (Suc (v_iter s)) (Some (v_fd e)) (v_given s) \<and> Suc (v_iter s) \<notin> fst ` set (v_given s)"
    using assms(1) by (intro given_ok_next [of "v_iter s" "v_sockfd s"]) (simp add: srv_inv_def)
  then show ?thesis using assms(1) inv c(1) chat_event_tasks [OF c(2)] by (auto simp: srv_inv_def t)
qed

lemma srv_inv_add:
  assumes "srv_inv lfd s" "server_step lfd js ks (V_poolAddWorker mem) s = Ret t"
  shows "srv_inv lfd t"
proof -
  from assms(2) obtain fd p where p: "v_pc s = V_add" "v_sockfd s = Some fd" "ep_step (Ep_add mem () (v_iter s)) (v_pool s) = Ret p"
    and t: "t = s\<lparr>v_pool := p, v_pc := V_signal, v_given := v_given s @ [(v_iter s, fd)]\<rparr>"
    by (auto simp: outcome_simps simp del: ep_step.simps split: chatmain_pc.splits option.splits)
  have r: "reachable ep_step ep_init (v_pool s)" using assms(1) by (simp add: srv_inv_def)
  have "ep_submitted p = ep_submitted (v_pool s) @ [((), v_iter s)]"
    using ep_submitted_step [OF p(3) ep.inv_reachable [OF r]] by simp
  then show ?thesis using assms(1) p(1,2) given_ok_add [of "v_iter s" fd "v_given s"] reach_step [OF r p(3)]
    by (auto simp: srv_inv_def t)
qed

lemma srv_inv_step:
  assumes "srv_inv lfd s" "server_step lfd js ks l s = Ret t"
  shows "srv_inv lfd t"
proof (cases l)
  case (V_env k)
  with assms(2) obtain c where c: "peer_label k" "chat_step lfd k (v_chat s) = Ret c" "t = s\<lparr>v_chat := c\<rparr>"
    by (auto simp: outcome_simps split: if_splits)
  then show ?thesis using assms(1) chi.inv_step [OF _ c(2)] peer_label_tasks [OF c(1,2)] chat_step_records [OF c(2)] by (simp add: srv_inv_def)
next
  case (V_event e)
  with assms srv_inv_event show ?thesis by blast
next
  case (V_poolAddWorker mem)
  with assms srv_inv_add show ?thesis by blast
next
  case (V_poolSignal ch)
  with assms(2) obtain p where "v_pc s = V_signal" "ep_step (Ep_signal ch) (v_pool s) = Ret p" "t = s\<lparr>v_pool := p, v_pc := V_end, v_my := v_my s\<rparr>"
    by (auto simp: outcome_simps simp del: ep_step.simps split: if_splits)
  then show ?thesis using srv_inv_pool [OF assms(1)] by blast
next
  case V_poolDestroy
  with assms(2) obtain p where "ep_step Ep_destroy (v_pool s) = Ret p" "t = s\<lparr>v_pool := p, v_pc := v_pc s, v_my := v_my s\<rparr>"
    by (auto simp: outcome_simps simp del: ep_step.simps split: if_splits)
  then show ?thesis using srv_inv_pool [OF assms(1)] by blast
next
  case (V_thread k)
  with assms(2) obtain p where "ep_step k (v_pool s) = Ret p" "t = s\<lparr>v_pool := p, v_pc := v_pc s, v_my := after_label k (v_my s)\<rparr>"
    "thread_label (v_my s) k"
    by (auto simp: outcome_simps simp del: ep_step.simps split: if_splits)
  then show ?thesis using srv_inv_pool [OF assms(1)] by fastforce
next
  case V_endIteration
  with assms show ?thesis by (auto simp: srv_inv_def given_ok_gone split: if_splits)
next
  case V_fails
  with assms show ?thesis by (auto simp: srv_inv_def split: if_splits)
next
  case (V_read w)
  with assms(2) obtain my where "t = s\<lparr>v_my := my\<rparr>" by (auto simp: outcome_simps split: if_splits)
  then show ?thesis using assms(1) by (simp add: srv_inv_def)
next
  case (V_myprocess w)
  with assms(2) obtain my out where "t = s\<lparr>v_my := my, v_sent := out\<rparr>" by (auto simp: outcome_simps)
  then show ?thesis using assms(1) by (simp add: srv_inv_def)
qed

lemma chat_main_inv:
  assumes "chat_main a mem ids rc os = Ret (lfd, s)"
  shows "srv_inv lfd s"
proof -
  from assms obtain c p where c: "chat_start a os = Ret (lfd, c)" "poolInit mem ids rc THREAD_NUM = Ret p" "s = server_start c p"
    by (auto simp: chat_main_def outcome_simps)
  have "reachable ep_step ep_init p" using c(2) reach_init [of ep_init p ep_step] by (auto simp: ep_init_def)
  moreover have "ep_submitted p = []" using c(2) by (auto simp: poolInit_def new_pool_def split: if_splits)
  moreover have "c_tasks c = []" using c(1) by (auto simp: chat_start_def split: if_splits)
  moreover have "records_ok (client c)" using c(1) by (auto simp: chat_start_def records_ok_def fresh_cell_def split: if_splits)
  ultimately show ?thesis using c(3) chat_start_inv [OF c(1)] by (simp add: srv_inv_def server_start_def given_ok_def)
qed

interpretation csv: invariant_system "server_step lfd js ks" "\<lambda>s. \<exists>a mem ids rc os. chat_main a mem ids rc os = Ret (lfd, s)" "srv_inv lfd"
  for lfd js ks
  by unfold_locales (use chat_main_inv srv_inv_step in blast)+

section \<open>Theorems\<close>

lemma exec_given:
  assumes "srv_inv lfd s" "w < length (ep_pcs (v_pool s))" "ep_pcs (v_pool s) ! w = R_exec a"
  obtains i fd where "exec_arg w (v_pool s) = Ret i" "(i, fd) \<in> set (v_given s)"
proof -
  let ?p = "v_pool s"
  have r: "reachable ep_step ep_init ?p" using assms(1) by (simp add: srv_inv_def)
  note inv = ep.inv_reachable [OF r]
  have "pool ?p \<noteq> None" using inv assms(2,3) nth_mem [OF assms(2)] by (cases "pool ?p") (auto simp: ep_inv_def)
  then obtain p where p: "pool ?p = Some p" by auto
  have "a \<in> dom (ep_workers ?p)" using owned_blocks_owned(1) [OF ep_okD(6) [OF ep_inv_pool [OF inv p]] assms(2), of a] assms(3) by simp
  then obtain n where n: "ep_workers ?p a = Some n" by auto
  have "a \<in># sum_list (map rpc_owns (ep_pcs ?p))"
    using assms(3) nth_mem [OF assms(2)] by (auto intro!: bexI [of _ "R_exec a"])
  then have "worker_task (ep_workers ?p) a \<in># running (ep_view ?p)" by (simp add: ep_view_def)
  moreover have "conserved (ep_view ?p)" using epv.reachable_promise [OF r] by (simp add: pool_promise_def)
  ultimately have "worker_task (ep_workers ?p) a \<in># mset (submitted (ep_view ?p))" by (auto simp: conserved_def)
  then have "((), arg n) \<in> set (ep_submitted ?p)" using n by (simp add: ep_view_def worker_task_def)
  then obtain fd where "(arg n, fd) \<in> set (v_given s)" using assms(1) by (auto simp: srv_inv_def)
  moreover have "exec_arg w ?p = Ret (arg n)" using assms(2,3) n by (simp add: exec_arg_def)
  ultimately show ?thesis using that by blast
qed


text \<open>
  C13. The first statement of \<open>myprocess\<close>: a thread that executes a task reads the descriptor of the message the task was
  submitted for if \<open>main\<close> is still in the iteration that has submitted it; otherwise, and in particular whenever \<open>main\<close> waits
  for events, the pointer is dangling and the behaviour of the server is undefined.
\<close>

theorem chat_read:
  assumes "chat_main a mem ids rc os = Ret (lfd, s0)" "run (server_step lfd js ks) ls s0 = Ret s"
    and "w < length (ep_pcs (v_pool s))" "ep_pcs (v_pool s) ! w = R_exec b" "v_my s w = P_start"
  shows "\<exists>i fd. exec_arg w (v_pool s) = Ret i \<and> (i, fd) \<in> set (v_given s) \<and>
    server_step lfd js ks (V_read w) s =
      (if i = v_iter s \<and> v_pc s \<in> {V_signal, V_end} then Ret (s\<lparr>v_my := (v_my s)(w := P_find fd js)\<rparr>) else UB Dangling)"
proof -
  have inv: "srv_inv lfd s" using chat_main_inv [OF assms(1)] assms(2) by (rule csv.inv_run)
  obtain i fd where g: "exec_arg w (v_pool s) = Ret i" "(i, fd) \<in> set (v_given s)" using exec_given [OF inv assms(3,4)] .
  have live: "v_sockfd s = None \<longleftrightarrow> v_pc s \<in> {V_wait, V_destroy}" using inv by (simp add: srv_inv_def)
  have val: "i = v_iter s \<longrightarrow> v_sockfd s = Some fd \<or> v_sockfd s = None" using inv g(2) by (auto simp: srv_inv_def given_ok_def)
  have new: "v_pc s = V_add \<longrightarrow> i \<noteq> v_iter s" using inv g(2) by (force simp: srv_inv_def)
  have "server_step lfd js ks (V_read w) s =
      (if i = v_iter s \<and> v_pc s \<in> {V_signal, V_end} then Ret (s\<lparr>v_my := (v_my s)(w := P_find fd js)\<rparr>) else UB Dangling)"
    using live val new assms(5) by (cases "v_pc s") (auto simp: g(1) read_sockfd_def split: option.splits)
  with g show ?thesis by blast
qed









section \<open>Example\<close>

text \<open>Two clients with descriptors 5 and 6 connect, the first one says hello; thread 0 takes the task.\<close>

definition csd_start :: chat_srv where
  "csd_start = server_start cdemo_start (new_pool (\<lambda>_. 0) THREAD_NUM)"

definition csd_labels :: "server_label list" where
  "csd_labels = [V_env Chat_connect, V_event (cdemo_event 3), V_endIteration, V_env Chat_connect, V_event ((cdemo_event 3)\<lparr>v_acc := 6\<rparr>),
     V_endIteration, V_env (Chat_send 5 ''hello''), V_event (cdemo_event 5), V_poolAddWorker (Some 10), V_poolSignal None,
     V_thread (Ep_routine 0), V_thread (Ep_routine 0)]"

definition csd_state :: chat_srv where
  "csd_state = (case run (server_step 3 [1, 2] [1, 2]) csd_labels csd_start of Ret s \<Rightarrow> s)"

lemmas copy_record_2 = copy_record.simps(2) [where m = 1, unfolded Suc_1]

lemmas csd_defs = copy_record_2 numeral_2_eq_2 [symmetric] csd_start_def csd_labels_def csd_state_def server_start_def cdemo_defs ep_run_defs THREAD_NUM_def chat_recv_def k_read_def read_size_def
  BUFFER_SIZE_def c_text_def NUL_def exec_arg_def read_sockfd_def fresh_cell_def

lemma csd_runs:
  "chat_main cdemo_answers True True (\<lambda>_. 0) cdemo_os = Ret (3, csd_start)"
  "run (server_step 3 [1, 2] [1, 2]) csd_labels csd_start = Ret csd_state"
  by (simp_all add: chat_main_def cdemo_runs(1) poolInit_def csd_start_def)
    (simp add: csd_defs)

lemma csd_facts:
  "ep_pcs (v_pool csd_state) ! 0 = R_exec 10" "0 < length (ep_pcs (v_pool csd_state))" "v_my csd_state 0 = P_start"
  "v_pc csd_state = V_end" "v_given csd_state = [(3, 5)]" "v_iter csd_state = 3" "exec_arg 0 (v_pool csd_state) = Ret 3"
  "c_tasks (v_chat csd_state) = [5]" "ep_begun (v_pool csd_state) = [((), 3)]" "pool (v_pool csd_state) \<noteq> None"
  by (simp_all add: csd_defs)


text \<open>Before the end of the iteration the thread reads 5; afterwards the pointer is dangling.\<close>

lemma csd_late:
  "run (server_step 3 [1, 2] [1, 2]) (csd_labels @ [V_endIteration]) csd_start = Ret (csd_state\<lparr>v_pc := V_wait, v_sockfd := None\<rparr>)"
  using csd_runs(2) csd_facts(4) by (simp add: run_append del: server_step.simps) simp

theorem chat_read_witness:
  "server_step 3 [1, 2] [1, 2] (V_read 0) csd_state = Ret (csd_state\<lparr>v_my := (v_my csd_state)(0 := P_find 5 [1, 2])\<rparr>) \<and>
   server_step 3 [1, 2] [1, 2] (V_read 0) (csd_state\<lparr>v_pc := V_wait, v_sockfd := None\<rparr>) = UB Dangling"
proof
  show "server_step 3 [1, 2] [1, 2] (V_read 0) csd_state = Ret (csd_state\<lparr>v_my := (v_my csd_state)(0 := P_find 5 [1, 2])\<rparr>)"
    using chat_read [OF csd_runs csd_facts(2,1,3)] csd_facts(4-7) by (simp del: server_step.simps)
  show "server_step 3 [1, 2] [1, 2] (V_read 0) (csd_state\<lparr>v_pc := V_wait, v_sockfd := None\<rparr>) = UB Dangling"
    using chat_read [OF csd_runs(1) csd_late, of 0 10] csd_facts by (simp del: server_step.simps)
qed





end
