(* ===== verification/Net_Echo.thy ===== *)
theory Net_Echo
  imports Sockets
begin

text \<open>
  The echo servers \<open>src/network_programming/server.c\<close> (one client) and \<open>multi_server.c\<close> (a thread per client), and the client
  \<open>client.c\<close>. What they share are arrays on the stack that are filled by \<open>recv\<close> and then read as strings:
  \<open>stack_buf\<close> is an array whose cells may never have been written, \<open>buf_strlen\<close> looks for the zero byte and is
  undefined when it meets such a cell or the end of the array.

  The results of the calls are arguments; the chunks \<open>recv\<close> delivers are a list of nonempty strings of at most the size
  asked for, after which the connection ends (result 0) or fails (result -1). A \<open>write\<close> to a blocking
  socket takes all bytes.
\<close>

section \<open>Arrays on the stack\<close>

type_synonym stack_buf = "char option list"

definition recv_into :: "string \<Rightarrow> stack_buf \<Rightarrow> stack_buf" where
  "recv_into d buf = map Some d @ drop (length d) buf"

fun buf_strlen :: "stack_buf \<Rightarrow> nat outcome" where
  "buf_strlen [] = UB Out_of_bounds"
| "buf_strlen (None # buf) = UB Indeterminate"
| "buf_strlen (Some c # buf) = (if c = NUL then Ret 0 else and_then (buf_strlen buf) (\<lambda>n. Ret (Suc n)))"

text \<open>The first \<open>n\<close> bytes of an array, as \<open>send\<close> and \<open>write\<close> read them.\<close>

fun buf_bytes :: "nat \<Rightarrow> stack_buf \<Rightarrow> string outcome" where
  "buf_bytes 0 buf = Ret []"
| "buf_bytes (Suc n) [] = UB Out_of_bounds"
| "buf_bytes (Suc n) (None # buf) = UB Indeterminate"
| "buf_bytes (Suc n) (Some c # buf) = and_then (buf_bytes n buf) (\<lambda>bs. Ret (c # bs))"

definition literal :: "string \<Rightarrow> stack_buf" where
  "literal str = map Some (str @ [NUL])"

section \<open>The loop both servers have\<close>

definition MESSAGE_SIZE :: nat where "MESSAGE_SIZE = 2000"

fun echo_chunks :: "string list \<Rightarrow> stack_buf \<Rightarrow> string \<Rightarrow> (stack_buf \<times> string) outcome" where
  "echo_chunks [] buf out = Ret (buf, out)"
| "echo_chunks (d # ds) buf out =
     (let buf' = recv_into d buf in
      and_then (buf_strlen buf') (\<lambda>n.
      and_then (buf_bytes n buf') (\<lambda>bs. echo_chunks ds buf' (out @ bs))))"

section \<open>server.c\<close>

definition server_greeting :: string where
  "server_greeting = ''This is a test string from server!'' @ [CHR 0x0A]"

record net_answers =
  n_socket :: int
  n_bind :: int
  n_accept :: int
  n_chunks :: "string list"

text \<open>\<open>main\<close>: the process ends with the status returned. The test string is sent with a length of 37 bytes.\<close>

definition server_main :: "net_answers \<Rightarrow> (string \<times> int) outcome" where
  "server_main a =
     (if n_socket a = - 1 then Exit 1
      else if n_bind a < 0 then Exit 1
      else if n_accept a < 0 then Exit 1
      else
        and_then (buf_bytes 37 (literal server_greeting)) (\<lambda>g.
        and_then (echo_chunks (n_chunks a) (replicate MESSAGE_SIZE None) g) (\<lambda>(_, out). Ret (out, 0))))"

section \<open>multi\_server.c\<close>

definition handler_greeting :: string where
  "handler_greeting = ''Greetings! I am your connection handler'' @ [CHR 0x0A]"

definition handler_prompt :: string where
  "handler_prompt = ''Now type something and I shall repeat what you type '' @ [CHR 0x0A]"

text \<open>
  The handler of a connection, with the bytes it sends: the block with the descriptor is freed at the end, the
  descriptor is not closed.
\<close>

definition connection_handler :: "string list \<Rightarrow> os \<Rightarrow> (string \<times> os) outcome" where
  "connection_handler chunks s =
     and_then (buf_strlen (literal handler_greeting)) (\<lambda>n.
     and_then (buf_bytes n (literal handler_greeting)) (\<lambda>g.
     and_then (buf_strlen (literal handler_prompt)) (\<lambda>m.
     and_then (buf_bytes m (literal handler_prompt)) (\<lambda>p.
     and_then (echo_chunks chunks (replicate MESSAGE_SIZE None) (g @ p)) (\<lambda>(_, out). Ret (out, s))))))"

text \<open>A store of an \<open>int\<close> (four bytes) into a block of \<open>sz\<close> bytes.\<close>

definition store_int :: "nat \<Rightarrow> int \<Rightarrow> int outcome" where
  "store_int sz x = (if 4 \<le> sz then Ret x else UB Out_of_bounds)"

text \<open>
  The loop over \<open>accept\<close>, with the results of \<open>accept\<close>: it ends on the result 0 only, and \<open>pthread_create\<close>
  does not return negative numbers. The result is the list of descriptors given to handlers.
\<close>

fun accept_handlers :: "int list \<Rightarrow> int list \<Rightarrow> int list outcome" where
  "accept_handlers [] hs = Blocked"
| "accept_handlers (c # cs) hs =
     (if c = 0 then Ret hs else and_then (store_int 1 c) (\<lambda>c. accept_handlers cs (hs @ [c])))"

definition multi_main :: "int \<Rightarrow> int \<Rightarrow> int list \<Rightarrow> int outcome" where
  "multi_main socket_desc bind_rc accepted =
     (if socket_desc = - 1 then Exit 1
      else if bind_rc < 0 then Exit 1
      else and_then (accept_handlers accepted []) (\<lambda>hs. Ret 0))"

section \<open>client.c\<close>

definition MAXDATASIZE :: nat where "MAXDATASIZE = 300"

text \<open>The first message of the server: a zero byte is written behind the bytes received.\<close>

definition client_greeting :: "string \<Rightarrow> string outcome" where
  "client_greeting d =
     (let buf = recv_into d (replicate MAXDATASIZE None) in
      if length d < MAXDATASIZE then
        (let buf' = buf[length d := Some NUL] in and_then (buf_strlen buf') (\<lambda>n. buf_bytes n buf'))
      else UB Out_of_bounds)"

text \<open>
  One turn of the loop: \<open>scanf\<close> stores the word and a zero byte; the reply is received into an array that keeps what
  earlier replies left (\<open>None\<close>: \<open>recv\<close> fails; the empty string: the server has closed), and \<open>puts\<close> reads it as a string.
\<close>

definition client_turn :: "string \<Rightarrow> string option \<Rightarrow> stack_buf \<Rightarrow> (string \<times> string \<times> stack_buf) option outcome" where
  "client_turn word reply buf =
     (if length word < 1000 then
        (case reply of
           None \<Rightarrow> Ret None
         | Some d \<Rightarrow>
             (let buf' = recv_into d buf in
              and_then (buf_strlen buf') (\<lambda>n.
              and_then (buf_bytes n buf') (\<lambda>bs. Ret (Some (word, bs, buf'))))))
      else UB Out_of_bounds)"

section \<open>Lemmas\<close>

lemma recv_into_length [simp]: "length d \<le> length buf \<Longrightarrow> length (recv_into d buf) = length buf"
  by (simp add: recv_into_def)

lemma buf_strlen_zero: "NUL \<in> set d \<Longrightarrow> buf_strlen (map Some d @ buf) = Ret (length (c_text d))"
  by (induction d) (auto simp: c_text_def)

lemma buf_strlen_none: "NUL \<notin> set d \<Longrightarrow> buf_strlen (map Some d @ buf) = and_then (buf_strlen buf) (\<lambda>n. Ret (length d + n))"
proof (induction d)
  case Nil
  show ?case by (cases "buf_strlen buf") simp_all
next
  case (Cons c d)
  then show ?case by (cases "buf_strlen buf") auto
qed

lemma buf_bytes_map: "n \<le> length d \<Longrightarrow> buf_bytes n (map Some d @ buf) = Ret (take n d)"
proof (induction d arbitrary: n)
  case (Cons c d)
  then show ?case by (cases n) auto
qed simp

lemma c_text_prefix: "length (c_text d) \<le> length d" "take (length (c_text d)) d = c_text d"
  by (simp_all add: c_text_def length_takeWhile_le) (metis takeWhile_eq_take)

lemma literal_bytes:
  assumes "NUL \<notin> set str"
  shows "buf_strlen (literal str) = Ret (length str)" "n \<le> length str \<Longrightarrow> buf_bytes n (literal str) = Ret (take n str)"
  using buf_strlen_none [OF assms, of "[Some NUL]"] buf_bytes_map [of n str "[Some NUL]"] by (simp_all add: literal_def)

lemma buf_bytes_beyond: "length d < n \<Longrightarrow> buf_bytes n (map Some d) = UB Out_of_bounds"
proof (induction d arbitrary: n)
  case Nil
  then show ?case by (cases n) auto
next
  case (Cons c d)
  then show ?case by (cases n) auto
qed

text \<open>A zero byte written behind the bytes received makes them a string.\<close>

lemma terminated_text:
  assumes "length d < n"
  defines "buf \<equiv> (recv_into d (replicate n None))[length d := Some NUL]"
  shows "buf_strlen buf = Ret (length (c_text d))" "buf_bytes (length (c_text d)) buf = Ret (c_text d)"
proof -
  have buf: "buf = map Some (d @ [NUL]) @ replicate (n - Suc (length d)) None"
    using assms(1) unfolding buf_def by (cases "n - length d") (auto simp: recv_into_def list_update_append Suc_diff_Suc)
  have t: "c_text (d @ [NUL]) = c_text d" by (simp add: c_text_def takeWhile_tail)
  show "buf_strlen buf = Ret (length (c_text d))" unfolding buf t [symmetric] by (rule buf_strlen_zero) simp
  show "buf_bytes (length (c_text d)) buf = Ret (c_text d)"
    using buf_bytes_map [OF c_text_prefix(1) [of "d @ [NUL]"]] c_text_prefix(2) [of "d @ [NUL]"] unfolding buf t by simp
qed

section \<open>Theorems\<close>

text \<open>
  The echo loop against its reference: when every chunk the client sends contains a zero byte, the loop sends
  back the text of each chunk up to that byte, in order, whatever earlier chunks left in the array. A
  first chunk without a zero byte makes \<open>strlen\<close> run into bytes that were never written, or behind the array when the chunk fills it.
\<close>

theorem echo_chunks_reference:
  assumes "\<forall>d\<in>set ds. NUL \<in> set d \<and> length d \<le> length buf"
  shows "(\<exists>buf'. echo_chunks ds buf out = Ret (buf', out @ concat (map c_text ds))) \<and>
    (d \<noteq> [] \<and> length d \<le> MESSAGE_SIZE \<and> NUL \<notin> set d \<longrightarrow>
       echo_chunks (d # ds') (replicate MESSAGE_SIZE None) out = UB (if length d < MESSAGE_SIZE then Indeterminate else Out_of_bounds))"
proof
  show "\<exists>buf'. echo_chunks ds buf out = Ret (buf', out @ concat (map c_text ds))"
    using assms
  proof (induction ds arbitrary: buf out)
    case (Cons d ds)
    have d: "buf_strlen (recv_into d buf) = Ret (length (c_text d))" "buf_bytes (length (c_text d)) (recv_into d buf) = Ret (c_text d)"
      using Cons.prems buf_strlen_zero [of d] buf_bytes_map [OF c_text_prefix(1), of d] c_text_prefix(2) [of d]
      by (simp_all add: recv_into_def)
    have "\<exists>buf'. echo_chunks ds (recv_into d buf) (out @ c_text d) = Ret (buf', (out @ c_text d) @ concat (map c_text ds))"
      by (rule Cons.IH) (use Cons.prems in auto)
    with d show ?case by simp
  qed simp
next
  show "d \<noteq> [] \<and> length d \<le> MESSAGE_SIZE \<and> NUL \<notin> set d \<longrightarrow>
       echo_chunks (d # ds') (replicate MESSAGE_SIZE None) out = UB (if length d < MESSAGE_SIZE then Indeterminate else Out_of_bounds)"
  proof
    assume h: "d \<noteq> [] \<and> length d \<le> MESSAGE_SIZE \<and> NUL \<notin> set d"
    have "buf_strlen (replicate (MESSAGE_SIZE - length d) None) = UB (if length d < MESSAGE_SIZE then Indeterminate else Out_of_bounds)"
      using h by (cases "MESSAGE_SIZE - length d") auto
    then have "buf_strlen (recv_into d (replicate MESSAGE_SIZE None)) = UB (if length d < MESSAGE_SIZE then Indeterminate else Out_of_bounds)"
      using h buf_strlen_none [of d "replicate (MESSAGE_SIZE - length d) None"] by (simp add: recv_into_def)
    then show "echo_chunks (d # ds') (replicate MESSAGE_SIZE None) out = UB (if length d < MESSAGE_SIZE then Indeterminate else Out_of_bounds)"
      by simp
  qed
qed

theorem echo_chunks_reference_witness:
  "(\<exists>buf'. echo_chunks [''hello'' @ [NUL], ''x'' @ [NUL]] (replicate MESSAGE_SIZE None) [] = Ret (buf', ''hellox'')) \<and>
   echo_chunks [''hello''] (replicate MESSAGE_SIZE None) [] = UB Indeterminate"
proof -
  have "\<forall>d\<in>set [''hello'' @ [NUL], ''x'' @ [NUL]]. NUL \<in> set d \<and> length d \<le> length (replicate MESSAGE_SIZE (None :: char option))"
    by (simp add: MESSAGE_SIZE_def)
  note w = echo_chunks_reference [OF this, of "[]" "''hello''" "[]"]
  have "c_text (''hello'' @ [NUL]) = ''hello''" "c_text (''x'' @ [NUL]) = ''x''" by (simp_all add: c_text_def NUL_def)
  with w show ?thesis by (simp add: MESSAGE_SIZE_def NUL_def)
qed

text \<open>\<open>server.c\<close> reads behind its test string whenever a client has connected: the string has 36 bytes.\<close>

theorem server_main_overread:
  assumes "n_socket a \<noteq> - 1" "0 \<le> n_bind a" "0 \<le> n_accept a"
  shows "server_main a = UB Out_of_bounds"
proof -
  have "length (server_greeting @ [NUL]) = 36" by (simp add: server_greeting_def)
  then have "buf_bytes 37 (literal server_greeting) = UB Out_of_bounds" unfolding literal_def by (intro buf_bytes_beyond) simp
  with assms show ?thesis by (simp add: server_main_def)
qed

text \<open>
  The handler of \<open>multi_server.c\<close> sends its two messages and then what the loop sends; it leaves the
  descriptor open. \<open>main\<close> writes an \<open>int\<close> to a block of one byte for each connection, also for a failed \<open>accept\<close>.
\<close>

theorem connection_handler_result:
  assumes "echo_chunks chunks (replicate MESSAGE_SIZE None) (handler_greeting @ handler_prompt) = Ret (buf, out)"
  shows "connection_handler chunks s = Ret (out, s)"
proof -
  have "NUL \<notin> set handler_greeting" "NUL \<notin> set handler_prompt" by (simp_all add: handler_greeting_def handler_prompt_def NUL_def)
  then show ?thesis using assms by (simp add: connection_handler_def literal_bytes)
qed

theorem multi_main_overrun:
  assumes "socket_desc \<noteq> - 1" "0 \<le> bind_rc" "c \<noteq> 0"
  shows "multi_main socket_desc bind_rc (c # cs) = UB Out_of_bounds"
  using assms by (simp add: multi_main_def store_int_def)

text \<open>
  The client prints the first message of the server as sent, up to a zero byte. A reply without a zero byte is
  printed with what follows it in the array, which is undefined for the first reply; an input word of 1000 characters overruns the array.
\<close>

theorem client_greeting_text:
  assumes "length d < MAXDATASIZE"
  shows "client_greeting d = Ret (c_text d)"
  using assms terminated_text [OF assms] by (simp add: client_greeting_def Let_def)

theorem client_turn_cases:
  assumes "length buf = 2000" "length d \<le> 2000"
  shows "(length word < 1000 \<and> NUL \<in> set d \<longrightarrow> client_turn word (Some d) buf = Ret (Some (word, c_text d, recv_into d buf))) \<and>
    (length word < 1000 \<and> NUL \<notin> set d \<and> length d < 2000 \<and> buf = replicate 2000 None \<longrightarrow> client_turn word (Some d) buf = UB Indeterminate) \<and>
    (1000 \<le> length word \<longrightarrow> client_turn word (Some d) buf = UB Out_of_bounds)"
proof (intro conjI impI)
  assume h: "length word < 1000 \<and> NUL \<in> set d"
  then have "buf_strlen (recv_into d buf) = Ret (length (c_text d))" "buf_bytes (length (c_text d)) (recv_into d buf) = Ret (c_text d)"
    using buf_strlen_zero [of d] buf_bytes_map [OF c_text_prefix(1), of d] c_text_prefix(2) [of d] by (simp_all add: recv_into_def)
  with h show "client_turn word (Some d) buf = Ret (Some (word, c_text d, recv_into d buf))" by (simp add: client_turn_def Let_def)
next
  assume h: "length word < 1000 \<and> NUL \<notin> set d \<and> length d < 2000 \<and> buf = replicate 2000 None"
  then obtain n where "2000 - length d = Suc n" by (metis Suc_diff_Suc)
  with h have "buf_strlen (recv_into d buf) = UB Indeterminate"
    using buf_strlen_none [of d "replicate (2000 - length d) None"] by (simp add: recv_into_def)
  with h show "client_turn word (Some d) buf = UB Indeterminate" by (simp add: client_turn_def Let_def)
qed (simp add: client_turn_def)

end
