(* ===== verification/Epoll_Client.thy ===== *)
theory Epoll_Client
  imports Epoll_Echo Net_Echo
begin

text \<open>
  The programs of \<open>src/epoll\<close> that are not servers: the interactive client \<open>client.c\<close> of the echo server \<open>server.c\<close>, the
  connection test \<open>conntest.c\<close>, and \<open>epoll_input.c\<close>, which reads files named on the command line.

  The client's \<open>send_and_recv\<close> is one turn per ready descriptor: \<open>on_server\<close> for bytes of the server, \<open>on_input\<close> for
  a line of the standard input. Its arrays have \<open>MAXLINE\<close> bytes and are zeroed first. The input of \<open>fgets\<close> is
  the text up to and including the next newline, or what is left when there is none.
\<close>

section \<open>client.c\<close>

text \<open>The number of descriptors \<open>select\<close> looks at, for the descriptor \<open>inp\<close> of the input.\<close>

definition client_maxfd :: "int \<Rightarrow> int \<Rightarrow> int" where
  "client_maxfd inp connfd = (if inp > connfd then inp else connfd + 1)"

text \<open>\<open>fgets\<close> into an array of \<open>n\<close> bytes: what it stores and what is left of the input (\<open>None\<close> at the end).\<close>

definition fgets :: "nat \<Rightarrow> string \<Rightarrow> (string \<times> string) option" where
  "fgets n inp =
     (if inp = [] then None
      else let line = takeWhile (\<lambda>c. c \<noteq> CHR 0x0A) inp;
               full = (if length line < length inp then line @ [CHR 0x0A] else line);
               got = take (n - 1) full
           in Some (got, drop (length got) inp))"

datatype turn = Goes_on string string | Quits

text \<open>
  A line of the input: the last character of the string is overwritten; what remains is sent, unless it is \<open>q\<close>.
  The result has the bytes sent and the rest of the input.
\<close>

definition on_input :: "string \<Rightarrow> turn outcome" where
  "on_input inp =
     (case fgets MAXLINE inp of
        None \<Rightarrow> Exit EXIT_FAILURE
      | Some (got, rest) \<Rightarrow>
          let lens = length (c_text got) in
          if lens = 0 then UB Out_of_bounds
          else let line = c_text (got[lens - 1 := NUL]) in
            if line = ''q'' then Ret Quits else Ret (Goes_on line rest))"

text \<open>
  Bytes of the server: \<open>read\<close> fills the zeroed array, \<open>strlen\<close> looks for a zero byte, and the whole
  array is written to the standard output.
\<close>

definition on_server :: "string \<Rightarrow> string outcome" where
  "on_server d =
     (let buf = recv_into d (replicate MAXLINE (Some NUL)) in
      and_then (buf_strlen buf) (\<lambda>lens.
      and_then (buf_bytes MAXLINE (buf[lens := Some NUL])) Ret))"

record client_answers =
  l_argc :: nat
  l_socket :: int
  l_connect :: int

definition client_main :: "client_answers \<Rightarrow> os \<Rightarrow> (int \<times> os) outcome" where
  "client_main a s =
     (if l_argc a \<noteq> 2 then Exit EXIT_FAILURE
      else if l_socket a = - 1 then Exit EXIT_FAILURE
      else if l_connect a < 0 then Exit EXIT_FAILURE
      else Ret (l_socket a, sys_open (l_socket a) s))"

subsection \<open>Lemmas and theorems\<close>

text \<open>With the standard input at 0 the bound given to \<open>select\<close> is the greatest descriptor plus one.\<close>

lemma client_maxfd_ok: "0 \<le> connfd \<Longrightarrow> client_maxfd 0 connfd = max 0 connfd + 1"
  by (simp add: client_maxfd_def)

lemma takeWhile_upto: "x \<notin> set l \<Longrightarrow> takeWhile (\<lambda>c. c \<noteq> x) (l @ x # m) = l"
  by (induction l) auto

lemma fgets_line:
  assumes "CHR 0x0A \<notin> set l" "Suc (length l) < n"
  shows "fgets n (l @ CHR 0x0A # rest) = Some (l @ [CHR 0x0A], rest)"
proof -
  have "takeWhile (\<lambda>c. c \<noteq> CHR 0x0A) (l @ CHR 0x0A # rest) = l" using assms(1) by (rule takeWhile_upto)
  with assms(2) show ?thesis by (simp add: fgets_def Let_def)
qed

lemma c_text_all: "NUL \<notin> set l \<Longrightarrow> c_text (l @ NUL # m) = l"
  unfolding c_text_def by (rule takeWhile_upto)

lemma on_input_line:
  assumes "CHR 0x0A \<notin> set l" "NUL \<notin> set l" "Suc (length l) < MAXLINE"
  shows "on_input (l @ CHR 0x0A # rest) = Ret (if l = ''q'' then Quits else Goes_on l rest)"
proof -
  have "c_text (l @ [CHR 0x0A]) = l @ [CHR 0x0A]" using assms(2) by (intro c_text_id) (simp add: NUL_def)
  moreover have "(l @ [CHR 0x0A])[length l := NUL] = l @ [NUL]" by (simp add: list_update_append)
  ultimately show ?thesis using fgets_line [OF assms(1,3)] c_text_all [OF assms(2), of "[]"]
    by (simp add: on_input_def Let_def)
qed

lemma on_server_text:
  assumes "length d < MAXLINE" "NUL \<notin> set d"
  shows "on_server d = Ret (d @ replicate (MAXLINE - length d) NUL)"
proof -
  obtain m where m: "MAXLINE - length d = Suc m" using assms(1) by (metis Suc_diff_Suc)
  have buf: "recv_into d (replicate MAXLINE (Some NUL)) = map Some (d @ replicate (Suc m) NUL)"
    using m by (simp add: recv_into_def)
  have "buf_strlen (map Some d @ map Some (replicate (Suc m) NUL)) = Ret (length d)"
    using buf_strlen_none [OF assms(2), of "map Some (replicate (Suc m) NUL)"] by simp
  moreover have "(map Some (d @ replicate (Suc m) NUL))[length d := Some NUL] = map Some (d @ replicate (Suc m) NUL)"
    by (simp add: list_update_append)
  moreover have "buf_bytes MAXLINE (map Some (d @ replicate (Suc m) NUL)) = Ret (d @ replicate (Suc m) NUL)"
    using buf_bytes_map [of MAXLINE "d @ replicate (Suc m) NUL" "[]"] m assms(1) by simp
  ultimately show ?thesis using m by (simp only: on_server_def buf Let_def map_append and_then.simps)
qed

text \<open>A message that fills the array has no zero byte behind it.\<close>

theorem on_server_overread:
  assumes "length d = MAXLINE" "NUL \<notin> set d"
  shows "on_server d = UB Out_of_bounds"
  using assms buf_strlen_none [of d "[]"] by (simp add: on_server_def recv_into_def)

text \<open>A line without a newline, or one of \<open>MAXLINE - 1\<close> characters and more, loses a character.\<close>

theorem on_input_drops:
  assumes "CHR 0x0A \<notin> set l" "NUL \<notin> set l" "l @ [c] \<noteq> [] " "c \<noteq> CHR 0x0A" "c \<noteq> NUL" "Suc (length l) < MAXLINE" "l \<noteq> ''q''"
  shows "on_input (l @ [c]) = Ret (Goes_on l [])"
proof -
  have "takeWhile (\<lambda>c. c \<noteq> CHR 0x0A) (l @ [c]) = l @ [c]" using assms(1,4) by (auto simp: takeWhile_eq_all_conv)
  then have "fgets MAXLINE (l @ [c]) = Some (l @ [c], [])" using assms(6) by (simp add: fgets_def Let_def)
  moreover have "c_text (l @ [c]) = l @ [c]" using assms(2,5) by (intro c_text_id) auto
  moreover have "(l @ [c])[length l := NUL] = l @ [NUL]" by (simp add: list_update_append)
  ultimately show ?thesis using c_text_all [OF assms(2), of "[]"] assms(7) by (simp add: on_input_def Let_def)
qed

text \<open>
  C33. Round trip of a line through client and server: a line the user types (without a zero byte, shorter than the buffer, not \<open>q\<close>)
  is sent without its newline; when it arrives at the server \<open>src/epoll/server.c\<close> as one piece and the
  server's \<open>read\<close> and \<open>write\<close> take all of it, the server sends the same bytes back and the client prints them, followed by the zero bytes of
  its array.
\<close>

theorem client_server_roundtrip:
  assumes "CHR 0x0A \<notin> set l" "NUL \<notin> set l" "l \<noteq> []" "l \<noteq> ''q''" "Suc (length l) < MAXLINE"
    and "counted base s" "e_fd e \<in> interest (srv_k s)" "e_fd e \<noteq> lfd" "unread (conns (srv_k s) (e_fd e)) = l"
    and "length l \<le> e_sz e" "e_wr e = int (length l)"
  shows "on_input (l @ CHR 0x0A # rest) = Ret (Goes_on l rest) \<and>
    (\<exists>t. srv_event lfd e s = Ret t \<and> sent t (e_fd e) = sent s (e_fd e) @ l \<and> unread (conns (srv_k t) (e_fd e)) = []) \<and>
    on_server l = Ret (l @ replicate (MAXLINE - length l) NUL)"
proof (intro conjI)
  show "on_input (l @ CHR 0x0A # rest) = Ret (Goes_on l rest)" using on_input_line [OF assms(1,2,5)] assms(4) by simp
  show "on_server l = Ret (l @ replicate (MAXLINE - length l) NUL)" using assms(2,5) by (intro on_server_text) simp_all
  have fd: "e_fd e \<in> dom (fds (k_os (srv_k s)))" using assms(6,7) by (auto simp: counted_def monitored_def)
  have n: "read_size MAXLINE (e_sz e) (length l) = length l" using assms(3,5,10) by (simp add: read_size_def Suc_le_eq)
  have "k_read MAXLINE (e_sz e) (e_fd e) (srv_k s) =
      Ret (Data l, (srv_k s)\<lparr>conns := (conns (srv_k s))(e_fd e := (conns (srv_k s) (e_fd e))\<lparr>unread := []\<rparr>)\<rparr>)"
    using k_read_Data [OF fd, of MAXLINE "e_sz e"] assms(3,9) n by (simp add: Let_def)
  then show "\<exists>t. srv_event lfd e s = Ret t \<and> sent t (e_fd e) = sent s (e_fd e) @ l \<and> unread (conns (srv_k t) (e_fd e)) = []"
    using assms(8,11) by (simp add: srv_event_def)
qed

definition rdemo_event :: srv_ev where
  "rdemo_event = \<lparr>e_fd = 5, e_acc = 0, e_ctl = 0, e_sz = 100, e_wr = 2\<rparr>"

definition rdemo_state :: srv where
  "rdemo_state = (case srv_step 3 (Srv_send 5 ''hi'') srv_demo_served of Ret s \<Rightarrow> s)"

lemma rdemo_run: "run (srv_step 3) [Srv_connect, Srv_connect, Srv_round [srv_demo_event], Srv_send 5 ''hi''] srv_demo_start = Ret rdemo_state"
  "5 \<in> interest (srv_k rdemo_state)" "unread (conns (srv_k rdemo_state) 5) = ''hi''" "sent rdemo_state 5 = []"
  by (simp_all add: rdemo_state_def srv_run_defs)

theorem client_server_roundtrip_witness:
  "on_input (''hi'' @ CHR 0x0A # []) = Ret (Goes_on ''hi'' []) \<and>
   (\<exists>t. srv_event 3 rdemo_event rdemo_state = Ret t \<and> sent t 5 = ''hi'') \<and>
   on_server ''hi'' = Ret (''hi'' @ replicate 1022 NUL)"
proof -
  have c: "counted (insert (q_epoll srv_demo_answers) (dom (fds srv_demo_os))) rdemo_state"
    using srvi.inv_run rdemo_run(1) srv_start_counted [OF srv_demo_runs(1,2)] by blast
  have "e_fd rdemo_event = 5" "e_wr rdemo_event = 2" "e_sz rdemo_event = 100" by (simp_all add: rdemo_event_def)
  then show ?thesis
    using client_server_roundtrip [OF _ _ _ _ _ c, of "''hi''" rdemo_event 3 "[]"] rdemo_run(2-4)
    by (auto simp: MAXLINE_def NUL_def)
qed

section \<open>conntest.c\<close>

text \<open>
  What the calls of one turn return. The program opens a connection per turn and closes none; it ends when a call fails,
  with the count of the turns completed.
\<close>

record conn_turn =
  t_sock :: int
  t_connect :: int
  t_name :: int

fun conntest :: "conn_turn list \<Rightarrow> int \<Rightarrow> os \<Rightarrow> (int \<times> int \<times> os) outcome" where
  "conntest [] n s = Blocked"
| "conntest (a # as) n s =
     (if t_sock a < 0 then Ret (EXIT_FAILURE, n, s)
      else let s1 = sys_open (t_sock a) s in
        if t_connect a < 0 then Ret (EXIT_FAILURE, n, s1)
        else if t_name a < 0 then Ret (EXIT_FAILURE, n, s1)
        else and_then (c_add n 1) (\<lambda>m. conntest as m s1))"

definition turn_fails :: "conn_turn \<Rightarrow> bool" where
  "turn_fails a \<longleftrightarrow> t_sock a < 0 \<or> t_connect a < 0 \<or> t_name a < 0"

theorem conntest_counts:
  assumes "conntest as n s = Ret (r, m, t)"
  shows "r = EXIT_FAILURE \<and> m = n + int (length (takeWhile (\<lambda>a. \<not> turn_fails a) as)) \<and>
    dom (fds s) \<union> t_sock ` set (takeWhile (\<lambda>a. \<not> turn_fails a) as) \<subseteq> dom (fds t)"
  using assms
proof (induction as arbitrary: n s)
  case (Cons a as)
  show ?case
  proof (cases "turn_fails a")
    case True
    with Cons.prems show ?thesis by (auto simp: turn_fails_def Let_def sys_open_def split: if_splits)
  next
    case False
    then have "conntest as (n + 1) (sys_open (t_sock a) s) = Ret (r, m, t)"
      using Cons.prems by (auto simp: turn_fails_def Let_def outcome_simps c_add_def)
    from Cons.IH [OF this] False show ?thesis by (auto simp: turn_fails_def sys_open_def)
  qed
qed simp

section \<open>epoll\_input.c\<close>

text \<open>
  The loop over the files (the results of \<open>open\<close> and \<open>epoll_ctl\<close>; failures are only reported), the events of one round, and the rounds
  until no file is open by the program's count. After \<open>read\<close> the result is overwritten by -1 in the test meant to
  compare it with -1.
\<close>

fun add_files :: "(int \<times> int) list \<Rightarrow> kernel \<Rightarrow> kernel" where
  "add_files [] k = k"
| "add_files ((fd, ctl) # fs) k =
     add_files fs (snd (epoll_ctl_add ctl fd (k\<lparr>k_os := sys_open fd (k_os k)\<rparr>)))"

fun input_events :: "(int \<times> 32 word) list \<Rightarrow> int \<Rightarrow> kernel \<Rightarrow> (int \<times> kernel) outcome" where
  "input_events [] n k = Ret (n, k)"
| "input_events ((fd, evs) # es) n k =
     (if evs AND EPOLLIN \<noteq> 0 then
        and_then (k_read 1000 1000 fd k) (\<lambda>(r, k'). let s = - 1 in if s \<noteq> (0 :: int) then Exit (- 1) else input_events es n k')
      else if evs AND (EPOLLHUP OR EPOLLERR) \<noteq> 0 then
        (if fd \<notin> dom (fds (k_os k)) then Exit (- 1)
         else and_then (c_sub n 1) (\<lambda>m. input_events es m (k_close fd k)))
      else input_events es n k)"

text \<open>\<open>epoll_wait\<close> fails (\<open>None\<close>) or returns events; when it is interrupted the loop goes on as with no events.\<close>

fun input_rounds :: "(int \<times> 32 word) list option list \<Rightarrow> int \<Rightarrow> kernel \<Rightarrow> (int \<times> kernel) outcome" where
  "input_rounds ess n k =
     (if n \<le> 0 then Ret (0, k)
      else (case ess of
              [] \<Rightarrow> Blocked
            | None # ess' \<Rightarrow> Exit (- 1)
            | Some es # ess' \<Rightarrow> and_then (input_events es n k) (\<lambda>(m, k'). input_rounds ess' m k')))"

text \<open>A round with an event for input ends the program with an error (or blocks in \<open>read\<close>); nothing is ever printed.\<close>

theorem input_never_reads:
  assumes "\<exists>e\<in>set es. snd e AND EPOLLIN \<noteq> 0"
  shows "input_events es n k \<noteq> Ret r"
  using assms
proof (induction es arbitrary: n k)
  case (Cons e es)
  show ?case
  proof (cases "snd e AND EPOLLIN \<noteq> 0")
    case True
    then show ?thesis by (cases e) (auto simp: outcome_simps Let_def)
  next
    case False
    with Cons.prems have "\<exists>e\<in>set es. snd e AND EPOLLIN \<noteq> 0" by auto
    with Cons.IH False show ?thesis by (cases e) (auto simp: outcome_simps split: if_splits)
  qed
qed simp

end
