(* ===== verification/Small_Examples.thy ===== *)
theory Small_Examples
  imports Net_Echo
begin

text \<open>
  The callback \<open>buff_input_cb\<close> of \<open>src/libevent_study/test.c\<close> (\<open>libevent1.c\<close> has the same one) and the memory error of
  \<open>src/valgrind/sample.c\<close>. \<open>evbuffer_remove\<close> belongs to libevent: its result and the bytes it stores are arguments, and
  its documentation says that the result is -1 or the number of bytes stored, at most the size it was given.
\<close>

definition CB_SIZE :: nat where "CB_SIZE = 4096"

definition buff_input_cb :: "int \<Rightarrow> string \<Rightarrow> string outcome" where
  "buff_input_cb len d =
     and_then (array_set (recv_into d (replicate CB_SIZE None)) len NUL) (\<lambda>buf.
     and_then (buf_strlen buf) (\<lambda>n. buf_bytes n buf))"

definition evbuffer_removed :: "int \<Rightarrow> string \<Rightarrow> bool" where
  "evbuffer_removed len d \<longleftrightarrow> len = - 1 \<and> d = [] \<or> len = int (length d) \<and> length d \<le> CB_SIZE"

text \<open>The message is printed, except that a full buffer and an error make the callback write outside its array.\<close>

theorem buff_input_cb_result:
  assumes "evbuffer_removed len d"
  shows "buff_input_cb len d = (if 0 \<le> len \<and> len < int CB_SIZE then Ret (c_text d) else UB Out_of_bounds)"
proof (cases "0 \<le> len \<and> len < int CB_SIZE")
  case True
  then have "len = int (length d)" "length d < CB_SIZE" using assms by (auto simp: evbuffer_removed_def)
  then show ?thesis using terminated_text [of d CB_SIZE] by (simp add: buff_input_cb_def array_set_def)
next
  case False
  have "length (recv_into d (replicate CB_SIZE None)) = CB_SIZE" using assms by (auto simp: evbuffer_removed_def recv_into_def)
  with False show ?thesis by (auto simp: buff_input_cb_def array_set_def)
qed

section \<open>valgrind/sample.c\<close>

definition sample_fun :: "int option list outcome" where
  "sample_fun = array_set (replicate 10 None) 10 0"

lemma sample_fun_overrun: "sample_fun = UB Out_of_bounds"
  by (simp add: sample_fun_def array_set_def)

end
