(* ===== verification/Example_Programs.thy ===== *)
theory Example_Programs
  imports Small_Examples
begin

text \<open>
  The \<open>main\<close> functions of the small example programs: the client \<open>src/network_programming/client.c\<close>, the two libevent clients
  \<open>src/libevent_study/libevent1.c\<close> and \<open>test.c\<close>, the timer \<open>src/timer_libevent/evtimer.c\<close> and \<open>src/network_programming/testpid.c\<close>.

  What the operating system and libevent answer are arguments. Of the libevent programs the model has the calls they make, in
  order; \<open>libevent\<close> reports input of a connection only when its callbacks are set and reading is enabled, which is not the case
  for a new one. A null pointer given to libevent is dereferenced there.
\<close>

section \<open>client.c\<close>

record client_exchange =
  x_word :: string
  x_send :: int
  x_reply :: "string option"

text \<open>
  The loop of \<open>main\<close>: without further input \<open>scanf\<close> waits. The result is the list of words sent with what was printed for the
  replies, and the status of the process.
\<close>

fun client_loop :: "client_exchange list \<Rightarrow> stack_buf \<Rightarrow> (string \<times> string) list \<Rightarrow> ((string \<times> string) list \<times> int) outcome" where
  "client_loop [] buf out = Blocked"
| "client_loop (x # xs) buf out =
     (if 1000 \<le> length (x_word x) then UB Out_of_bounds
      else if x_send x < 0 then Ret (out, 1)
      else and_then (client_turn (x_word x) (x_reply x) buf) (\<lambda>r.
        case r of None \<Rightarrow> Ret (out, 0) | Some (w, bs, buf') \<Rightarrow> client_loop xs buf' (out @ [(w, bs)])))"

record net_client_answers =
  ca_socket :: int
  ca_connect :: int
  ca_greeting :: "string option"
  ca_exchanges :: "client_exchange list"

text \<open>\<open>server.sin_addr\<close> is never assigned, so the address given to \<open>connect\<close> is indeterminate: \<open>ca_connect\<close> may be anything.\<close>

definition net_client_main :: "net_client_answers \<Rightarrow> (string \<times> (string \<times> string) list \<times> int) outcome" where
  "net_client_main a =
     (if ca_socket a = - 1 then Exit 1
      else if ca_connect a < 0 then Exit 1
      else (case ca_greeting a of
              None \<Rightarrow> Exit 1
            | Some d \<Rightarrow>
                and_then (client_greeting d) (\<lambda>g.
                and_then (client_loop (ca_exchanges a) (replicate 2000 None) []) (\<lambda>(out, rc). Ret (g, out, rc)))))"

text \<open>Replies that are terminated are printed one by one, until the first failure.\<close>

definition good_exchange :: "client_exchange \<Rightarrow> bool" where
  "good_exchange x \<longleftrightarrow> length (x_word x) < 1000 \<and> 0 \<le> x_send x \<and> (\<exists>d. x_reply x = Some d \<and> NUL \<in> set d \<and> length d \<le> 2000)"

lemma client_turn_terminated:
  assumes "length word < 1000" "NUL \<in> set d"
  shows "client_turn word (Some d) buf = Ret (Some (word, c_text d, recv_into d buf))"
proof -
  have "buf_strlen (recv_into d buf) = Ret (length (c_text d))" "buf_bytes (length (c_text d)) (recv_into d buf) = Ret (c_text d)"
    using assms(2) buf_strlen_zero [of d] buf_bytes_map [OF c_text_prefix(1), of d] c_text_prefix(2) [of d] by (simp_all add: recv_into_def)
  then show ?thesis using assms(1) by (simp add: client_turn_def Let_def)
qed

lemma client_loop_good:
  assumes "list_all good_exchange xs" "length (x_word y) < 1000"
  shows "client_loop (xs @ [y\<lparr>x_send := 0, x_reply := None\<rparr>]) buf out =
    Ret (out @ map (\<lambda>x. (x_word x, c_text (the (x_reply x)))) xs, 0)"
  using assms(1)
proof (induction xs arbitrary: buf out)
  case Nil
  then show ?case using assms(2) by (simp add: client_turn_def)
next
  case (Cons x xs)
  then obtain d where "x_reply x = Some d" "length (x_word x) < 1000" "NUL \<in> set d" "0 \<le> x_send x" by (auto simp: good_exchange_def)
  with Cons show ?case by (simp add: client_turn_terminated)
qed

theorem net_client_session:
  assumes "0 \<le> ca_socket a" "0 \<le> ca_connect a" "ca_greeting a = Some g" "length g < MAXDATASIZE"
    and "ca_exchanges a = xs @ [y\<lparr>x_send := 0, x_reply := None\<rparr>]" "list_all good_exchange xs" "length (x_word y) < 1000"
  shows "net_client_main a = Ret (c_text g, map (\<lambda>x. (x_word x, c_text (the (x_reply x)))) xs, 0)"
  using assms client_greeting_text [OF assms(4)] client_loop_good [OF assms(6,7)] by (simp add: net_client_main_def)

section \<open>testpid.c\<close>

datatype pid_line = Forking int | Count nat int

definition pid_lines :: "int \<Rightarrow> int \<Rightarrow> pid_line list" where
  "pid_lines pid self = Forking pid # map (\<lambda>i. Count i self) [0..<5]"

text \<open>
  \<open>fork\<close> returns 0 in the child and the number of the child in the parent, or -1. Both processes write their lines, in any
  interleaving; the parent waits only after it has written all of its own.
\<close>

definition testpid_main :: "int \<Rightarrow> int \<Rightarrow> pid_line list set" where
  "testpid_main fork_rc self =
     (if fork_rc < 0 then {pid_lines fork_rc self} else shuffles (pid_lines fork_rc self) (pid_lines 0 fork_rc))"

fun writer :: "int \<Rightarrow> int \<Rightarrow> pid_line \<Rightarrow> int" where
  "writer parent child (Forking p) = (if p = 0 then child else parent)"
| "writer parent child (Count i p) = p"

text \<open>Whatever the interleaving, the lines of each of the two processes are complete and in order.\<close>

theorem testpid_each_in_order:
  assumes "out \<in> testpid_main child parent" "0 < child" "child \<noteq> parent"
  shows "filter (\<lambda>l. writer parent child l = parent) out = pid_lines child parent \<and>
    filter (\<lambda>l. writer parent child l = child) out = pid_lines 0 child"
proof -
  have "out \<in> shuffles (pid_lines child parent) (pid_lines 0 child)" using assms(1,2) by (simp add: testpid_main_def)
  then have "filter P out \<in> shuffles (filter P (pid_lines child parent)) (filter P (pid_lines 0 child))" for P
    using filter_shuffles by fastforce
  moreover have "filter (\<lambda>l. writer parent child l = parent) (pid_lines child parent) = pid_lines child parent"
    "filter (\<lambda>l. writer parent child l = parent) (pid_lines 0 child) = []"
    "filter (\<lambda>l. writer parent child l = child) (pid_lines child parent) = []"
    "filter (\<lambda>l. writer parent child l = child) (pid_lines 0 child) = pid_lines 0 child"
    using assms(2,3) by (auto simp: pid_lines_def)
  ultimately show ?thesis by (metis Nil_in_shufflesI shuffles.simps(1,2) singletonD)
qed

section \<open>The libevent clients\<close>

datatype ev_call = Base_new | Bev_new nat | Bev_setcb nat | Bev_connect nat | Bev_enable_read nat | Base_dispatch

definition NUMCONNECT :: nat where "NUMCONNECT = 1000"

text \<open>\<open>made i\<close>: \<open>bufferevent_socket_new\<close> of connection \<open>i\<close> does not return null, which \<open>libevent1.c\<close> does not test.\<close>

function connect_loop :: "(nat \<Rightarrow> bool) \<Rightarrow> nat \<Rightarrow> ev_call list \<Rightarrow> ev_call list outcome" where
  "connect_loop made i calls =
     (if i < NUMCONNECT - 1 then
        (if made i then connect_loop made (Suc i) (calls @ [Bev_new i, Bev_setcb i, Bev_connect i]) else UB Null_deref)
      else Ret calls)"
  by pat_completeness auto
termination by (relation "measure (\<lambda>(made, i, calls). NUMCONNECT - i)") auto

text \<open>The status is \<open>None\<close>: after the dispatch \<open>libevent1.c\<close> loops for ever.\<close>

definition libevent1_main :: "bool \<Rightarrow> (nat \<Rightarrow> bool) \<Rightarrow> (ev_call list \<times> int option) outcome" where
  "libevent1_main base made =
     (if base then and_then (connect_loop made 0 [Base_new]) (\<lambda>calls. Ret (calls @ [Base_dispatch], None)) else UB Null_deref)"

definition test_main :: "int \<Rightarrow> bool \<Rightarrow> bool \<Rightarrow> int \<Rightarrow> ev_call list \<times> int option" where
  "test_main pton base made conn =
     (if pton \<le> 0 then ([], Some 1)
      else if \<not> base then ([Base_new], Some 1)
      else if \<not> made then ([Base_new, Bev_new 0], Some 1)
      else if conn < 0 then ([Base_new, Bev_new 0, Bev_connect 0], Some 1)
      else ([Base_new, Bev_new 0, Bev_connect 0, Bev_setcb 0, Bev_enable_read 0, Base_dispatch], Some 0))"

definition input_reported :: "ev_call list \<Rightarrow> nat \<Rightarrow> bool" where
  "input_reported calls i \<longleftrightarrow> Bev_setcb i \<in> set calls \<and> Bev_enable_read i \<in> set calls"

definition BEV_EVENT_ERROR :: "16 word" where "BEV_EVENT_ERROR = 0x20"
definition BEV_EVENT_CONNECTED :: "16 word" where "BEV_EVENT_CONNECTED = 0x80"

definition buff_ev_cb :: "16 word \<Rightarrow> string option" where
  "buff_ev_cb events =
     (if events AND BEV_EVENT_CONNECTED \<noteq> 0 then Some ''Server is connected!''
      else if events AND BEV_EVENT_ERROR \<noteq> 0 then Some ''Connect server error!''
      else None)"

lemma connect_loop_eq:
  "i \<le> NUMCONNECT - 1 \<Longrightarrow>
   connect_loop made i calls =
     (if \<forall>j\<in>{i..<NUMCONNECT - 1}. made j
      then Ret (calls @ concat (map (\<lambda>j. [Bev_new j, Bev_setcb j, Bev_connect j]) [i..<NUMCONNECT - 1])) else UB Null_deref)"
proof (induction "NUMCONNECT - 1 - i" arbitrary: i calls)
  case 0
  then show ?case by simp
next
  case (Suc n)
  then have i: "i < NUMCONNECT - 1" by simp
  then have split: "[i..<NUMCONNECT - 1] = i # [Suc i..<NUMCONNECT - 1]" "{i..<NUMCONNECT - 1} = insert i {Suc i..<NUMCONNECT - 1}"
    by (auto simp: upt_conv_Cons)
  show ?case
  proof (cases "made i")
    case True
    have "connect_loop made i calls = connect_loop made (Suc i) (calls @ [Bev_new i, Bev_setcb i, Bev_connect i])" using i True by simp
    also have "\<dots> = (if \<forall>j\<in>{Suc i..<NUMCONNECT - 1}. made j
      then Ret ((calls @ [Bev_new i, Bev_setcb i, Bev_connect i]) @
        concat (map (\<lambda>j. [Bev_new j, Bev_setcb j, Bev_connect j]) [Suc i..<NUMCONNECT - 1])) else UB Null_deref)"
      using Suc i by (intro Suc.hyps(1)) simp_all
    finally show ?thesis using True unfolding split by simp
  next
    case False
    then show ?thesis using i unfolding split by simp
  qed
qed

text \<open>
  \<open>libevent1.c\<close> opens 999 of its 1000 connections; if libevent cannot create one, a null pointer is dereferenced. It never enables reading, so that
  its callback for messages is never called, for none of the connections.
\<close>

theorem libevent1_calls:
  "libevent1_main True made =
     (if \<forall>j<999. made j
      then Ret (Base_new # concat (map (\<lambda>j. [Bev_new j, Bev_setcb j, Bev_connect j]) [0..<999]) @ [Base_dispatch], None) else UB Null_deref) \<and>
   (\<forall>calls st i. libevent1_main True made = Ret (calls, st) \<longrightarrow> \<not> input_reported calls i \<and> (Bev_connect i \<in> set calls \<longleftrightarrow> i < 999))"
proof -
  have "libevent1_main True made =
     (if \<forall>j<999. made j
      then Ret (Base_new # concat (map (\<lambda>j. [Bev_new j, Bev_setcb j, Bev_connect j]) [0..<999]) @ [Base_dispatch], None) else UB Null_deref)"
    using connect_loop_eq [of 0 made "[Base_new]"] by (simp add: libevent1_main_def NUMCONNECT_def atLeast0LessThan del: connect_loop.simps)
  then show ?thesis by (auto simp: input_reported_def split: if_splits)
qed

text \<open>\<open>test.c\<close> dispatches only after every call has succeeded, and then the messages of the connection are reported.\<close>

theorem test_main_calls:
  "Base_dispatch \<in> set (fst (test_main pton base made conn)) \<longleftrightarrow> 0 < pton \<and> base \<and> made \<and> 0 \<le> conn"
  "snd (test_main pton base made conn) = Some (if 0 < pton \<and> base \<and> made \<and> 0 \<le> conn then 0 else 1)"
  "input_reported (fst (test_main pton base made conn)) 0 \<longleftrightarrow> 0 < pton \<and> base \<and> made \<and> 0 \<le> conn"
  by (auto simp: test_main_def input_reported_def)

text \<open>The messages of one connection, as the loop of \<open>test.c\<close> prints them.\<close>

fun print_messages :: "(int \<times> string) list \<Rightarrow> string list outcome" where
  "print_messages [] = Ret []"
| "print_messages ((len, d) # ms) = and_then (buff_input_cb len d) (\<lambda>s. and_then (print_messages ms) (\<lambda>ss. Ret (s # ss)))"

theorem test_messages:
  assumes "\<forall>(len, d)\<in>set ms. evbuffer_removed len d \<and> 0 \<le> len \<and> len < int CB_SIZE"
  shows "print_messages ms = Ret (map (\<lambda>(len, d). c_text d) ms)"
  using assms by (induction ms) (auto simp: buff_input_cb_result)

section \<open>evtimer.c\<close>

text \<open>The timer is persistent, so \<open>hello\<close> is called at each of its \<open>fires\<close> expirations. The result of \<open>event_base_new\<close> is not tested.\<close>

definition evtimer_main :: "bool \<Rightarrow> nat \<Rightarrow> string list outcome" where
  "evtimer_main base fires = (if base then Ret (replicate fires ''hello man'') else UB Null_deref)"

end
