(* ===== verification/Win_Demo.thy ===== *)
theory Win_Demo
  imports ThreadPool_Win_Theorems
begin

text \<open>
  The demo program of the Windows pool under \<open>src/threadpool/threadPool2/ThreadPoolDemo\<close>: the four buttons of
  \<open>ThreadPoolDemoDlg.cpp\<close> and the requests of \<open>Request.cpp\<close>, on top of \<open>tw_step\<close>.

  Requests are blocks of a heap; \<open>m_RequestList\<close> has the pointers the dialog keeps in order to delete them, the pool has
  others in its queue and its threads. A click runs on the thread of the user interface, so while \<open>Destroy\<close> waits
  no other button reacts. A handler runs to the next call of the pool; \<open>Execute\<close> is interrupted where it sleeps.
  The message boxes and the painting of the dialog belong to MFC and are left out.
\<close>

section \<open>The dialog\<close>

text \<open>What the thread of the user interface does: nothing, \<open>Destroy\<close> inside \<open>Create\<close>, \<open>Destroy\<close>, the loop that posts.\<close>

datatype ui_pc = U_idle | U_create | U_destroy | U_push nat

record demo =
  m_ThreadPool :: "nat tw_sys"
  m_RequestList :: "nat list"
  m_sThreadCount :: ushort
  m_sReqCount :: ushort
  requests :: "nat \<rightharpoonup> abstract_request"
  executing_since :: "nat set"
  debug_output :: "string list"
  ui :: ui_pc

definition CThreadPoolDemoDlg :: demo where
  "CThreadPoolDemoDlg = \<lparr>m_ThreadPool = new_sys, m_RequestList = [], m_sThreadCount = 1, m_sReqCount = 1, requests = Map.empty,
     executing_since = {}, debug_output = [], ui = U_idle\<rparr>"

text \<open>\<open>UpdateData\<close> copies the number of the text field; a \<open>short\<close> and an \<open>unsigned short\<close> have the same bits.\<close>

definition OnBnClickedCreate :: "ushort \<Rightarrow> bool \<Rightarrow> bool \<Rightarrow> (nat \<Rightarrow> bool) \<Rightarrow> demo \<Rightarrow> demo" where
  "OnBnClickedCreate n sem_ok mem thr d =
     (case Create n sem_ok mem thr (m_ThreadPool d) of (_, t) \<Rightarrow>
        d\<lparr>m_sThreadCount := n, m_ThreadPool := t, ui := (if tw_destroy t = D_none then U_idle else U_create)\<rparr>)"

fun delete_all :: "nat list \<Rightarrow> (nat \<rightharpoonup> abstract_request) \<Rightarrow> (nat \<rightharpoonup> abstract_request) outcome" where
  "delete_all [] h = Ret h"
| "delete_all (r # rs) h = (if r \<in> dom h then delete_all rs (h(r := None)) else UB Dangling)"

definition ClearRequests :: "demo \<Rightarrow> demo outcome" where
  "ClearRequests d =
     and_then (delete_all (m_RequestList d) (requests d)) (\<lambda>h. Ret (d\<lparr>requests := h, m_RequestList := []\<rparr>))"

text \<open>One section of \<open>Destroy\<close>; when it has returned, the rest of \<open>OnBnClickedDestroy\<close> or of \<open>Create\<close>.\<close>

definition OnBnClickedDestroy :: "nat option \<Rightarrow> demo \<Rightarrow> demo outcome" where
  "OnBnClickedDestroy fails d =
     and_then (tw_step (Tw_destroy fails) (m_ThreadPool d)) (\<lambda>t.
       let d' = d\<lparr>m_ThreadPool := t\<rparr> in
       if tw_destroy t \<noteq> D_none then Ret (d'\<lparr>ui := (if ui d = U_create then U_create else U_destroy)\<rparr>)
       else if ui d \<noteq> U_create \<and> tw_result t = Some True then and_then (ClearRequests d') (\<lambda>d'. Ret (d'\<lparr>ui := U_idle\<rparr>))
       else Ret (d'\<lparr>ui := U_idle\<rparr>))"

text \<open>
  One round of the loop of \<open>OnBnClickedPushRequest\<close> with index \<open>i\<close>: \<open>req\<close> is the address \<open>new\<close> returns, if it does;
  \<open>mem\<close> says whether the queue of the pool gets its memory.
\<close>

definition OnBnClickedPushRequest :: "nat option \<Rightarrow> bool \<Rightarrow> nat \<Rightarrow> demo \<Rightarrow> demo outcome" where
  "OnBnClickedPushRequest req mem i d =
     (if int i < sint (m_sReqCount d) then
        (case req of
           None \<Rightarrow> Ret (d\<lparr>ui := U_idle\<rparr>)
         | Some r \<Rightarrow>
             if r \<in> dom (requests d) then Blocked
             else let h = (requests d)(r \<mapsto> SetRequestID (word_of_nat i) AbstractRequest) in
               and_then (tw_step (Tw_post mem r) (m_ThreadPool d)) (\<lambda>t.
               if fst (PostRequest mem r (tw_pool (m_ThreadPool d)))
               then Ret (d\<lparr>requests := h, m_ThreadPool := t, m_RequestList := m_RequestList d @ [r], ui := U_push (Suc i)\<rparr>)
               else Ret (d\<lparr>requests := h(r := None), m_ThreadPool := t, ui := U_idle\<rparr>)))
      else Ret (d\<lparr>ui := U_idle\<rparr>))"

fun abort_all :: "nat list \<Rightarrow> (nat \<rightharpoonup> abstract_request) \<Rightarrow> (nat \<rightharpoonup> abstract_request) outcome" where
  "abort_all [] h = Ret h"
| "abort_all (r # rs) h = (case h r of None \<Rightarrow> UB Dangling | Some q \<Rightarrow> abort_all rs (h(r \<mapsto> Abort q)))"

definition OnBnClickedCancel :: "demo \<Rightarrow> demo outcome" where
  "OnBnClickedCancel d = and_then (abort_all (m_RequestList d) (requests d)) (\<lambda>h. Ret (d\<lparr>requests := h\<rparr>))"

section \<open>The requests\<close>

text \<open>\<open>Execute\<close> up to the first \<open>Sleep\<close>, and the rest of it; it always returns 0.\<close>

definition Execute_begin :: "nat \<Rightarrow> nat \<Rightarrow> demo \<Rightarrow> demo outcome" where
  "Execute_begin w r d =
     (case requests d r of
        None \<Rightarrow> UB Dangling
      | Some q \<Rightarrow> Ret (d\<lparr>executing_since := insert w (executing_since d),
          debug_output := debug_output d @ [PrepareRequestLog q ''Execution started'']\<rparr>))"

definition Execute_end :: "nat \<Rightarrow> nat \<Rightarrow> demo \<Rightarrow> demo outcome" where
  "Execute_end w r d =
     (case requests d r of
        None \<Rightarrow> UB Dangling
      | Some q \<Rightarrow> Ret (d\<lparr>executing_since := executing_since d - {w},
          debug_output := debug_output d @ [PrepareRequestLog q (if IsAborted q then ''Request aborted'' else ''Execution completed'')]\<rparr>))"

definition demo_thread :: "nat \<Rightarrow> demo \<Rightarrow> demo outcome" where
  "demo_thread w d =
     (let t = m_ThreadPool d;
          go = (\<lambda>d. and_then (tw_step (Tw_thread w (Returns 0)) t) (\<lambda>t'. Ret (d\<lparr>m_ThreadPool := t'\<rparr>))) in
      if w < length (tw_pcs t) then
        (case tw_pcs t ! w of
           P_exec r \<Rightarrow> if w \<in> executing_since d then and_then (Execute_end w r d) go else Execute_begin w r d
         | _ \<Rightarrow> go d)
      else Blocked)"

section \<open>The whole program\<close>

datatype demo_label =
    Click_create ushort bool bool "nat \<Rightarrow> bool"
  | Click_destroy
  | Click_push ushort
  | Click_cancel
  | Ui_destroy "nat option"
  | Ui_push "nat option" bool
  | Pool_thread nat

fun demo_step :: "demo_label \<Rightarrow> demo \<Rightarrow> demo outcome" where
  "demo_step (Click_create n sem_ok mem thr) d = (if ui d = U_idle then Ret (OnBnClickedCreate n sem_ok mem thr d) else Blocked)"
| "demo_step Click_destroy d = (if ui d = U_idle then OnBnClickedDestroy None d else Blocked)"
| "demo_step (Click_push k) d = (if ui d = U_idle then Ret (d\<lparr>m_sReqCount := k, ui := U_push 0\<rparr>) else Blocked)"
| "demo_step Click_cancel d = (if ui d = U_idle then OnBnClickedCancel d else Blocked)"
| "demo_step (Ui_destroy fails) d = (if ui d = U_destroy \<or> ui d = U_create then OnBnClickedDestroy fails d else Blocked)"
| "demo_step (Ui_push req mem) d = (case ui d of U_push i \<Rightarrow> OnBnClickedPushRequest req mem i d | _ \<Rightarrow> Blocked)"
| "demo_step (Pool_thread w) d = demo_thread w d"

definition dlg_init :: "demo \<Rightarrow> bool" where
  "dlg_init d \<longleftrightarrow> d = CThreadPoolDemoDlg"

section \<open>Deleting and aborting\<close>

lemma delete_all_ok: "distinct rs \<Longrightarrow> set rs \<subseteq> dom h \<Longrightarrow> delete_all rs h = Ret (h |` (- set rs))"
proof (induction rs arbitrary: h)
  case Nil
  then show ?case by simp
next
  case (Cons r rs)
  then have "delete_all rs (h(r := None)) = Ret ((h(r := None)) |` (- set rs))" by (intro Cons.IH) auto
  moreover have "(h(r := None)) |` (- set rs) = h |` (- set (r # rs))" by (auto simp: restrict_map_def fun_eq_iff)
  ultimately show ?case using Cons.prems by simp
qed

lemma delete_every:
  assumes "distinct rs" "dom h = set rs"
  shows "delete_all rs h = Ret Map.empty"
proof -
  have "h |` (- dom h) = Map.empty" by (auto simp: restrict_map_def fun_eq_iff domIff)
  then show ?thesis using delete_all_ok [OF assms(1)] assms(2) by simp
qed

lemma abort_all_ok:
  assumes "set rs \<subseteq> dom h"
  obtains h' where "abort_all rs h = Ret h'" "dom h' = dom h"
    "\<And>r. h' r = map_option (if r \<in> set rs then Abort else id) (h r)"
proof -
  have "\<exists>h'. abort_all rs h = Ret h' \<and> dom h' = dom h \<and> (\<forall>r. h' r = map_option (if r \<in> set rs then Abort else id) (h r))"
    using assms
  proof (induction rs arbitrary: h)
    case Nil
    then show ?case by (simp add: id_def option.map_ident)
  next
    case (Cons r rs)
    then obtain q where q: "h r = Some q" by auto
    from Cons.prems q have "set rs \<subseteq> dom (h(r \<mapsto> Abort q))" by auto
    from Cons.IH [OF this] obtain h' where h': "abort_all rs (h(r \<mapsto> Abort q)) = Ret h'" "dom h' = dom (h(r \<mapsto> Abort q))"
      "\<forall>r'. h' r' = map_option (if r' \<in> set rs then Abort else id) ((h(r \<mapsto> Abort q)) r')" by blast
    have "Abort (Abort q) = Abort q" by (simp add: Abort_def)
    then have "h' r' = map_option (if r' \<in> set (r # rs) then Abort else id) (h r')" for r'
      using h'(3) q by (cases "r' = r") auto
    moreover have "dom h' = dom h" using h'(2) q by auto
    ultimately show ?case using h'(1) q by simp
  qed
  then show ?thesis using that by blast
qed

section \<open>Threads and the queue\<close>

text \<open>Where a thread of a pool that is being destroyed can be without ever taking a request again.\<close>

fun away :: "'r ppc \<Rightarrow> bool" where
  "away P_pop = False"
| "away (P_exec r) = False"
| "away P_recheck = False"
| "away P_notify = False"
| "away P_again = False"
| "away _ = True"

lemma thread_queue:
  assumes "ProcessRequests w x pc s = Ret t"
  shows "set (m_RequestQueue (tw_pool t)) \<subseteq> set (m_RequestQueue (tw_pool s))"
    "P_exec r \<in> set (tw_pcs t) \<Longrightarrow> P_exec r \<in> set (tw_pcs s) \<or> pc = P_pop \<and> r \<in> set (m_RequestQueue (tw_pool s))"
    "m_bDestroyed (tw_pool s) \<Longrightarrow> away pc \<Longrightarrow> list_all away (tw_pcs s) \<Longrightarrow> list_all away (tw_pcs t)"
  using assms
  by (cases pc; auto simp: thread_goto_def outcome_simps Let_def WaitForSemaphore_def counter_begin_def counter_end_def
      IsDestroyed_def notify_pending_def NotifyThread_def PopRequest_def list_all_iff
      split: option.splits prod.splits if_splits list.splits dest!: in_set_updateD)+

section \<open>Invariant\<close>

text \<open>
  The pool is in one of four conditions: it does not exist; it works, and its queue has only requests of the dialog;
  it was given up, and no thread will take a request; or \<open>Destroy\<close> waits for its threads.
\<close>

definition absent :: "demo \<Rightarrow> bool" where
  "absent d \<longleftrightarrow> (let t = m_ThreadPool d; p = tw_pool t in
     m_phThreadList p = None \<and> m_RequestQueue p = [] \<and> list_all (\<lambda>pc. pc = P_done) (tw_pcs t) \<and> tw_destroy t = D_none)"

definition working :: "demo \<Rightarrow> bool" where
  "working d \<longleftrightarrow> (let t = m_ThreadPool d; p = tw_pool t in
     (\<exists>hs. m_phThreadList p = Some hs \<and>
        (list_all is_thread hs \<or>
         list_all (\<lambda>pc. pc = P_wait) (tw_pcs t) \<and> ui d = U_create \<and> (\<exists>sem. m_hSemaphore p = Some sem \<and> sem_count sem = 0))) \<and>
     accounting t \<and> set (m_RequestQueue p) \<subseteq> set (m_RequestList d) \<and> tw_destroy t \<noteq> D_wait \<and>
     (tw_destroy t \<noteq> D_none \<longrightarrow> m_RequestQueue p = []) \<and> (tw_destroy t = D_release \<longrightarrow> m_bDestroyed p))"

definition given_up :: "demo \<Rightarrow> bool" where
  "given_up d \<longleftrightarrow> (let t = m_ThreadPool d; p = tw_pool t in
     (\<exists>hs. m_phThreadList p = Some hs \<and> (H_indet \<in> set hs \<longrightarrow> ui d = U_create \<and> tw_destroy t = D_wait)) \<and>
     m_bDestroyed p \<and> list_all away (tw_pcs t) \<and> (tw_destroy t \<noteq> D_none \<longrightarrow> m_RequestQueue p = []))"

definition joining :: "demo \<Rightarrow> bool" where
  "joining d \<longleftrightarrow> (let t = m_ThreadPool d; p = tw_pool t in
     (\<exists>hs. m_phThreadList p = Some hs \<and> list_all is_thread hs) \<and> m_bDestroyed p \<and> m_RequestQueue p = [] \<and> tw_destroy t = D_wait)"

definition held :: "demo \<Rightarrow> bool" where
  "held d \<longleftrightarrow> distinct (m_RequestList d) \<and> dom (requests d) = set (m_RequestList d) \<and>
     (\<forall>r. P_exec r \<in> set (tw_pcs (m_ThreadPool d)) \<longrightarrow> r \<in> set (m_RequestList d)) \<and>
     (tw_destroy (m_ThreadPool d) \<noteq> D_none \<longleftrightarrow> ui d \<in> {U_create, U_destroy})"

definition demo_inv :: "demo \<Rightarrow> bool" where
  "demo_inv d \<longleftrightarrow> held d \<and> (absent d \<or> working d \<or> given_up d \<or> joining d)"

lemmas demo_modes = absent_def working_def given_up_def joining_def

lemma demo_inv_init: "demo_inv CThreadPoolDemoDlg"
  by (simp add: demo_inv_def held_def absent_def CThreadPoolDemoDlg_def new_sys_def ThreadPool_def)

subsection \<open>Steps of the threads\<close>

lemma working_thread:
  assumes "working d" "w < length (tw_pcs (m_ThreadPool d))"
    "ProcessRequests w x (tw_pcs (m_ThreadPool d) ! w) (m_ThreadPool d) = Ret t"
  shows "working (d\<lparr>m_ThreadPool := t\<rparr>)"
proof -
  let ?s = "m_ThreadPool d"
  have acc: "accounting t" using accounting_thread [OF _ assms(2,3)] assms(1) by (simp add: working_def Let_def)
  obtain hs where hs: "m_phThreadList (tw_pool ?s) = Some hs"
    "list_all is_thread hs \<or> list_all (\<lambda>pc. pc = P_wait) (tw_pcs ?s) \<and> (\<exists>sem. m_hSemaphore (tw_pool ?s) = Some sem \<and> sem_count sem = 0)"
    using assms(1) by (auto simp: working_def Let_def)
  have "list_all is_thread hs"
  proof (rule ccontr)
    assume "\<not> ?thesis"
    with hs(2) obtain sem where "list_all (\<lambda>pc. pc = P_wait) (tw_pcs ?s)" "m_hSemaphore (tw_pool ?s) = Some sem" "sem_count sem = 0" by blast
    then show False using assms(2,3) by (auto simp: list_all_length WaitForSemaphore_def)
  qed
  then show ?thesis
    using assms(1) hs(1) acc thread_pool_frame [OF assms(3)] thread_frame [OF assms(3)] thread_queue(1) [OF assms(3)]
    by (auto simp: working_def Let_def)
qed

lemma given_up_thread:
  assumes "given_up d" "w < length (tw_pcs (m_ThreadPool d))"
    "ProcessRequests w x (tw_pcs (m_ThreadPool d) ! w) (m_ThreadPool d) = Ret t"
  shows "given_up (d\<lparr>m_ThreadPool := t\<rparr>)"
proof -
  have a: "m_bDestroyed (tw_pool (m_ThreadPool d))" "list_all away (tw_pcs (m_ThreadPool d))" using assms(1) by (simp_all add: given_up_def Let_def)
  then have "away (tw_pcs (m_ThreadPool d) ! w)" using assms(2) by (simp add: list_all_length)
  from thread_queue(3) [OF assms(3) a(1) this a(2)] show ?thesis
    using assms(1) thread_pool_frame [OF assms(3)] thread_frame [OF assms(3)] thread_queue(1) [OF assms(3)]
    by (auto simp: given_up_def Let_def)
qed

lemma joining_thread:
  assumes "joining d" "ProcessRequests w x pc (m_ThreadPool d) = Ret t"
  shows "joining (d\<lparr>m_ThreadPool := t\<rparr>)"
  using assms(1) thread_pool_frame [OF assms(2)] thread_frame [OF assms(2)] thread_queue(1) [OF assms(2)]
  by (auto simp: joining_def Let_def)

lemma held_thread:
  assumes "demo_inv d" "w < length (tw_pcs (m_ThreadPool d))"
    "ProcessRequests w x (tw_pcs (m_ThreadPool d) ! w) (m_ThreadPool d) = Ret t"
  shows "held (d\<lparr>m_ThreadPool := t\<rparr>)"
proof -
  let ?pcs = "tw_pcs (m_ThreadPool d)"
  have o: "held d" using assms(1) by (simp add: demo_inv_def)
  have "r \<in> set (m_RequestList d)" if "?pcs ! w = P_pop" "r \<in> set (m_RequestQueue (tw_pool (m_ThreadPool d)))" for r
  proof -
    have "P_pop \<in> set ?pcs" using that(1) assms(2) nth_mem by metis
    then have "working d" using assms(1) that(2) by (auto simp: demo_inv_def absent_def given_up_def joining_def Let_def list_all_iff)
    then show ?thesis using that(2) by (auto simp: working_def Let_def)
  qed
  then show ?thesis using o thread_queue(2) [OF assms(3)] thread_frame [OF assms(3)] by (fastforce simp: held_def)
qed

lemma demo_inv_pool_thread:
  assumes "demo_inv d" "w < length (tw_pcs (m_ThreadPool d))"
    "ProcessRequests w x (tw_pcs (m_ThreadPool d) ! w) (m_ThreadPool d) = Ret t"
  shows "demo_inv (d\<lparr>m_ThreadPool := t\<rparr>)"
proof -
  have "\<not> absent d" using assms(2,3) by (auto simp: absent_def Let_def list_all_length)
  then show ?thesis
    using assms(1) held_thread [OF assms] working_thread [OF _ assms(2,3)] given_up_thread [OF _ assms(2,3)] joining_thread [OF _ assms(3)]
    unfolding demo_inv_def by blast
qed

lemma demo_inv_log: "demo_inv (d\<lparr>executing_since := x, debug_output := y\<rparr>) = demo_inv d" "demo_inv (d\<lparr>m_sThreadCount := n\<rparr>) = demo_inv d"
  by (simp_all add: demo_inv_def held_def demo_modes)

lemma demo_inv_ui:
  assumes "demo_inv d" "ui d \<notin> {U_create, U_destroy}" "u \<notin> {U_create, U_destroy}"
  shows "demo_inv (d\<lparr>ui := u\<rparr>)" "demo_inv (d\<lparr>m_sReqCount := k, ui := u\<rparr>)"
proof -
  have "held (d\<lparr>ui := u\<rparr>)" "held (d\<lparr>m_sReqCount := k, ui := u\<rparr>)" using assms by (simp_all add: demo_inv_def held_def)
  moreover have "absent d \<or> working d \<or> given_up d" "tw_destroy (m_ThreadPool d) = D_none"
    using assms(1,2) by (auto simp: demo_inv_def held_def joining_def Let_def)
  moreover have "absent (d\<lparr>ui := u\<rparr>)" "absent (d\<lparr>m_sReqCount := k, ui := u\<rparr>)" if "absent d"
    using that by (simp_all add: absent_def Let_def)
  moreover have "working (d\<lparr>ui := u\<rparr>)" "working (d\<lparr>m_sReqCount := k, ui := u\<rparr>)" if "working d"
    using that assms(2) by (auto simp: working_def Let_def)
  moreover have "given_up (d\<lparr>ui := u\<rparr>)" "given_up (d\<lparr>m_sReqCount := k, ui := u\<rparr>)" if "given_up d"
    using that assms(2) by (auto simp: given_up_def Let_def)
  ultimately show "demo_inv (d\<lparr>ui := u\<rparr>)" "demo_inv (d\<lparr>m_sReqCount := k, ui := u\<rparr>)" unfolding demo_inv_def by blast+
qed

lemma demo_thread_inv:
  assumes "demo_inv d" "demo_thread w d = Ret d'"
  shows "demo_inv d'"
proof -
  have w: "w < length (tw_pcs (m_ThreadPool d))" using assms(2) by (auto simp: demo_thread_def Let_def split: if_splits)
  let ?s = "m_ThreadPool d"
  note inv = demo_inv_pool_thread [OF assms(1) w]
  show ?thesis
  proof (cases "\<exists>r. tw_pcs ?s ! w = P_exec r")
    case False
    then have "demo_thread w d = and_then (tw_step (Tw_thread w (Returns 0)) ?s) (\<lambda>t'. Ret (d\<lparr>m_ThreadPool := t'\<rparr>))"
      using w by (cases "tw_pcs ?s ! w") (auto simp: demo_thread_def Let_def simp del: tw_step.simps)
    with assms(2) w obtain t where "ProcessRequests w (Returns 0) (tw_pcs ?s ! w) ?s = Ret t" "d' = d\<lparr>m_ThreadPool := t\<rparr>"
      by (auto simp: outcome_simps)
    then show ?thesis using inv by simp
  next
    case True
    then obtain r where r: "tw_pcs ?s ! w = P_exec r" by blast
    show ?thesis
    proof (cases "w \<in> executing_since d")
      case True
      then obtain x y t where t: "ProcessRequests w (Returns 0) (tw_pcs ?s ! w) ?s = Ret t"
        "d' = (d\<lparr>executing_since := x, debug_output := y\<rparr>)\<lparr>m_ThreadPool := t\<rparr>"
        using assms(2) w r by (auto simp: demo_thread_def Let_def Execute_end_def outcome_simps split: option.splits)
      have "demo_inv (d\<lparr>executing_since := x, debug_output := y\<rparr>)" using assms(1) by (simp add: demo_inv_log)
      from demo_inv_pool_thread [OF this, of w "Returns 0" t] show ?thesis unfolding t(2) using w t(1) by simp
    next
      case False
      then obtain x y where "d' = d\<lparr>executing_since := x, debug_output := y\<rparr>"
        using assms(2) w r by (auto simp: demo_thread_def Let_def Execute_begin_def split: option.splits)
      then show ?thesis using assms(1) by (simp add: demo_inv_log)
    qed
  qed
qed

lemma demo_thread_no_ub:
  assumes "demo_inv d"
  shows "demo_thread w d \<noteq> UB u"
proof -
  have live: "requests d r \<noteq> None" if "w < length (tw_pcs (m_ThreadPool d))" "tw_pcs (m_ThreadPool d) ! w = P_exec r" for r
    using assms that nth_mem [OF that(1)] by (auto simp: demo_inv_def held_def)
  have "ProcessRequests w x pc s \<noteq> UB u" for x pc and s :: "nat tw_sys"
    by (cases pc) (auto simp: outcome_simps WaitForSemaphore_def Let_def split: option.splits prod.splits)
  then have "tw_step (Tw_thread w x) s \<noteq> UB u" for x and s :: "nat tw_sys" by simp
  with live show ?thesis
    by (cases "tw_pcs (m_ThreadPool d) ! w")
      (auto simp: demo_thread_def Let_def outcome_simps Execute_begin_def Execute_end_def simp del: tw_step.simps split: option.splits)
qed

subsection \<open>Posting\<close>

lemma push_inv:
  assumes "demo_inv d" "ui d = U_push i" "OnBnClickedPushRequest req mem i d = Ret d'"
  shows "demo_inv d'"
proof (cases "int i < sint (m_sReqCount d) \<and> req \<noteq> None")
  case False
  then have "d' = d\<lparr>ui := U_idle\<rparr>" using assms(3) by (auto simp: OnBnClickedPushRequest_def split: if_splits)
  with demo_inv_ui(1) [OF assms(1)] assms(2) show ?thesis by simp
next
  case True
  let ?s = "m_ThreadPool d" and ?t = "tw_pool (m_ThreadPool d)"
  from True obtain r where r: "req = Some r" by blast
  obtain ok p where post: "PostRequest mem r ?t = (ok, p)" by fastforce
  define t where "t = ?s\<lparr>tw_pool := p, tw_posted := (if m_phThreadList ?t \<noteq> None \<and> mem then tw_posted ?s @ [r] else tw_posted ?s)\<rparr>"
  have fresh: "r \<notin> dom (requests d)"
    and d': "d' = (if ok then d\<lparr>requests := (requests d)(r \<mapsto> SetRequestID (word_of_nat i) AbstractRequest), m_ThreadPool := t,
          m_RequestList := m_RequestList d @ [r], ui := U_push (Suc i)\<rparr> else d\<lparr>requests := requests d, m_ThreadPool := t, ui := U_idle\<rparr>)"
    using assms(3) True r post
    by (auto simp: OnBnClickedPushRequest_def t_def Let_def fun_upd_idem domIff split: if_splits)
  note fr = PostRequest_frame [OF post]
  have o: "held d" "tw_destroy ?s = D_none" using assms(1,2) by (auto simp: demo_inv_def held_def)
  then have o': "held d'" using fresh unfolding d' by (auto simp: held_def t_def)
  have "accounting t" "mem \<Longrightarrow> m_phThreadList ?t \<noteq> None \<Longrightarrow> ok" if "accounting ?s"
    using accounting_post [OF that post] by (simp_all add: t_def)
  moreover have "m_RequestQueue p = m_RequestQueue ?t" if "\<not> mem"
    using that post by (auto simp: PostRequest_def split: if_splits)
  ultimately have "working d \<Longrightarrow> working d'"
    using fr o(2) assms(2) unfolding d' by (cases ok; cases mem) (auto simp: working_def t_def Let_def)
  moreover have "absent d \<Longrightarrow> absent d'" "given_up d \<Longrightarrow> given_up d'"
    using fr o(2) assms(2) unfolding d' by (auto simp: absent_def given_up_def t_def Let_def)
  moreover have "\<not> joining d" using o(2) by (simp add: joining_def Let_def)
  ultimately show ?thesis using assms(1) o' unfolding demo_inv_def by blast
qed

subsection \<open>Creating\<close>

lemma create_inv:
  assumes "demo_inv d" "ui d = U_idle"
  shows "demo_inv (OnBnClickedCreate n sem_ok mem thr d)"
proof -
  let ?s = "m_ThreadPool d"
  have o: "held d" "tw_destroy ?s = D_none" using assms by (auto simp: demo_inv_def held_def)
  show ?thesis
  proof (cases "m_phThreadList (tw_pool ?s) \<noteq> None \<or> n = 0 \<or> n > 64")
    case True
    then have "OnBnClickedCreate n sem_ok mem thr d = d\<lparr>m_sThreadCount := n\<rparr>"
      using o(2) assms(2) by (auto simp: OnBnClickedCreate_def Create_def Let_def)
    then show ?thesis using assms(1) by (simp add: demo_inv_log)
  next
    case False
    then have n: "n \<noteq> 0" "\<not> n > 64" "m_phThreadList (tw_pool ?s) = None" by auto
    then have a: "absent d" using assms(1) by (auto simp: demo_inv_def demo_modes Let_def)
    then have q: "m_RequestQueue (tw_pool ?s) = []" "\<And>pc. pc \<in> set (tw_pcs ?s) \<Longrightarrow> pc = P_done"
      by (auto simp: absent_def Let_def list_all_iff)
    have n': "1 \<le> unat n" "unat n \<le> 64" using n(1,2) by (simp_all add: not_less word_le_nat_alt unat_gt_0 Suc_le_eq)
    consider "\<not> (sem_ok \<and> mem)" | "sem_ok" "mem" "\<forall>i<unat n. thr i" | "sem_ok" "mem" "\<not> (\<forall>i<unat n. thr i)" by blast
    then show ?thesis
    proof cases
      case 1
      then show ?thesis using n o a
        by (auto simp: OnBnClickedCreate_def Create_def AddThreads_def tw_destroy_begins_def Let_def demo_inv_def held_def absent_def split: prod.splits)
    next
      case 2
      have "working (OnBnClickedCreate n sem_ok mem thr d) \<and> held (OnBnClickedCreate n sem_ok mem thr d)"
        using 2 n n' o q thread_loop_all [of 0 "unat n" thr]
        by (simp add: OnBnClickedCreate_def Create_def AddThreads_def SetDestroyFlag_def Let_def held_def working_def accounting_def
            sum_list_replicate list_all_iff)
      then show ?thesis by (simp add: demo_inv_def)
    next
      case 3
      from 3(3) obtain j where "j < unat n" "\<not> thr j" "\<forall>l<j. thr l" by (rule first_failure)
      then have "working (OnBnClickedCreate n sem_ok mem thr d) \<and> held (OnBnClickedCreate n sem_ok mem thr d)"
        using 3(1,2) n n' o q thread_loop_fails [of 0 j "unat n" thr]
        by (simp add: OnBnClickedCreate_def Create_def AddThreads_def tw_destroy_begins_def CancelRequests_def Let_def held_def working_def
            accounting_def sum_list_replicate list_all_iff)
      then show ?thesis by (simp add: demo_inv_def)
    qed
  qed
qed

subsection \<open>Destroying and deleting\<close>

text \<open>The sections of \<open>Destroy\<close>, by the condition of the pool.\<close>

lemma destroy_begins_mode:
  assumes "demo_inv d" "ui d = U_idle" "t = tw_destroy_begins (m_ThreadPool d)"
  shows "tw_destroy t = D_none \<and> tw_result t = Some False \<and> absent (d\<lparr>m_ThreadPool := t\<rparr>) \<or>
    tw_destroy t = D_flag \<and> (working (d\<lparr>m_ThreadPool := t, ui := U_destroy\<rparr>) \<or> given_up (d\<lparr>m_ThreadPool := t, ui := U_destroy\<rparr>))"
proof (cases "m_phThreadList (tw_pool (m_ThreadPool d)) = None")
  case True
  then have "absent d" using assms(1) by (auto simp: demo_inv_def demo_modes Let_def)
  with True assms(3) show ?thesis by (simp add: tw_destroy_begins_def absent_def Let_def)
next
  case False
  then have "working d \<or> given_up d" using assms(1,2) by (auto simp: demo_inv_def held_def absent_def joining_def Let_def)
  then show ?thesis using False assms(2,3)
    by (auto simp: tw_destroy_begins_def CancelRequests_def working_def given_up_def accounting_def Let_def)
qed

lemma destroy_flag_mode:
  assumes "demo_inv d" "tw_destroy (m_ThreadPool d) = D_flag" "t = (m_ThreadPool d)\<lparr>tw_pool := SetDestroyFlag True (tw_pool (m_ThreadPool d)), tw_destroy := D_release\<rparr>"
  shows "working (d\<lparr>m_ThreadPool := t\<rparr>) \<or> given_up (d\<lparr>m_ThreadPool := t\<rparr>)"
proof -
  have "working d \<or> given_up d" using assms(1,2) by (auto simp: demo_inv_def absent_def joining_def Let_def)
  then show ?thesis using assms(2,3) by (auto simp: SetDestroyFlag_def working_def given_up_def accounting_def Let_def)
qed

lemma destroy_releases_mode:
  assumes "demo_inv d" "tw_destroy (m_ThreadPool d) = D_release" "t = destroy_releases (m_ThreadPool d)"
  shows "tw_destroy t = D_wait \<and> (given_up (d\<lparr>m_ThreadPool := t\<rparr>) \<or> joining (d\<lparr>m_ThreadPool := t\<rparr>)) \<or>
    tw_destroy t = D_none \<and> tw_result t = Some False \<and> (working (d\<lparr>m_ThreadPool := t, ui := U_idle\<rparr>) \<or> given_up (d\<lparr>m_ThreadPool := t, ui := U_idle\<rparr>))"
proof -
  let ?s = "m_ThreadPool d" and ?p = "tw_pool (m_ThreadPool d)"
  have fields: "tw_pcs t = tw_pcs ?s" "m_phThreadList (tw_pool t) = m_phThreadList ?p" "m_bDestroyed (tw_pool t) = m_bDestroyed ?p"
    "m_RequestQueue (tw_pool t) = m_RequestQueue ?p"
    "tw_destroy t = D_wait \<or> tw_destroy t = D_none \<and> tw_result t = Some False \<and> tw_pool t = ?p\<lparr>m_hSemaphore := m_hSemaphore ?p\<rparr>"
    using assms(2,3) by (auto simp: destroy_releases_def ReleaseSemaphore_def Let_def split: if_splits option.splits)
  have "given_up d \<or> working d" using assms(1,2) by (auto simp: demo_inv_def absent_def joining_def Let_def)
  then show ?thesis
  proof
    assume "given_up d"
    then show ?thesis using fields assms(2) by (auto simp: given_up_def Let_def)
  next
    assume sv: "working d"
    then obtain hs where hs: "m_phThreadList ?p = Some hs"
      "list_all is_thread hs \<or> list_all (\<lambda>pc. pc = P_wait) (tw_pcs ?s) \<and> ui d = U_create \<and> (\<exists>sem. m_hSemaphore ?p = Some sem \<and> sem_count sem = 0)"
      "m_bDestroyed ?p" "m_RequestQueue ?p = []" "accounting ?s"
      using assms(2) by (auto simp: working_def Let_def)
    show ?thesis
    proof (cases "list_all is_thread hs")
      case True
      then show ?thesis using fields hs by (auto simp: working_def joining_def accounting_def Let_def)
    next
      case False
      with hs(2) obtain sem where w: "list_all (\<lambda>pc. pc = P_wait) (tw_pcs ?s)" "ui d = U_create" "m_hSemaphore ?p = Some sem" "sem_count sem = 0" by blast
      have "list_all away (tw_pcs ?s)" using w(1) by (auto simp: list_all_iff)
      moreover have "sum_list (map is_active (tw_pcs ?s)) = 0" using w(1) by (auto simp: list_all_iff sum_list_map_zero_iff)
      then have "tw_destroy t = D_wait" using hs(5) w(3,4) assms(3)
        by (auto simp: destroy_releases_def ReleaseSemaphore_def accounting_def Let_def word_less_nat_alt)
      ultimately show ?thesis using fields hs w(2) by (auto simp: given_up_def Let_def)
    qed
  qed
qed

lemma destroy_pool_mode:
  assumes "demo_inv d" "tw_destroy (m_ThreadPool d) = D_wait"
  shows "DestroyPool fails (m_ThreadPool d) = UB u \<Longrightarrow> u = Indeterminate \<and> ui d = U_create"
    and "DestroyPool fails (m_ThreadPool d) = Ret t \<Longrightarrow> tw_destroy t = D_none \<and> tw_pcs t = tw_pcs (m_ThreadPool d) \<and>
      (tw_result t = Some True \<longrightarrow> absent (d\<lparr>m_ThreadPool := t, ui := U_idle\<rparr>)) \<and>
      (absent (d\<lparr>m_ThreadPool := t, ui := U_idle\<rparr>) \<or> given_up (d\<lparr>m_ThreadPool := t, ui := U_idle\<rparr>))"
proof -
  let ?s = "m_ThreadPool d" and ?p = "tw_pool (m_ThreadPool d)"
  have m: "given_up d \<or> joining d" using assms by (auto simp: demo_inv_def absent_def working_def Let_def)
  then obtain hs where hs: "m_phThreadList ?p = Some hs" "m_bDestroyed ?p" "m_RequestQueue ?p = []" "H_indet \<in> set hs \<longrightarrow> ui d = U_create"
    "list_all is_thread hs \<or> list_all away (tw_pcs ?s)"
    using assms(2) is_thread_handles by (fastforce simp: given_up_def joining_def Let_def)
  show "u = Indeterminate \<and> ui d = U_create" if "DestroyPool fails ?s = UB u"
    using that hs(1,4) by (auto simp: DestroyPool_def Let_def split: if_splits option.splits)
  assume t: "DestroyPool fails ?s = Ret t"
  then have i: "H_indet \<notin> set hs" using hs(1) by (auto simp: DestroyPool_def)
  show "tw_destroy t = D_none \<and> tw_pcs t = tw_pcs ?s \<and>
      (tw_result t = Some True \<longrightarrow> absent (d\<lparr>m_ThreadPool := t, ui := U_idle\<rparr>)) \<and>
      (absent (d\<lparr>m_ThreadPool := t, ui := U_idle\<rparr>) \<or> given_up (d\<lparr>m_ThreadPool := t, ui := U_idle\<rparr>))"
  proof (cases "list_all is_thread hs")
    case False
    then have "t = ?s\<lparr>tw_destroy := D_none, tw_result := Some False\<rparr>" using t hs(1) i by (auto simp: DestroyPool_def)
    with False hs(1,2,5) i show ?thesis by (simp add: given_up_def Let_def)
  next
    case True
    then have fin: "list_all (\<lambda>pc. pc = P_done) (tw_pcs ?s)" using t hs(1) i by (auto simp: DestroyPool_def Let_def split: if_splits)
    then have away: "list_all away (tw_pcs ?s)" by (auto simp: list_all_iff)
    have "H_indet \<notin> set (replicate k H_closed @ drop k hs)" for k using i by (auto dest: in_set_dropD)
    then show ?thesis using True fin away t hs(1-3) i
      by (cases fails) (auto simp: DestroyPool_def Let_def absent_def given_up_def)
  qed
qed

lemma dlg_destroy_inv:
  assumes "demo_inv d" "ui d \<in> {U_idle, U_create, U_destroy}" "OnBnClickedDestroy fails d = Ret d'"
  shows "demo_inv d'"
proof -
  let ?s = "m_ThreadPool d"
  obtain t where t: "Destroy fails (tw_destroy ?s) ?s = Ret t" using assms(3) by (auto simp: OnBnClickedDestroy_def outcome_simps)
  have o: "held d" "tw_destroy ?s = D_none \<longleftrightarrow> ui d = U_idle" using assms(1,2) by (auto simp: demo_inv_def held_def)
  have pcs: "tw_pcs t = tw_pcs ?s" using t
    by (cases "tw_destroy ?s") (auto simp: tw_destroy_begins_def destroy_releases_def DestroyPool_def Let_def split: if_splits option.splits prod.splits)
  have idle: "held (d\<lparr>m_ThreadPool := t, ui := U_idle\<rparr>)" if "tw_destroy t = D_none"
    using o(1) pcs that by (simp add: held_def)
  have busy: "held (d\<lparr>m_ThreadPool := t, ui := u\<rparr>)" if "tw_destroy t \<noteq> D_none" "u \<in> {U_create, U_destroy}" for u
    using o(1) pcs that by (simp add: held_def)
  let ?u = "if ui d = U_create then U_create else U_destroy"
  have mode: "if tw_destroy t \<noteq> D_none then demo_inv (d\<lparr>m_ThreadPool := t, ui := ?u\<rparr>)
      else demo_inv (d\<lparr>m_ThreadPool := t, ui := U_idle\<rparr>) \<and> (tw_result t = Some True \<longrightarrow> absent (d\<lparr>m_ThreadPool := t, ui := U_idle\<rparr>))"
  proof (cases "tw_destroy ?s")
    case D_none
    then have "ui d = U_idle" "t = tw_destroy_begins ?s" using o(2) t by simp_all
    with destroy_begins_mode [OF assms(1) this] idle busy show ?thesis by (auto simp: demo_inv_def absent_def)
  next
    case D_flag
    then have t': "t = ?s\<lparr>tw_pool := SetDestroyFlag True (tw_pool ?s), tw_destroy := D_release\<rparr>" using t by simp
    have e: "d\<lparr>m_ThreadPool := t, ui := ?u\<rparr> = d\<lparr>m_ThreadPool := t\<rparr>" using assms(2) o(2) D_flag by auto
    have "held (d\<lparr>m_ThreadPool := t\<rparr>)" using busy [of ?u] unfolding e by (simp add: t')
    with destroy_flag_mode [OF assms(1) D_flag t'] show ?thesis unfolding e demo_inv_def using t' by simp blast
  next
    case D_release
    then have t': "t = destroy_releases ?s" using t by simp
    have e: "d\<lparr>m_ThreadPool := t, ui := ?u\<rparr> = d\<lparr>m_ThreadPool := t\<rparr>" using assms(2) o(2) D_release by auto
    have "tw_destroy t \<noteq> D_none \<Longrightarrow> held (d\<lparr>m_ThreadPool := t\<rparr>)" using busy [of ?u] unfolding e by simp
    with destroy_releases_mode [OF assms(1) D_release t'] idle show ?thesis unfolding e demo_inv_def by (cases "tw_destroy t = D_none") auto
  next
    case D_wait
    with destroy_pool_mode(2) [OF assms(1) D_wait, of fails t] t idle show ?thesis by (auto simp: demo_inv_def)
  qed
  show ?thesis
  proof (cases "tw_destroy t = D_none \<and> ui d \<noteq> U_create \<and> tw_result t = Some True")
    case False
    then show ?thesis using mode assms(3) t by (auto simp: OnBnClickedDestroy_def Let_def split: if_splits)
  next
    case True
    then have i: "demo_inv (d\<lparr>m_ThreadPool := t, ui := U_idle\<rparr>)" "absent (d\<lparr>m_ThreadPool := t, ui := U_idle\<rparr>)" using mode by simp_all
    have l: "distinct (m_RequestList d)" "dom (requests d) = set (m_RequestList d)" using o(1) by (simp_all add: held_def)
    have "d' = d\<lparr>m_ThreadPool := t, requests := Map.empty, m_RequestList := [], ui := U_idle\<rparr>"
      using assms(3) t True delete_every [OF l] by (simp add: OnBnClickedDestroy_def ClearRequests_def)
    with i show ?thesis by (auto simp: demo_inv_def held_def absent_def Let_def list_all_iff)
  qed
qed

lemma dlg_destroy_ub:
  assumes "demo_inv d" "ui d \<in> {U_idle, U_create, U_destroy}" "OnBnClickedDestroy fails d = UB u"
  shows "u = Indeterminate \<and> ui d = U_create"
proof -
  let ?s = "m_ThreadPool d"
  have l: "distinct (m_RequestList d)" "dom (requests d) = set (m_RequestList d)" using assms(1) by (simp_all add: demo_inv_def held_def)
  have "Destroy fails (tw_destroy ?s) ?s = UB u"
    using assms(3) delete_every [OF l] by (auto simp: OnBnClickedDestroy_def ClearRequests_def outcome_simps Let_def split: if_splits)
  then show ?thesis using destroy_pool_mode(1) [OF assms(1), of fails u] by (cases "tw_destroy ?s") auto
qed

lemma cancel_ok:
  assumes "demo_inv d"
  shows "\<exists>d'. OnBnClickedCancel d = Ret d' \<and> demo_inv d'"
proof -
  have "set (m_RequestList d) \<subseteq> dom (requests d)" using assms by (simp add: demo_inv_def held_def)
  then obtain h' where h: "abort_all (m_RequestList d) (requests d) = Ret h'" "dom h' = dom (requests d)" by (rule abort_all_ok)
  have "demo_inv (d\<lparr>requests := h'\<rparr>) = demo_inv d" by (simp add: demo_inv_def held_def demo_modes h(2))
  with assms h(1) show ?thesis by (simp add: OnBnClickedCancel_def)
qed

interpretation dmi: invariant_system demo_step dlg_init demo_inv
proof (unfold_locales, goal_cases)
  case (1 s)
  then show ?case by (simp add: dlg_init_def demo_inv_init)
next
  case (2 d l d')
  then show ?case
  proof (cases l)
    case (Click_create n sem_ok mem thr)
    with 2 create_inv show ?thesis by (auto split: if_splits)
  next
    case Click_destroy
    with 2 dlg_destroy_inv [of d None d'] show ?thesis by (auto split: if_splits)
  next
    case (Click_push k)
    with 2 demo_inv_ui(2) [OF 2(1), of "U_push 0" k] show ?thesis by (auto split: if_splits)
  next
    case Click_cancel
    with 2 cancel_ok [OF 2(1)] show ?thesis by (auto split: if_splits)
  next
    case (Ui_destroy fails)
    with 2 dlg_destroy_inv [of d fails d'] show ?thesis by (auto split: if_splits)
  next
    case (Ui_push req mem)
    with 2 push_inv [OF 2(1)] show ?thesis by (auto split: ui_pc.splits)
  next
    case (Pool_thread w)
    with 2 demo_thread_inv show ?thesis by auto
  qed
qed

section \<open>Theorems\<close>

text \<open>
  C25. Ownership of the requests in the demo program: whatever is clicked and however the threads of the pool run, the
  requests that exist are exactly those of \<open>m_RequestList\<close>, each of them once, and every request that is being executed is
  among them. So no request is used after its deletion, deleted twice or lost. The only undefined behaviour is
  the wait for thread handles that were never written, inside a \<open>Create\<close> that could not start its threads.
\<close>

theorem demo_safe:
  assumes "reachable demo_step dlg_init d"
  shows "dom (requests d) = set (m_RequestList d) \<and> distinct (m_RequestList d) \<and>
    (\<forall>r. P_exec r \<in> set (tw_pcs (m_ThreadPool d)) \<longrightarrow> r \<in> dom (requests d)) \<and>
    (demo_step l d = UB u \<longrightarrow> u = Indeterminate \<and> ui d = U_create)"
proof -
  have i: "demo_inv d" using assms by (rule dmi.inv_reachable)
  have "u = Indeterminate \<and> ui d = U_create" if "demo_step l d = UB u"
  proof (cases l)
    case (Ui_push req mem)
    with that show ?thesis by (auto simp: OnBnClickedPushRequest_def Let_def split: ui_pc.splits option.splits if_splits prod.splits)
  next
    case (Pool_thread w)
    with that demo_thread_no_ub [OF i] show ?thesis by auto
  qed (use that dlg_destroy_ub [OF i] cancel_ok [OF i] in \<open>auto split: if_splits\<close>)
  then show ?thesis using i by (auto simp: demo_inv_def held_def)
qed

definition ddemo_push :: "demo_label list" where
  "ddemo_push = [Click_create 1 True True (\<lambda>_. True), Click_push 1, Ui_push (Some 5) True, Ui_push None True]"

lemmas ddemo_defs = CThreadPoolDemoDlg_def OnBnClickedCreate_def OnBnClickedPushRequest_def OnBnClickedDestroy_def demo_thread_def
  Execute_begin_def Execute_end_def Create_def AddThreads_def tw_run_defs

lemma ddemo_pushed: "\<exists>d. run demo_step ddemo_push CThreadPoolDemoDlg = Ret d \<and> m_RequestList d = [5]"
  by (simp add: ddemo_push_def ddemo_defs)

text \<open>One thread and one request: the request exists, and pressing the button for cancelling has no undefined behaviour.\<close>

theorem demo_safe_witness:
  "\<exists>d. run demo_step ddemo_push CThreadPoolDemoDlg = Ret d \<and> dom (requests d) = {5} \<and> demo_step Click_cancel d \<noteq> UB Dangling"
proof -
  obtain d where d: "run demo_step ddemo_push CThreadPoolDemoDlg = Ret d" "m_RequestList d = [5]" using ddemo_pushed by blast
  have "reachable demo_step dlg_init d" using run_reachable [OF d(1)] reach_init [of dlg_init] by (auto simp: dlg_init_def)
  from demo_safe [OF this, of Click_cancel Dangling] d show ?thesis by auto
qed

text \<open>
  \<open>Destroy\<close> can wait forever, even for requests that succeed: a thread that has passed the second test of the
  flag is still counted as active when \<open>Destroy\<close> releases the semaphore for the inactive ones, and then goes back to wait
  on the semaphore. In the demo program the thread of the user interface hangs with it, and nothing can move any more.
\<close>

definition ddemo_hang :: "demo_label list" where
  "ddemo_hang = ddemo_push @ [Pool_thread 0, Pool_thread 0, Pool_thread 0, Pool_thread 0, Pool_thread 0, Pool_thread 0, Pool_thread 0,
     Pool_thread 0, Click_destroy, Ui_destroy None, Ui_destroy None, Pool_thread 0, Pool_thread 0]"

theorem demo_destroy_hangs:
  "\<exists>d. run demo_step ddemo_hang CThreadPoolDemoDlg = Ret d \<and> ui d = U_destroy \<and> (\<forall>l. demo_step l d = Blocked)"
proof -
  have "\<exists>d. run demo_step ddemo_hang CThreadPoolDemoDlg = Ret d \<and> ui d = U_destroy \<and> tw_destroy (m_ThreadPool d) = D_wait \<and>
      tw_pcs (m_ThreadPool d) = [P_wait] \<and> (\<exists>sem. m_hSemaphore (tw_pool (m_ThreadPool d)) = Some sem \<and> sem_count sem = 0) \<and>
      m_phThreadList (tw_pool (m_ThreadPool d)) = Some [H_thread 0]"
    by (simp add: ddemo_hang_def ddemo_push_def ddemo_defs)
  then obtain d sem where d: "run demo_step ddemo_hang CThreadPoolDemoDlg = Ret d" "ui d = U_destroy" "tw_destroy (m_ThreadPool d) = D_wait"
    "tw_pcs (m_ThreadPool d) = [P_wait]" "m_hSemaphore (tw_pool (m_ThreadPool d)) = Some sem" "sem_count sem = 0"
    "m_phThreadList (tw_pool (m_ThreadPool d)) = Some [H_thread 0]" by blast
  have "demo_step l d = Blocked" for l
    using d(2-) by (cases l) (auto simp: OnBnClickedDestroy_def DestroyPool_def demo_thread_def WaitForSemaphore_def Let_def)
  with d(1,2) show ?thesis by blast
qed

lemma push_round:
  assumes "working d" "tw_destroy (m_ThreadPool d) = D_none" "ui d = U_push i" "int i < sint (m_sReqCount d)" "r \<notin> dom (requests d)"
  obtains d' where "demo_step (Ui_push (Some r) True) d = Ret d'" "working d'" "tw_destroy (m_ThreadPool d') = D_none" "ui d' = U_push (Suc i)"
    "m_sReqCount d' = m_sReqCount d" "m_RequestList d' = m_RequestList d @ [r]"
    "requests d' = (requests d)(r \<mapsto> \<lparr>m_bAborted = False, m_usRequestID = word_of_nat i\<rparr>)"
    "m_RequestQueue (tw_pool (m_ThreadPool d')) = m_RequestQueue (tw_pool (m_ThreadPool d)) @ [r]"
proof -
  let ?s = "m_ThreadPool d" and ?p = "tw_pool (m_ThreadPool d)"
  have sv: "accounting ?s" "m_phThreadList ?p \<noteq> None" using assms(1) by (auto simp: working_def Let_def)
  obtain p where p: "PostRequest True r ?p = (True, p)" using accounting_post(2) [OF sv(1) _ TrueI sv(2)] by (metis surj_pair)
  have q: "m_RequestQueue p = m_RequestQueue ?p @ [r]" using p sv(2)
    by (auto simp: PostRequest_def NotifyThread_def Let_def split: if_splits prod.splits)
  define t where "t = ?s\<lparr>tw_pool := p, tw_posted := tw_posted ?s @ [r]\<rparr>"
  define d' where "d' = d\<lparr>requests := (requests d)(r \<mapsto> SetRequestID (word_of_nat i) AbstractRequest), m_ThreadPool := t,
     m_RequestList := m_RequestList d @ [r], ui := U_push (Suc i)\<rparr>"
  have "demo_step (Ui_push (Some r) True) d = Ret d'"
    using assms(3-5) p sv(2) by (auto simp: OnBnClickedPushRequest_def d'_def t_def Let_def)
  moreover have "working d'"
    using assms(1-3) accounting_post(1) [OF sv(1) p] PostRequest_frame [OF p] q
    by (auto simp: working_def d'_def t_def Let_def)
  ultimately show ?thesis using assms(2) q
    by (intro that [of d']) (simp_all add: d'_def t_def SetRequestID_def AbstractRequest_def del: demo_step.simps)
qed

text \<open>
  The button for posting: with a pool that works and memory for everything, the loop posts as many requests as the field
  says; they go to the end of the queue in that order, are all kept in \<open>m_RequestList\<close>, and
  get the identifiers 0, 1, 2 and so on, at each click anew.
\<close>

theorem demo_push:
  assumes "working d" "tw_destroy (m_ThreadPool d) = D_none" "ui d = U_push i" "distinct rs" "set rs \<inter> dom (requests d) = {}"
    "int i + int (length rs) \<le> sint (m_sReqCount d)"
  shows "\<exists>d'. run demo_step (map (\<lambda>r. Ui_push (Some r) True) rs) d = Ret d' \<and> m_RequestList d' = m_RequestList d @ rs \<and>
    m_RequestQueue (tw_pool (m_ThreadPool d')) = m_RequestQueue (tw_pool (m_ThreadPool d)) @ rs \<and>
    (\<forall>j<length rs. map_option GetRequestID (requests d' (rs ! j)) = Some (word_of_nat (i + j)))"
proof -
  have "\<exists>d'. run demo_step (map (\<lambda>r. Ui_push (Some r) True) rs) d = Ret d' \<and> m_RequestList d' = m_RequestList d @ rs \<and>
    m_RequestQueue (tw_pool (m_ThreadPool d')) = m_RequestQueue (tw_pool (m_ThreadPool d)) @ rs \<and>
    (\<forall>x. x \<notin> set rs \<longrightarrow> requests d' x = requests d x) \<and>
    (\<forall>j<length rs. map_option GetRequestID (requests d' (rs ! j)) = Some (word_of_nat (i + j)))"
    using assms
  proof (induction rs arbitrary: d i)
    case Nil
    then show ?case by simp
  next
    case (Cons r rs)
    have r: "int i < sint (m_sReqCount d)" "r \<notin> dom (requests d)" using Cons.prems by auto
    obtain e where e: "demo_step (Ui_push (Some r) True) d = Ret e" "working e" "tw_destroy (m_ThreadPool e) = D_none" "ui e = U_push (Suc i)"
      "m_sReqCount e = m_sReqCount d" "m_RequestList e = m_RequestList d @ [r]"
      "requests e = (requests d)(r \<mapsto> \<lparr>m_bAborted = False, m_usRequestID = word_of_nat i\<rparr>)"
      "m_RequestQueue (tw_pool (m_ThreadPool e)) = m_RequestQueue (tw_pool (m_ThreadPool d)) @ [r]"
      by (rule push_round [OF Cons.prems(1-3) r])
    have "distinct rs" "set rs \<inter> dom (requests e) = {}" "int (Suc i) + int (length rs) \<le> sint (m_sReqCount e)"
      using Cons.prems(4-6) e(5,7) by auto
    from Cons.IH [OF e(2-4) this] obtain d' where d': "run demo_step (map (\<lambda>r. Ui_push (Some r) True) rs) e = Ret d'"
      "m_RequestList d' = m_RequestList e @ rs" "m_RequestQueue (tw_pool (m_ThreadPool d')) = m_RequestQueue (tw_pool (m_ThreadPool e)) @ rs"
      "\<forall>x. x \<notin> set rs \<longrightarrow> requests d' x = requests e x"
      "\<forall>j<length rs. map_option GetRequestID (requests d' (rs ! j)) = Some (word_of_nat (Suc i + j))" by blast
    have "map_option GetRequestID (requests d' ((r # rs) ! j)) = Some (word_of_nat (i + j))" if "j < length (r # rs)" for j
      using that d'(4,5) e(7) Cons.prems(4) by (cases j) (auto simp: GetRequestID_def)
    moreover have "requests d' x = requests d x" if "x \<notin> set (r # rs)" for x using that d'(4) e(7) by simp
    moreover have "run demo_step (map (\<lambda>r. Ui_push (Some r) True) (r # rs)) d = Ret d'" using e(1) d'(1) by (simp del: demo_step.simps)
    ultimately show ?case using d'(2,3) e(6,8) by auto
  qed
  then show ?thesis by blast
qed

end
