(* ===== verification/Shutdown_Test.thy ===== *)
theory Shutdown_Test
  imports Threadpool_Theorems
begin

text \<open>
  The repository's own test \<open>src/threadpool/threadPool1/tests/shutdown.c\<close> as a client of the ring-buffer pool: the main thread
  adds as many tasks as the queue has cells, destroys the pool and looks at \<open>left\<close>, the number of tasks not run.
  A failed \<open>assert\<close> ends the process. The main thread runs interleaved with the pool of
  \<open>Threadpool_Workers\<close>; each task decrements \<open>left\<close> once, under a mutex of its own.
\<close>

section \<open>The test program\<close>

definition TEST_THREAD :: int where "TEST_THREAD = 4"

datatype st_pc = S_add nat | S_joining | S_passed

record st_sys =
  st_pool :: "(unit, unit) tp_sys"
  st_pc :: st_pc

definition left :: "nat \<Rightarrow> st_sys \<Rightarrow> int" where
  "left sz s = int sz - int (size (log_finished (st_pool s)))"

text \<open>The assertions after \<open>threadpool_destroy\<close>: \<open>left == 0\<close> for the graceful test, \<open>left > 0\<close> for the immediate one.\<close>

definition st_passes :: "int \<Rightarrow> int \<Rightarrow> bool" where
  "st_passes flags l = (if flags AND threadpool_graceful \<noteq> 0 then l = 0 else l > 0)"

fun st_main :: "nat \<Rightarrow> int \<Rightarrow> nat option \<Rightarrow> st_pc \<Rightarrow> st_sys \<Rightarrow> st_sys outcome" where
  "st_main sz flags ch (S_add i) s =
     (if i < sz then
        and_then (tp_step (Add 0 () () ch) (st_pool s)) (\<lambda>t.
          if length (log_submitted t) = Suc (length (log_submitted (st_pool s)))
          then Ret (s\<lparr>st_pool := t, st_pc := S_add (Suc i)\<rparr>) else Exit abort_status)
      else
        and_then (tp_step (Destroy 0 flags) (st_pool s)) (\<lambda>t.
          if sys_destroyer t = Not_destroying then Exit abort_status else Ret (s\<lparr>st_pool := t, st_pc := S_joining\<rparr>)))"
| "st_main sz flags ch S_joining s =
     (case sys_destroyer (st_pool s) of
        Destroy_returned e \<Rightarrow> if e = 0 \<and> st_passes flags (left sz s) then Ret (s\<lparr>st_pc := S_passed\<rparr>) else Exit abort_status
      | _ \<Rightarrow> Blocked)"
| "st_main sz flags ch S_passed s = Blocked"

datatype st_label = St_main "nat option" | St_work nat | St_spurious nat | St_join

fun st_step :: "nat \<Rightarrow> int \<Rightarrow> st_label \<Rightarrow> st_sys \<Rightarrow> st_sys outcome" where
  "st_step sz flags (St_main ch) s = st_main sz flags ch (st_pc s) s"
| "st_step sz flags (St_work w) s = and_then (tp_step (Work w) (st_pool s)) (\<lambda>t. Ret (s\<lparr>st_pool := t\<rparr>))"
| "st_step sz flags (St_spurious w) s = and_then (tp_step (Spurious w) (st_pool s)) (\<lambda>t. Ret (s\<lparr>st_pool := t\<rparr>))"
| "st_step sz flags St_join s = and_then (tp_step Join (st_pool s)) (\<lambda>t. Ret (s\<lparr>st_pool := t\<rparr>))"

definition st_start :: "(unit, unit) threadpool_t \<Rightarrow> st_sys" where
  "st_start p = \<lparr>st_pool = start_sys p, st_pc = S_add 0\<rparr>"

text \<open>The test starts when \<open>threadpool_create\<close> has returned a pool.\<close>

definition st_init :: "nat \<Rightarrow> st_sys \<Rightarrow> bool" where
  "st_init sz s \<longleftrightarrow> (\<exists>env p. malloc_sane env \<and> in_int (int sz) \<and>
     threadpool_create (Client 0) env TEST_THREAD (int sz) = Ret (Created p) \<and> s = st_start p)"

section \<open>Invariant\<close>

definition room :: "nat \<Rightarrow> ('f, 'a) tp_sys \<Rightarrow> bool" where
  "room sz s \<longleftrightarrow> (\<forall>p. sys_pool s = Some p \<longrightarrow> tp_queue_size p = int sz)"

lemma room_step:
  assumes "tp_inv s" "tp_step l s = Ret t" "room sz s"
  shows "room sz t"
proof (cases l)
  case (Work w)
  with assms(2) obtain p pc' p' where p: "sys_pool s = Some p"
    and step: "thread_step w (sys_pcs s ! w) p = Ret (pc', p')" and t: "sys_pool t = Some p'"
    by (auto simp: outcome_simps split: if_splits option.splits)
  have "ring_ok p" "tp_shutdown p \<in> {0, immediate_shutdown, graceful_shutdown}"
    using assms(1) p shutdown_ok_codes by (auto simp: tp_inv_def)
  with step show ?thesis by (cases rule: thread_step_cases) (use assms(3) p t in \<open>auto simp: room_def\<close>)
next
  case (Spurious w)
  with assms(2,3) show ?thesis by (auto simp: room_def split: if_splits)
next
  case (Add c f a ch)
  with assms(2) obtain p err r where p: "sys_pool s = Some p" and t: "sys_pool t = r"
    and add: "threadpool_add (Client c) all_ok_add (Some p) (Some f) a = Ret (err, r)"
    by (auto simp: outcome_simps split: if_splits)
  from assms(1) p have "ring_ok p" by (simp add: tp_inv_def)
  with add show ?thesis by (cases rule: threadpool_add_cases) (use assms(3) p t in \<open>auto simp: room_def\<close>)
next
  case (Destroy c flags)
  with assms(2) obtain p err r joins where p: "sys_pool s = Some p" and t: "sys_pool t = r"
    and des: "destroy_begin (Client c) all_ok_destroy flags (Some p) = Ret (err, r, joins)"
    by (auto simp: outcome_simps split: if_splits)
  from des show ?thesis by (cases rule: destroy_begin_cases) (use assms(3) p t in \<open>auto simp: room_def\<close>)
next
  case Join
  with assms(2) have "tp_step Join s = Ret t" by simp
  with assms(1) show ?thesis by (cases rule: join_cases) (use assms(3) in \<open>auto simp: room_def\<close>)
qed

text \<open>
  The pool of the test is always in a state that a run of pool labels reaches: no destroy before the joins, exactly
  the one of the test after it.
\<close>

definition st_inv :: "nat \<Rightarrow> int \<Rightarrow> st_sys \<Rightarrow> bool" where
  "st_inv sz flags s \<longleftrightarrow> (\<exists>s0 ls. tp_init s0 \<and> run tp_step ls s0 = Ret (st_pool s) \<and> room sz (st_pool s) \<and> sys_pcs (st_pool s) \<noteq> [] \<and>
     (case st_pc s of
        S_add i \<Rightarrow> i \<le> sz \<and> length (log_submitted (st_pool s)) = i \<and> filter is_destroy ls = []
      | _ \<Rightarrow> length (log_submitted (st_pool s)) = sz \<and> filter is_destroy ls = [Destroy 0 flags]))"

lemma st_inv_pool:
  assumes "st_inv sz flags s"
  shows "reachable tp_step tp_init (st_pool s)" "tp_inv (st_pool s)" "callers_unlocked (st_pool s)"
    "pool_promise Fifo (tp_view (st_pool s))" "room sz (st_pool s)" "sys_pcs (st_pool s) \<noteq> []"
proof -
  obtain s0 ls where r: "tp_init s0" "run tp_step ls s0 = Ret (st_pool s)" "room sz (st_pool s)" "sys_pcs (st_pool s) \<noteq> []"
    and c: "case st_pc s of S_add i \<Rightarrow> i \<le> sz \<and> length (log_submitted (st_pool s)) = i \<and> filter is_destroy ls = []
      | _ \<Rightarrow> length (log_submitted (st_pool s)) = sz \<and> filter is_destroy ls = [Destroy 0 flags]"
    using assms unfolding st_inv_def by blast
  from c have d: "length (filter is_destroy ls) \<le> 1" by (cases "st_pc s") auto
  show reach: "reachable tp_step tp_init (st_pool s)" using run_reachable [OF r(2)] r(1) reach_init by metis
  then show "tp_inv (st_pool s)" "pool_promise Fifo (tp_view (st_pool s))"
    by (auto intro: tp.inv_reachable tpv.reachable_promise)
  show "callers_unlocked (st_pool s)"
    using callers_unlocked_run [OF tp_inv_init [OF r(1)] r(2)] tp_init_start [OF r(1)] d by simp
  show "room sz (st_pool s)" "sys_pcs (st_pool s) \<noteq> []" using r by simp_all
qed

lemma no_destroy_run:
  assumes "run tp_step ls s = Ret t" "filter is_destroy ls = []" "sys_destroyer s = Not_destroying"
  shows "sys_destroyer t = Not_destroying"
proof -
  have "list_all (\<lambda>l. \<not> is_destroy l) ls" using assms(2) by (simp add: filter_empty_conv list_all_iff)
  then show ?thesis
    using run_keeps [OF assms(1), where P = "\<lambda>s. sys_destroyer s = Not_destroying"] assms(3) destroyer_step by blast
qed

text \<open>While tasks are added the pool exists, is open and has room.\<close>

lemma st_inv_adding:
  assumes "st_inv sz flags s" "st_pc s = S_add i"
  obtains p where "sys_pool (st_pool s) = Some p" "ring_ok p" "tp_shutdown p = 0" "sys_destroyer (st_pool s) = Not_destroying"
    "i < sz \<Longrightarrow> tp_count p < tp_queue_size p"
proof -
  obtain s0 ls where r: "tp_init s0" "run tp_step ls s0 = Ret (st_pool s)" "filter is_destroy ls = []"
    and i: "length (log_submitted (st_pool s)) = i"
    using assms by (auto simp: st_inv_def)
  have d: "sys_destroyer (st_pool s) = Not_destroying" using r tp_init_start(2) no_destroy_run by blast
  note inv = st_inv_pool [OF assms(1)]
  obtain p where p: "sys_pool (st_pool s) = Some p" using inv(2) d by (cases "sys_pool (st_pool s)") (auto simp: tp_inv_def)
  have ok: "ring_ok p" "tp_shutdown p = 0" using inv(2) p d by (auto simp: tp_inv_def shutdown_ok_def)
  have "size (mset (submitted (tp_view (st_pool s)))) = i" using i by (simp add: tp_view_def)
  moreover have "mset (submitted (tp_view (st_pool s))) = mset (ring_items p) + (running (tp_view (st_pool s)) +
      finished (tp_view (st_pool s)) + mset (discarded (tp_view (st_pool s))))"
    using inv(4) p by (simp add: pool_promise_def conserved_def tp_view_def ac_simps)
  ultimately have "length (ring_items p) \<le> i" by simp
  then have "tp_count p \<le> int i" using ok(1) by simp
  moreover have "tp_queue_size p = int sz" using inv(5) p by (simp add: room_def)
  ultimately show ?thesis using that [OF p ok d] by linarith
qed


text \<open>A step of the pool that the test makes or lets happen extends the run of the invariant.\<close>

lemma st_inv_extend:
  assumes "st_inv sz flags s" "tp_step l (st_pool s) = Ret t"
    and "(case st_pc s of S_add i \<Rightarrow> True | _ \<Rightarrow> \<not> is_destroy l)"
    and "case pc of
        S_add i \<Rightarrow> i \<le> sz \<and> length (log_submitted t) = i \<and> \<not> is_destroy l \<and> (\<exists>j. st_pc s = S_add j)
      | _ \<Rightarrow> length (log_submitted t) = sz \<and> (if \<exists>j. st_pc s = S_add j then l = Destroy 0 flags else True)"
  shows "st_inv sz flags (s\<lparr>st_pool := t, st_pc := pc\<rparr>)"
proof -
  note inv = st_inv_pool [OF assms(1)]
  obtain s0 ls where r: "tp_init s0" "run tp_step ls s0 = Ret (st_pool s)"
    and c: "case st_pc s of S_add i \<Rightarrow> filter is_destroy ls = [] | _ \<Rightarrow> filter is_destroy ls = [Destroy 0 flags]"
    using assms(1) unfolding st_inv_def by (cases "st_pc s") auto
  have run: "run tp_step (ls @ [l]) s0 = Ret t" using r(2) assms(2) by (simp add: run_append)
  have "room sz t" by (rule room_step [OF inv(2) assms(2) inv(5)])
  moreover have "sys_pcs t \<noteq> []" using pcs_length_step [OF assms(2)] inv(6) by auto
  moreover have "case pc of
        S_add i \<Rightarrow> i \<le> sz \<and> length (log_submitted t) = i \<and> filter is_destroy (ls @ [l]) = []
      | _ \<Rightarrow> length (log_submitted t) = sz \<and> filter is_destroy (ls @ [l]) = [Destroy 0 flags]"
    using c assms(3,4) by (cases "st_pc s"; cases pc) auto
  ultimately show ?thesis unfolding st_inv_def using r(1) run
    by (intro exI [of _ s0] exI [of _ "ls @ [l]"]) (cases pc; simp)
qed

lemma quiet_submitted:
  assumes "tp_step l s = Ret t" "\<And>c f a ch. l \<noteq> Add c f a ch"
  shows "log_submitted t = log_submitted s"
  using assms by (cases l) (auto simp: outcome_simps split: if_splits option.splits dpc.splits)

lemma st_inv_quiet:
  assumes "st_inv sz flags s" "tp_step l (st_pool s) = Ret t" "l \<in> {Work w, Spurious w, Join}"
  shows "st_inv sz flags (s\<lparr>st_pool := t\<rparr>)"
proof -
  have "log_submitted t = log_submitted (st_pool s)" "\<not> is_destroy l" using quiet_submitted [OF assms(2)] assms(3) by auto
  moreover have "case st_pc s of S_add i \<Rightarrow> i \<le> sz \<and> length (log_submitted (st_pool s)) = i | _ \<Rightarrow> length (log_submitted (st_pool s)) = sz"
    using assms(1) unfolding st_inv_def by (cases "st_pc s") auto
  ultimately have "st_inv sz flags (s\<lparr>st_pool := t, st_pc := st_pc s\<rparr>)"
    by (intro st_inv_extend [OF assms(1,2)]) (auto split: st_pc.splits)
  then show ?thesis by simp
qed



lemma st_inv_step:
  assumes "st_inv sz flags s" "st_step sz flags l s = Ret s'"
  shows "st_inv sz flags s'"
proof (cases l)
  case (St_main ch)
  show ?thesis
  proof (cases "st_pc s")
    case (S_add i)
    show ?thesis
    proof (cases "i < sz")
      case True
      with St_main S_add assms(2) obtain t where t: "tp_step (Add 0 () () ch) (st_pool s) = Ret t"
        "length (log_submitted t) = Suc (length (log_submitted (st_pool s)))" "s' = s\<lparr>st_pool := t, st_pc := S_add (Suc i)\<rparr>"
        by (auto simp: outcome_simps simp del: tp_step.simps split: if_splits)
      have "length (log_submitted (st_pool s)) = i" using assms(1) S_add by (auto simp: st_inv_def)
      then show ?thesis unfolding t(3) using t(1,2) S_add True by (intro st_inv_extend [OF assms(1) t(1)]) auto
    next
      case False
      with St_main S_add assms(2) obtain t where t: "tp_step (Destroy 0 flags) (st_pool s) = Ret t" "s' = s\<lparr>st_pool := t, st_pc := S_joining\<rparr>"
        by (auto simp: outcome_simps simp del: tp_step.simps split: if_splits)
      have "length (log_submitted (st_pool s)) = i" "i \<le> sz" using assms(1) S_add by (auto simp: st_inv_def)
      then show ?thesis unfolding t(2) using quiet_submitted [OF t(1)] S_add False by (intro st_inv_extend [OF assms(1) t(1)]) auto
    qed
  next
    case S_joining
    then have s': "s' = s\<lparr>st_pc := S_passed\<rparr>" using St_main assms(2) by (auto split: dpc.splits if_splits)
    then show ?thesis using assms(1) S_joining by (simp add: st_inv_def)
  qed (use St_main assms(2) in auto)
next
  case (St_work w)
  then show ?thesis using assms st_inv_quiet [OF assms(1), of "Work w" _ w] by (auto simp: outcome_simps simp del: tp_step.simps)
next
  case (St_spurious w)
  then show ?thesis using assms st_inv_quiet [OF assms(1), of "Spurious w" _ w] by (auto simp: outcome_simps simp del: tp_step.simps)
next
  case St_join
  then show ?thesis using assms st_inv_quiet [OF assms(1), of Join] by (auto simp: outcome_simps simp del: tp_step.simps)
qed


lemma st_init_inv:
  assumes "st_init sz s"
  shows "st_inv sz flags s"
proof -
  obtain env p where p: "malloc_sane env" "in_int (int sz)" "threadpool_create (Client 0) env TEST_THREAD (int sz) = Ret (Created p)" "s = st_start p"
    using assms by (auto simp: st_init_def)
  have n: "in_int TEST_THREAD" by (simp add: TEST_THREAD_def in_int_def INT_MIN_def INT_MAX_def)
  have "fresh_pool TEST_THREAD (int sz) p"
    using threadpool_create_starting [OF p(1) n p(2) created_inits [OF disjI1 [OF p(3)]], of "Client 0", where 'f = unit and 'a = unit] p(3) by auto
  then have "tp_queue_size p = int sz" "tp_thread_count p = TEST_THREAD" by (simp_all add: fresh_pool_def)
  moreover have "tp_init (start_sys p)" unfolding tp_init_def using p(1-3) n by blast
  ultimately show ?thesis unfolding st_inv_def p(4)
    by (intro exI [of _ "start_sys p"] exI [of _ "[]"]) (simp add: st_start_def start_sys_def room_def TEST_THREAD_def)
qed

interpretation sti: invariant_system "st_step sz flags" "st_init sz" "st_inv sz flags" for sz flags
  by unfold_locales (auto intro: st_init_inv st_inv_step)



section \<open>Progress\<close>

text \<open>Steps of the pool are steps of the test.\<close>

fun lift_own :: "(unit, unit) tp_label \<Rightarrow> st_label" where
  "lift_own (Work w) = St_work w"
| "lift_own _ = St_join"

lemma run_lift_own:
  assumes "list_all tp_own ks" "run tp_step ks (st_pool s) = Ret t"
  shows "run (st_step sz flags) (map lift_own ks) s = Ret (s\<lparr>st_pool := t\<rparr>)"
  using assms
proof (induction ks arbitrary: s)
  case Nil
  then show ?case by simp
next
  case (Cons k ks)
  then obtain u where u: "tp_step k (st_pool s) = Ret u" "run tp_step ks u = Ret t" by (auto simp: outcome_simps)
  have "st_step sz flags (lift_own k) s = Ret (s\<lparr>st_pool := u\<rparr>)" using u(1) Cons.prems(1) by (cases k) (auto simp del: tp_step.simps)
  moreover have "run (st_step sz flags) (map lift_own ks) (s\<lparr>st_pool := u\<rparr>) = Ret ((s\<lparr>st_pool := u\<rparr>)\<lparr>st_pool := t\<rparr>)"
    using Cons.IH [of "s\<lparr>st_pool := u\<rparr>"] Cons.prems(1) u(2) by simp
  ultimately show ?case by simp
qed

text \<open>Every state of the test leads to one in which the threads of the pool are at rest.\<close>

lemma st_rest:
  assumes "st_inv sz flags s"
  obtains ls t where "run (st_step sz flags) ls s = Ret (s\<lparr>st_pool := t\<rparr>)" "quiescent tp_step tp_own t" "st_inv sz flags (s\<lparr>st_pool := t\<rparr>)"
proof -
  obtain ks t where k: "list_all tp_own ks" "run tp_step ks (st_pool s) = Ret t" "quiescent tp_step tp_own t"
    using tpd.drains [OF st_inv_pool(2) [OF assms]] by blast
  note r = run_lift_own [OF k(1,2), of sz flags]
  have "st_inv sz flags (s\<lparr>st_pool := t\<rparr>)"
    by (rule sti.inv_run [OF assms r])
  with r k(3) show ?thesis using that by blast
qed

lemma rest_unlocked:
  assumes "st_inv sz flags s" "quiescent tp_step tp_own (st_pool s)" "sys_pool (st_pool s) = Some p"
  shows "tp_lock p = M_free"
proof (rule ccontr)
  assume "tp_lock p \<noteq> M_free"
  note inv = st_inv_pool [OF assms(1)]
  from free_or_worker [OF inv(2,3) assms(3)] \<open>tp_lock p \<noteq> M_free\<close> obtain w where
    w: "w < length (sys_pcs (st_pool s))" "holds_lock (sys_pcs (st_pool s) ! w)" by blast
  from quiescent_worker [OF inv(2,3) assms(2) nth_mem [OF w(1)]] w(2) show False by auto
qed

lemma main_advances:
  assumes "st_inv sz flags s" "st_pc s = S_add i" "quiescent tp_step tp_own (st_pool s)"
  shows "\<exists>ch s'. st_step sz flags (St_main ch) s = Ret s' \<and> st_pc s' = (if i < sz then S_add (Suc i) else S_joining) \<and>
    log_finished (st_pool s') = log_finished (st_pool s)"
proof -
  obtain p where p: "sys_pool (st_pool s) = Some p" "ring_ok p" "tp_shutdown p = 0" "i < sz \<Longrightarrow> tp_count p < tp_queue_size p"
    using st_inv_adding [OF assms(1,2)] by metis
  have free: "tp_lock p = M_free" using rest_unlocked [OF assms(1,3) p(1)] .
  show ?thesis
  proof (cases "i < sz")
    case True
    obtain ch where ch: "signal_ok ch (sys_pcs (st_pool s))" using cond_signal_ok_ex [of Waiting] by (auto simp: signal_ok_def cond_signal_ok_def)
    from threadpool_add_accepts [OF p(2) free p(4) [OF True] p(3), of "Client 0" "()" "()"] p(1) ch
    have "\<exists>t. tp_step (Add 0 () () ch) (st_pool s) = Ret t \<and> length (log_submitted t) = Suc (length (log_submitted (st_pool s))) \<and>
        log_finished t = log_finished (st_pool s)" by (auto simp: Let_def)
    then show ?thesis using assms(2) True by (intro exI [of _ ch]) (auto simp del: tp_step.simps)
  next
    case False
    have "\<exists>t. tp_step (Destroy 0 flags) (st_pool s) = Ret t \<and> sys_destroyer t \<noteq> Not_destroying \<and> log_finished t = log_finished (st_pool s)"
      using p(1,3) free by (auto simp: destroy_begin_def all_ok_destroy_def Let_def)
    then show ?thesis using assms(2) False by (intro exI [of _ None]) (auto simp del: tp_step.simps)
  qed
qed

lemma run_trans:
  "run step ls s = Ret t \<Longrightarrow> run step ks t = Ret u \<Longrightarrow> \<exists>ms. run step ms s = Ret u"
  by (metis and_then.simps(1) run_append)

text \<open>All tasks can be added, with the pool at rest afterwards.\<close>

lemma all_added:
  assumes "st_inv sz flags s" "st_pc s = S_add i"
  shows "\<exists>ls t. run (st_step sz flags) ls s = Ret t \<and> st_inv sz flags t \<and> st_pc t = S_add sz \<and> quiescent tp_step tp_own (st_pool t)"
  using assms
proof (induction "sz - i" arbitrary: s i)
  case 0
  then have "i = sz" by (auto simp: st_inv_def)
  obtain ls t where "run (st_step sz flags) ls s = Ret (s\<lparr>st_pool := t\<rparr>)" "quiescent tp_step tp_own t" "st_inv sz flags (s\<lparr>st_pool := t\<rparr>)"
    by (rule st_rest [OF 0(2)])
  then show ?case using 0(3) \<open>i = sz\<close> by (intro exI [of _ ls] exI [of _ "s\<lparr>st_pool := t\<rparr>"]) simp
next
  case (Suc k)
  obtain ls t where t: "run (st_step sz flags) ls s = Ret (s\<lparr>st_pool := t\<rparr>)" "quiescent tp_step tp_own t" "st_inv sz flags (s\<lparr>st_pool := t\<rparr>)"
    by (rule st_rest [OF Suc.prems(1)])
  have i: "i < sz" using Suc.hyps(2) by simp
  obtain ch u where u: "st_step sz flags (St_main ch) (s\<lparr>st_pool := t\<rparr>) = Ret u" "st_pc u = S_add (Suc i)"
    using main_advances [OF t(3)] t(2) Suc.prems(2) i by auto
  have "run (st_step sz flags) (ls @ [St_main ch]) s = Ret u" using t(1) u(1) by (simp add: run_append del: st_step.simps)
  moreover have "st_inv sz flags u" by (rule st_inv_step [OF t(3) u(1)])
  moreover have "k = sz - Suc i" using Suc.hyps(2) by simp
  ultimately obtain ks v where v: "run (st_step sz flags) ks u = Ret v" "st_inv sz flags v" "st_pc v = S_add sz" "quiescent tp_step tp_own (st_pool v)"
    using Suc.hyps(1) [of "Suc i" u] u(2) by blast
  obtain ms where "run (st_step sz flags) ms s = Ret v"
    using run_trans [OF \<open>run (st_step sz flags) (ls @ [St_main ch]) s = Ret u\<close> v(1)] by blast
  with v show ?case by blast
qed

text \<open>A destroy that waits for the threads returns 0.\<close>

lemma all_joined:
  assumes "st_inv sz flags s" "st_pc s = S_joining"
  shows "\<exists>ls t. run (st_step sz flags) ls s = Ret t \<and> st_inv sz flags t \<and> st_pc t = S_joining \<and>
    sys_destroyer (st_pool t) = Destroy_returned 0 \<and> log_finished (st_pool s) \<subseteq># log_finished (st_pool t)"
proof -
  note inv = st_inv_pool [OF assms(1)]
  obtain s0 ls where r: "tp_init s0" "run tp_step ls s0 = Ret (st_pool s)" "filter is_destroy ls = [Destroy 0 flags]"
    using assms by (auto simp: st_inv_def)
  obtain ks t where k: "list_all tp_own ks" "run tp_step ks (st_pool s) = Ret t" "quiescent tp_step tp_own t"
    using tpd.drains [OF inv(2)] by blast
  have "filter is_destroy ls \<noteq> []" using r(3) by simp
  then have "\<exists>l\<in>set ls. is_destroy l" by (simp only: filter_empty_conv) blast
  then have d: "sys_destroyer t = Destroy_returned 0"
    using own_run_end(5) [OF r(1,2) _ k] r(3) by (simp add: list_ex_iff)
  have "log_finished s \<subseteq># log_finished t" if "tp_own l" "tp_step l s = Ret t" for l and s t :: "(unit, unit) tp_sys"
    using that by (cases l) (auto simp: outcome_simps split: if_splits option.splits dpc.splits)
  then have "log_finished (st_pool s) \<subseteq># log_finished t"
    using run_keeps [OF k(2,1), where P = "\<lambda>u. log_finished (st_pool s) \<subseteq># log_finished u"] subset_mset.order_trans by blast
  with run_lift_own [OF k(1,2), of sz flags] d assms(2) show ?thesis using sti.inv_run [OF assms(1)] by fastforce
qed

section \<open>Theorems\<close>


text \<open>Every task added is waiting, running, finished or discarded; none is discarded before the destroy.\<close>

lemma st_accounts:
  assumes "st_inv sz flags s"
  shows "length (log_submitted (st_pool s)) = size (running (tp_view (st_pool s))) + size (log_finished (st_pool s)) +
    length (pending (tp_view (st_pool s))) + length (log_discarded (st_pool s))"
proof -
  let ?v = "tp_view (st_pool s)"
  have "mset (submitted ?v) = running ?v + finished ?v + mset (pending ?v) + mset (discarded ?v)"
    using st_inv_pool(4) [OF assms] by (simp add: pool_promise_def conserved_def)
  from arg_cong [OF this, of size] show ?thesis by (simp add: tp_view_def)
qed

lemma adding_logs:
  assumes "st_inv sz flags s" "st_pc s = S_add i"
  shows "log_discarded (st_pool s) = []" "length (log_submitted (st_pool s)) = i"
proof -
  obtain s0 ls where r: "tp_init s0" "run tp_step ls s0 = Ret (st_pool s)" "filter is_destroy ls = []" "length (log_submitted (st_pool s)) = i"
    using assms by (auto simp: st_inv_def)
  have "is_abrupt l \<longrightarrow> is_destroy l" for l :: "(unit, unit) tp_label" by (cases l) simp_all
  then have "\<not> is_abrupt l" if "l \<in> set ls" for l using that r(3) by (auto simp: filter_empty_conv)
  then have "nothing_discarded (st_pool s)"
    using nothing_discarded_run [OF r(1,2)] st_inv_pool(6) [OF assms(1)] by (auto simp: list_ex_iff)
  then show "log_discarded (st_pool s) = []" by (simp add: nothing_discarded_def)
  show "length (log_submitted (st_pool s)) = i" by (rule r(4))
qed

text \<open>
  The test of the immediate shutdown does not hold in every execution: its assertion says that some task was not run,
  but the workers may have run all of them before the main thread calls \<open>threadpool_destroy\<close>.
\<close>

theorem immediate_test_may_fail:
  assumes "st_init sz s0"
  shows "\<exists>ls s. run (st_step sz 0) ls s0 = Ret s \<and> left sz s = 0 \<and> st_step sz 0 (St_main None) s = Exit abort_status"
proof -
  let ?st = "st_step sz 0"
  have "st_inv sz 0 s0" "st_pc s0 = S_add 0" using st_init_inv [OF assms] assms by (auto simp: st_init_def st_start_def)
  from all_added [OF this] obtain ls u where u: "run ?st ls s0 = Ret u" "st_inv sz 0 u" "st_pc u = S_add sz" "quiescent tp_step tp_own (st_pool u)"
    by blast
  note inv = st_inv_pool [OF u(2)]
  have "running (tp_view (st_pool u)) = {#}" using quiescent_running quiescent_worker [OF inv(2,3) u(4)] by blast
  moreover have "pending (tp_view (st_pool u)) = []" by (rule quiescent_pending [OF inv(2,3) u(4) inv(6)])
  moreover have "log_discarded (st_pool u) = []" "length (log_submitted (st_pool u)) = sz" using adding_logs [OF u(2,3)] by simp_all
  ultimately have fin: "size (log_finished (st_pool u)) = sz" using st_accounts [OF u(2)] by simp
  obtain ch v where v: "?st (St_main ch) u = Ret v" "st_pc v = S_joining" "log_finished (st_pool v) = log_finished (st_pool u)"
    using main_advances [OF u(2-4)] by auto
  obtain ks t where t: "run ?st ks v = Ret t" "st_inv sz 0 t" "st_pc t = S_joining" "sys_destroyer (st_pool t) = Destroy_returned 0"
    "log_finished (st_pool v) \<subseteq># log_finished (st_pool t)"
    using all_joined [OF st_inv_step [OF u(2) v(1)] v(2)] by blast
  have "size (log_finished (st_pool t)) \<le> sz" using st_accounts [OF t(2)] t(2,3) by (auto simp: st_inv_def)
  then have l: "left sz t = 0" using fin size_mset_mono [OF t(5)] v(3) by (simp add: left_def)
  have "run ?st (ls @ St_main ch # ks) s0 = Ret t" using u(1) v(1) t(1) by (simp add: run_append del: st_step.simps)
  moreover have "?st (St_main None) t = Exit abort_status" using t(3,4) l by (simp add: st_passes_def)
  ultimately show ?thesis using l by blast
qed




end
